(* ===== verification/Prelude.thy ===== *)
theory Prelude
  imports "HOL-Library.Word" "HOL-Library.Monad_Syntax"
begin

text \<open>
  Shared vocabulary of the development: the machine types of the AArch64 target (64-bit
  addresses and sizes, 32-bit registers, bytes), the alignment helpers that every allocator
  of the kernel repeats (\<^verbatim>\<open>align_up\<close>, \<^verbatim>\<open>align_down\<close>, \<^verbatim>\<open>is_pow2\<close>), and the generic lemmas on
  words, regions and pointer-linked lists that the component theories use.
\<close>

unbundle bit_operations_syntax

type_synonym addr = "64 word"
type_synonym u64 = "64 word"
type_synonym u32 = "32 word"
type_synonym u8 = "8 word"

abbreviation NULL :: addr where
  "NULL \<equiv> 0"

text \<open>
  The collection \<open>unat_simps\<close> moves a word (in)equality to the natural numbers; a proof adds
  the no-overflow facts it has and lets linear arithmetic finish.
\<close>

named_theorems unat_simps
named_theorems align_simps

section \<open>Alignment helpers\<close>

definition align_up :: "addr \<Rightarrow> addr \<Rightarrow> addr" where
  "align_up v a = (v + a - 1) AND NOT (a - 1)"

definition align_down :: "addr \<Rightarrow> addr \<Rightarrow> addr" where
  "align_down v a = v AND NOT (a - 1)"

definition is_pow2 :: "addr \<Rightarrow> bool" where
  "is_pow2 v \<longleftrightarrow> v \<noteq> 0 \<and> v AND (v - 1) = 0"

section \<open>Words and natural numbers\<close>

lemma unat_lt_2p64 [simp]: "unat (w :: 64 word) < 18446744073709551616"
  using unsigned_less [of w, where 'a = nat] by simp

lemma unat_add64 [unat_simps]:
  "unat ((v :: 64 word) + w) = (unat v + unat w) mod 18446744073709551616"
  by (simp add: unat_word_ariths)

lemma unat_add_nowrap:
  "unat (v :: 64 word) + unat w < 2 ^ 64 \<Longrightarrow> unat (v + w) = unat v + unat w"
  by (simp add: unat_word_ariths)

lemma unat_sub_nowrap: "(w :: 64 word) \<le> v \<Longrightarrow> unat (v - w) = unat v - unat w"
  by (rule unat_sub)

lemma unat_2p: "k < 64 \<Longrightarrow> unat ((2 :: 64 word) ^ k) = 2 ^ k"
proof -
  assume "k < 64"
  then have "(2 :: nat) ^ k < 2 ^ 64" by (rule power_strict_increasing) simp
  then show ?thesis using unat_of_nat [of "2 ^ k", where 'a = 64] by simp
qed

lemma unat_of_nat_lt: "i < unat (w :: 64 word) \<Longrightarrow> unat (of_nat i :: 64 word) = i"
  using less_trans [OF _ unat_lt_2p64, of i w] by (simp add: unat_of_nat)

lemma word_and_not_mask_div:
  fixes v :: "64 word"
  shows "v AND NOT (mask k) = push_bit k (drop_bit k v)"
  by (rule bit_eqI) (auto simp: bit_simps)

lemma unat_and_not_mask:
  fixes v :: "64 word"
  shows "unat (v AND NOT (mask k)) = unat v div 2 ^ k * 2 ^ k"
proof -
  have "unat v div 2 ^ k * 2 ^ k < 2 ^ 64"
    by (rule le_less_trans [OF div_times_less_eq_dividend]) simp
  then have "(2 ^ k * (unat v div 2 ^ k)) mod 2 ^ 64 = unat v div 2 ^ k * 2 ^ k"
    by (simp add: mult.commute)
  then show ?thesis
    unfolding word_and_not_mask_div unsigned_push_bit_eq unat_drop_bit_eq
    by (simp add: drop_bit_eq_div push_bit_eq_mult take_bit_eq_mod mult.commute)
qed

lemma unat_align_down_2p:
  "k < 64 \<Longrightarrow> unat (align_down v (2 ^ k)) = unat v div 2 ^ k * 2 ^ k"
  using unat_and_not_mask [of v k] by (simp add: align_down_def mask_eq_decr_exp)

lemma unat_align_up_2p:
  assumes "k < 64" and "unat v + 2 ^ k \<le> 2 ^ 64"
  shows "unat (align_up v (2 ^ k)) = (unat v + 2 ^ k - 1) div 2 ^ k * 2 ^ k"
proof -
  have k: "unat ((2 :: 64 word) ^ k) = 2 ^ k" using assms(1) by (rule unat_2p)
  have one: "(1 :: 64 word) \<le> 2 ^ k"
    using k by (simp add: word_le_nat_alt)
  have m: "unat ((2 :: 64 word) ^ k - 1) = 2 ^ k - 1"
    using k one by (simp add: unat_sub)
  have "unat (v + (2 ^ k - 1)) = unat v + (2 ^ k - 1)"
    by (rule trans [OF unat_add_nowrap]) (use assms m in \<open>auto simp: algebra_simps\<close>)
  then have "unat (v + 2 ^ k - 1) = unat v + 2 ^ k - 1"
    by (simp add: algebra_simps)
  then show ?thesis
    using unat_and_not_mask [of "v + 2 ^ k - 1" k]
    by (simp add: align_up_def mask_eq_decr_exp)
qed

lemma round_up_div_bounds:
  fixes n d :: nat
  assumes "0 < d"
  shows "n \<le> (n + d - 1) div d * d" and "(n + d - 1) div d * d < n + d"
proof -
  have eq: "(n + d - 1) div d * d + (n + d - 1) mod d = n + d - 1" by simp
  have "(n + d - 1) mod d < d" using assms by simp
  then show "n \<le> (n + d - 1) div d * d" using eq by linarith
  show "(n + d - 1) div d * d < n + d" using eq assms by linarith
qed

lemma align_up_2p_bounds:
  assumes "k < 64" and "unat v + 2 ^ k \<le> 2 ^ 64"
  shows "unat v \<le> unat (align_up v (2 ^ k))"
    and "unat (align_up v (2 ^ k)) < unat v + 2 ^ k"
    and "2 ^ k dvd unat (align_up v (2 ^ k))"
  using round_up_div_bounds [of "2 ^ k" "unat v"]
  by (simp_all add: unat_align_up_2p [OF assms])

section \<open>Powers of two\<close>

lemma nat_and_double_Suc: "2 * m AND Suc (2 * k) = 2 * (m AND (k :: nat))"
  by (simp add: and_nat_rec [of "2 * m" "Suc (2 * k)"])

lemma nat_and_Suc_double: "Suc (2 * m) AND 2 * m = 2 * (m :: nat)"
  by (simp add: and_nat_rec [of "Suc (2 * m)" "2 * m"])

lemma nat_and_pred_eq_0:
  fixes n :: nat
  assumes "0 < n" and "n AND (n - 1) = 0"
  shows "\<exists>k. n = 2 ^ k"
  using assms
proof (induction n rule: less_induct)
  case (less n)
  show ?case
  proof (cases "even n")
    case True
    then obtain m where m: "n = 2 * m" by (elim evenE)
    with less.prems(1) have m0: "0 < m" by simp
    have pred: "n - 1 = Suc (2 * (m - 1))" using m m0 by simp
    have "2 * (m AND (m - 1)) = n AND (n - 1)"
      unfolding pred unfolding m by (simp add: nat_and_double_Suc)
    with less.prems(2) have "m AND (m - 1) = 0" by simp
    with less.IH [of m] m m0 obtain k where "m = 2 ^ k" by auto
    with m have "n = 2 ^ Suc k" by simp
    then show ?thesis ..
  next
    case False
    then obtain m where m: "n = Suc (2 * m)" by (auto elim: oddE)
    have "n AND (n - 1) = 2 * m"
      using m by (simp add: nat_and_Suc_double)
    with less.prems(2) m have "n = 2 ^ 0" by simp
    then show ?thesis ..
  qed
qed

lemma is_pow2_2p [simp]:
  assumes "k < 64" shows "is_pow2 (2 ^ k)"
proof -
  have "(2 :: 64 word) ^ k AND mask k = 0"
    by (rule bit_eqI) (simp add: bit_simps)
  moreover have "(2 :: 64 word) ^ k \<noteq> 0"
    using assms by (simp add: word_unat_eq_iff unat_2p)
  ultimately show ?thesis by (simp add: is_pow2_def mask_eq_decr_exp)
qed

lemma is_pow2E:
  assumes "is_pow2 a"
  obtains k where "k < 64" and "a = 2 ^ k"
proof -
  from assms have nz: "a \<noteq> 0" and and0: "a AND (a - 1) = 0"
    by (auto simp: is_pow2_def)
  from nz have "0 < unat a" by (simp add: unat_gt_0)
  moreover from nz have "unat (a - 1) = unat a - 1" by (rule unat_minus_one)
  then have "unat a AND (unat a - 1) = 0"
    using arg_cong [OF and0, of unat] by (simp add: unsigned_and_eq)
  ultimately obtain k where k: "unat a = 2 ^ k"
    using nat_and_pred_eq_0 by blast
  have "(2 :: nat) ^ k < 2 ^ 64" using unat_lt_2p64 [of a] k by simp
  then have "k < 64" by (simp only: power_strict_increasing_iff)
  moreover from this have "a = 2 ^ k"
    using k by (simp add: word_unat_eq_iff unat_2p)
  ultimately show thesis using that by blast
qed

section \<open>Counted loops\<close>

text \<open>A \<^verbatim>\<open>for\<close> loop over \<open>0 .. n - 1\<close>.\<close>

definition for_loop :: "nat \<Rightarrow> (nat \<Rightarrow> 's \<Rightarrow> 's) \<Rightarrow> 's \<Rightarrow> 's" where
  "for_loop n body s = fold body [0..<n] s"

lemma for_loop_0 [simp]: "for_loop 0 f s = s"
  by (simp add: for_loop_def)

lemma for_loop_Suc: "for_loop (Suc n) f s = f n (for_loop n f s)"
  by (simp add: for_loop_def)

text \<open>The invariant rule: \<open>I i\<close> holds before iteration \<open>i\<close>.\<close>

lemma for_loop_inv:
  assumes "I 0 s" "\<And>i s. i < n \<Longrightarrow> I i s \<Longrightarrow> I (Suc i) (f i s)"
  shows "I n (for_loop n f s)"
  using assms(2)
proof (induction n)
  case 0
  then show ?case using assms(1) by simp
next
  case (Suc n)
  then show ?case by (simp add: for_loop_Suc)
qed

section \<open>Regions\<close>

text \<open>A region is a start address and a length, over the natural numbers (no wrap-around).\<close>

definition region :: "addr \<Rightarrow> nat \<Rightarrow> nat set" where
  "region p n = {unat p ..< unat p + n}"

lemma region_disjointI: "unat p + n \<le> unat q \<Longrightarrow> region p n \<inter> region q m = {}"
  by (auto simp: region_def)

section \<open>Pointer-linked lists\<close>

text \<open>
  \<open>lpath nx p xs q\<close>: following the link field \<open>nx\<close> from pointer \<open>p\<close> visits exactly the nodes
  \<open>xs\<close> (none of them null) and arrives at \<open>q\<close>. A null-terminated list ends in \<open>NULL\<close>, a ring
  in its own start.
\<close>

primrec lpath :: "(addr \<Rightarrow> addr) \<Rightarrow> addr \<Rightarrow> addr list \<Rightarrow> addr \<Rightarrow> bool" where
  "lpath nx p [] q \<longleftrightarrow> p = q"
| "lpath nx p (x # xs) q \<longleftrightarrow> p = x \<and> x \<noteq> NULL \<and> lpath nx (nx x) xs q"

abbreviation llist :: "(addr \<Rightarrow> addr) \<Rightarrow> addr \<Rightarrow> addr list \<Rightarrow> bool" where
  "llist nx p xs \<equiv> lpath nx p xs NULL"

lemma lpath_append [simp]:
  "lpath nx p (xs @ ys) q \<longleftrightarrow> (\<exists>r. lpath nx p xs r \<and> lpath nx r ys q)"
  by (induction xs arbitrary: p) auto

lemma lpath_cong:
  "(\<And>x. x \<in> set xs \<Longrightarrow> nx x = nx' x) \<Longrightarrow> lpath nx p xs q = lpath nx' p xs q"
  by (induction xs arbitrary: p) auto

lemma lpath_upd [simp]: "x \<notin> set xs \<Longrightarrow> lpath (nx(x := v)) p xs q = lpath nx p xs q"
  by (rule lpath_cong) auto

lemma lpath_not_NULL: "lpath nx p xs q \<Longrightarrow> NULL \<notin> set xs"
  by (induction xs arbitrary: p) auto

lemma lpath_start: "lpath nx p xs q \<Longrightarrow> p = (case xs of [] \<Rightarrow> q | x # _ \<Rightarrow> x)"
  by (cases xs) auto

lemma llist_NULL [simp]: "llist nx NULL xs \<longleftrightarrow> xs = []"
  by (cases xs) auto

lemma llist_unique: "llist nx p xs \<Longrightarrow> llist nx p ys \<Longrightarrow> xs = ys"
proof (induction xs arbitrary: p ys)
  case Nil
  then show ?case by simp
next
  case (Cons x xs)
  then show ?case by (cases ys) auto
qed

lemma llist_distinct: "llist nx p xs \<Longrightarrow> distinct xs"
proof (induction xs arbitrary: p)
  case Nil
  then show ?case by simp
next
  case (Cons x xs)
  have "x \<notin> set xs"
  proof
    assume "x \<in> set xs"
    then obtain us vs where xs: "xs = us @ x # vs" by (auto simp: in_set_conv_decomp)
    with Cons.prems have l: "llist nx x (x # us @ x # vs)" and r: "llist nx x (x # vs)" by auto
    from llist_unique [OF l r] show False by simp
  qed
  with Cons show ?case by auto
qed

lemma lpath_last: "lpath nx p xs q \<Longrightarrow> xs \<noteq> [] \<Longrightarrow> nx (last xs) = q"
  by (induction xs arbitrary: p) auto

text \<open>A ring cut at any of its nodes is a ring that starts there.\<close>

lemma lpath_rotate:
  assumes "lpath nx p (xs @ ys) p" and "ys \<noteq> []"
  shows "lpath nx (hd ys) (ys @ xs) (hd ys)"
proof -
  obtain r where "lpath nx p xs r" "lpath nx r ys p" using assms(1) by auto
  moreover from this assms(2) have "r = hd ys" by (cases ys) auto
  ultimately show ?thesis by auto
qed

end
