(* ===== verification/ByteMem.thy ===== *)
theory ByteMem
  imports Prelude
begin

text \<open>
  Byte-addressed memory. The code reaches memory through \<^verbatim>\<open>uint8_t*\<close>, \<^verbatim>\<open>uint32_t*\<close>,
  \<^verbatim>\<open>uint64_t*\<close> and \<^verbatim>\<open>void**\<close> casts; a multi-byte access is little-endian, as AArch64 is
  configured here. \<open>load64\<close>/\<open>store64\<close> and \<open>load32\<close>/\<open>store32\<close> are those accesses, over a total
  map from addresses to bytes. The lemmas give the round trip of a store and a load and the
  independence of accesses to disjoint addresses.
\<close>

type_synonym mem = "addr \<Rightarrow> u8"

section \<open>Little-endian encoding\<close>

primrec to_le :: "nat \<Rightarrow> 'a::len word \<Rightarrow> u8 list" where
  "to_le 0 v = []"
| "to_le (Suc n) v = ucast v # to_le n (drop_bit 8 v)"

primrec from_le :: "u8 list \<Rightarrow> 'a::len word" where
  "from_le [] = 0"
| "from_le (b # bs) = ucast b OR push_bit 8 (from_le bs)"

lemma length_to_le [simp]: "length (to_le n v) = n"
  by (induction n arbitrary: v) auto

lemma from_le_to_le: "from_le (to_le n v) = take_bit (8 * n) (v :: 'a::len word)"
proof (induction n arbitrary: v)
  case 0
  then show ?case by simp
next
  case (Suc n)
  show ?case
  proof (rule bit_eqI)
    fix i
    assume "possible_bit TYPE('a word) i"
    then show "bit (from_le (to_le (Suc n) v) :: 'a word) i = bit (take_bit (8 * Suc n) v) i"
      by (cases "i < 8") (auto simp: Suc.IH bit_simps not_less)
  qed
qed

lemma from_le_to_le_64: "from_le (to_le 8 v) = (v :: 64 word)"
  by (simp add: from_le_to_le take_bit_word_eq_self)

lemma from_le_to_le_32: "from_le (to_le 4 v) = (v :: 32 word)"
  by (simp add: from_le_to_le take_bit_word_eq_self)

section \<open>Loads and stores\<close>

primrec load_bytes :: "mem \<Rightarrow> addr \<Rightarrow> nat \<Rightarrow> u8 list" where
  "load_bytes m p 0 = []"
| "load_bytes m p (Suc n) = m p # load_bytes m (p + 1) n"

primrec store_bytes :: "mem \<Rightarrow> addr \<Rightarrow> u8 list \<Rightarrow> mem" where
  "store_bytes m p [] = m"
| "store_bytes m p (b # bs) = store_bytes (m(p := b)) (p + 1) bs"

definition load64 :: "mem \<Rightarrow> addr \<Rightarrow> u64" where
  "load64 m p = from_le (load_bytes m p 8)"

definition store64 :: "mem \<Rightarrow> addr \<Rightarrow> u64 \<Rightarrow> mem" where
  "store64 m p v = store_bytes m p (to_le 8 v)"

definition load32 :: "mem \<Rightarrow> addr \<Rightarrow> u32" where
  "load32 m p = from_le (load_bytes m p 4)"

definition store32 :: "mem \<Rightarrow> addr \<Rightarrow> u32 \<Rightarrow> mem" where
  "store32 m p v = store_bytes m p (to_le 4 v)"

text \<open>The addresses an access of \<open>n\<close> bytes at \<open>p\<close> touches (with 64-bit wrap-around).\<close>

definition span :: "addr \<Rightarrow> nat \<Rightarrow> addr set" where
  "span p n = {p + of_nat i |i. i < n}"

lemma span_0 [simp]: "span p 0 = {}"
  by (simp add: span_def)

lemma span_Suc: "span p (Suc n) = insert p (span (p + 1) n)"
proof -
  have "{p + of_nat i |i. i < Suc n} = insert p {p + of_nat (Suc i) |i. i < n}"
  proof (intro set_eqI iffI)
    fix x assume "x \<in> {p + of_nat i |i. i < Suc n}"
    then obtain i where i: "x = p + of_nat i" "i < Suc n" by auto
    show "x \<in> insert p {p + of_nat (Suc i) |i. i < n}"
      using i by (cases i) auto
  next
    fix x assume "x \<in> insert p {p + of_nat (Suc i) |i. i < n}"
    then show "x \<in> {p + of_nat i |i. i < Suc n}"
      by (auto intro: exI [of _ 0] exI [of _ "Suc _"])
  qed
  then show ?thesis by (simp add: span_def add.assoc)
qed

lemma span_iff: "n \<le> 2 ^ 64 \<Longrightarrow> x \<in> span p n \<longleftrightarrow> unat (x - p) < n"
proof
  assume n: "n \<le> 2 ^ 64" and "x \<in> span p n"
  then obtain i where i: "x = p + of_nat i" "i < n" by (auto simp: span_def)
  with n have "unat (x - p) = i" by (simp add: unat_of_nat)
  with i show "unat (x - p) < n" by simp
next
  assume "unat (x - p) < n"
  then show "x \<in> span p n"
    by (auto simp: span_def intro!: exI [of _ "unat (x - p)"])
qed

lemma load_bytes_cong: "(\<And>x. x \<in> span p n \<Longrightarrow> m x = m' x) \<Longrightarrow> load_bytes m p n = load_bytes m' p n"
  by (induction n arbitrary: p) (auto simp: span_Suc)

lemma store_bytes_other: "x \<notin> span p (length bs) \<Longrightarrow> store_bytes m p bs x = m x"
  by (induction bs arbitrary: m p) (auto simp: span_Suc)

lemma load_store_bytes:
  "length bs \<le> 2 ^ 64 \<Longrightarrow> load_bytes (store_bytes m p bs) p (length bs) = bs"
proof (induction bs arbitrary: m p)
  case Nil
  then show ?case by simp
next
  case (Cons b bs)
  have "p \<notin> span (p + 1) (length bs)"
  proof -
    have "unat (p - (p + 1)) = 2 ^ 64 - 1"
      by (simp add: unsigned_minus_1_eq_mask mask_eq_exp_minus_1)
    then show ?thesis using Cons.prems by (simp add: span_iff)
  qed
  then have "store_bytes (m(p := b)) (p + 1) bs p = b"
    by (simp add: store_bytes_other)
  with Cons show ?case by simp
qed

lemma load64_store64 [simp]: "load64 (store64 m p v) p = v"
  using load_store_bytes [of "to_le 8 v" m p]
  by (simp add: load64_def store64_def from_le_to_le_64)

lemma load32_store32 [simp]: "load32 (store32 m p v) p = v"
  using load_store_bytes [of "to_le 4 v" m p]
  by (simp add: load32_def store32_def from_le_to_le_32)

lemma store64_other: "x \<notin> span p 8 \<Longrightarrow> store64 m p v x = m x"
  by (simp add: store64_def store_bytes_other)

lemma store32_other: "x \<notin> span p 4 \<Longrightarrow> store32 m p v x = m x"
  by (simp add: store32_def store_bytes_other)

lemma load64_cong: "(\<And>x. x \<in> span p 8 \<Longrightarrow> m x = m' x) \<Longrightarrow> load64 m p = load64 m' p"
  by (simp add: load64_def load_bytes_cong [of p 8 m m'])

lemma load32_cong: "(\<And>x. x \<in> span p 4 \<Longrightarrow> m x = m' x) \<Longrightarrow> load32 m p = load32 m' p"
  by (simp add: load32_def load_bytes_cong [of p 4 m m'])

text \<open>Two accesses at distance: their spans are disjoint.\<close>

lemma span_disjoint:
  assumes "unat p + n \<le> unat q" and "unat q + k \<le> 2 ^ 64"
  shows "span p n \<inter> span q k = {}"
proof -
  have "False" if "i < n" "j < k" and eq: "p + of_nat i = q + of_nat j" for i j
  proof -
    have "unat (p + of_nat i) = unat p + i"
      using that assms by (subst unat_add_nowrap) (auto simp: unat_of_nat)
    moreover have "unat (q + of_nat j) = unat q + j"
      using that assms by (subst unat_add_nowrap) (auto simp: unat_of_nat)
    ultimately show False using eq that assms by simp
  qed
  then show ?thesis by (auto simp: span_def)
qed

lemma load64_store64_other: "span p 8 \<inter> span q 8 = {} \<Longrightarrow> load64 (store64 m p v) q = load64 m q"
  by (rule load64_cong) (auto intro!: store64_other)

section \<open>Bytes of a word access\<close>

lemma nth_to_le: "j < n \<Longrightarrow> to_le n v ! j = ucast (drop_bit (8 * j) v)"
proof (induction n arbitrary: v j)
  case 0
  then show ?case by simp
next
  case (Suc n)
  show ?case
  proof (cases j)
    case 0
    then show ?thesis by simp
  next
    case (Suc k)
    then have "to_le n (drop_bit 8 v) ! k = ucast (drop_bit (8 * k) (drop_bit 8 v))"
      using Suc.prems Suc.IH [of k "drop_bit 8 v"] by simp
    then show ?thesis using Suc by (simp add: add.commute)
  qed
qed

lemma length_load_bytes [simp]: "length (load_bytes m p n) = n"
  by (induction n arbitrary: p) auto

lemma nth_load_bytes: "j < n \<Longrightarrow> load_bytes m p n ! j = m (p + of_nat j)"
proof (induction n arbitrary: p j)
  case 0
  then show ?case by simp
next
  case (Suc n)
  then show ?case by (cases j) (simp_all add: add.assoc)
qed

lemma nth_store_bytes:
  assumes "j < length bs" "length bs \<le> 2 ^ 64"
  shows "store_bytes m p bs (p + of_nat j) = bs ! j"
proof -
  have "load_bytes (store_bytes m p bs) p (length bs) ! j = bs ! j"
    by (subst load_store_bytes [OF assms(2)]) (rule refl)
  then show ?thesis by (simp only: nth_load_bytes [OF assms(1)])
qed

lemma store64_byte: "j < 8 \<Longrightarrow> store64 m p v (p + of_nat j) = ucast (drop_bit (8 * j) v)"
  using nth_store_bytes [of j "to_le 8 v" m p] by (simp add: store64_def nth_to_le)

lemma to_le_from_le:
  "8 * length bs \<le> LENGTH('a) \<Longrightarrow> to_le (length bs) (from_le bs :: 'a::len word) = bs"
proof (induction bs)
  case Nil
  then show ?case by simp
next
  case (Cons b bs)
  let ?w = "from_le bs :: 'a word"
  have l: "8 \<le> LENGTH('a)" using Cons.prems by simp
  have "ucast (ucast b OR push_bit 8 ?w) = b"
    using l by (intro bit_word_eqI) (auto simp: bit_simps)
  moreover have "to_le (length bs) (drop_bit 8 (ucast b OR push_bit 8 ?w)) = to_le (length bs) ?w"
  proof (rule nth_equalityI, simp)
    fix j assume j: "j < length (to_le (length bs) (drop_bit 8 (ucast b OR push_bit 8 ?w)))"
    have eq: "(ucast (drop_bit (8 * j) (drop_bit 8 (ucast b OR push_bit 8 ?w))) :: u8)
        = ucast (drop_bit (8 * j) ?w)"
    proof (rule bit_word_eqI)
      fix i assume i: "i < LENGTH(8)"
      have "8 * Suc j \<le> 8 * length bs" using j by (intro mult_le_mono2) simp
      then have "8 + (8 * j + i) < LENGTH('a)" using Cons.prems i by simp
      then show "bit (ucast (drop_bit (8 * j) (drop_bit 8 (ucast b OR push_bit 8 ?w))) :: u8) i =
          bit (ucast (drop_bit (8 * j) ?w) :: u8) i"
        using i bit_imp_le_length [of b "8 * j + 8 + i"] by (auto simp: bit_simps)
    qed
    show "to_le (length bs) (drop_bit 8 (ucast b OR push_bit 8 ?w)) ! j = to_le (length bs) ?w ! j"
      using j eq by (simp only: nth_to_le length_to_le)
  qed
  ultimately show ?case using Cons by simp
qed

lemma load64_eq_iff: "load64 m p = v \<longleftrightarrow> (\<forall>j < 8. m (p + of_nat j) = ucast (drop_bit (8 * j) v))"
proof -
  have "load64 m p = v \<longleftrightarrow> load_bytes m p 8 = to_le 8 v"
    unfolding load64_def
    using to_le_from_le [of "load_bytes m p 8", where 'a = 64] from_le_to_le_64 [of v] by auto
  also have "\<dots> \<longleftrightarrow> (\<forall>j < 8. m (p + of_nat j) = ucast (drop_bit (8 * j) v))"
    by (simp add: list_eq_iff_nth_eq nth_to_le nth_load_bytes)
  finally show ?thesis .
qed

end
