(* ===== verification/Kmem.thy ===== *)
theory Kmem
  imports Prelude
begin

text \<open>
  The boot heap (\<^verbatim>\<open>src/kmem.cc\<close>): a bump allocator over the linker's
  \<^verbatim>\<open>_heap_start .. _heap_end\<close>. The state is the two static variables \<^verbatim>\<open>cur\<close> and \<^verbatim>\<open>end\<close>; the
  addresses of the linker symbols are parameters of \<open>kmem_init\<close>. All arithmetic is the
  64-bit wrap-around arithmetic of \<^verbatim>\<open>uintptr_t\<close>.

  The interface \<open>region_allocator\<close> says what the clients of the allocator (thread creation,
  the DMA self test, the memory labs) rely on: regions are handed out in increasing order,
  inside the limit, and never overlap.
\<close>

section \<open>Model\<close>

record kmem =
  kcur :: addr
  kend :: addr

definition round_up_pow2 :: "addr \<Rightarrow> addr" where
  "round_up_pow2 a =
     (if a \<le> 1 then 1
      else let a = a - 1;
               a = a OR drop_bit 1 a;
               a = a OR drop_bit 2 a;
               a = a OR drop_bit 4 a;
               a = a OR drop_bit 8 a;
               a = a OR drop_bit 16 a;
               a = a OR drop_bit 32 a
           in a + 1)"

definition kmem_init :: "addr \<Rightarrow> addr \<Rightarrow> kmem" where
  "kmem_init heap_start heap_end = \<lparr>kcur = heap_start, kend = heap_end\<rparr>"

definition kmem_align :: "addr \<Rightarrow> addr" where
  "kmem_align align =
     (let align = (if align < 16 then 16 else align)
      in if is_pow2 align then align else round_up_pow2 align)"

definition kmem_alloc_aligned :: "kmem \<Rightarrow> addr \<Rightarrow> addr \<Rightarrow> addr \<times> kmem" where
  "kmem_alloc_aligned st sz align =
     (let align = kmem_align align;
          p = align_up (kcur st) align
      in if p + sz > kend st then (NULL, st)
         else (p, st\<lparr>kcur := p + sz\<rparr>))"

text \<open>A run of requests \<open>(size, alignment)\<close> against any allocator of this shape.\<close>

primrec alloc_run ::
  "('s \<Rightarrow> addr \<Rightarrow> addr \<Rightarrow> addr \<times> 's) \<Rightarrow> 's \<Rightarrow> (addr \<times> addr) list \<Rightarrow> addr list \<times> 's" where
  "alloc_run alloc s [] = ([], s)"
| "alloc_run alloc s (r # rs) =
     (let (p, s') = alloc s (fst r) (snd r); (ps, s'') = alloc_run alloc s' rs
      in (p # ps, s''))"

section \<open>Rounding up to a power of two\<close>

text \<open>
  The shift-and-or cascade smears the highest set bit downwards: after the steps 1, 2, 4, ...
  bit \<open>i\<close> of the result says whether some bit \<open>i + j\<close> with \<open>j < 64\<close> was set.
\<close>

definition smeared :: "addr \<Rightarrow> nat \<Rightarrow> addr \<Rightarrow> bool" where
  "smeared x n y \<longleftrightarrow> (\<forall>i. bit y i \<longleftrightarrow> (\<exists>j<n. bit x (i + j)))"

lemma smeared_start: "smeared x 1 x"
  by (simp add: smeared_def)

lemma smeared_step:
  assumes "smeared x n y" and "m = n + n"
  shows "smeared x m (y OR drop_bit n y)"
proof -
  have "(\<exists>j<n. bit x (i + j)) \<or> (\<exists>j<n. bit x (i + n + j)) \<longleftrightarrow> (\<exists>j<n + n. bit x (i + j))"
    (is "?L \<longleftrightarrow> ?R") for i
  proof
    assume ?L then show ?R
      by (metis add.assoc add_strict_left_mono trans_less_add1)
  next
    assume ?R
    then obtain j where j: "j < n + n" "bit x (i + j)" by blast
    show ?L
    proof (cases "j < n")
      case True with j show ?thesis by blast
    next
      case False
      then have "j - n < n" and "i + n + (j - n) = i + j" using j(1) by auto
      with j(2) show ?thesis by metis
    qed
  qed
  with assms show ?thesis
    by (simp add: smeared_def bit_simps add.commute add.left_commute)
qed

lemma smeared_mask:
  assumes "smeared x 64 y" and "bit x h" and "\<And>i. h < i \<Longrightarrow> \<not> bit x i"
  shows "y = mask (Suc h)"
proof (rule bit_eqI)
  fix i
  assume i: "possible_bit TYPE(64 word) i"
  have h: "h < 64" using assms(2) bit_imp_le_length by fastforce
  have "(\<exists>j<64. bit x (i + j)) \<longleftrightarrow> i \<le> h"
  proof
    assume "\<exists>j<64. bit x (i + j)"
    then show "i \<le> h" using assms(3) by (meson le_add1 le_trans not_le)
  next
    assume "i \<le> h"
    then show "\<exists>j<64. bit x (i + j)"
      using assms(2) h by (intro exI [of _ "h - i"]) auto
  qed
  with assms(1) i show "bit y i = bit (mask (Suc h) :: addr) i"
    by (simp add: smeared_def bit_mask_iff less_Suc_eq_le)
qed

lemma highest_bit:
  fixes x :: addr
  assumes "x \<noteq> 0"
  obtains h where "bit x h" and "\<And>i. h < i \<Longrightarrow> \<not> bit x i" and "h < 64"
    and "2 ^ h \<le> unat x" and "unat x < 2 ^ Suc h"
proof -
  from assms obtain i where i: "bit x i" by (auto simp: bit_eq_iff)
  have bound: "\<And>j. bit x j \<Longrightarrow> j \<le> 63"
    using bit_imp_le_length by fastforce
  define h where "h = Max {j. bit x j}"
  have fin: "finite {j. bit x j}"
    by (rule finite_subset [of _ "{..63}"]) (use bound in auto)
  have h: "bit x h"
    using Max_in [OF fin] i by (auto simp: h_def)
  have hi: "\<not> bit x j" if "h < j" for j
  proof
    assume "bit x j"
    then have "j \<le> h" unfolding h_def by (intro Max_ge [OF fin]) simp
    with that show False by simp
  qed
  have "unat x < 2 ^ Suc h"
  proof -
    have "n < Suc h" if "bit x n" for n using hi [of n] that by (cases "h < n") auto
    then have "take_bit (Suc h) x = x"
      by (intro bit_eqI) (auto simp: bit_take_bit_iff)
    then have "take_bit (Suc h) (unat x) = unat x"
      by (metis unsigned_take_bit_eq)
    then show ?thesis by (simp only: take_bit_nat_eq_self_iff)
  qed
  moreover have "2 ^ h \<le> unat x"
  proof -
    have "bit (unat x) h" using h by (simp add: bit_unsigned_iff)
    then have "odd (unat x div 2 ^ h)" by (simp add: bit_iff_odd)
    then have "unat x div 2 ^ h \<noteq> 0" by (metis even_zero)
    then show ?thesis by (metis div_less not_le)
  qed
  ultimately show thesis
    using that h hi bound [OF h] by auto
qed

lemma round_up_pow2_spec:
  assumes "1 < a" and "a \<le> 2 ^ 63"
  obtains k where "1 \<le> k" "k \<le> 63" and "round_up_pow2 a = 2 ^ k"
    and "unat a \<le> 2 ^ k" and "2 ^ (k - 1) < unat a"
proof -
  have a1: "1 < unat a" using assms(1) by (simp add: word_less_nat_alt)
  have a63: "unat a \<le> 2 ^ 63" using assms(2) unat_2p [of 63] by (simp add: word_le_nat_alt)
  have nz: "a - 1 \<noteq> 0" using assms(1) by auto
  have ua: "unat (a - 1) = unat a - 1"
    using assms(1) by (intro unat_minus_one) auto
  obtain h where h: "bit (a - 1) h" "\<And>i. h < i \<Longrightarrow> \<not> bit (a - 1) i" "h < 64"
      "2 ^ h \<le> unat (a - 1)" "unat (a - 1) < 2 ^ Suc h"
    using highest_bit [OF nz] by metis
  define y where "y = (let a = a - 1; a = a OR drop_bit 1 a; a = a OR drop_bit 2 a;
               a = a OR drop_bit 4 a; a = a OR drop_bit 8 a; a = a OR drop_bit 16 a
           in a OR drop_bit 32 a)"
  have "smeared (a - 1) 64 y"
    unfolding y_def Let_def by (rule smeared_step | rule smeared_start | simp)+
  then have "y = mask (Suc h)" using h(1,2) by (rule smeared_mask)
  moreover have "round_up_pow2 a = y + 1"
    using assms(1) unfolding round_up_pow2_def y_def Let_def by (simp only: not_le [symmetric] if_False)
  ultimately have eq: "round_up_pow2 a = 2 ^ Suc h"
    by (simp add: mask_eq_decr_exp)
  have "(2 :: nat) ^ h < 2 ^ 63" using h(4) ua a1 a63 by linarith
  then have "h < 63" by (simp only: power_strict_increasing_iff)
  then show thesis
    using that [of "Suc h"] eq h(4,5) ua a1 by auto
qed

lemma kmem_align_2p:
  assumes "align \<le> 2 ^ 63"
  obtains k where "4 \<le> k" "k \<le> 63" and "kmem_align align = 2 ^ k" and "unat align \<le> 2 ^ k"
    and "k = 4 \<or> 2 ^ (k - 1) < unat align"
proof -
  define a where "a = (if align < 16 then 16 else align)"
  have a16: "16 \<le> unat a" by (auto simp: a_def word_less_nat_alt)
  have le: "unat align \<le> unat a" by (auto simp: a_def word_less_nat_alt)
  have a63: "a \<le> 2 ^ 63" using assms by (simp add: a_def word_le_nat_alt unat_2p)
  have cases16: "a = 16 \<or> a = align" by (auto simp: a_def)
  show thesis
  proof (cases "is_pow2 a")
    case True
    then obtain k where k: "k < 64" "a = 2 ^ k" by (rule is_pow2E)
    then have ua: "unat a = 2 ^ k" by (simp add: unat_2p)
    have "(2 :: nat) ^ 4 \<le> 2 ^ k" using a16 ua by simp
    then have k4: "4 \<le> k" by (simp only: power_increasing_iff)
    have "k = 4 \<or> 2 ^ (k - 1) < unat align"
    proof (cases "a = align")
      case True
      have "(2 :: nat) ^ (k - 1) < 2 ^ k" by (rule power_strict_increasing) (use k4 in auto)
      with True ua show ?thesis by simp
    next
      case False
      with cases16 ua have "(2 :: nat) ^ k = 2 ^ 4" by simp
      then have "k = 4" by (simp only: power_inject_exp)
      then show ?thesis ..
    qed
    with k k4 ua le show thesis
      using that [of k] True by (auto simp: kmem_align_def a_def Let_def)
  next
    case False
    have "1 < a" using a16 by (simp add: word_less_nat_alt)
    from this a63 obtain k where k: "1 \<le> k" "k \<le> 63" "round_up_pow2 a = 2 ^ k"
        "unat a \<le> 2 ^ k" "2 ^ (k - 1) < unat a" by (rule round_up_pow2_spec)
    have "(2 :: nat) ^ 4 \<le> 2 ^ k" using a16 k(4) by simp
    then have k4: "4 \<le> k" by (simp only: power_increasing_iff)
    have "is_pow2 16" using is_pow2_2p [of 4] by simp
    with False cases16 have "a = align" by auto
    with k k4 False show thesis
      using that [of k] by (auto simp: kmem_align_def a_def Let_def)
  qed
qed

section \<open>The allocator contract\<close>

definition kmem_inv :: "kmem \<Rightarrow> bool" where
  "kmem_inv st \<longleftrightarrow> 0 < kcur st \<and> kcur st \<le> kend st"

text \<open>
  A request is admissible when neither the alignment round-up nor the addition of the size
  can pass the top of the address space. The code does not check this itself.
\<close>

definition kmem_admissible :: "kmem \<Rightarrow> addr \<Rightarrow> addr \<Rightarrow> bool" where
  "kmem_admissible st sz align \<longleftrightarrow>
     align \<le> 2 ^ 63 \<and> unat (kend st) + unat (kmem_align align) + unat sz \<le> 2 ^ 64"

locale region_allocator =
  fixes alloc :: "'s \<Rightarrow> addr \<Rightarrow> addr \<Rightarrow> addr \<times> 's"
    and mark :: "'s \<Rightarrow> nat"
    and limit :: "'s \<Rightarrow> nat"
    and invar :: "'s \<Rightarrow> bool"
    and admissible :: "'s \<Rightarrow> addr \<Rightarrow> addr \<Rightarrow> bool"
  assumes alloc_null: "alloc s sz al = (NULL, s') \<Longrightarrow> invar s \<Longrightarrow> admissible s sz al \<Longrightarrow> s' = s"
    and alloc_block: "alloc s sz al = (p, s') \<Longrightarrow> invar s \<Longrightarrow> admissible s sz al \<Longrightarrow> p \<noteq> NULL \<Longrightarrow>
      mark s \<le> unat p \<and> unat p + unat sz = mark s'"
    and invar_mark: "invar s \<Longrightarrow> mark s \<le> limit s"
    and alloc_limit: "alloc s sz al = (p, s') \<Longrightarrow> limit s' = limit s"
    and alloc_invar: "alloc s sz al = (p, s') \<Longrightarrow> invar s \<Longrightarrow> admissible s sz al \<Longrightarrow> invar s'"
    and admissible_limit: "admissible s sz al \<Longrightarrow> limit s = limit s' \<Longrightarrow> admissible s' sz al"
begin

lemma alloc_mark:
  assumes "alloc s sz al = (p, s')" and "invar s" and "admissible s sz al"
  shows "mark s \<le> mark s'"
proof (cases "p = NULL")
  case True
  then have "s' = s" using assms alloc_null by blast
  then show ?thesis by simp
next
  case False
  then have "mark s \<le> unat p" and "unat p + unat sz = mark s'"
    using alloc_block [OF assms] by auto
  then show ?thesis by simp
qed

lemma run_inv:
  assumes "alloc_run alloc s rs = (ps, s')" and "invar s"
    and "\<forall>(sz, al) \<in> set rs. admissible s sz al"
  shows "invar s' \<and> limit s' = limit s \<and> mark s \<le> mark s' \<and> length ps = length rs"
  using assms
proof (induction rs arbitrary: s ps)
  case Nil
  then show ?case by simp
next
  case (Cons r rs)
  obtain p s1 where a: "alloc s (fst r) (snd r) = (p, s1)" by force
  obtain ps' where r: "alloc_run alloc s1 rs = (ps', s')" and ps: "ps = p # ps'"
    using Cons.prems(1) a by (auto split: prod.splits)
  have adm: "admissible s (fst r) (snd r)" using Cons.prems(3) by (cases r) auto
  have "invar s1" using alloc_invar [OF a Cons.prems(2) adm] .
  moreover have l: "limit s1 = limit s" using alloc_limit [OF a] .
  moreover have "\<forall>(sz, al) \<in> set rs. admissible s1 sz al"
    using Cons.prems(3) l admissible_limit by fastforce
  ultimately have "invar s' \<and> limit s' = limit s1 \<and> mark s1 \<le> mark s' \<and> length ps' = length rs"
    using Cons.IH [OF r] by blast
  with l ps alloc_mark [OF a Cons.prems(2) adm] show ?case by auto
qed

text \<open>
  Every block of a run lies between the marks before and after it, and blocks of different
  requests do not overlap.
\<close>

lemma run_blocks:
  assumes "alloc_run alloc s rs = (ps, s')" and "invar s"
    and "\<forall>(sz, al) \<in> set rs. admissible s sz al"
    and "i < length rs" and "ps ! i \<noteq> NULL"
  shows "mark s \<le> unat (ps ! i) \<and> unat (ps ! i) + unat (fst (rs ! i)) \<le> mark s' \<and>
    (\<forall>j. i < j \<longrightarrow> j < length rs \<longrightarrow> ps ! j \<noteq> NULL \<longrightarrow>
       unat (ps ! i) + unat (fst (rs ! i)) \<le> unat (ps ! j))"
  using assms
proof (induction rs arbitrary: s ps i)
  case Nil
  then show ?case by simp
next
  case (Cons r rs)
  obtain p s1 where a: "alloc s (fst r) (snd r) = (p, s1)" by force
  obtain ps' where r: "alloc_run alloc s1 rs = (ps', s')" and ps: "ps = p # ps'"
    using Cons.prems(1) a by (auto split: prod.splits)
  have adm: "admissible s (fst r) (snd r)" using Cons.prems(3) by (cases r) auto
  have inv1: "invar s1" using alloc_invar [OF a Cons.prems(2) adm] .
  have l: "limit s1 = limit s" using alloc_limit [OF a] .
  have adm1: "\<forall>(sz, al) \<in> set rs. admissible s1 sz al"
    using Cons.prems(3) l admissible_limit by fastforce
  note tail = Cons.IH [OF r inv1 adm1]
  have m1: "mark s \<le> mark s1" using alloc_mark [OF a Cons.prems(2) adm] .
  have m2: "mark s1 \<le> mark s'" using run_inv [OF r inv1 adm1] by simp
  show ?case
  proof (cases i)
    case 0
    with Cons.prems(5) ps have "p \<noteq> NULL" by simp
    then have b: "mark s \<le> unat p" "unat p + unat (fst r) = mark s1"
      using alloc_block [OF a Cons.prems(2) adm] by auto
    have later: "mark s1 \<le> unat (ps' ! j)" if "j < length rs" "ps' ! j \<noteq> NULL" for j
      using tail that by blast
    with 0 ps b m2 later show ?thesis by (auto simp: nth_Cons')
  next
    case (Suc i')
    then show ?thesis
      using tail [of i'] Cons.prems(4,5) ps m1 l by (auto simp: nth_Cons')
  qed
qed

end

section \<open>The bump allocator keeps the contract\<close>

lemma kmem_align_up_bounds:
  assumes "kmem_inv st" and "kmem_admissible st sz al"
  shows "unat (kcur st) \<le> unat (align_up (kcur st) (kmem_align al))"
    and "unat (align_up (kcur st) (kmem_align al)) < unat (kcur st) + unat (kmem_align al)"
    and "unat (kmem_align al) dvd unat (align_up (kcur st) (kmem_align al))"
    and "unat (align_up (kcur st) (kmem_align al) + sz) =
      unat (align_up (kcur st) (kmem_align al)) + unat sz"
proof -
  from assms obtain k where k: "k \<le> 63" "kmem_align al = 2 ^ k"
    using kmem_align_2p [of al] unfolding kmem_admissible_def by blast
  have u: "unat (kmem_align al) = 2 ^ k" using k by (simp add: unat_2p)
  have "unat (kcur st) + 2 ^ k \<le> 2 ^ 64"
    using assms u by (auto simp: kmem_inv_def kmem_admissible_def word_le_nat_alt)
  note b = align_up_2p_bounds [OF _ this]
  show "unat (kcur st) \<le> unat (align_up (kcur st) (kmem_align al))"
    and "unat (kmem_align al) dvd unat (align_up (kcur st) (kmem_align al))"
    using b k u by auto
  show lt: "unat (align_up (kcur st) (kmem_align al)) < unat (kcur st) + unat (kmem_align al)"
    using b k u by auto
  show "unat (align_up (kcur st) (kmem_align al) + sz) =
      unat (align_up (kcur st) (kmem_align al)) + unat sz"
    by (rule unat_add_nowrap)
      (use lt assms in \<open>auto simp: kmem_inv_def kmem_admissible_def word_le_nat_alt\<close>)
qed

lemma kmem_alloc_cases:
  assumes "kmem_inv st" and "kmem_admissible st sz al"
    and "kmem_alloc_aligned st sz al = (p, st')"
  obtains (full) "p = NULL" and "st' = st"
      and "unat (kend st) < unat (align_up (kcur st) (kmem_align al)) + unat sz"
    | (block) "p \<noteq> NULL" and "p = align_up (kcur st) (kmem_align al)"
      and "st' = st\<lparr>kcur := p + sz\<rparr>" and "unat (kcur st) \<le> unat p"
      and "unat (p + sz) = unat p + unat sz" and "unat p + unat sz \<le> unat (kend st)"
      and "unat (kmem_align al) dvd unat p"
proof -
  note b = kmem_align_up_bounds [OF assms(1,2)]
  have "0 < unat (align_up (kcur st) (kmem_align al))"
    using b(1) assms(1) by (simp add: kmem_inv_def word_less_nat_alt)
  then have nz: "align_up (kcur st) (kmem_align al) \<noteq> NULL" by (simp add: unat_gt_0)
  show thesis
  proof (cases "align_up (kcur st) (kmem_align al) + sz > kend st")
    case True
    with full assms(3) b(4) show thesis
      by (auto simp: kmem_alloc_aligned_def Let_def word_less_nat_alt)
  next
    case False
    with block assms(3) b nz show thesis
      by (auto simp: kmem_alloc_aligned_def Let_def word_less_nat_alt)
  qed
qed

interpretation kmem_heap: region_allocator kmem_alloc_aligned "\<lambda>st. unat (kcur st)"
  "\<lambda>st. unat (kend st)" kmem_inv kmem_admissible
proof
  fix s sz al p s'
  assume a: "kmem_alloc_aligned s sz al = (p, s')" and i: "kmem_inv s" "kmem_admissible s sz al"
  show "p \<noteq> NULL \<Longrightarrow> unat (kcur s) \<le> unat p \<and> unat p + unat sz = unat (kcur s')"
    using i a by (cases rule: kmem_alloc_cases) auto
  show "kmem_inv s'"
    using i a by (cases rule: kmem_alloc_cases)
      (use i in \<open>auto simp: kmem_inv_def word_le_nat_alt word_less_nat_alt\<close>)
next
  fix s sz al s'
  assume "kmem_inv s" "kmem_admissible s sz al" "kmem_alloc_aligned s sz al = (NULL, s')"
  then show "s' = s" by (cases rule: kmem_alloc_cases) auto
next
  show "unat (kcur s) \<le> unat (kend s)" if "kmem_inv s" for s
    using that by (simp add: kmem_inv_def word_le_nat_alt)
  show "unat (kend s') = unat (kend s)" if "kmem_alloc_aligned s sz al = (p, s')" for s sz al p s'
    using that by (auto simp: kmem_alloc_aligned_def Let_def split: if_splits)
  show "kmem_admissible s' sz al"
    if "kmem_admissible s sz al" "unat (kend s) = unat (kend s')" for s sz al s'
    using that by (simp add: kmem_admissible_def)
qed

lemma kmem_init_inv: "0 < hs \<Longrightarrow> hs \<le> he \<Longrightarrow> kmem_inv (kmem_init hs he)"
  by (simp add: kmem_inv_def kmem_init_def)

section \<open>Properties\<close>


lemma kmem_align_numerals [simp]: "kmem_align 16 = 16" "kmem_align 4096 = 4096"
  by (simp_all add: kmem_align_def is_pow2_def)


text \<open>
  C13: an admissible request is served exactly when the aligned block fits below the end of
  the heap. The block starts at the lowest address from the bump pointer on that is a multiple
  of the effective alignment, which is the least power of two that is at least 16 and at least
  the requested alignment; a request that does not fit changes nothing.
\<close>

theorem kmem_alloc_correct:
  assumes "kmem_inv st" and "kmem_admissible st sz al"
  shows "\<exists>k. 4 \<le> k \<and> k \<le> 63 \<and> unat al \<le> 2 ^ k \<and> (k = 4 \<or> 2 ^ (k - 1) < unat al) \<and>
    (let p = align_up (kcur st) (2 ^ k) in
       2 ^ k dvd unat p \<and> unat (kcur st) \<le> unat p \<and> unat p < unat (kcur st) + 2 ^ k \<and>
       kmem_alloc_aligned st sz al =
         (if unat p + unat sz \<le> unat (kend st) then (p, st\<lparr>kcur := p + sz\<rparr>) else (NULL, st)))"
proof -
  obtain k where k: "4 \<le> k" "k \<le> 63" "kmem_align al = 2 ^ k" "unat al \<le> 2 ^ k"
      "k = 4 \<or> 2 ^ (k - 1) < unat al"
    using assms(2) kmem_align_2p [of al] unfolding kmem_admissible_def by blast
  have u: "unat ((2 :: addr) ^ k) = 2 ^ k" using k by (simp add: unat_2p)
  note b = kmem_align_up_bounds [OF assms, unfolded k(3) u]
  have "kmem_alloc_aligned st sz al =
         (if unat (align_up (kcur st) (2 ^ k)) + unat sz \<le> unat (kend st)
          then (align_up (kcur st) (2 ^ k), st\<lparr>kcur := align_up (kcur st) (2 ^ k) + sz\<rparr>)
          else (NULL, st))"
    using b(4) by (simp add: kmem_alloc_aligned_def k(3) Let_def word_less_nat_alt)
  with k b show ?thesis by (auto simp: Let_def intro!: exI [of _ k])
qed

theorem kmem_alloc_correct_witness:
  "\<exists>k. 4 \<le> k \<and> k \<le> 63 \<and> unat (24 :: addr) \<le> 2 ^ k \<and> (k = 4 \<or> 2 ^ (k - 1) < unat (24 :: addr)) \<and>
    (let st = kmem_init 0x40090008 0x40190000; p = align_up (kcur st) (2 ^ k) in
       2 ^ k dvd unat p \<and> unat (kcur st) \<le> unat p \<and> unat p < unat (kcur st) + 2 ^ k \<and>
       kmem_alloc_aligned st 100 24 =
         (if unat p + unat (100 :: addr) \<le> unat (kend st)
          then (p, st\<lparr>kcur := p + 100\<rparr>) else (NULL, st)))"
proof -
  have a: "kmem_align 24 = 32"
    by (simp add: kmem_align_def is_pow2_def round_up_pow2_def word_le_nat_alt)
  have "kmem_inv (kmem_init 0x40090008 0x40190000)"
    and "kmem_admissible (kmem_init 0x40090008 0x40190000) 100 24"
    by (simp_all add: kmem_inv_def kmem_admissible_def kmem_init_def a)
  from kmem_alloc_correct [OF this] show ?thesis by (simp only: Let_def)
qed

text \<open>
  The size is not checked for wrap-around. For any state whose bump pointer is 16-byte
  aligned, a request for \<open>2\<^sup>6\<^sup>4 - d\<close> bytes (\<open>0 < d \<le> cur\<close>) is granted at the current bump
  pointer and moves the bump pointer back by \<open>d\<close>, so the next request overlaps memory that is
  already handed out.
\<close>

lemma kmem_alloc_size_wraps:
  assumes "16 dvd unat (kcur st)" and "kmem_inv st" and "0 < d" and "d \<le> kcur st"
    and "unat (kcur st) + 16 \<le> 2 ^ 64"
  shows "kmem_alloc_aligned st (- d) 16 = (kcur st, st\<lparr>kcur := kcur st - d\<rparr>)"
proof -
  have "unat (align_up (kcur st) (2 ^ 4)) = unat (kcur st)"
  proof -
    obtain m where "unat (kcur st) = m * 16" using assms(1) by (auto simp: dvd_def)
    moreover have "(m * 16 + 15) div 16 = m" by simp
    ultimately show ?thesis
      using unat_align_up_2p [of 4 "kcur st"] assms(5) by simp
  qed
  then have p: "align_up (kcur st) 16 = kcur st" by (simp add: word_unat_eq_iff)
  have "kcur st - d \<le> kcur st"
    using assms(4) by (simp add: word_le_nat_alt unat_sub)
  then have "kcur st - d \<le> kend st"
    using assms(2) unfolding kmem_inv_def by (blast intro: order_trans)
  then have "\<not> kend st < kcur st - d" by (simp add: not_less)
  with p show ?thesis
    by (simp add: kmem_alloc_aligned_def Let_def)
qed

lemma kmem_alloc_size_wraps_example:
  "kmem_alloc_aligned \<lparr>kcur = 0x40092000, kend = 0x40190000\<rparr> (- 0x2000) 16 =
     (0x40092000, \<lparr>kcur = 0x40090000, kend = 0x40190000\<rparr>)"
proof -
  let ?st = "\<lparr>kcur = 0x40092000, kend = 0x40190000\<rparr> :: kmem"
  have "16 dvd unat (kcur ?st)" and "kmem_inv ?st" and "0 < (0x2000 :: addr)"
    and "0x2000 \<le> kcur ?st" and "unat (kcur ?st) + 16 \<le> 2 ^ 64"
    by (simp_all add: kmem_inv_def)
  from kmem_alloc_size_wraps [OF this] show ?thesis by simp
qed

end
