(* ===== verification/MemPool.thy ===== *)
theory MemPool
  imports ByteMem
begin

text \<open>
  The fixed-size block pool (\<^verbatim>\<open>src/mem_pool.cc\<close>). The pool structure is a record; the free
  list is threaded through the free blocks themselves, so the operations also take and return
  the byte memory, and \<open>load_next\<close>/\<open>store_next\<close> are the 8-byte accesses of the code. The pool
  pointer is the address of a live structure in every caller, so the \<^verbatim>\<open>!pool\<close> guards, which
  only reject a null structure pointer, have no counterpart here; every other guard does. The
  \<^verbatim>\<open>MEM_POOL_DEBUG\<close> switch is the parameter \<open>debug\<close>.
\<close>

section \<open>Model\<close>

record mem_pool =
  pool_base :: addr
  pool_block_size :: u64
  pool_block_count :: u64
  pool_free_list :: addr
  pool_free_count :: u64

text \<open>\<^verbatim>\<open>while (x < a) x <<= 1\<close>: for \<open>a > 2\<^sup>6\<^sup>3\<close> the shift drops the only set bit and the loop never ends.\<close>

partial_function (option) pow2_loop :: "u64 \<Rightarrow> u64 \<Rightarrow> u64 option" where
  "pow2_loop a x = (if x < a then pow2_loop a (push_bit 1 x) else Some x)"

definition clamp_align :: "u64 \<Rightarrow> u64 option" where
  "clamp_align a =
     (if a < 8 then Some 8
      else if \<not> is_pow2 a then pow2_loop a 1
      else Some a)"

definition load_next :: "mem \<Rightarrow> addr \<Rightarrow> addr" where
  "load_next m p = load64 m p"

definition store_next :: "mem \<Rightarrow> addr \<Rightarrow> addr \<Rightarrow> mem" where
  "store_next m p nxt = store64 m p nxt"

partial_function (option) freelist_contains :: "mem \<Rightarrow> addr \<Rightarrow> addr \<Rightarrow> bool option" where
  "freelist_contains m it p =
     (if it = NULL then Some False
      else if it = p then Some True
      else freelist_contains m (load_next m it) p)"

text \<open>The first \<open>n\<close> iterations of the loop that links the blocks; the result is the memory and \<^verbatim>\<open>head\<close>.\<close>

primrec mem_pool_link :: "mem \<Rightarrow> addr \<Rightarrow> u64 \<Rightarrow> nat \<Rightarrow> mem \<times> addr" where
  "mem_pool_link m base blk 0 = (m, NULL)"
| "mem_pool_link m base blk (Suc i) =
     (let (m, head) = mem_pool_link m base blk i;
          b = base + of_nat i * blk
      in (store_next m b head, b))"

definition mem_pool_init ::
  "mem \<Rightarrow> mem_pool \<Rightarrow> addr \<Rightarrow> u64 \<Rightarrow> u64 \<Rightarrow> (int \<times> mem \<times> mem_pool) option" where
  "mem_pool_init m pool backing backing_size block_size =
     (if backing = NULL \<or> backing_size = 0 \<or> block_size = 0 then Some (-1, m, pool)
      else if block_size < 8 then Some (-1, m, pool)
      else do {
        align \<leftarrow> clamp_align 16;
        let raw = backing;
            aligned = align_up raw align;
            lost = aligned - raw;
            usable = backing_size - lost;
            blk = align_up block_size align;
            count = usable div blk;
            (m', head) = mem_pool_link m aligned blk (unat count)
        in if aligned < raw then Some (-1, m, pool)
           else if lost \<ge> backing_size then Some (-1, m, pool)
           else if blk = 0 then Some (-1, m, pool)
           else if count = 0 then Some (-1, m, pool)
           else Some (0, m', \<lparr>pool_base = aligned, pool_block_size = blk,
                   pool_block_count = count, pool_free_list = head, pool_free_count = count\<rparr>)
      })"

definition mem_pool_alloc :: "mem \<Rightarrow> mem_pool \<Rightarrow> addr \<times> mem \<times> mem_pool" where
  "mem_pool_alloc m pool =
     (if pool_free_list pool = NULL then (NULL, m, pool)
      else let p = pool_free_list pool;
               pool = pool\<lparr>pool_free_list := load_next m p\<rparr>;
               pool = (if pool_free_count pool \<noteq> 0
                       then pool\<lparr>pool_free_count := pool_free_count pool - 1\<rparr> else pool)
           in (p, store_next m p NULL, pool))"

definition mem_pool_owns :: "mem_pool \<Rightarrow> addr \<Rightarrow> bool" where
  "mem_pool_owns pool p =
     (if pool_base pool = NULL \<or> p = NULL then False
      else let start = pool_base pool;
               end = start + pool_block_count pool * pool_block_size pool;
               v = p
           in if v < start \<or> v \<ge> end then False
              else (v - start) mod pool_block_size pool = 0)"

definition mem_pool_free :: "bool \<Rightarrow> mem \<Rightarrow> mem_pool \<Rightarrow> addr \<Rightarrow> (int \<times> mem \<times> mem_pool) option" where
  "mem_pool_free debug m pool p =
     (if p = NULL then Some (-1, m, pool)
      else if \<not> mem_pool_owns pool p then Some (-1, m, pool)
      else if pool_free_count pool \<ge> pool_block_count pool then Some (-1, m, pool)
      else do {
        found \<leftarrow> (if debug then freelist_contains m (pool_free_list pool) p else Some False);
        if found then Some (-1, m, pool)
        else Some (0, store_next m p (pool_free_list pool),
               pool\<lparr>pool_free_list := p, pool_free_count := pool_free_count pool + 1\<rparr>)
      })"

definition mem_pool_block_size :: "mem_pool \<Rightarrow> u64" where
  "mem_pool_block_size pool = pool_block_size pool"

definition mem_pool_capacity :: "mem_pool \<Rightarrow> u64" where
  "mem_pool_capacity pool = pool_block_count pool"

definition mem_pool_available :: "mem_pool \<Rightarrow> u64" where
  "mem_pool_available pool = pool_free_count pool"

section \<open>Blocks and the pool invariant\<close>

definition pool_blocks :: "mem_pool \<Rightarrow> addr set" where
  "pool_blocks pool = {pool_base pool + of_nat i * pool_block_size pool |i. i < unat (pool_block_count pool)}"

definition pool_geometry :: "mem_pool \<Rightarrow> bool" where
  "pool_geometry pool \<longleftrightarrow> pool_base pool \<noteq> NULL \<and> 16 dvd unat (pool_base pool) \<and>
     16 \<le> unat (pool_block_size pool) \<and> 16 dvd unat (pool_block_size pool) \<and>
     0 < unat (pool_block_count pool) \<and>
     unat (pool_base pool) + unat (pool_block_count pool) * unat (pool_block_size pool) < 2 ^ 64"

definition pool_inv :: "mem \<Rightarrow> mem_pool \<Rightarrow> addr list \<Rightarrow> bool" where
  "pool_inv m pool fl \<longleftrightarrow> pool_geometry pool \<and> llist (load_next m) (pool_free_list pool) fl \<and>
     set fl \<subseteq> pool_blocks pool \<and> length fl = unat (pool_free_count pool)"

lemma pool_upd_simps [simp]:
  "pool_geometry (pool\<lparr>pool_free_list := a\<rparr>) = pool_geometry pool"
  "pool_geometry (pool\<lparr>pool_free_count := c\<rparr>) = pool_geometry pool"
  "pool_blocks (pool\<lparr>pool_free_list := a\<rparr>) = pool_blocks pool"
  "pool_blocks (pool\<lparr>pool_free_count := c\<rparr>) = pool_blocks pool"
  by (simp_all add: pool_geometry_def pool_blocks_def)

lemma store_next_other: "a \<notin> span p 8 \<Longrightarrow> store_next m p v a = m a"
  by (simp add: store_next_def store64_other)

lemma unat_block:
  assumes "pool_geometry pool" and "i < unat (pool_block_count pool)"
  shows "unat (pool_base pool + of_nat i * pool_block_size pool) =
    unat (pool_base pool) + i * unat (pool_block_size pool)"
proof -
  have i: "unat (of_nat i :: addr) = i"
    using assms(2) by (rule unat_of_nat_lt)
  have le: "i * unat (pool_block_size pool) \<le> unat (pool_block_count pool) * unat (pool_block_size pool)"
    using assms(2) by (simp add: mult_le_mono1)
  then have lt: "unat (pool_base pool) + i * unat (pool_block_size pool) < 2 ^ 64"
    using assms(1) unfolding pool_geometry_def by linarith
  have m: "unat (of_nat i * pool_block_size pool) = i * unat (pool_block_size pool)"
    using lt i by (subst unat_mult_lem [THEN iffD1]) auto
  show ?thesis
    using lt m by (subst unat_add_nowrap) auto
qed

lemma block_inj:
  assumes "pool_geometry pool" and "i < unat (pool_block_count pool)" and "j < unat (pool_block_count pool)"
    and eq: "pool_base pool + of_nat i * pool_block_size pool = pool_base pool + of_nat j * pool_block_size pool"
  shows "i = j"
proof -
  have "unat (pool_base pool) + i * unat (pool_block_size pool) =
      unat (pool_base pool) + j * unat (pool_block_size pool)"
    unfolding unat_block [OF assms(1,2), symmetric] unat_block [OF assms(1,3), symmetric]
    by (simp only: eq)
  moreover have "0 < unat (pool_block_size pool)" using assms(1) by (simp add: pool_geometry_def)
  ultimately show ?thesis by simp
qed

text \<open>Every block has room for the link word, and the link words of two blocks are disjoint.\<close>

lemma block_span:
  assumes "pool_geometry pool" and "x \<in> pool_blocks pool"
  shows "unat x + unat (pool_block_size pool) \<le>
    unat (pool_base pool) + unat (pool_block_count pool) * unat (pool_block_size pool)"
proof -
  obtain i where i: "i < unat (pool_block_count pool)"
      "x = pool_base pool + of_nat i * pool_block_size pool"
    using assms(2) by (auto simp: pool_blocks_def)
  have "Suc i * unat (pool_block_size pool) \<le> unat (pool_block_count pool) * unat (pool_block_size pool)"
    by (rule mult_le_mono1) (use i in simp)
  then show ?thesis using unat_block [OF assms(1) i(1)] i(2) by simp
qed

lemma blocks_disjoint:
  assumes "pool_geometry pool" and "x \<in> pool_blocks pool" and "y \<in> pool_blocks pool" and "x \<noteq> y"
  shows "unat x + unat (pool_block_size pool) \<le> unat y \<or> unat y + unat (pool_block_size pool) \<le> unat x"
proof -
  obtain i j where i: "i < unat (pool_block_count pool)" "x = pool_base pool + of_nat i * pool_block_size pool"
      and j: "j < unat (pool_block_count pool)" "y = pool_base pool + of_nat j * pool_block_size pool"
    using assms(2,3) by (auto simp: pool_blocks_def)
  with assms(4) have "i < j \<or> j < i" by (metis nat_neq_iff)
  moreover have "Suc a * unat (pool_block_size pool) \<le> b * unat (pool_block_size pool)" if "a < b" for a b
    by (rule mult_le_mono1) (use that in simp)
  ultimately show ?thesis
    using unat_block [OF assms(1) i(1)] unat_block [OF assms(1) j(1)] i(2) j(2)
    by (auto simp: algebra_simps)
qed

lemma load_next_store_next_same [simp]: "load_next (store_next m p v) p = v"
  by (simp add: load_next_def store_next_def)

lemma load_next_store_next_other:
  assumes "pool_geometry pool" and "x \<in> pool_blocks pool" and "y \<in> pool_blocks pool" and "x \<noteq> y"
  shows "load_next (store_next m x v) y = load_next m y"
proof -
  have "unat x + 8 \<le> unat y \<or> unat y + 8 \<le> unat x"
    using blocks_disjoint [OF assms] assms(1) by (auto simp: pool_geometry_def)
  moreover have "unat x + 8 \<le> 2 ^ 64" "unat y + 8 \<le> 2 ^ 64"
    using block_span [OF assms(1,2)] block_span [OF assms(1,3)] assms(1)
    by (auto simp: pool_geometry_def)
  ultimately have "span x 8 \<inter> span y 8 = {}"
    using span_disjoint [of x 8 y 8] span_disjoint [of y 8 x 8] by blast
  then show ?thesis by (simp add: load_next_def store_next_def load64_store64_other)
qed

lemma llist_store_next:
  assumes "pool_geometry pool" and "set fl \<subseteq> pool_blocks pool" and "x \<in> pool_blocks pool" and "x \<notin> set fl"
  shows "llist (load_next (store_next m x v)) p fl = llist (load_next m) p fl"
  using assms by (intro lpath_cong load_next_store_next_other [OF assms(1)]) auto

lemma block_not_NULL: "pool_geometry pool \<Longrightarrow> x \<in> pool_blocks pool \<Longrightarrow> x \<noteq> NULL"
proof -
  assume g: "pool_geometry pool" and "x \<in> pool_blocks pool"
  then obtain i where i: "i < unat (pool_block_count pool)"
      "x = pool_base pool + of_nat i * pool_block_size pool"
    by (auto simp: pool_blocks_def)
  have "0 < unat (pool_base pool)" using g by (simp add: pool_geometry_def unat_gt_0)
  then have "0 < unat x" using unat_block [OF g i(1)] i(2) by simp
  then show "x \<noteq> NULL" by (simp add: unat_gt_0)
qed

lemma owns_iff_block:
  assumes "pool_geometry pool"
  shows "mem_pool_owns pool p \<longleftrightarrow> p \<in> pool_blocks pool"
proof -
  let ?b = "unat (pool_base pool)" and ?c = "unat (pool_block_count pool)"
    and ?s = "unat (pool_block_size pool)"
  have s0: "0 < ?s" and tot: "?b + ?c * ?s < 2 ^ 64" and b0: "pool_base pool \<noteq> NULL"
    using assms by (auto simp: pool_geometry_def)
  have e1: "unat (pool_block_count pool * pool_block_size pool) = ?c * ?s"
    using tot by (subst unat_mult_lem [THEN iffD1]) auto
  have e: "unat (pool_base pool + pool_block_count pool * pool_block_size pool) = ?b + ?c * ?s"
    using tot e1 by (subst unat_add_nowrap) auto
  have owns: "mem_pool_owns pool p \<longleftrightarrow>
      p \<noteq> NULL \<and> ?b \<le> unat p \<and> unat p < ?b + ?c * ?s \<and> (unat p - ?b) mod ?s = 0"
    using b0 e by (auto simp: mem_pool_owns_def Let_def word_less_nat_alt word_le_nat_alt
        unat_sub unat_mod word_unat_eq_iff split: if_splits)
  show ?thesis
  proof
    assume "mem_pool_owns pool p"
    then have o: "?b \<le> unat p" "unat p < ?b + ?c * ?s" "(unat p - ?b) mod ?s = 0"
      by (auto simp: owns)
    define i where "i = (unat p - ?b) div ?s"
    have off: "unat p - ?b = i * ?s"
      using o(3) by (simp add: i_def mod_0_imp_dvd)
    then have "i * ?s < ?c * ?s" using o by linarith
    then have i: "i < ?c" by simp
    have "unat p = unat (pool_base pool + of_nat i * pool_block_size pool)"
      using unat_block [OF assms i] off o(1) by simp
    then show "p \<in> pool_blocks pool"
      using i by (auto simp: pool_blocks_def word_unat_eq_iff)
  next
    assume p: "p \<in> pool_blocks pool"
    then obtain i where i: "i < ?c" "p = pool_base pool + of_nat i * pool_block_size pool"
      by (auto simp: pool_blocks_def)
    have "unat p = ?b + i * ?s" using unat_block [OF assms i(1)] i(2) by simp
    moreover have "i * ?s < ?c * ?s" using i(1) s0 by simp
    ultimately show "mem_pool_owns pool p"
      using block_not_NULL [OF assms p] by (simp add: owns)
  qed
qed

lemma card_pool_blocks:
  assumes "pool_geometry pool"
  shows "finite (pool_blocks pool)" and "card (pool_blocks pool) = unat (pool_block_count pool)"
proof -
  have eq: "pool_blocks pool =
      (\<lambda>i. pool_base pool + of_nat i * pool_block_size pool) ` {..<unat (pool_block_count pool)}"
    by (auto simp: pool_blocks_def)
  have "inj_on (\<lambda>i. pool_base pool + of_nat i * pool_block_size pool) {..<unat (pool_block_count pool)}"
    using block_inj [OF assms] by (auto intro!: inj_onI)
  then show "card (pool_blocks pool) = unat (pool_block_count pool)"
    unfolding eq by (subst card_image) auto
  show "finite (pool_blocks pool)" unfolding eq by simp
qed

section \<open>Each operation and the invariant\<close>

lemma clamp_align_16 [simp]: "clamp_align 16 = Some 16"
  using is_pow2_2p [of 4] by (simp add: clamp_align_def)

lemma pool_inv_length:
  assumes "pool_inv m pool fl"
  shows "length fl \<le> unat (pool_block_count pool)"
proof -
  have "length fl = card (set fl)"
    using assms llist_distinct by (metis distinct_card pool_inv_def)
  also have "\<dots> \<le> card (pool_blocks pool)"
    using assms card_pool_blocks(1) [of pool] by (intro card_mono) (auto simp: pool_inv_def)
  finally show ?thesis using assms card_pool_blocks(2) [of pool] by (simp add: pool_inv_def)
qed

lemma mem_pool_alloc_empty:
  "pool_inv m pool [] \<Longrightarrow> mem_pool_alloc m pool = (NULL, m, pool)"
  by (simp add: pool_inv_def mem_pool_alloc_def)

lemma mem_pool_alloc_Cons:
  assumes "pool_inv m pool (x # fl)"
  shows "\<exists>m' pool'. mem_pool_alloc m pool = (x, m', pool') \<and> pool_inv m' pool' fl \<and>
    pool_blocks pool' = pool_blocks pool \<and> (\<forall>a. a \<notin> span x 8 \<longrightarrow> m' a = m a)"
proof -
  from assms have g: "pool_geometry pool" and fl: "pool_free_list pool = x"
    and x: "x \<in> pool_blocks pool" "x \<noteq> NULL" and sub: "set fl \<subseteq> pool_blocks pool"
    and tl: "llist (load_next m) (load_next m x) fl"
    and len: "unat (pool_free_count pool) = Suc (length fl)"
    by (auto simp: pool_inv_def)
  have nin: "x \<notin> set fl"
    using llist_distinct [of "load_next m" x "x # fl"] assms fl by (simp add: pool_inv_def)
  have nz: "pool_free_count pool \<noteq> 0" using len by auto
  let ?pool = "pool\<lparr>pool_free_list := load_next m x, pool_free_count := pool_free_count pool - 1\<rparr>"
  have "mem_pool_alloc m pool = (x, store_next m x NULL, ?pool)"
    using fl x(2) nz by (simp add: mem_pool_alloc_def)
  moreover have "llist (load_next (store_next m x NULL)) (load_next m x) fl"
    using tl llist_store_next [OF g sub x(1) nin] by simp
  moreover have "unat (pool_free_count pool - 1) = length fl"
    using len nz by (simp add: unat_minus_one)
  ultimately show ?thesis
    using g sub by (auto simp: pool_inv_def store_next_other)
qed

lemma freelist_contains_llist:
  "llist (load_next m) it fl \<Longrightarrow> freelist_contains m it p = Some (p \<in> set fl)"
proof (induction fl arbitrary: it)
  case Nil
  then show ?case by (simp add: freelist_contains.simps)
next
  case (Cons x fl)
  then show ?case by (subst freelist_contains.simps) auto
qed

lemma mem_pool_free_reject:
  assumes "pool_inv m pool fl" and "p \<notin> pool_blocks pool"
  shows "mem_pool_free debug m pool p = Some (-1, m, pool)"
  using assms owns_iff_block [of pool p] by (auto simp: mem_pool_free_def pool_inv_def)

lemma mem_pool_free_double_debug:
  assumes "pool_inv m pool fl" and "p \<in> set fl"
  shows "mem_pool_free True m pool p = Some (-1, m, pool)"
  using assms owns_iff_block [of pool p] freelist_contains_llist [of m "pool_free_list pool" fl p]
  by (auto simp: mem_pool_free_def pool_inv_def)

lemma mem_pool_free_block:
  assumes "pool_inv m pool fl" and "p \<in> pool_blocks pool" and "p \<notin> set fl"
  shows "\<exists>m' pool'. mem_pool_free debug m pool p = Some (0, m', pool') \<and> pool_inv m' pool' (p # fl) \<and>
    pool_blocks pool' = pool_blocks pool \<and> (\<forall>a. a \<notin> span p 8 \<longrightarrow> m' a = m a)"
proof -
  from assms(1) have g: "pool_geometry pool" and l: "llist (load_next m) (pool_free_list pool) fl"
    and sub: "set fl \<subseteq> pool_blocks pool" and len: "length fl = unat (pool_free_count pool)"
    by (auto simp: pool_inv_def)
  have "card (set (p # fl)) \<le> card (pool_blocks pool)"
    using assms(2) sub card_pool_blocks(1) [OF g] by (intro card_mono) auto
  moreover have "distinct fl" using l by (rule llist_distinct)
  ultimately have lt: "Suc (length fl) \<le> unat (pool_block_count pool)"
    using assms(3) card_pool_blocks(2) [OF g] by (simp add: distinct_card)
  then have room: "\<not> pool_free_count pool \<ge> pool_block_count pool"
    using len by (simp add: word_le_nat_alt)
  have nz: "p \<noteq> NULL" using block_not_NULL [OF g assms(2)] .
  let ?pool = "pool\<lparr>pool_free_list := p, pool_free_count := pool_free_count pool + 1\<rparr>"
  have "(if debug then freelist_contains m (pool_free_list pool) p else Some False) = Some False"
    using freelist_contains_llist [OF l, of p] assms(3) by simp
  then have "mem_pool_free debug m pool p = Some (0, store_next m p (pool_free_list pool), ?pool)"
    using nz room owns_iff_block [OF g] assms(2) by (simp add: mem_pool_free_def)
  moreover have "llist (load_next (store_next m p (pool_free_list pool))) (pool_free_list pool) fl"
    using l llist_store_next [OF g sub assms(2,3)] by simp
  moreover have "unat (pool_free_count pool + 1) = Suc (length fl)"
    using lt len le_less_trans [OF lt unat_lt_2p64] by (subst unat_add_nowrap) auto
  ultimately show ?thesis
    using g sub nz assms(2) by (auto simp: pool_inv_def store_next_other)
qed

section \<open>Initialisation\<close>

lemma mem_pool_link_spec:
  assumes "pool_geometry pool" and "n \<le> unat (pool_block_count pool)"
    and "mem_pool_link m (pool_base pool) (pool_block_size pool) n = (m', head)"
  shows "llist (load_next m') head
      (rev (map (\<lambda>i. pool_base pool + of_nat i * pool_block_size pool) [0..<n]))"
  using assms(2,3)
proof (induction n arbitrary: m' head)
  case 0
  then show ?case by simp
next
  case (Suc n)
  let ?b = "\<lambda>i. pool_base pool + of_nat i * pool_block_size pool"
  obtain m1 h1 where l: "mem_pool_link m (pool_base pool) (pool_block_size pool) n = (m1, h1)"
    by force
  with Suc.prems have m': "m' = store_next m1 (?b n) h1" and h: "head = ?b n"
    by (auto simp: Let_def)
  have IH: "llist (load_next m1) h1 (rev (map ?b [0..<n]))"
    using Suc.IH [OF _ l] Suc.prems(1) by simp
  have sub: "set (rev (map ?b [0..<n])) \<subseteq> pool_blocks pool"
    using Suc.prems(1) by (auto simp: pool_blocks_def)
  have bn: "?b n \<in> pool_blocks pool" using Suc.prems(1) by (auto simp: pool_blocks_def)
  have "?b n \<noteq> ?b i" if "i < n" for i
    using block_inj [OF assms(1), of n i] Suc.prems(1) that by auto
  then have "?b n \<notin> set (rev (map ?b [0..<n]))" 
    by (metis (no_types, lifting) atLeastLessThan_iff imageE set_map set_rev set_upt)
  from llist_store_next [OF assms(1) sub bn this] IH
  show ?case using m' h block_not_NULL [OF assms(1) bn] by simp
qed

lemma align_up_16_cases:
  fixes v :: addr
  obtains (fits) "unat v + 16 \<le> 2 ^ 64" and "unat (align_up v 16) = (unat v + 15) div 16 * 16"
    | (wraps) "2 ^ 64 < unat v + 16" and "align_up v 16 = 0"
proof (cases "unat v + 16 \<le> 2 ^ 64")
  case True
  then show thesis using fits unat_align_up_2p [of 4 v] by simp
next
  case False
  have v: "unat v < 2 ^ 64" by simp
  have "unat (v + 15) = unat v + 15 - 2 ^ 64"
    using False by (simp add: unat_plus_if')
  then have "unat (v + 15) < 16" using v by linarith
  then have "unat ((v + 15) AND NOT (mask 4)) = 0"
    by (simp only: unat_and_not_mask) simp
  then have "align_up v 16 = 0"
    by (simp add: align_up_def mask_eq_decr_exp unat_eq_zero add.commute)
  then show thesis using wraps False by simp
qed

text \<open>The block size and the offset of the first block, as the code rounds them to 16.\<close>

definition up16 :: "nat \<Rightarrow> nat" where
  "up16 n = (n + 15) div 16 * 16"

lemma up16_bounds: "n \<le> up16 n" "up16 n < n + 16" "16 dvd up16 n"
  using round_up_div_bounds [of 16 n] by (simp_all add: up16_def)

lemma mem_pool_init_success:
  assumes "unat backing + unat backing_size < 2 ^ 64" and "backing \<noteq> NULL" and "8 \<le> unat block_size"
    and fit: "up16 (unat backing) - unat backing + up16 (unat block_size) \<le> unat backing_size"
  shows "\<exists>m' pool' fl. mem_pool_init m pool backing backing_size block_size = Some (0, m', pool') \<and>
    pool_inv m' pool' fl \<and> set fl = pool_blocks pool' \<and>
    unat (pool_base pool') = up16 (unat backing) \<and>
    unat (pool_block_size pool') = up16 (unat block_size) \<and>
    unat (pool_block_count pool') =
      (unat backing_size - (up16 (unat backing) - unat backing)) div up16 (unat block_size) \<and>
    pool_free_count pool' = pool_block_count pool'"
proof -
  note bb = up16_bounds [of "unat backing"] and bs = up16_bounds [of "unat block_size"]
  have "16 \<le> up16 (unat block_size)"
    by (rule dvd_imp_le [OF bs(3)]) (use bs(1) assms(3) in linarith)
  then have "unat backing + 16 \<le> 2 ^ 64" using fit assms(1) by linarith
  then have al: "unat (align_up backing 16) = up16 (unat backing)"
    by (cases backing rule: align_up_16_cases) (auto simp: up16_def)
  have "unat block_size + 16 \<le> 2 ^ 64"
  proof -
    obtain q where q: "up16 (unat block_size) = 16 * q" using bs(3) by (elim dvdE)
    have "up16 (unat block_size) < 2 ^ 64" using fit assms(1) by linarith
    then have "16 * q + 16 \<le> 2 ^ 64" using q by simp
    then show ?thesis using bs(1) q by linarith
  qed
  then have blk: "unat (align_up block_size 16) = up16 (unat block_size)"
    by (cases block_size rule: align_up_16_cases) (auto simp: up16_def)
  have lost: "unat (align_up backing 16 - backing) = up16 (unat backing) - unat backing"
    using al bb(1) by (simp add: unat_sub word_le_nat_alt)
  have us: "unat (backing_size - (align_up backing 16 - backing)) =
      unat backing_size - (up16 (unat backing) - unat backing)"
    using lost fit by (simp add: unat_sub word_le_nat_alt)
  define count where "count = (backing_size - (align_up backing 16 - backing)) div align_up block_size 16"
  have cnt: "unat count =
      (unat backing_size - (up16 (unat backing) - unat backing)) div up16 (unat block_size)"
    by (simp add: count_def unat_div us blk)
  have c0: "0 < unat count"
    unfolding cnt using fit bs assms(3) by (intro div_greater_zero_iff [THEN iffD2]) linarith
  have tot: "unat count * up16 (unat block_size) \<le> unat backing_size - (up16 (unat backing) - unat backing)"
    unfolding cnt by (rule div_times_less_eq_dividend)
  obtain m' head where link: "mem_pool_link m (align_up backing 16) (align_up block_size 16) (unat count) = (m', head)"
    by force
  define pool' where "pool' = \<lparr>pool_base = align_up backing 16, pool_block_size = align_up block_size 16,
      pool_block_count = count, pool_free_list = head, pool_free_count = count\<rparr>"
  have "0 < unat backing" using assms(2) by (simp add: unat_gt_0)
  then have "0 < unat (align_up backing 16)" using al bb(1) by simp
  then have "align_up backing 16 \<noteq> NULL" by (simp add: unat_gt_0)
  moreover have "up16 (unat backing) + unat count * up16 (unat block_size) < 2 ^ 64"
    using tot fit bb(1) assms(1) by linarith
  ultimately have g: "pool_geometry pool'"
    using al blk bb(3) bs(3) c0 \<open>16 \<le> up16 (unat block_size)\<close>
    by (simp add: pool_geometry_def pool'_def)
  let ?fl = "rev (map (\<lambda>i. pool_base pool' + of_nat i * pool_block_size pool') [0..<unat count])"
  have "llist (load_next m') head ?fl"
    using mem_pool_link_spec [OF g, of "unat count" m m' head] link by (simp add: pool'_def)
  then have inv: "pool_inv m' pool' ?fl"
    using g by (auto simp: pool_inv_def pool_blocks_def pool'_def)
  have fl: "set ?fl = pool_blocks pool'" by (auto simp: pool_blocks_def pool'_def)
  have "mem_pool_init m pool backing backing_size block_size = Some (0, m', pool')"
  proof -
    have "\<not> align_up backing 16 < backing" using al bb(1) by (simp add: word_less_nat_alt)
    moreover have "\<not> align_up backing 16 - backing \<ge> backing_size"
      using lost fit bs assms(3) by (simp add: word_le_nat_alt)
    moreover have "align_up block_size 16 \<noteq> 0" using blk bs(1) assms(3) by (auto simp: word_unat_eq_iff)
    moreover have "count \<noteq> 0" using c0 by auto
    moreover have "backing_size \<noteq> 0" "\<not> block_size < 8" "block_size \<noteq> 0"
      using fit bs assms(3) by (auto simp: word_unat_eq_iff word_less_nat_alt)
    ultimately show ?thesis
      using assms(2) link by (simp add: mem_pool_init_def Let_def pool'_def count_def)
  qed
  with inv fl al blk cnt show ?thesis
    by (intro exI [of _ m'] exI [of _ pool'] exI [of _ ?fl]) (simp add: pool'_def)
qed

lemma mem_pool_init_failure:
  assumes "backing = NULL \<or> unat block_size < 8 \<or>
    unat backing_size < up16 (unat backing) - unat backing + up16 (unat block_size)"
  shows "mem_pool_init m pool backing backing_size block_size = Some (-1, m, pool)"
proof (cases "backing = NULL \<or> unat block_size < 8")
  case True
  then show ?thesis by (auto simp: mem_pool_init_def word_less_nat_alt)
next
  case False
  with assms have nofit: "unat backing_size < up16 (unat backing) - unat backing + up16 (unat block_size)"
    by auto
  note bb = up16_bounds [of "unat backing"] and bs = up16_bounds [of "unat block_size"]
  let ?al = "align_up backing 16" and ?blk = "align_up block_size 16"
  have *: "?al < backing \<or> ?al - backing \<ge> backing_size \<or> ?blk = 0 \<or>
      (backing_size - (?al - backing)) div ?blk = 0"
  proof (rule ccontr)
    assume "\<not> ?thesis"
    then have ge: "\<not> ?al < backing" "\<not> ?al - backing \<ge> backing_size" and b0: "?blk \<noteq> 0"
      and q0: "(backing_size - (?al - backing)) div ?blk \<noteq> 0" by auto
    have al: "unat ?al = up16 (unat backing)"
      using ge(1) False by (cases backing rule: align_up_16_cases)
        (auto simp: up16_def word_less_nat_alt unat_gt_0)
    have blk: "unat ?blk = up16 (unat block_size)"
      using b0 by (cases block_size rule: align_up_16_cases) (auto simp: up16_def)
    have lost: "unat (?al - backing) = up16 (unat backing) - unat backing"
      using al ge(1) by (simp add: unat_sub not_less)
    have us: "unat (backing_size - (?al - backing)) = unat backing_size - (up16 (unat backing) - unat backing)"
      using ge(2) lost by (simp add: unat_sub not_le)
    have "unat (backing_size - (?al - backing)) div unat ?blk \<noteq> 0"
      using q0 by (metis unat_div unat_eq_zero)
    then have "unat ?blk \<le> unat (backing_size - (?al - backing))" by (metis div_less not_le)
    moreover have "up16 (unat backing) - unat backing < unat backing_size"
      using ge(2) lost by (simp add: word_le_nat_alt)
    ultimately show False using us blk nofit by simp
  qed
  from False have "\<not> block_size < 8" by (simp add: word_less_nat_alt)
  with * show ?thesis
    by (auto simp: mem_pool_init_def Let_def split: prod.splits)
qed

section \<open>The pool contract\<close>

text \<open>
  A run of the pool as its clients drive it: \<open>live\<close> are the blocks handed out and not yet
  returned; a client only returns a block it holds.
\<close>

inductive pool_run ::
  "('s \<Rightarrow> addr \<times> 's) \<Rightarrow> ('s \<Rightarrow> addr \<Rightarrow> (int \<times> 's) option) \<Rightarrow> 's \<Rightarrow> 's \<Rightarrow> addr list \<Rightarrow> bool"
  for alloc release s0 where
  start: "pool_run alloc release s0 s0 []"
| grant: "pool_run alloc release s0 s live \<Longrightarrow> alloc s = (p, s') \<Longrightarrow> p \<noteq> NULL \<Longrightarrow>
    pool_run alloc release s0 s' (p # live)"
| exhausted: "pool_run alloc release s0 s live \<Longrightarrow> alloc s = (NULL, s') \<Longrightarrow>
    pool_run alloc release s0 s' live"
| return: "pool_run alloc release s0 s live \<Longrightarrow> p \<in> set live \<Longrightarrow> release s p = Some (r, s') \<Longrightarrow>
    pool_run alloc release s0 s' (remove1 p live)"

locale block_pool =
  fixes alloc :: "'s \<Rightarrow> addr \<times> 's"
    and release :: "'s \<Rightarrow> addr \<Rightarrow> (int \<times> 's) option"
    and blocks :: "'s \<Rightarrow> addr set"
    and avail :: "'s \<Rightarrow> addr set"
    and invar :: "'s \<Rightarrow> bool"
  assumes alloc_exhausted: "invar s \<Longrightarrow> avail s = {} \<Longrightarrow> alloc s = (NULL, s)"
    and alloc_grant: "invar s \<Longrightarrow> avail s \<noteq> {} \<Longrightarrow>
      \<exists>p s'. alloc s = (p, s') \<and> p \<noteq> NULL \<and> p \<in> avail s \<and> invar s' \<and>
        blocks s' = blocks s \<and> avail s' = avail s - {p}"
    and release_live: "invar s \<Longrightarrow> p \<in> blocks s \<Longrightarrow> p \<notin> avail s \<Longrightarrow>
      \<exists>s'. release s p = Some (0, s') \<and> invar s' \<and> blocks s' = blocks s \<and>
        avail s' = insert p (avail s)"
    and release_foreign: "invar s \<Longrightarrow> p \<notin> blocks s \<Longrightarrow> release s p = Some (-1, s)"
    and avail_blocks: "invar s \<Longrightarrow> avail s \<subseteq> blocks s"
begin

text \<open>Blocks in use and blocks on the free list partition the pool in every run.\<close>

lemma run_partition:
  assumes "pool_run alloc release s0 s live" and "invar s0" and "avail s0 = blocks s0"
  shows "invar s \<and> blocks s = blocks s0 \<and> distinct live \<and> set live = blocks s0 - avail s"
  using assms
proof (induction rule: pool_run.induct)
  case start
  then show ?case by simp
next
  case (grant s live p s')
  then have IH: "invar s" "blocks s = blocks s0" "distinct live" "set live = blocks s0 - avail s"
    by auto
  have "avail s \<noteq> {}" using alloc_exhausted [OF IH(1)] grant.hyps by auto
  then have "p \<in> avail s \<and> invar s' \<and> blocks s' = blocks s \<and> avail s' = avail s - {p}"
    using alloc_grant [OF IH(1)] grant.hyps by auto
  then show ?case using IH avail_blocks [OF IH(1)] by auto
next
  case (exhausted s live s')
  then have "invar s" by simp
  then have "s' = s"
    using alloc_exhausted alloc_grant exhausted.hyps by (metis prod.inject)
  with exhausted show ?case by simp
next
  case (return s live p r s')
  then have IH: "invar s" "blocks s = blocks s0" "distinct live" "set live = blocks s0 - avail s"
    by auto
  then have "p \<in> blocks s" "p \<notin> avail s" using return.hyps by auto
  from release_live [OF IH(1) this]
  have "invar s' \<and> blocks s' = blocks s \<and> avail s' = insert p (avail s)"
    using return.hyps by auto
  then show ?case using IH return.hyps by auto
qed

end

text \<open>The pool of the code as such an object: its memory and its structure.\<close>

definition pool_alloc_st :: "mem \<times> mem_pool \<Rightarrow> addr \<times> mem \<times> mem_pool" where
  "pool_alloc_st s = mem_pool_alloc (fst s) (snd s)"

definition pool_free_st :: "bool \<Rightarrow> mem \<times> mem_pool \<Rightarrow> addr \<Rightarrow> (int \<times> mem \<times> mem_pool) option" where
  "pool_free_st debug s p = mem_pool_free debug (fst s) (snd s) p"

definition pool_ok :: "mem \<times> mem_pool \<Rightarrow> bool" where
  "pool_ok s \<longleftrightarrow> (\<exists>fl. pool_inv (fst s) (snd s) fl)"

definition pool_avail :: "mem \<times> mem_pool \<Rightarrow> addr set" where
  "pool_avail s = {x. \<exists>fl. llist (load_next (fst s)) (pool_free_list (snd s)) fl \<and> x \<in> set fl}"

lemma pool_avail_eq: "pool_inv m pool fl \<Longrightarrow> pool_avail (m, pool) = set fl"
  using llist_unique by (auto simp: pool_avail_def pool_inv_def)

interpretation thread_pool: block_pool pool_alloc_st "pool_free_st debug"
  "\<lambda>s. pool_blocks (snd s)" pool_avail pool_ok for debug
proof
  fix s :: "mem \<times> mem_pool"
  assume "pool_ok s"
  then obtain m pool fl where s: "s = (m, pool)" and inv: "pool_inv m pool fl"
    by (cases s) (auto simp: pool_ok_def)
  note av = pool_avail_eq [OF inv]
  show "pool_avail s \<subseteq> pool_blocks (snd s)" using av inv s by (simp add: pool_inv_def)
  show "pool_alloc_st s = (NULL, s)" if "pool_avail s = {}"
    using that av inv s mem_pool_alloc_empty [of m pool] by (simp add: pool_alloc_st_def)
  show "\<exists>p s'. pool_alloc_st s = (p, s') \<and> p \<noteq> NULL \<and> p \<in> pool_avail s \<and> pool_ok s' \<and>
      pool_blocks (snd s') = pool_blocks (snd s) \<and> pool_avail s' = pool_avail s - {p}"
    if "pool_avail s \<noteq> {}"
  proof -
    from that av s obtain x xs where fl: "fl = x # xs" by (cases fl) auto
    obtain m' pool' where r: "mem_pool_alloc m pool = (x, m', pool')" "pool_inv m' pool' xs"
        "pool_blocks pool' = pool_blocks pool"
      using mem_pool_alloc_Cons inv fl by blast
    have "x \<notin> set xs" "x \<noteq> NULL"
      using inv fl llist_distinct [of _ _ "x # xs"] by (auto simp: pool_inv_def)
    then show ?thesis
      using r s av fl pool_avail_eq [OF r(2)]
      by (intro exI [of _ x] exI [of _ "(m', pool')"]) (auto simp: pool_alloc_st_def pool_ok_def)
  qed
  fix p
  show "pool_free_st debug s p = Some (-1, s)" if "p \<notin> pool_blocks (snd s)"
    using mem_pool_free_reject [OF inv] that s by (simp add: pool_free_st_def)
  show "\<exists>s'. pool_free_st debug s p = Some (0, s') \<and> pool_ok s' \<and>
      pool_blocks (snd s') = pool_blocks (snd s) \<and> pool_avail s' = insert p (pool_avail s)"
    if p: "p \<in> pool_blocks (snd s)" "p \<notin> pool_avail s"
  proof -
    have "p \<in> pool_blocks pool" "p \<notin> set fl" using p s av by auto
    then obtain m' pool' where r: "mem_pool_free debug m pool p = Some (0, m', pool')"
        "pool_inv m' pool' (p # fl)" "pool_blocks pool' = pool_blocks pool"
      using mem_pool_free_block [OF inv] by blast
    then show ?thesis
      using s av pool_avail_eq [OF r(2)]
      by (intro exI [of _ "(m', pool')"]) (auto simp: pool_free_st_def pool_ok_def)
  qed
qed

section \<open>Properties\<close>

text \<open>
  \<^verbatim>\<open>mem_pool_init\<close> always returns. It accepts exactly the regions in which, after rounding
  the start and the block size up to 16, at least one block fits; then the free list holds
  exactly the blocks that tile the rest of the region, as many as fit. Otherwise it returns -1
  and changes neither the memory nor the structure.
\<close>

lemma mem_pool_init_correct:
  assumes "unat backing + unat backing_size < 2 ^ 64"
  shows "if backing \<noteq> NULL \<and> 8 \<le> unat block_size \<and>
       up16 (unat backing) - unat backing + up16 (unat block_size) \<le> unat backing_size
     then \<exists>m' pool' fl. mem_pool_init m pool backing backing_size block_size = Some (0, m', pool') \<and>
       pool_inv m' pool' fl \<and> set fl = pool_blocks pool' \<and>
       unat (pool_base pool') = up16 (unat backing) \<and>
       unat (pool_block_size pool') = up16 (unat block_size) \<and>
       unat (pool_block_count pool') =
         (unat backing_size - (up16 (unat backing) - unat backing)) div up16 (unat block_size) \<and>
       pool_free_count pool' = pool_block_count pool'
     else mem_pool_init m pool backing backing_size block_size = Some (-1, m, pool)"
  using mem_pool_init_success [OF assms, of block_size m pool]
    mem_pool_init_failure [of backing block_size backing_size m pool]
  by (simp only: split: if_split) (meson not_le)

lemma mem_pool_init_correct_example:
  "\<exists>m' pool' fl. mem_pool_init (\<lambda>_. 0) \<lparr>pool_base = 0, pool_block_size = 0, pool_block_count = 0,
       pool_free_list = 0, pool_free_count = 0\<rparr> 0x40090008 100 24 = Some (0, m', pool') \<and>
     pool_inv m' pool' fl \<and> set fl = pool_blocks pool' \<and> unat (pool_block_count pool') = 2"
  using mem_pool_init_correct [of "0x40090008" "100" "24" "\<lambda>_. 0" "\<lparr>pool_base = 0, pool_block_size = 0,
       pool_block_count = 0, pool_free_list = 0, pool_free_count = 0\<rparr>"]
  by (simp add: up16_def) blast

text \<open>
  C14: from a freshly initialised pool, however the clients interleave allocations and returns
  of blocks they hold, the blocks in use are pairwise different, do not overlap, and together
  with the free blocks make up the whole pool; nothing is lost and nothing is handed out twice.
\<close>

theorem mem_pool_live_blocks:
  assumes "pool_inv m0 pool0 fl" and "set fl = pool_blocks pool0"
    and "pool_run pool_alloc_st (pool_free_st debug) (m0, pool0) s live"
  shows "distinct live \<and> set live = pool_blocks pool0 - pool_avail s \<and>
    (\<forall>x \<in> set live. \<forall>y \<in> set live. x \<noteq> y \<longrightarrow>
       region x (unat (pool_block_size pool0)) \<inter> region y (unat (pool_block_size pool0)) = {})"
proof -
  have "pool_ok (m0, pool0)" "pool_avail (m0, pool0) = pool_blocks pool0"
    using assms(1,2) pool_avail_eq [OF assms(1)] by (auto simp: pool_ok_def)
  then have part: "distinct live" "set live = pool_blocks pool0 - pool_avail s"
    using thread_pool.run_partition [OF assms(3)] by auto
  have "pool_geometry pool0" using assms(1) by (simp add: pool_inv_def)
  note dis = blocks_disjoint [OF this]
  have "region x (unat (pool_block_size pool0)) \<inter> region y (unat (pool_block_size pool0)) = {}"
    if "x \<in> set live" "y \<in> set live" "x \<noteq> y" for x y
    using dis [of x y] that part(2) region_disjointI [of x _ y] region_disjointI [of y _ x] by blast
  with part show ?thesis by blast
qed

text \<open>A concrete pool of two 16-byte blocks, linked as \<^verbatim>\<open>mem_pool_init\<close> leaves it.\<close>

definition demo_mem :: mem where
  "demo_mem = fst (mem_pool_link (\<lambda>_. 0) 0x1000 16 2)"

definition demo_pool :: mem_pool where
  "demo_pool = \<lparr>pool_base = 0x1000, pool_block_size = 16, pool_block_count = 2,
     pool_free_list = 0x1010, pool_free_count = 2\<rparr>"

lemma demo_pool_geometry: "pool_geometry demo_pool"
  by (simp add: pool_geometry_def demo_pool_def)

lemma demo_pool_blocks: "pool_blocks demo_pool = {0x1000, 0x1010}"
proof -
  have "{..<2 :: nat} = {0, 1}" by auto
  then have "(\<lambda>i. 0x1000 + of_nat i * 16 :: addr) ` {..<2} = {0x1000, 0x1010}" by simp
  then show ?thesis by (auto simp: pool_blocks_def demo_pool_def)
qed

lemma demo_pool_inv: "pool_inv demo_mem demo_pool [0x1010, 0x1000]"
proof -
  have "mem_pool_link (\<lambda>_. 0) (pool_base demo_pool) (pool_block_size demo_pool) 2 = (demo_mem, 0x1010)"
    by (simp add: demo_mem_def demo_pool_def numeral_2_eq_2 Let_def split: prod.splits)
  from mem_pool_link_spec [OF demo_pool_geometry _ this]
  have "llist (load_next demo_mem) 0x1010 [0x1010, 0x1000]"
    by (simp add: demo_pool_def upt_rec)
  then show ?thesis
    using demo_pool_geometry demo_pool_blocks by (simp add: pool_inv_def) (simp add: demo_pool_def)
qed

theorem mem_pool_live_blocks_witness:
  "\<exists>s. distinct [0x1010 :: addr] \<and> set [0x1010] = pool_blocks demo_pool - pool_avail s \<and>
    (\<forall>x \<in> set [0x1010 :: addr]. \<forall>y \<in> set [0x1010]. x \<noteq> y \<longrightarrow>
       region x (unat (pool_block_size demo_pool)) \<inter> region y (unat (pool_block_size demo_pool)) = {})"
proof -
  obtain m' pool' where a: "mem_pool_alloc demo_mem demo_pool = (0x1010, m', pool')"
    using mem_pool_alloc_Cons [OF demo_pool_inv] by blast
  have "pool_run pool_alloc_st (pool_free_st False) (demo_mem, demo_pool) (m', pool') [0x1010]"
    by (rule pool_run.grant [OF pool_run.start]) (simp_all add: pool_alloc_st_def a)
  moreover have "set [0x1010, 0x1000] = pool_blocks demo_pool"
    by (auto simp: demo_pool_blocks)
  ultimately show ?thesis
    using mem_pool_live_blocks [OF demo_pool_inv] by blast
qed

text \<open>
  Returning the block at the head of the free list again is not detected without
  \<^verbatim>\<open>MEM_POOL_DEBUG\<close> while some block is in use: the call reports success, and the next two
  allocations both hand out that block.
\<close>

lemma mem_pool_double_free_aliases:
  assumes "pool_inv m pool (p # fl)" and "pool_free_count pool < pool_block_count pool"
  shows "\<exists>m1 pool1 m2 pool2 m3 pool3. mem_pool_free False m pool p = Some (0, m1, pool1) \<and>
    mem_pool_alloc m1 pool1 = (p, m2, pool2) \<and> mem_pool_alloc m2 pool2 = (p, m3, pool3)"
proof -
  have g: "pool_geometry pool" and p: "p \<in> pool_blocks pool" "p \<noteq> NULL"
    and h: "pool_free_list pool = p"
    using assms(1) by (auto simp: pool_inv_def)
  have f: "mem_pool_free False m pool p = Some (0, store_next m p p,
      pool\<lparr>pool_free_list := p, pool_free_count := pool_free_count pool + 1\<rparr>)"
    using p h assms(2) owns_iff_block [OF g, of p] by (simp add: mem_pool_free_def not_le)
  show ?thesis
    unfolding f using p by (simp add: mem_pool_alloc_def Let_def)
qed

lemma mem_pool_double_free_aliases_example:
  "\<exists>m pool m1 pool1 m2 pool2 m3 pool3. pool_free_count pool < pool_block_count pool \<and>
    mem_pool_free False m pool 0x1000 = Some (0, m1, pool1) \<and>
    mem_pool_alloc m1 pool1 = (0x1000, m2, pool2) \<and> mem_pool_alloc m2 pool2 = (0x1000, m3, pool3)"
proof -
  obtain m pool where a: "mem_pool_alloc demo_mem demo_pool = (0x1010, m, pool)"
      and inv: "pool_inv m pool [0x1000]"
    using mem_pool_alloc_Cons [OF demo_pool_inv] by blast
  have lt: "pool_free_count pool < pool_block_count pool"
    using a by (auto simp: mem_pool_alloc_def demo_pool_def Let_def)
  from mem_pool_double_free_aliases [OF inv lt] lt show ?thesis by blast
qed

end
