(* ===== verification/Uart.thy ===== *)
theory Uart
  imports Prelude
begin

text \<open>
  The PL011 driver (\<^verbatim>\<open>src/drivers/uart_pl011.cc\<close>, \<^verbatim>\<open>uart_pl011.h\<close>) and the hexadecimal printer
  that \<^verbatim>\<open>kmain.cc\<close>, \<^verbatim>\<open>dma.cc\<close>, \<^verbatim>\<open>mmu.cc\<close> and the labs each repeat. The device registers are
  hardware: the value of the flag register at its \<open>n\<close>-th read is the parameter \<open>fr\<close>, and the
  driver's effect is the trace of its 32-bit register writes. A poll loop on the flag register
  is a \<open>partial_function\<close>: it returns only if the device drains its transmit FIFO.
\<close>

section \<open>Model\<close>

record uart =
  g_uart_base :: u64
  g_uart_clock_hz :: u32
  uart_polls :: nat
  uart_writes :: "(u64 \<times> u32) list"

definition UARTDR :: u64 where "UARTDR = 0x00"
definition UARTFR :: u64 where "UARTFR = 0x18"
definition UARTIBRD :: u64 where "UARTIBRD = 0x24"
definition UARTFBRD :: u64 where "UARTFBRD = 0x28"
definition UARTLCR_H :: u64 where "UARTLCR_H = 0x2C"
definition UARTCR :: u64 where "UARTCR = 0x30"
definition UARTIMSC :: u64 where "UARTIMSC = 0x38"

definition mmio_write :: "u64 \<Rightarrow> u32 \<Rightarrow> uart \<Rightarrow> uart" where
  "mmio_write addr val u = u\<lparr>uart_writes := uart_writes u @ [(addr, val)]\<rparr>"

definition uart_pl011_set_mmio_base :: "u64 \<Rightarrow> uart \<Rightarrow> uart" where
  "uart_pl011_set_mmio_base base u = u\<lparr>g_uart_base := base\<rparr>"

definition uart_pl011_set_clock_hz :: "u32 \<Rightarrow> uart \<Rightarrow> uart" where
  "uart_pl011_set_clock_hz hz u = u\<lparr>g_uart_clock_hz := hz\<rparr>"

definition uart_bauddiv_x64 :: "u32 \<Rightarrow> u64" where
  "uart_bauddiv_x64 uartclk = (ucast uartclk * 4 + 115200 div 2) div 115200"

definition uart_init :: "uart \<Rightarrow> uart" where
  "uart_init u =
     (let base = g_uart_base u;
          uartclk = (if g_uart_clock_hz u \<noteq> 0 then g_uart_clock_hz u else 24000000);
          u = mmio_write (base + UARTCR) 0 u;
          u = mmio_write (base + UARTIMSC) 0 u;
          bauddiv_x64 = uart_bauddiv_x64 uartclk;
          ibrd = ucast (bauddiv_x64 div 64) :: u32;
          fbrd = ucast (bauddiv_x64 mod 64) :: u32;
          ibrd = (if ibrd = 0 then 1 else ibrd);
          u = mmio_write (base + UARTIBRD) ibrd u;
          u = mmio_write (base + UARTFBRD) fbrd u;
          u = mmio_write (base + UARTLCR_H) (push_bit 4 1 OR push_bit 5 3) u
      in mmio_write (base + UARTCR) (push_bit 0 1 OR push_bit 8 1 OR push_bit 9 1) u)"

text \<open>Poll until the transmit FIFO is not full; the result is the number of reads done so far.\<close>

partial_function (option) uart_wait :: "(nat \<Rightarrow> u32) \<Rightarrow> nat \<Rightarrow> nat option" where
  "uart_wait fr n = (if fr n AND 0x20 \<noteq> 0 then uart_wait fr (Suc n) else Some (Suc n))"

definition uart_putc :: "(nat \<Rightarrow> u32) \<Rightarrow> char \<Rightarrow> uart \<Rightarrow> uart option" where
  "uart_putc fr c u = do {
     n \<leftarrow> uart_wait fr (uart_polls u);
     Some (mmio_write (g_uart_base u + UARTDR) (of_char c) (u\<lparr>uart_polls := n\<rparr>))
   }"

abbreviation newline :: char where "newline \<equiv> CHR 0x0A"
abbreviation carriage_return :: char where "carriage_return \<equiv> CHR 0x0D"

text \<open>The C string is its characters up to the terminating zero.\<close>

primrec uart_puts :: "(nat \<Rightarrow> u32) \<Rightarrow> string \<Rightarrow> uart \<Rightarrow> uart option" where
  "uart_puts fr [] u = Some u"
| "uart_puts fr (c # s) u = do {
     u \<leftarrow> (if c = newline then uart_putc fr carriage_return u else Some u);
     u \<leftarrow> uart_putc fr c u;
     uart_puts fr s u
   }"

text \<open>The digit loops: \<^verbatim>\<open>buf\<close> collects the digits from the least significant one.\<close>

function print_digits :: "u64 \<Rightarrow> nat \<Rightarrow> string \<Rightarrow> string" where
  "print_digits v i buf =
     (if v > 0 \<and> i < 31 then print_digits (v div 10) (Suc i) (buf @ [char_of (48 + unat (v mod 10))])
      else buf)"
  by pat_completeness auto
termination by (relation "measure (\<lambda>(v, i, buf). 31 - i)") auto

definition uart_print_u64 :: "u64 \<Rightarrow> string" where
  "uart_print_u64 v = (if v = 0 then ''0'' else rev (print_digits v 0 []))"

definition kHexDigits :: string where
  "kHexDigits = ''0123456789abcdef''"

function hex_digits :: "u64 \<Rightarrow> nat \<Rightarrow> string \<Rightarrow> string" where
  "hex_digits v i buf =
     (if v \<noteq> 0 \<and> i < 16 then hex_digits (drop_bit 4 v) (Suc i) (buf @ [kHexDigits ! unat (v AND 0xF)])
      else buf)"
  by pat_completeness auto
termination by (relation "measure (\<lambda>(v, i, buf). 16 - i)") auto

definition puthex64 :: "u64 \<Rightarrow> string" where
  "puthex64 v = (if v = 0 then ''0'' else rev (hex_digits v 0 []))"

function hex_digits32 :: "u32 \<Rightarrow> nat \<Rightarrow> string \<Rightarrow> string" where
  "hex_digits32 v i buf =
     (if v \<noteq> 0 \<and> i < 8 then hex_digits32 (drop_bit 4 v) (Suc i) (buf @ [kHexDigits ! unat (v AND 0xF)])
      else buf)"
  by pat_completeness auto
termination by (relation "measure (\<lambda>(v, i, buf). 8 - i)") auto

definition puthex32 :: "u32 \<Rightarrow> string" where
  "puthex32 v = (if v = 0 then ''0'' else rev (hex_digits32 v 0 []))"

declare print_digits.simps [simp del] hex_digits.simps [simp del] hex_digits32.simps [simp del]

section \<open>What reaches the wire\<close>

text \<open>The bytes a terminal receives for a string: every newline becomes carriage return, newline.\<close>

fun crlf :: "string \<Rightarrow> string" where
  "crlf [] = []"
| "crlf (c # s) = (if c = newline then [carriage_return, newline] else [c]) @ crlf s"

text \<open>The transmit FIFO never stays full for ever.\<close>

definition uart_drains :: "(nat \<Rightarrow> u32) \<Rightarrow> bool" where
  "uart_drains fr \<longleftrightarrow> (\<forall>n. \<exists>k\<ge>n. fr k AND 0x20 = 0)"

lemma uart_wait_returns:
  assumes "uart_drains fr"
  shows "\<exists>k. uart_wait fr n = Some k"
proof -
  obtain k where k: "n \<le> k" "fr k AND 0x20 = 0" using assms by (auto simp: uart_drains_def)
  from k(1) show ?thesis
  proof (induction n rule: inc_induct)
    case base
    show ?case using k(2) by (simp add: uart_wait.simps)
  next
    case (step n)
    then show ?case by (simp add: uart_wait.simps [of fr n])
  qed
qed

lemma uart_putc_writes:
  assumes "uart_drains fr"
  obtains n where "uart_putc fr c u =
    Some (u\<lparr>uart_polls := n, uart_writes := uart_writes u @ [(g_uart_base u, of_char c)]\<rparr>)"
  using uart_wait_returns [OF assms, of "uart_polls u"] that
  by (auto simp: uart_putc_def mmio_write_def UARTDR_def)

lemma uart_puts_writes:
  assumes "uart_drains fr"
  shows "\<exists>n. uart_puts fr s u = Some (u\<lparr>uart_polls := n,
    uart_writes := uart_writes u @ map (\<lambda>c. (g_uart_base u, of_char c)) (crlf s)\<rparr>)"
proof (induction s arbitrary: u)
  case Nil
  show ?case by (auto intro: exI [of _ "uart_polls u"])
next
  case (Cons c s)
  show ?case
  proof (cases "c = newline")
    case True
    obtain n where n: "uart_putc fr carriage_return u = Some (u\<lparr>uart_polls := n,
        uart_writes := uart_writes u @ [(g_uart_base u, of_char carriage_return)]\<rparr>)" (is "_ = Some ?u1")
      by (rule uart_putc_writes [OF assms, of carriage_return u])
    obtain n' where n': "uart_putc fr c ?u1 = Some (?u1\<lparr>uart_polls := n',
        uart_writes := uart_writes ?u1 @ [(g_uart_base ?u1, of_char c)]\<rparr>)" (is "_ = Some ?u2")
      by (rule uart_putc_writes [OF assms, of c ?u1])
    show ?thesis using Cons.IH [of ?u2] n n' True by simp
  next
    case False
    obtain n where n: "uart_putc fr c u = Some (u\<lparr>uart_polls := n,
        uart_writes := uart_writes u @ [(g_uart_base u, of_char c)]\<rparr>)" (is "_ = Some ?u1")
      by (rule uart_putc_writes [OF assms, of c u])
    show ?thesis using Cons.IH [of ?u1] n False by simp
  qed
qed

section \<open>Reading numbers back\<close>

definition digit_value :: "char \<Rightarrow> nat" where
  "digit_value c = (if of_char c < (58 :: nat) then of_char c - 48 else of_char c - 87)"

text \<open>The value of a digit string in base \<open>b\<close>, most significant digit first.\<close>

definition number_value :: "nat \<Rightarrow> string \<Rightarrow> nat" where
  "number_value b s = foldl (\<lambda>n c. n * b + digit_value c) 0 s"

fun le_value :: "nat \<Rightarrow> string \<Rightarrow> nat" where
  "le_value b [] = 0"
| "le_value b (c # s) = digit_value c + b * le_value b s"

lemma number_value_rev: "number_value b (rev s) = le_value b s"
  by (induction s) (auto simp: number_value_def mult.commute)

lemma digit_value_dec: "d < 10 \<Longrightarrow> digit_value (char_of (48 + d)) = d"
  by (simp add: digit_value_def of_char_of)

lemma digit_value_hex: "d < 16 \<Longrightarrow> digit_value (kHexDigits ! d) = d"
proof -
  assume "d < 16"
  moreover have "\<forall>d \<in> set [0..<16]. digit_value (kHexDigits ! d) = d" by code_simp
  ultimately show ?thesis by simp
qed

lemma le_value_append: "le_value b (s @ t) = le_value b s + b ^ length s * le_value b t"
  by (induction s) (auto simp: algebra_simps)

lemma print_digits_value:
  assumes "unat v < 10 ^ (31 - i)" and "length buf = i" and "i \<le> 31"
  shows "le_value 10 (print_digits v i buf) = le_value 10 buf + 10 ^ i * unat v"
  using assms
proof (induction v i buf rule: print_digits.induct)
  case (1 v i buf)
  show ?case
  proof (cases "v > 0 \<and> i < 31")
    case True
    have q: "unat (v div 10) = unat v div 10" and r: "unat (v mod 10) = unat v mod 10"
      by (simp_all add: unat_div unat_mod)
    have "31 - i = Suc (31 - Suc i)" using True by linarith
    then have "unat (v div 10) < 10 ^ (31 - Suc i)"
      using "1.prems"(1) q by (simp add: div_less_iff_less_mult mult.commute)
    then have "le_value 10 (print_digits (v div 10) (Suc i) (buf @ [char_of (48 + unat (v mod 10))])) =
        le_value 10 (buf @ [char_of (48 + unat (v mod 10))]) + 10 ^ Suc i * unat (v div 10)"
      using "1.IH" [OF True] "1.prems" True by simp
    also have "\<dots> = le_value 10 buf + (10 ^ i * (unat v mod 10) + 10 ^ i * (10 * (unat v div 10)))"
      using "1.prems"(2) q r digit_value_dec [of "unat v mod 10"]
      by (simp add: le_value_append)
    also have "\<dots> = le_value 10 buf + 10 ^ i * unat v" by (simp flip: distrib_left)
    finally show ?thesis using True by (simp add: print_digits.simps [of v i buf])
  next
    case False
    then have "unat v = 0" using "1.prems" by (auto simp: word_gt_0 unat_eq_zero)
    then show ?thesis using False by (subst print_digits.simps) auto
  qed
qed

lemma hex_digits_value:
  assumes "unat v < 16 ^ (16 - i)" and "length buf = i" and "i \<le> 16"
  shows "le_value 16 (hex_digits v i buf) = le_value 16 buf + 16 ^ i * unat v"
  using assms
proof (induction v i buf rule: hex_digits.induct)
  case (1 v i buf)
  show ?case
  proof (cases "v \<noteq> 0 \<and> i < 16")
    case True
    have q: "unat (drop_bit 4 v) = unat v div 16"
      unfolding unat_drop_bit_eq by (simp add: drop_bit_eq_div)
    have r: "unat (v AND 0xF) = unat v mod 16"
    proof -
      have "v AND mask 4 = take_bit 4 v" by (simp add: take_bit_eq_mask)
      then have "unat (v AND mask 4) = take_bit 4 (unat v)" by (simp add: unsigned_take_bit_eq)
      then show ?thesis by (simp add: mask_numeral take_bit_eq_mod)
    qed
    have "16 - i = Suc (16 - Suc i)" using True by linarith
    then have "unat (drop_bit 4 v) < 16 ^ (16 - Suc i)"
      using "1.prems"(1) q by (simp add: div_less_iff_less_mult mult.commute)
    then have "le_value 16 (hex_digits (drop_bit 4 v) (Suc i) (buf @ [kHexDigits ! unat (v AND 0xF)])) =
        le_value 16 (buf @ [kHexDigits ! unat (v AND 0xF)]) + 16 ^ Suc i * unat (drop_bit 4 v)"
      using "1.IH" [OF True] "1.prems" True by simp
    also have "\<dots> = le_value 16 buf + (16 ^ i * (unat v mod 16) + 16 ^ i * (16 * (unat v div 16)))"
      using "1.prems"(2) q r digit_value_hex [of "unat v mod 16"]
      by (simp add: le_value_append)
    also have "\<dots> = le_value 16 buf + 16 ^ i * unat v" by (simp flip: distrib_left)
    finally show ?thesis using True by (simp add: hex_digits.simps [of v i buf])
  next
    case False
    then have "unat v = 0" using "1.prems" by (auto simp: unat_eq_zero)
    then show ?thesis using False by (subst hex_digits.simps) auto
  qed
qed

section \<open>Properties\<close>

text \<open>
  If the transmit FIFO never stays full for ever, \<^verbatim>\<open>uart_puts\<close> returns and writes to the
  data register exactly the characters of the string, each newline preceded by a carriage
  return, and nothing else.
\<close>

lemma uart_puts_wire:
  assumes "uart_drains fr"
  shows "\<exists>u'. uart_puts fr s u = Some u' \<and> g_uart_base u' = g_uart_base u \<and>
    uart_writes u' = uart_writes u @ map (\<lambda>c. (g_uart_base u + UARTDR, of_char c)) (crlf s)"
  using uart_puts_writes [OF assms, of s u] by (auto simp: UARTDR_def)

lemma uart_puts_wire_example:
  "\<exists>u'. uart_puts (\<lambda>n. if even n then 0x20 else 0x90) [CHR ''a'', newline]
      \<lparr>g_uart_base = 0x09000000, g_uart_clock_hz = 24000000, uart_polls = 0, uart_writes = []\<rparr> = Some u' \<and>
    uart_writes u' = [(0x09000000, 97), (0x09000000, 13), (0x09000000, 10)]"
proof -
  have "uart_drains (\<lambda>n. if even n then 0x20 else 0x90)"
    unfolding uart_drains_def
  proof
    fix n :: nat
    have "n \<le> 2 * n + 1" by simp
    moreover have "(if even (2 * n + 1) then 0x20 else 0x90 :: u32) AND 0x20 = 0" by simp
    ultimately show "\<exists>k\<ge>n. (if even k then 0x20 else 0x90 :: u32) AND 0x20 = 0" by blast
  qed
  from uart_puts_wire [OF this, of "[CHR ''a'', newline]" "\<lparr>g_uart_base = 0x09000000,
      g_uart_clock_hz = 24000000, uart_polls = 0, uart_writes = []\<rparr>"]
  show ?thesis by (simp add: UARTDR_def) blast
qed

text \<open>The 32-bit printer of \<^verbatim>\<open>gicv3.cc\<close> and \<^verbatim>\<open>except.cc\<close> shows the same digits.\<close>

lemma unat_ucast_32_64: "unat (ucast (v :: u32) :: u64) = unat v"
proof -
  have "unat v < 2 ^ 64" by (rule order.strict_trans [OF unsigned_less]) simp
  then show ?thesis by (simp add: unsigned_ucast_eq take_bit_nat_eq_self)
qed

lemma ucast_32_64_eq_0: "(ucast (v :: u32) :: u64) = 0 \<longleftrightarrow> v = 0"
  by (metis unat_eq_zero unat_ucast_32_64)

lemma hex_digits32_eq:
  assumes "unat v < 16 ^ (8 - i)" "i \<le> 8"
  shows "hex_digits32 v i buf = hex_digits (ucast v) i buf"
  using assms
proof (induction v i buf rule: hex_digits32.induct)
  case (1 v i buf)
  show ?case
  proof (cases "v \<noteq> 0 \<and> i < 8")
    case True
    have q: "unat (drop_bit 4 v) = unat v div 16" unfolding unat_drop_bit_eq by (simp add: drop_bit_eq_div)
    have "8 - i = Suc (8 - Suc i)" using True by linarith
    then have "unat (drop_bit 4 v) < 16 ^ (8 - Suc i)"
      using "1.prems"(1) q by (simp add: div_less_iff_less_mult mult.commute)
    then have "hex_digits32 (drop_bit 4 v) (Suc i) (buf @ [kHexDigits ! unat (v AND 0xF)]) =
        hex_digits (ucast (drop_bit 4 v)) (Suc i) (buf @ [kHexDigits ! unat (v AND 0xF)])"
      using "1.IH" [OF True] True by simp
    moreover have "ucast (drop_bit 4 v) = (drop_bit 4 (ucast v) :: u64)"
      by (rule bit_word_eqI) (auto simp: bit_simps dest: bit_imp_le_length)
    moreover have "unat ((ucast v :: u64) AND 0xF) = unat (v AND 0xF)"
    proof -
      have "(ucast v :: u64) AND 0xF = ucast (v AND 0xF)" by (simp add: unsigned_and_eq)
      then show ?thesis by (simp add: unat_ucast_32_64)
    qed
    ultimately show ?thesis
      using True by (subst hex_digits32.simps, subst hex_digits.simps) (simp add: ucast_32_64_eq_0)
  next
    case False
    then have "v = 0" using "1.prems" by (auto simp: unat_eq_zero)
    then show ?thesis by (subst hex_digits32.simps, subst hex_digits.simps) simp
  qed
qed

lemma puthex32_eq: "puthex32 v = puthex64 (ucast v)"
proof -
  have "unat v < 16 ^ (8 - 0)" using unsigned_less [of v] by simp
  then show ?thesis
    using hex_digits32_eq [of v 0 "[]"] by (simp add: puthex32_def puthex64_def ucast_32_64_eq_0)
qed

text \<open>
  The decimal and the two hexadecimal printers are exact: reading the printed digits back in
  base 10 or 16 gives the value; the buffers of 31, 16 and 8 digits never truncate.
\<close>

lemma uart_print_roundtrip:
  "number_value 10 (uart_print_u64 v) = unat v \<and> number_value 16 (puthex64 v) = unat v \<and> number_value 16 (puthex32 w) = unat w"
proof (intro conjI)
  have "unat v < 10 ^ 31" by (rule less_trans [OF unat_lt_2p64]) simp
  then show "number_value 10 (uart_print_u64 v) = unat v"
    using print_digits_value [of v 0 "[]"]
    by (auto simp: uart_print_u64_def number_value_rev) (simp add: number_value_def digit_value_def)
  have hex: "number_value 16 (puthex64 v) = unat v" for v
  proof -
    have "unat v < 16 ^ 16" using unat_lt_2p64 [of v] by simp
    then show ?thesis
      using hex_digits_value [of v 0 "[]"]
      by (auto simp: puthex64_def number_value_rev) (simp add: number_value_def digit_value_def)
  qed
  then show "number_value 16 (puthex64 v) = unat v" .
  show "number_value 16 (puthex32 w) = unat w" using hex [of "ucast w"] by (simp add: puthex32_eq unat_ucast_32_64)
qed

end
