(* ===== verification/Kernel_State.thy ===== *)
theory Kernel_State
  imports ByteMem Kmem MemPool Uart
begin

text \<open>
  The data of the kernel core: \<^verbatim>\<open>struct Thread\<close> (\<^verbatim>\<open>include/thread.h\<close>), \<^verbatim>\<open>struct mutex\<close> and
  \<^verbatim>\<open>struct semaphore\<close> (\<^verbatim>\<open>include/sync.h\<close>), \<^verbatim>\<open>struct cpu_local\<close> (\<^verbatim>\<open>include/arch/cpu_local.h\<close>),
  the registers a context switch saves, and the static variables of \<^verbatim>\<open>src/thread.cc\<close>.

  Thread, mutex and semaphore objects live in typed stores indexed by their address, so that
  aliasing through pointers is explicit; 0 is the null pointer. Stacks live in the byte memory
  \<open>bytes\<close>. \<open>klog\<close> is the text the kernel has passed to the UART printers. A pointer-chasing
  loop is a \<open>partial_function\<close> into \<open>option\<close>: \<open>None\<close> means that the code does not return
  normally, because it loops for ever or dereferences a null pointer.

  C's \<^verbatim>\<open>int\<close> fields (ids, priorities, budgets, counts) are \<open>int\<close>: signed overflow is undefined
  behaviour in C++ and never wraps. The unsigned counters of \<^verbatim>\<open>cpu_local\<close> are 32-bit and 64-bit
  words.
\<close>

section \<open>Structures\<close>

record thread =
  t_sp :: addr
  t_entry :: addr
  t_arg :: addr
  t_next :: addr
  t_id :: int
  t_stack_base :: addr
  t_stack_size :: u64
  t_budget :: int
  t_base_priority :: int
  t_effective_priority :: int
  t_state :: int
  t_wait_next :: addr
  t_waiting_on :: addr
  t_owned_mutexes :: addr
  t_fpsimd_valid :: int
  t_fpsimd_vregs :: "nat \<Rightarrow> 128 word"
  t_fpcr :: u64
  t_fpsr :: u64

record mutex =
  m_owner :: addr
  m_waiters :: addr
  m_owner_next :: addr
  m_pi_enabled :: int

record semaphore =
  s_count :: int
  s_waiters :: addr

record cpu_local =
  irq_stack_top :: addr
  current_thread :: addr
  preempt_cnt :: u32
  need_resched :: u32
  ticks :: u64
  irq_depth :: u32

text \<open>
  The machine registers that \<^verbatim>\<open>arch_switch\<close> and \<^verbatim>\<open>fpsimd_save\<close>/\<^verbatim>\<open>fpsimd_load\<close> move: the stack
  pointer, the callee-saved registers x19..x30, q0..q31, FPCR and FPSR; and the interrupt mask
  \<^verbatim>\<open>DAIF\<close>.
\<close>

record cpu_regs =
  r_sp :: addr
  r_x :: "nat \<Rightarrow> u64"
  r_q :: "nat \<Rightarrow> 128 word"
  r_fpcr :: u64
  r_fpsr :: u64
  r_daif :: u64

text \<open>
  Where a thread will continue in kernel code when it runs next: at its entry (it was never
  switched in), after the \<^verbatim>\<open>do_switch\<close> of \<^verbatim>\<open>thread_yield\<close>, or after the one of
  \<^verbatim>\<open>sched_resched_from_irq_tail\<close>. \<open>KMutexLock m\<close> is the last kind for a thread that blocked in
  the loop of \<^verbatim>\<open>mutex_lock(m)\<close> and will go round that loop again. \<open>KRun\<close>: it is running its
  own code.
\<close>

datatype kont = KStart | KYield | KResched | KMutexLock addr | KRun

record kstate =
  threads :: "addr \<Rightarrow> thread"
  mutexes :: "addr \<Rightarrow> mutex"
  sems :: "addr \<Rightarrow> semaphore"
  rq_head :: addr
  rq_tail :: addr
  next_thread_id :: int
  heap :: kmem
  g_thread_pool :: mem_pool
  g_thread_pool_inited :: int
  cpu :: cpu_local
  regs :: cpu_regs
  bytes :: mem
  kont :: "addr \<Rightarrow> kont"
  klog :: string

text \<open>The build-time configuration: \<^verbatim>\<open>SCHED_POLICY\<close>, \<^verbatim>\<open>MUTEX_PI\<close>, and \<^verbatim>\<open>LOCKDEP_ENABLED\<close>.\<close>

datatype sched_policy = RR | PRIO

record kconfig =
  policy :: sched_policy
  mutex_pi :: bool
  lockdep :: bool

definition kThreadReady :: int where "kThreadReady = 0"
definition kThreadBlocked :: int where "kThreadBlocked = 1"
definition kDefaultPriority :: int where "kDefaultPriority = 10"
definition kMaxPriority :: int where "kMaxPriority = 31"
definition kQuantumTicks :: int where "kQuantumTicks = 5"
definition kNeedReschedNone :: u32 where "kNeedReschedNone = 0"
definition kNeedReschedNormal :: u32 where "kNeedReschedNormal = 1"
definition kNeedReschedRotate :: u32 where "kNeedReschedRotate = 2"

lemmas kconst_defs = kThreadReady_def kThreadBlocked_def kDefaultPriority_def kMaxPriority_def
  kQuantumTicks_def kNeedReschedNone_def kNeedReschedNormal_def kNeedReschedRotate_def

section \<open>Access to the stores\<close>

abbreviation thr :: "kstate \<Rightarrow> addr \<Rightarrow> thread" where
  "thr s t \<equiv> threads s t"

definition upd_thread :: "addr \<Rightarrow> (thread \<Rightarrow> thread) \<Rightarrow> kstate \<Rightarrow> kstate" where
  "upd_thread t f s = s\<lparr>threads := (threads s)(t := f (threads s t))\<rparr>"

definition upd_mutex :: "addr \<Rightarrow> (mutex \<Rightarrow> mutex) \<Rightarrow> kstate \<Rightarrow> kstate" where
  "upd_mutex m f s = s\<lparr>mutexes := (mutexes s)(m := f (mutexes s m))\<rparr>"

definition upd_sem :: "addr \<Rightarrow> (semaphore \<Rightarrow> semaphore) \<Rightarrow> kstate \<Rightarrow> kstate" where
  "upd_sem m f s = s\<lparr>sems := (sems s)(m := f (sems s m))\<rparr>"

definition upd_cpu :: "(cpu_local \<Rightarrow> cpu_local) \<Rightarrow> kstate \<Rightarrow> kstate" where
  "upd_cpu f s = s\<lparr>cpu := f (cpu s)\<rparr>"

definition kputs :: "string \<Rightarrow> kstate \<Rightarrow> kstate" where
  "kputs txt s = s\<lparr>klog := klog s @ txt\<rparr>"

definition set_kont :: "addr \<Rightarrow> kont \<Rightarrow> kstate \<Rightarrow> kstate" where
  "set_kont t k s = s\<lparr>kont := (kont s)(t := k)\<rparr>"

abbreviation cur_thread :: "kstate \<Rightarrow> addr" where
  "cur_thread s \<equiv> current_thread (cpu s)"

lemma upd_thread_simps [simp]:
  "threads (upd_thread t f s) = (threads s)(t := f (threads s t))"
  "mutexes (upd_thread t f s) = mutexes s" "sems (upd_thread t f s) = sems s"
  "rq_head (upd_thread t f s) = rq_head s" "rq_tail (upd_thread t f s) = rq_tail s"
  "next_thread_id (upd_thread t f s) = next_thread_id s" "cpu (upd_thread t f s) = cpu s"
  "regs (upd_thread t f s) = regs s" "bytes (upd_thread t f s) = bytes s"
  "kont (upd_thread t f s) = kont s" "klog (upd_thread t f s) = klog s"
  "heap (upd_thread t f s) = heap s" "g_thread_pool (upd_thread t f s) = g_thread_pool s"
  "g_thread_pool_inited (upd_thread t f s) = g_thread_pool_inited s"
  by (simp_all add: upd_thread_def)

lemma upd_mutex_simps [simp]:
  "mutexes (upd_mutex t f s) = (mutexes s)(t := f (mutexes s t))"
  "threads (upd_mutex t f s) = threads s" "sems (upd_mutex t f s) = sems s"
  "rq_head (upd_mutex t f s) = rq_head s" "rq_tail (upd_mutex t f s) = rq_tail s"
  "next_thread_id (upd_mutex t f s) = next_thread_id s" "cpu (upd_mutex t f s) = cpu s"
  "regs (upd_mutex t f s) = regs s" "bytes (upd_mutex t f s) = bytes s"
  "kont (upd_mutex t f s) = kont s" "klog (upd_mutex t f s) = klog s"
  "heap (upd_mutex t f s) = heap s" "g_thread_pool (upd_mutex t f s) = g_thread_pool s"
  "g_thread_pool_inited (upd_mutex t f s) = g_thread_pool_inited s"
  by (simp_all add: upd_mutex_def)

lemma upd_sem_simps [simp]:
  "sems (upd_sem t f s) = (sems s)(t := f (sems s t))"
  "threads (upd_sem t f s) = threads s" "mutexes (upd_sem t f s) = mutexes s"
  "rq_head (upd_sem t f s) = rq_head s" "rq_tail (upd_sem t f s) = rq_tail s"
  "next_thread_id (upd_sem t f s) = next_thread_id s" "cpu (upd_sem t f s) = cpu s"
  "regs (upd_sem t f s) = regs s" "bytes (upd_sem t f s) = bytes s"
  "kont (upd_sem t f s) = kont s" "klog (upd_sem t f s) = klog s"
  "heap (upd_sem t f s) = heap s" "g_thread_pool (upd_sem t f s) = g_thread_pool s"
  "g_thread_pool_inited (upd_sem t f s) = g_thread_pool_inited s"
  by (simp_all add: upd_sem_def)

lemma upd_cpu_simps [simp]:
  "cpu (upd_cpu f s) = f (cpu s)"
  "threads (upd_cpu f s) = threads s" "mutexes (upd_cpu f s) = mutexes s" "sems (upd_cpu f s) = sems s"
  "rq_head (upd_cpu f s) = rq_head s" "rq_tail (upd_cpu f s) = rq_tail s"
  "next_thread_id (upd_cpu f s) = next_thread_id s"
  "regs (upd_cpu f s) = regs s" "bytes (upd_cpu f s) = bytes s"
  "kont (upd_cpu f s) = kont s" "klog (upd_cpu f s) = klog s"
  "heap (upd_cpu f s) = heap s" "g_thread_pool (upd_cpu f s) = g_thread_pool s"
  "g_thread_pool_inited (upd_cpu f s) = g_thread_pool_inited s"
  by (simp_all add: upd_cpu_def)

lemma kputs_simps [simp]:
  "cpu (kputs x s) = cpu s"
  "threads (kputs x s) = threads s" "mutexes (kputs x s) = mutexes s" "sems (kputs x s) = sems s"
  "rq_head (kputs x s) = rq_head s" "rq_tail (kputs x s) = rq_tail s"
  "next_thread_id (kputs x s) = next_thread_id s"
  "regs (kputs x s) = regs s" "bytes (kputs x s) = bytes s"
  "kont (kputs x s) = kont s" "klog (kputs x s) = klog s @ x"
  "heap (kputs x s) = heap s" "g_thread_pool (kputs x s) = g_thread_pool s"
  "g_thread_pool_inited (kputs x s) = g_thread_pool_inited s"
  by (simp_all add: kputs_def)

lemma set_kont_simps [simp]:
  "cpu (set_kont t k s) = cpu s"
  "threads (set_kont t k s) = threads s" "mutexes (set_kont t k s) = mutexes s" "sems (set_kont t k s) = sems s"
  "rq_head (set_kont t k s) = rq_head s" "rq_tail (set_kont t k s) = rq_tail s"
  "next_thread_id (set_kont t k s) = next_thread_id s"
  "regs (set_kont t k s) = regs s" "bytes (set_kont t k s) = bytes s"
  "kont (set_kont t k s) = (kont s)(t := k)" "klog (set_kont t k s) = klog s"
  "heap (set_kont t k s) = heap s" "g_thread_pool (set_kont t k s) = g_thread_pool s"
  "g_thread_pool_inited (set_kont t k s) = g_thread_pool_inited s"
  by (simp_all add: set_kont_def)

section \<open>The kernel's zeroed objects\<close>

definition zero_thread :: thread where
  "zero_thread = \<lparr>t_sp = 0, t_entry = 0, t_arg = 0, t_next = 0, t_id = 0, t_stack_base = 0,
     t_stack_size = 0, t_budget = 0, t_base_priority = 0, t_effective_priority = 0, t_state = 0,
     t_wait_next = 0, t_waiting_on = 0, t_owned_mutexes = 0, t_fpsimd_valid = 0,
     t_fpsimd_vregs = (\<lambda>_. 0), t_fpcr = 0, t_fpsr = 0\<rparr>"

definition zero_cpu :: cpu_local where
  "zero_cpu = \<lparr>irq_stack_top = 0, current_thread = 0, preempt_cnt = 0, need_resched = 0,
     ticks = 0, irq_depth = 0\<rparr>"

definition cpu_local_boot_init :: "addr \<Rightarrow> cpu_local \<Rightarrow> cpu_local" where
  "cpu_local_boot_init irq_stack_cpu0_top cpu0 =
     cpu0\<lparr>irq_stack_top := irq_stack_cpu0_top, current_thread := NULL, preempt_cnt := 0,
       need_resched := 0, ticks := 0, irq_depth := 0\<rparr>"

text \<open>The state after \<^verbatim>\<open>.bss\<close> has been cleared.\<close>

definition boot_state :: kstate where
  "boot_state = \<lparr>threads = (\<lambda>_. zero_thread),
     mutexes = (\<lambda>_. \<lparr>m_owner = 0, m_waiters = 0, m_owner_next = 0, m_pi_enabled = 0\<rparr>),
     sems = (\<lambda>_. \<lparr>s_count = 0, s_waiters = 0\<rparr>),
     rq_head = 0, rq_tail = 0, next_thread_id = 1,
     heap = \<lparr>kcur = 0, kend = 0\<rparr>,
     g_thread_pool = \<lparr>pool_base = 0, pool_block_size = 0, pool_block_count = 0, pool_free_list = 0,
       pool_free_count = 0\<rparr>,
     g_thread_pool_inited = 0, cpu = zero_cpu,
     regs = \<lparr>r_sp = 0, r_x = (\<lambda>_. 0), r_q = (\<lambda>_. 0), r_fpcr = 0, r_fpsr = 0, r_daif = 0\<rparr>,
     bytes = (\<lambda>_. 0), kont = (\<lambda>_. KStart), klog = []\<rparr>"

end
