(* ===== verification/RunQueue.thy ===== *)
theory RunQueue
  imports Kernel_State
begin

text \<open>
  The run queue of \<^verbatim>\<open>src/thread.cc\<close>: a circular list of threads linked through
  \<^verbatim>\<open>Thread::next\<close>, with \<^verbatim>\<open>rq_head\<close> and \<^verbatim>\<open>rq_tail\<close>; \<^verbatim>\<open>rq_append\<close>, \<^verbatim>\<open>rq_remove\<close>, the priority
  scans of the PRIO policy and \<^verbatim>\<open>prio_pick_next\<close>. The refinement \<open>rq_inv s xs\<close> says that the
  ring in state \<open>s\<close> is the list \<open>xs\<close> of distinct threads, and that no thread outside it has a
  \<^verbatim>\<open>next\<close> pointer; \<^verbatim>\<open>rq_append\<close> and \<^verbatim>\<open>rq_remove\<close> then are \<open>xs @ [t]\<close> and \<open>remove1 t xs\<close>.
\<close>

section \<open>Model\<close>

definition clamp_priority :: "int \<Rightarrow> int" where
  "clamp_priority prio =
     (if prio < 0 then 0 else if prio > kMaxPriority then kMaxPriority else prio)"

definition is_ready :: "kstate \<Rightarrow> addr \<Rightarrow> bool" where
  "is_ready s t \<longleftrightarrow> t \<noteq> NULL \<and> t_state (thr s t) = kThreadReady"

definition rq_append :: "addr \<Rightarrow> kstate \<Rightarrow> kstate option" where
  "rq_append t s =
     (if t = NULL then Some s
      else if rq_head s = NULL then
        Some (upd_thread t (t_next_update (\<lambda>_. t)) (s\<lparr>rq_head := t, rq_tail := t\<rparr>))
      else if rq_tail s = NULL then None
      else let s = upd_thread t (t_next_update (\<lambda>_. rq_head s)) s;
               s = upd_thread (rq_tail s) (t_next_update (\<lambda>_. t)) s
           in Some (s\<lparr>rq_tail := t\<rparr>))"

text \<open>\<^verbatim>\<open>while (prev->next != t && prev->next != rq_head) prev = prev->next;\<close>\<close>

partial_function (option) rq_find_prev :: "kstate \<Rightarrow> addr \<Rightarrow> addr \<Rightarrow> addr option" where
  "rq_find_prev s t prev =
     (if prev = NULL then None
      else if t_next (thr s prev) \<noteq> t \<and> t_next (thr s prev) \<noteq> rq_head s
      then rq_find_prev s t (t_next (thr s prev))
      else Some prev)"

definition rq_remove :: "addr \<Rightarrow> kstate \<Rightarrow> kstate option" where
  "rq_remove t s =
     (if rq_head s = NULL \<or> t = NULL then Some s
      else if rq_head s = t \<and> rq_tail s = t then
        Some (upd_thread t (t_next_update (\<lambda>_. NULL)) (s\<lparr>rq_head := NULL, rq_tail := NULL\<rparr>))
      else do {
        prev \<leftarrow> rq_find_prev s t (rq_head s);
        if t_next (thr s prev) \<noteq> t then Some s
        else let s = upd_thread prev (t_next_update (\<lambda>_. t_next (thr s t))) s;
                 s = (if rq_head s = t then s\<lparr>rq_head := t_next (thr s t)\<rparr> else s);
                 s = (if rq_tail s = t then s\<lparr>rq_tail := prev\<rparr> else s)
             in Some (upd_thread t (t_next_update (\<lambda>_. NULL)) s)
      })"

text \<open>The \<^verbatim>\<open>do ... while (t && t != start)\<close> scans of the ring.\<close>

partial_function (option) rq_max_loop :: "kstate \<Rightarrow> addr \<Rightarrow> addr \<Rightarrow> int \<Rightarrow> int option" where
  "rq_max_loop s start t best =
     (let best = (if is_ready s t \<and> t_effective_priority (thr s t) > best
                  then t_effective_priority (thr s t) else best);
          t = t_next (thr s t)
      in if t \<noteq> NULL \<and> t \<noteq> start then rq_max_loop s start t best else Some best)"

definition rq_max_ready_priority :: "kstate \<Rightarrow> int option" where
  "rq_max_ready_priority s =
     (if rq_head s = NULL then Some (-1) else rq_max_loop s (rq_head s) (rq_head s) (-1))"

partial_function (option) rq_gt_loop :: "kstate \<Rightarrow> addr \<Rightarrow> addr \<Rightarrow> int \<Rightarrow> bool option" where
  "rq_gt_loop s start t prio =
     (if is_ready s t \<and> t_effective_priority (thr s t) > prio then Some True
      else let t = t_next (thr s t)
           in if t \<noteq> NULL \<and> t \<noteq> start then rq_gt_loop s start t prio else Some False)"

definition rq_has_ready_prio_gt :: "kstate \<Rightarrow> int \<Rightarrow> bool option" where
  "rq_has_ready_prio_gt s prio =
     (if rq_head s = NULL then Some False else rq_gt_loop s (rq_head s) (rq_head s) prio)"

text \<open>The search loop of \<^verbatim>\<open>prio_pick_next\<close>: the thread found, or \<open>NULL\<close> after a full round.\<close>

partial_function (option) pick_loop ::
  "kstate \<Rightarrow> addr \<Rightarrow> bool \<Rightarrow> int \<Rightarrow> addr \<Rightarrow> addr \<Rightarrow> addr option" where
  "pick_loop s cur exclude_current best_prio start t =
     (if is_ready s t \<and> t_effective_priority (thr s t) = best_prio \<and> (\<not> exclude_current \<or> t \<noteq> cur)
      then Some t
      else let t = t_next (thr s t)
           in if t \<noteq> NULL \<and> t \<noteq> start then pick_loop s cur exclude_current best_prio start t
              else Some NULL)"

definition prio_pick_next :: "kstate \<Rightarrow> addr \<Rightarrow> bool \<Rightarrow> bool \<Rightarrow> addr option" where
  "prio_pick_next s cur exclude_current rotate_equal =
     (if rq_head s = NULL then Some cur
      else do {
        best_prio \<leftarrow> rq_max_ready_priority s;
        if best_prio < 0 then Some cur
        else if \<not> exclude_current \<and> \<not> rotate_equal \<and> cur \<noteq> NULL \<and> is_ready s cur \<and>
                t_effective_priority (thr s cur) = best_prio then Some cur
        else do {
          let start = (if (exclude_current \<or> rotate_equal) \<and> cur \<noteq> NULL \<and> t_next (thr s cur) \<noteq> NULL
                       then t_next (thr s cur) else rq_head s);
          t \<leftarrow> pick_loop s cur exclude_current best_prio start start;
          if t \<noteq> NULL then Some t
          else if cur \<noteq> NULL \<and> is_ready s cur \<and> t_effective_priority (thr s cur) = best_prio
          then Some cur
          else Some (rq_head s)
        }
      })"

section \<open>The ring as a list\<close>

abbreviation nxt :: "kstate \<Rightarrow> addr \<Rightarrow> addr" where
  "nxt s \<equiv> (\<lambda>t. t_next (threads s t))"

definition rq_inv :: "kstate \<Rightarrow> addr list \<Rightarrow> bool" where
  "rq_inv s xs \<longleftrightarrow> distinct xs \<and> NULL \<notin> set xs \<and> (\<forall>t. t \<notin> set xs \<longrightarrow> nxt s t = NULL) \<and>
     (if xs = [] then rq_head s = NULL \<and> rq_tail s = NULL
      else rq_head s = hd xs \<and> rq_tail s = last xs \<and> lpath (nxt s) (hd xs) xs (hd xs))"

lemma rq_inv_cong:
  assumes "rq_inv s xs" and "rq_head s' = rq_head s" and "rq_tail s' = rq_tail s"
    and "\<And>t. t_next (thr s' t) = t_next (thr s t)"
  shows "rq_inv s' xs"
  using assms by (simp add: rq_inv_def)

lemma rq_inv_head: "rq_inv s xs \<Longrightarrow> rq_head s = NULL \<longleftrightarrow> xs = []"
  by (auto simp: rq_inv_def) (metis hd_in_set)

text \<open>The queue operations write nothing but link fields and the two queue pointers.\<close>

definition links_only :: "kstate \<Rightarrow> kstate \<Rightarrow> bool" where
  "links_only s s' \<longleftrightarrow> s' = s\<lparr>threads := threads s', rq_head := rq_head s', rq_tail := rq_tail s'\<rparr> \<and>
     (\<forall>u. thr s' u = (thr s u)\<lparr>t_next := t_next (thr s' u)\<rparr>)"

lemma thread_same_next [simp]: "(r :: thread)\<lparr>t_next := t_next r\<rparr> = r"
  by simp

lemma links_only_refl [simp]: "links_only s s"
  by (simp add: links_only_def)

lemma links_onlyD:
  assumes "links_only s s'"
  shows "cpu s' = cpu s" "mutexes s' = mutexes s" "sems s' = sems s" "regs s' = regs s"
    "bytes s' = bytes s" "kont s' = kont s" "klog s' = klog s" "next_thread_id s' = next_thread_id s"
    "heap s' = heap s" "g_thread_pool s' = g_thread_pool s"
    "g_thread_pool_inited s' = g_thread_pool_inited s"
proof -
  have e: "s' = s\<lparr>threads := threads s', rq_head := rq_head s', rq_tail := rq_tail s'\<rparr>"
    using assms unfolding links_only_def by blast
  show "cpu s' = cpu s" "mutexes s' = mutexes s" "sems s' = sems s" "regs s' = regs s"
    "bytes s' = bytes s" "kont s' = kont s" "klog s' = klog s" "next_thread_id s' = next_thread_id s"
    "heap s' = heap s" "g_thread_pool s' = g_thread_pool s"
    "g_thread_pool_inited s' = g_thread_pool_inited s"
    by (subst e, simp)+
qed

lemma links_only_thread:
  assumes "links_only s s'"
  shows "t_state (thr s' u) = t_state (thr s u)"
    "t_effective_priority (thr s' u) = t_effective_priority (thr s u)"
    "t_base_priority (thr s' u) = t_base_priority (thr s u)"
    "t_wait_next (thr s' u) = t_wait_next (thr s u)"
    "t_waiting_on (thr s' u) = t_waiting_on (thr s u)"
    "t_owned_mutexes (thr s' u) = t_owned_mutexes (thr s u)"
    "t_budget (thr s' u) = t_budget (thr s u)" "t_sp (thr s' u) = t_sp (thr s u)"
proof -
  have e: "thr s' u = (thr s u)\<lparr>t_next := t_next (thr s' u)\<rparr>"
    using assms unfolding links_only_def by blast
  show "t_state (thr s' u) = t_state (thr s u)"
    "t_effective_priority (thr s' u) = t_effective_priority (thr s u)"
    "t_base_priority (thr s' u) = t_base_priority (thr s u)"
    "t_wait_next (thr s' u) = t_wait_next (thr s u)"
    "t_waiting_on (thr s' u) = t_waiting_on (thr s u)"
    "t_owned_mutexes (thr s' u) = t_owned_mutexes (thr s u)"
    "t_budget (thr s' u) = t_budget (thr s u)" "t_sp (thr s' u) = t_sp (thr s u)"
    by (subst e, simp)+
qed

lemmas links_only_simps = links_onlyD links_only_thread

lemma rq_append_spec:
  assumes inv: "rq_inv s xs" and t: "t \<noteq> NULL" "t \<notin> set xs"
  shows "\<exists>s'. rq_append t s = Some s' \<and> rq_inv s' (xs @ [t]) \<and> links_only s s'"
proof (cases "xs = []")
  case True
  let ?s = "upd_thread t (t_next_update (\<lambda>_. t)) (s\<lparr>rq_head := t, rq_tail := t\<rparr>)"
  have h: "rq_head s = NULL" using inv True by (simp add: rq_inv_def)
  have "rq_append t s = Some ?s" using t h by (simp add: rq_append_def)
  moreover have "rq_inv ?s (xs @ [t])" using inv t True by (simp add: rq_inv_def)
  moreover have "links_only s ?s" by (simp add: links_only_def upd_thread_def)
  ultimately show ?thesis by blast
next
  case False
  let ?h = "hd xs" and ?l = "last xs"
  have h: "rq_head s = ?h" "rq_tail s = ?l" and d: "distinct xs" "NULL \<notin> set xs"
    and p: "lpath (nxt s) ?h xs ?h" and out: "\<forall>u. u \<notin> set xs \<longrightarrow> nxt s u = NULL"
    using inv False by (auto simp: rq_inv_def)
  have l: "?l \<in> set xs" "?h \<in> set xs" using False by auto
  then have nz: "?l \<noteq> NULL" "?h \<noteq> NULL" "?l \<noteq> t" using d(2) t(2) by auto
  let ?s1 = "upd_thread t (t_next_update (\<lambda>_. ?h)) s"
  let ?s2 = "upd_thread ?l (t_next_update (\<lambda>_. t)) ?s1"
  let ?s = "?s2\<lparr>rq_tail := t\<rparr>"
  have app: "rq_append t s = Some ?s" using t h nz by (simp add: rq_append_def Let_def)
  have nx: "nxt ?s = (nxt s)(t := ?h, ?l := t)" using nz by (auto simp: fun_eq_iff)
  have xs: "xs = butlast xs @ [?l]" using False by simp
  have nin: "?l \<notin> set (butlast xs)" "t \<notin> set (butlast xs)"
    using d(1) t(2) xs by (metis distinct_butlast not_distinct_conv_prefix append_butlast_last_id False,
        metis in_set_butlastD)
  have "lpath (nxt s) ?h (butlast xs) ?l" using p by (subst (asm) xs) auto
  then have "lpath (nxt ?s) ?h (butlast xs) ?l" unfolding nx using nin by simp
  then have "lpath (nxt ?s) ?h (butlast xs @ [?l] @ [t]) ?h"
    unfolding nx using nz t by auto
  then have p': "lpath (nxt ?s) ?h (xs @ [t]) ?h" using xs by (metis append_assoc)
  have "rq_inv ?s (xs @ [t])"
    unfolding rq_inv_def using False d t h out l nz p' by auto
  moreover have "links_only s ?s" by (simp add: links_only_def upd_thread_def)
  ultimately show ?thesis using app by blast
qed

lemma lpath_butlast_next: "lpath nx p ys q \<Longrightarrow> y \<in> set (butlast ys) \<Longrightarrow> nx y \<in> set (tl ys)"
proof (induction ys arbitrary: p)
  case Nil
  then show ?case by simp
next
  case (Cons a ys)
  then show ?case by (cases ys) (auto split: if_splits)
qed

lemma rq_find_prev_path:
  "lpath (nxt s) p (ys @ [u]) q \<Longrightarrow>
   (\<And>y. y \<in> set ys \<Longrightarrow> nxt s y \<noteq> t \<and> nxt s y \<noteq> rq_head s) \<Longrightarrow>
   nxt s u = t \<or> nxt s u = rq_head s \<Longrightarrow> rq_find_prev s t p = Some u"
proof (induction ys arbitrary: p)
  case Nil
  then show ?case by (subst rq_find_prev.simps) auto
next
  case (Cons y ys)
  from Cons.prems(1) have y: "p = y" "y \<noteq> NULL" and r: "lpath (nxt s) (nxt s y) (ys @ [u]) q"
    by auto
  have "rq_find_prev s t (nxt s y) = Some u"
    by (rule Cons.IH [OF r]) (use Cons.prems(2,3) in auto)
  then show ?case using y Cons.prems(2) [of y] by (subst rq_find_prev.simps) simp
qed

text \<open>A search that starts at the head finds the last node before \<open>t\<close>, or the tail.\<close>

lemma rq_find_prev_ring:
  assumes inv: "rq_inv s xs" and xs: "xs = ys @ u # zs" and "t \<notin> set (tl (ys @ [u]))"
    and "nxt s u = t \<or> zs = []"
  shows "rq_find_prev s t (rq_head s) = Some u"
proof -
  have h: "rq_head s = hd xs" and p: "lpath (nxt s) (hd xs) xs (hd xs)" and d: "distinct xs"
    using inv xs by (auto simp: rq_inv_def)
  from p have "lpath (nxt s) (rq_head s) ((ys @ [u]) @ zs) (hd xs)" using xs h by simp
  then obtain r where r: "lpath (nxt s) (rq_head s) (ys @ [u]) r" and z: "lpath (nxt s) r zs (hd xs)"
    unfolding lpath_append by blast
  have nx: "nxt s y \<in> set (tl (ys @ [u]))" if "y \<in> set ys" for y
    using lpath_butlast_next [OF r, of y] that by simp
  have "hd xs \<notin> set (tl (ys @ [u]))" using d xs by (cases ys) auto
  with nx assms(3) h have "\<And>y. y \<in> set ys \<Longrightarrow> nxt s y \<noteq> t \<and> nxt s y \<noteq> rq_head s" by metis
  moreover have "nxt s u = t \<or> nxt s u = rq_head s"
    using assms(4) r z h by auto
  ultimately show ?thesis by (rule rq_find_prev_path [OF r])
qed

lemma rq_remove_absent:
  assumes inv: "rq_inv s xs" and t: "t \<notin> set xs"
  shows "rq_remove t s = Some s"
proof (cases "xs = []")
  case True
  then show ?thesis using inv by (simp add: rq_remove_def rq_inv_def)
next
  case False
  have xs: "xs = butlast xs @ last xs # []" using False by simp
  have h: "rq_head s = hd xs" "rq_head s \<in> set xs" and p: "lpath (nxt s) (hd xs) xs (hd xs)"
    using inv False by (auto simp: rq_inv_def)
  have "t \<notin> set (tl (butlast xs @ [last xs]))" using t False by (auto dest: list.set_sel(2))
  then have "rq_find_prev s t (rq_head s) = Some (last xs)"
    using rq_find_prev_ring [OF inv xs] by simp
  moreover have "nxt s (last xs) = hd xs" using lpath_last [OF p False] .
  ultimately show ?thesis using h t by (auto simp: rq_remove_def)
qed

lemma rq_remove_inner:
  assumes inv: "rq_inv s (ys @ u # t # zs)"
  shows "\<exists>s'. rq_remove t s = Some s' \<and> rq_inv s' (ys @ u # zs) \<and> links_only s s'"
proof -
  let ?xs = "ys @ u # t # zs"
  have h: "rq_head s = hd ?xs" "rq_tail s = last ?xs" and d: "distinct ?xs" "NULL \<notin> set ?xs"
    and p: "lpath (nxt s) (hd ?xs) ?xs (hd ?xs)" and out: "\<forall>v. v \<notin> set ?xs \<longrightarrow> nxt s v = NULL"
    using inv by (auto simp: rq_inv_def)
  then obtain r where r: "lpath (nxt s) (hd ?xs) ys u" "nxt s u = t" "nxt s t = r" "lpath (nxt s) r zs (hd ?xs)"
    by auto
  have hd: "hd ?xs = hd (ys @ [u])" by (cases ys) auto
  have nt: "rq_head s \<noteq> t" using h hd d by (cases ys) auto
  have f: "rq_find_prev s t (rq_head s) = Some u"
  proof (rule rq_find_prev_ring [OF inv refl])
    show "t \<notin> set (tl (ys @ [u]))" using d by (cases ys) auto
    show "nxt s u = t \<or> t # zs = []" using r by simp
  qed
  define s1 where "s1 = upd_thread u (t_next_update (\<lambda>_. r)) s"
  define s2 where "s2 = (if rq_tail s = t then s1\<lparr>rq_tail := u\<rparr> else s1)"
  define s' where "s' = upd_thread t (t_next_update (\<lambda>_. NULL)) s2"
  have "rq_remove t s = Some s'"
    using f r nt d(2) rq_inv_head [OF inv] by (auto simp: rq_remove_def Let_def s'_def s2_def s1_def)
  moreover have "rq_inv s' (ys @ u # zs)"
  proof -
    have ut: "u \<noteq> t" using d(1) by simp
    have nx: "nxt s' = (nxt s)(u := r, t := NULL)"
      using ut by (auto simp: s'_def s2_def s1_def fun_eq_iff)
    have "lpath (nxt s') (hd ?xs) (ys @ u # zs) (hd ?xs)"
      unfolding nx using r d by auto
    moreover have "hd ?xs = hd (ys @ u # zs)" by (cases ys) auto
    moreover have "rq_tail s' = last (ys @ u # zs)"
      using h(2) d(1) by (auto simp: s'_def s2_def s1_def)
    moreover have "rq_head s' = rq_head s" by (auto simp: s'_def s2_def s1_def)
    moreover have "\<forall>v. v \<notin> set (ys @ u # zs) \<longrightarrow> nxt s' v = NULL"
      using out by (auto simp: s'_def s2_def s1_def)
    ultimately show ?thesis using h d by (simp add: rq_inv_def)
  qed
  moreover have "links_only s s'"
    by (simp add: links_only_def s'_def s2_def s1_def upd_thread_def)
  ultimately show ?thesis by blast
qed

lemma rq_remove_head:
  assumes inv: "rq_inv s (t # zs)" and "zs \<noteq> []"
  shows "\<exists>s'. rq_remove t s = Some s' \<and> rq_inv s' zs \<and> links_only s s'"
proof -
  have h: "rq_head s = t" "rq_tail s = last zs" and d: "distinct (t # zs)" "NULL \<notin> set (t # zs)"
    and p: "lpath (nxt s) t (t # zs) t" and out: "\<forall>v. v \<notin> set (t # zs) \<longrightarrow> nxt s v = NULL"
    using inv assms(2) by (auto simp: rq_inv_def)
  have r: "lpath (nxt s) (nxt s t) zs t" using p by simp
  then have nt: "nxt s t = hd zs" using assms(2) by (cases zs) auto
  let ?u = "last zs"
  have "?u \<in> set zs" using assms(2) by simp
  then have u: "?u \<in> set zs" "?u \<noteq> t" "nxt s ?u = t" "?u \<noteq> NULL"
    using d lpath_last [OF r assms(2)] by auto
  have "t # zs = (t # butlast zs) @ ?u # []" using assms(2) by simp
  then have f: "rq_find_prev s t (rq_head s) = Some ?u"
    by (rule rq_find_prev_ring [OF inv]) (use d u assms(2) in auto)
  define s1 where "s1 = upd_thread ?u (t_next_update (\<lambda>_. hd zs)) s"
  define s' where "s' = upd_thread t (t_next_update (\<lambda>_. NULL)) (s1\<lparr>rq_head := hd zs\<rparr>)"
  have "rq_remove t s = Some s'"
    using f u nt h d(2) by (auto simp: rq_remove_def Let_def s'_def s1_def)
  moreover have "rq_inv s' zs"
  proof -
    have nx: "nxt s' = (nxt s)(?u := hd zs, t := NULL)"
      using u by (auto simp: s'_def s1_def fun_eq_iff)
    have zs: "zs = butlast zs @ [?u]" using assms(2) by simp
    have "lpath (nxt s) (hd zs) (butlast zs @ [?u]) t" using r nt zs by simp
    then have "lpath (nxt s) (hd zs) (butlast zs) ?u" by auto
    moreover have "?u \<notin> set (butlast zs)" "t \<notin> set (butlast zs)"
      using d(1) zs by (metis distinct.simps(2) distinct_butlast not_distinct_conv_prefix
          append_butlast_last_id assms(2), metis d(1) distinct.simps(2) in_set_butlastD)
    ultimately have "lpath (nxt s') (hd zs) (butlast zs @ [?u]) (hd zs)"
      unfolding nx using u by auto
    then have "lpath (nxt s') (hd zs) zs (hd zs)" using zs by simp
    moreover have "\<forall>v. v \<notin> set zs \<longrightarrow> nxt s' v = NULL"
      using out u(1) by (auto simp: s'_def s1_def)
    ultimately show ?thesis
      using assms(2) d h by (auto simp: rq_inv_def s'_def s1_def)
  qed
  moreover have "links_only s s'"
    by (simp add: links_only_def s'_def s1_def upd_thread_def)
  ultimately show ?thesis by blast
qed

lemma rq_remove_only:
  assumes "rq_inv s [t]"
  shows "\<exists>s'. rq_remove t s = Some s' \<and> rq_inv s' [] \<and> links_only s s'"
proof -
  let ?s = "upd_thread t (t_next_update (\<lambda>_. NULL)) (s\<lparr>rq_head := NULL, rq_tail := NULL\<rparr>)"
  have "rq_remove t s = Some ?s" using assms by (auto simp: rq_remove_def rq_inv_def)
  moreover have "rq_inv ?s []" using assms by (simp add: rq_inv_def)
  moreover have "links_only s ?s" by (simp add: links_only_def upd_thread_def)
  ultimately show ?thesis by blast
qed

text \<open>Removal in all positions: the abstract operation is \<open>remove1\<close>.\<close>

lemma rq_remove_spec:
  assumes inv: "rq_inv s xs"
  shows "\<exists>s'. rq_remove t s = Some s' \<and> rq_inv s' (remove1 t xs) \<and> links_only s s'"
proof (cases "t \<in> set xs")
  case False
  then show ?thesis using rq_remove_absent [OF inv] inv by (simp add: remove1_idem)
next
  case True
  then obtain ys zs where xs: "xs = ys @ t # zs" "t \<notin> set ys" by (meson split_list_first)
  then have rm: "remove1 t xs = ys @ zs" by (simp add: remove1_append)
  show ?thesis
  proof (cases ys rule: rev_cases)
    case Nil
    then show ?thesis
      using xs rm inv rq_remove_only [of s t] rq_remove_head [of s t zs] by (cases zs) auto
  next
    case (snoc ys' u)
    then show ?thesis using xs rm inv rq_remove_inner [of s ys' u t zs] by simp
  qed
qed

section \<open>The scans\<close>

abbreviation eff :: "kstate \<Rightarrow> addr \<Rightarrow> int" where
  "eff s t \<equiv> t_effective_priority (threads s t)"

text \<open>The greatest effective priority among the ready threads of a list, at least \<open>b\<close>.\<close>

definition max_ready :: "kstate \<Rightarrow> int \<Rightarrow> addr list \<Rightarrow> int" where
  "max_ready s b xs = fold (\<lambda>t b. if is_ready s t \<and> eff s t > b then eff s t else b) xs b"

lemma max_ready_Cons [simp]:
  "max_ready s b (x # xs) = max_ready s (if is_ready s x \<and> eff s x > b then eff s x else b) xs"
  by (simp add: max_ready_def)

lemma max_ready_Nil [simp]: "max_ready s b [] = b"
  by (simp add: max_ready_def)

lemma max_ready_ge: "b \<le> max_ready s b xs"
  and max_ready_upper: "t \<in> set xs \<Longrightarrow> is_ready s t \<Longrightarrow> eff s t \<le> max_ready s b xs"
  and max_ready_attained:
    "max_ready s b xs = b \<or> (\<exists>t \<in> set xs. is_ready s t \<and> eff s t = max_ready s b xs)"
proof (induction xs arbitrary: b)
  case Nil
  { case 1 show ?case by simp next case 2 then show ?case by simp next case 3 show ?case by simp }
next
  case (Cons x xs)
  { case 1 show ?case using Cons.IH(1) [of "if is_ready s x \<and> eff s x > b then eff s x else b"]
      by (auto split: if_splits)
  next
    case 2 then show ?case
      using Cons.IH(1) [of "if is_ready s x \<and> eff s x > b then eff s x else b"] Cons.IH(2)
      by (auto split: if_splits)
  next
    case 3 show ?case
      using Cons.IH(3) [of "if is_ready s x \<and> eff s x > b then eff s x else b"]
      by (auto split: if_splits) }
qed

text \<open>
  All scans walk the ring from \<open>start\<close> once around. \<open>xs\<close> is what is left of the round.
\<close>

lemma rq_max_loop_path:
  "lpath (nxt s) t (t # xs) start \<Longrightarrow> start \<noteq> NULL \<Longrightarrow> start \<notin> set xs \<Longrightarrow>
   rq_max_loop s start t best = Some (max_ready s best (t # xs))"
proof (induction xs arbitrary: t best)
  case Nil
  then show ?case by (subst rq_max_loop.simps) (simp add: Let_def)
next
  case (Cons y xs)
  then have y: "nxt s t = y" "y \<noteq> NULL" "y \<noteq> start" and r: "lpath (nxt s) y (y # xs) start"
    by auto
  show ?case
    using Cons.IH [OF r] Cons.prems(2,3) y by (subst rq_max_loop.simps) (simp add: Let_def)
qed

lemma rq_gt_loop_path:
  "lpath (nxt s) t (t # xs) start \<Longrightarrow> start \<noteq> NULL \<Longrightarrow> start \<notin> set xs \<Longrightarrow>
   rq_gt_loop s start t prio = Some (\<exists>u \<in> set (t # xs). is_ready s u \<and> eff s u > prio)"
proof (induction xs arbitrary: t)
  case Nil
  then show ?case by (subst rq_gt_loop.simps) (simp add: Let_def)
next
  case (Cons y xs)
  then have y: "nxt s t = y" "y \<noteq> NULL" "y \<noteq> start" and r: "lpath (nxt s) y (y # xs) start"
    by auto
  show ?case
    using Cons.IH [OF r] Cons.prems(2,3) y by (subst rq_gt_loop.simps) (auto simp: Let_def)
qed

definition pickable :: "kstate \<Rightarrow> addr \<Rightarrow> bool \<Rightarrow> int \<Rightarrow> addr \<Rightarrow> bool" where
  "pickable s cur excl b t \<longleftrightarrow> is_ready s t \<and> eff s t = b \<and> (\<not> excl \<or> t \<noteq> cur)"

lemma pick_loop_step:
  "pick_loop s cur excl b start t =
     (if pickable s cur excl b t then Some t
      else if nxt s t \<noteq> NULL \<and> nxt s t \<noteq> start then pick_loop s cur excl b start (nxt s t)
      else Some NULL)"
  by (subst pick_loop.simps) (simp only: Let_def pickable_def)

lemma pick_loop_path:
  "lpath (nxt s) t (t # xs) start \<Longrightarrow> start \<noteq> NULL \<Longrightarrow> start \<notin> set xs \<Longrightarrow>
   pick_loop s cur excl b start t =
     Some (case find (pickable s cur excl b) (t # xs) of None \<Rightarrow> NULL | Some u \<Rightarrow> u)"
proof (induction xs arbitrary: t)
  case Nil
  then show ?case by (subst pick_loop_step) simp
next
  case (Cons y xs)
  then have y: "nxt s t = y" "y \<noteq> NULL" "y \<noteq> start" and r: "lpath (nxt s) y (y # xs) start"
    by auto
  have "pick_loop s cur excl b start y =
      Some (case find (pickable s cur excl b) (y # xs) of None \<Rightarrow> NULL | Some u \<Rightarrow> u)"
    using Cons.IH [OF r] Cons.prems(2,3) by simp
  then show ?case using y by (subst pick_loop_step) simp
qed

lemma rq_max_ready_priority_inv:
  "rq_inv s xs \<Longrightarrow> rq_max_ready_priority s = Some (max_ready s (-1) xs)"
proof (cases xs)
  case Nil
  assume "rq_inv s xs"
  then show ?thesis using Nil by (simp add: rq_max_ready_priority_def rq_inv_def)
next
  case (Cons x ys)
  assume "rq_inv s xs"
  then show ?thesis
    using Cons rq_max_loop_path [of s x ys x "-1"]
    by (auto simp: rq_max_ready_priority_def rq_inv_def)
qed

lemma rq_has_ready_prio_gt_inv:
  "rq_inv s xs \<Longrightarrow> rq_has_ready_prio_gt s prio = Some (\<exists>u \<in> set xs. is_ready s u \<and> eff s u > prio)"
proof (cases xs)
  case Nil
  assume "rq_inv s xs"
  then show ?thesis using Nil by (simp add: rq_has_ready_prio_gt_def rq_inv_def)
next
  case (Cons x ys)
  assume "rq_inv s xs"
  then show ?thesis
    using Cons rq_gt_loop_path [of s x ys x prio]
    by (auto simp: rq_has_ready_prio_gt_def rq_inv_def)
qed

text \<open>The round of a scan that starts at \<open>start\<close>: the ring rotated to begin there.\<close>

definition round_from :: "addr list \<Rightarrow> addr \<Rightarrow> addr list" where
  "round_from xs start = dropWhile (\<lambda>x. x \<noteq> start) xs @ takeWhile (\<lambda>x. x \<noteq> start) xs"

lemma set_round_from [simp]: "set (round_from xs start) = set xs"
proof -
  have "set (round_from xs start) =
      set (takeWhile (\<lambda>x. x \<noteq> start) xs @ dropWhile (\<lambda>x. x \<noteq> start) xs)"
    unfolding round_from_def set_append by (rule Un_commute)
  then show ?thesis by (simp only: takeWhile_dropWhile_id)
qed

lemma pick_loop_ring:
  assumes inv: "rq_inv s xs" and st: "start \<in> set xs"
  shows "pick_loop s cur excl b start start =
    Some (case find (pickable s cur excl b) (round_from xs start) of None \<Rightarrow> NULL | Some u \<Rightarrow> u)"
proof -
  obtain ys zs where xs: "xs = ys @ start # zs" "start \<notin> set ys"
    using st by (meson split_list_first)
  have d: "distinct xs" "NULL \<notin> set xs" and p: "lpath (nxt s) (hd xs) (ys @ (start # zs)) (hd xs)"
    using inv xs by (auto simp: rq_inv_def)
  have p': "lpath (nxt s) start (start # (zs @ ys)) start"
    using lpath_rotate [OF p] by simp
  have "\<forall>y \<in> set ys. y \<noteq> start" using xs(2) by auto
  then have rf: "round_from xs start = start # (zs @ ys)"
    using xs by (simp add: round_from_def)
  have "start \<notin> set (zs @ ys)" "start \<noteq> NULL" using d xs st by auto
  with pick_loop_path [OF p'] show ?thesis unfolding rf by blast
qed

lemma max_ready_props:
  assumes "u \<in> set xs" "is_ready s u" "0 \<le> eff s u"
  shows "0 \<le> max_ready s (-1) xs"
    and "\<exists>t \<in> set xs. is_ready s t \<and> eff s t = max_ready s (-1) xs"
proof -
  have "eff s u \<le> max_ready s (-1) xs" by (rule max_ready_upper [OF assms(1,2)])
  then show m: "0 \<le> max_ready s (-1) xs" using assms(3) by simp
  show "\<exists>t \<in> set xs. is_ready s t \<and> eff s t = max_ready s (-1) xs"
    using max_ready_attained [of s "-1" xs] m by auto
qed

lemma find_SomeD: "find P xs = Some u \<Longrightarrow> u \<in> set xs \<and> P u"
  by (auto simp: find_Some_iff)

lemma find_hd_filter: "find P xs = (case filter P xs of [] \<Rightarrow> None | u # _ \<Rightarrow> Some u)"
  by (induction xs) auto

lemma rq_inv_next_mem:
  assumes "rq_inv s xs" "t \<in> set xs"
  shows "nxt s t \<in> set xs"
proof -
  have ne: "xs \<noteq> []" using assms(2) by auto
  then have p: "lpath (nxt s) (hd xs) xs (hd xs)" using assms(1) by (simp add: rq_inv_def)
  show ?thesis
  proof (cases "t = last xs")
    case True
    then show ?thesis using lpath_last [OF p ne] ne by simp
  next
    case False
    then have "t \<in> set (butlast xs)"
      using assms(2) ne by (metis append_butlast_last_id in_set_conv_decomp set_ConsD rotate1.simps(2) set_rotate1)
    then show ?thesis using lpath_butlast_next [OF p] by (meson list.set_sel(2) ne)
  qed
qed

text \<open>
  The search of \<^verbatim>\<open>prio_pick_next\<close> always starts inside the ring.
\<close>

definition pick_start :: "kstate \<Rightarrow> addr \<Rightarrow> bool \<Rightarrow> addr" where
  "pick_start s cur adv = (if adv \<and> cur \<noteq> NULL \<and> nxt s cur \<noteq> NULL then nxt s cur else rq_head s)"

lemma pick_start_mem:
  assumes "rq_inv s xs" "xs \<noteq> []"
  shows "pick_start s cur adv \<in> set xs"
proof -
  have "nxt s cur \<noteq> NULL \<Longrightarrow> cur \<in> set xs" using assms(1) unfolding rq_inv_def by metis
  moreover have "rq_head s \<in> set xs" using assms by (simp add: rq_inv_def)
  ultimately show ?thesis using rq_inv_next_mem [OF assms(1)] by (auto simp: pick_start_def)
qed

lemma prio_pick_next_eq:
  assumes inv: "rq_inv s xs" and b: "max_ready s (-1) xs = b" "0 \<le> b" and ne: "xs \<noteq> []"
  shows "prio_pick_next s cur excl rot =
    (if \<not> excl \<and> \<not> rot \<and> is_ready s cur \<and> eff s cur = b then Some cur
     else case find (pickable s cur excl b) (round_from xs (pick_start s cur (excl \<or> rot))) of
       Some t \<Rightarrow> Some t
     | None \<Rightarrow> if is_ready s cur \<and> eff s cur = b then Some cur else Some (rq_head s))"
proof -
  let ?st = "pick_start s cur (excl \<or> rot)"
  have nh: "rq_head s \<noteq> NULL" using rq_inv_head [OF inv] ne by simp
  have st: "?st \<in> set xs" by (rule pick_start_mem [OF inv ne])
  have nn: "u \<noteq> NULL" if "find (pickable s cur excl b) (round_from xs ?st) = Some u" for u
    using find_SomeD [OF that] inv by (auto simp: rq_inv_def)
  have rd: "\<not> is_ready s NULL" by (simp add: is_ready_def)
  have mx: "rq_max_ready_priority s = Some b" using rq_max_ready_priority_inv [OF inv] b by simp
  have "prio_pick_next s cur excl rot =
    (if \<not> excl \<and> \<not> rot \<and> is_ready s cur \<and> eff s cur = b then Some cur
     else do {
       t \<leftarrow> pick_loop s cur excl b ?st ?st;
       if t \<noteq> NULL then Some t
       else if is_ready s cur \<and> eff s cur = b then Some cur
       else Some (rq_head s) })"
    using nh b(2) rd
    by (cases "cur = NULL") (simp_all only: prio_pick_next_def mx pick_start_def Let_def not_less [symmetric]
        bind.simps simp_thms if_True if_False)
  then show ?thesis
    unfolding pick_loop_ring [OF inv st] using nn
    by (cases "find (pickable s cur excl b) (round_from xs ?st)")
      (simp_all only: option.case bind.simps option.inject simp_thms if_True if_False)
qed

lemma pick_next_is_max:
  assumes "rq_inv s xs" and "u \<in> set xs" "is_ready s u" "0 \<le> eff s u"
  shows "\<exists>t. prio_pick_next s cur excl rot = Some t \<and> (t \<in> set xs \<or> t = cur) \<and> is_ready s t \<and>
    (\<forall>v \<in> set xs. is_ready s v \<longrightarrow> eff s v \<le> eff s t)"
proof -
  let ?b = "max_ready s (-1) xs" and ?st = "pick_start s cur (excl \<or> rot)"
  have ne: "xs \<noteq> []" using assms(2) by auto
  have b: "0 \<le> ?b" and ex: "\<exists>t \<in> set xs. is_ready s t \<and> eff s t = ?b"
    using max_ready_props [OF assms(2-4)] by auto
  have up: "\<And>v. v \<in> set xs \<Longrightarrow> is_ready s v \<Longrightarrow> eff s v \<le> ?b" by (rule max_ready_upper)
  note eq = prio_pick_next_eq [OF assms(1) refl b ne, of cur excl rot]
  show ?thesis
  proof (cases "find (pickable s cur excl ?b) (round_from xs ?st)")
    case None
    then have "\<forall>v \<in> set xs. \<not> pickable s cur excl ?b v" by (simp add: find_None_iff)
    then have "is_ready s cur \<and> eff s cur = ?b" using ex by (auto simp: pickable_def)
    then show ?thesis using eq None up by auto
  next
    case (Some t)
    then have "t \<in> set xs \<and> pickable s cur excl ?b t" using find_SomeD [OF Some] by simp
    then show ?thesis using eq Some up by (auto simp: pickable_def)
  qed
qed

text \<open>
  C4: whatever the mode, \<^verbatim>\<open>prio_pick_next\<close> returns, and when some thread of the run queue is ready
  it returns a ready thread (of the queue, or the running one) whose effective priority is the
  maximum over the ready threads of the queue.
\<close>
theorem prio_pick_next_max:
  assumes "rq_inv s xs" and "u \<in> set xs" "is_ready s u" "0 \<le> eff s u"
  shows "\<exists>t. prio_pick_next s cur excl rot = Some t \<and> (t \<in> set xs \<or> t = cur) \<and> is_ready s t \<and>
    (\<forall>v \<in> set xs. is_ready s v \<longrightarrow> eff s v \<le> eff s t)"
  using assms by (rule pick_next_is_max)

text \<open>A queue of two ready threads of priority 10, linked in a ring, and a third of priority 3.\<close>

definition ring_example :: kstate where
  "ring_example = boot_state\<lparr>threads := (\<lambda>_. zero_thread)
     (16 := zero_thread\<lparr>t_next := 32, t_effective_priority := 10\<rparr>,
      32 := zero_thread\<lparr>t_next := 48, t_effective_priority := 3\<rparr>,
      48 := zero_thread\<lparr>t_next := 16, t_effective_priority := 10\<rparr>),
     rq_head := 16, rq_tail := 48\<rparr>"

lemma ring_example_inv: "rq_inv ring_example [16, 32, 48]"
  by (simp add: rq_inv_def ring_example_def zero_thread_def)

lemma ring_example_ready: "is_ready ring_example t \<longleftrightarrow> t \<noteq> NULL"
  "eff ring_example 16 = 10" "eff ring_example 32 = 3" "eff ring_example 48 = 10"
  by (simp_all add: is_ready_def ring_example_def zero_thread_def kThreadReady_def)

theorem prio_pick_next_max_witness:
  "\<exists>t. prio_pick_next ring_example 32 False False = Some t \<and> (t \<in> set [16, 32, 48] \<or> t = 32) \<and>
     is_ready ring_example t \<and>
     (\<forall>v \<in> set [16, 32, 48]. is_ready ring_example v \<longrightarrow> eff ring_example v \<le> eff ring_example t)"
  by (rule prio_pick_next_max [OF ring_example_inv, of 16]) (simp_all add: ring_example_ready)

section \<open>Rotation among equals\<close>

lemma ring_next:
  assumes inv: "rq_inv s xs" and xs: "xs = ys @ t # zs"
  shows "nxt s t = hd (zs @ ys @ [t])"
proof -
  have p: "lpath (nxt s) (hd xs) (ys @ (t # zs)) (hd xs)" using inv xs by (auto simp: rq_inv_def)
  have "lpath (nxt s) t (t # (zs @ ys)) t" using lpath_rotate [OF p] by simp
  then have "lpath (nxt s) (nxt s t) (zs @ ys) t" by simp
  then show ?thesis by (cases zs; cases ys) auto
qed

lemma round_from_next:
  assumes inv: "rq_inv s xs" and xs: "xs = ys @ t # zs"
  shows "round_from xs (nxt s t) = zs @ ys @ [t]"
proof (cases zs)
  case Nil
  have "nxt s t = hd xs" "xs \<noteq> []" using ring_next [OF assms] Nil xs by (cases ys; simp)+
  then have "round_from xs (nxt s t) = xs" by (cases xs) (simp_all add: round_from_def)
  then show ?thesis using xs Nil by simp
next
  case (Cons z zs')
  then have n: "nxt s t = z" using ring_next [OF assms] by simp
  have "distinct xs" using inv by (simp add: rq_inv_def)
  then have "z \<notin> set ys" "z \<noteq> t" using xs Cons by auto
  moreover from this have "\<And>y. y \<in> set ys \<Longrightarrow> y \<noteq> z" by auto
  ultimately show ?thesis using n xs Cons by (simp add: round_from_def)
qed

lemma nth_filter_split:
  assumes "distinct xs" "i < length (filter P xs)"
  obtains ys zs where "xs = ys @ filter P xs ! i # zs" "length (filter P ys) = i"
    "filter P xs = filter P ys @ filter P xs ! i # filter P zs"
proof -
  let ?t = "filter P xs ! i"
  have t: "?t \<in> set (filter P xs)" using assms(2) by (rule nth_mem)
  then obtain ys zs where xs: "xs = ys @ ?t # zs" by (metis filter_is_subset in_mono in_set_conv_decomp)
  have f: "filter P xs = filter P ys @ ?t # filter P zs"
    using t by (subst xs) (simp del: nth_mem)
  have "filter P xs ! length (filter P ys) = ?t" by (subst f) simp
  moreover have "length (filter P ys) < length (filter P xs)" using arg_cong [OF f, of length] by simp
  ultimately have "length (filter P ys) = i"
    using assms distinct_filter nth_eq_iff_index_eq by metis
  from that [OF xs this f] show ?thesis .
qed

text \<open>
  C5: a yield or an expired quantum (\<^verbatim>\<open>exclude_current\<close> and \<^verbatim>\<open>rotate_equal\<close>) is round robin among
  the ready threads of the highest priority: taken in queue order, from the \<open>i\<close>-th of them it goes
  to the next one, and from the last back to the first.
\<close>
theorem prio_pick_next_rotates:
  assumes inv: "rq_inv s xs"
    and ys: "ys = [t \<leftarrow> xs. is_ready s t \<and> eff s t = max_ready s (-1) xs]"
    and b: "0 \<le> max_ready s (-1) xs" and i: "i < length ys"
  shows "prio_pick_next s (ys ! i) True True = Some (ys ! (Suc i mod length ys))"
proof -
  let ?b = "max_ready s (-1) xs" and ?P = "\<lambda>t. is_ready s t \<and> eff s t = max_ready s (-1) xs"
  define t where "t = ys ! i"
  have d: "distinct xs" using inv by (simp add: rq_inv_def)
  obtain as zs where xs: "xs = as @ t # zs" and li: "length (filter ?P as) = i"
    and f: "ys = filter ?P as @ t # filter ?P zs"
    using nth_filter_split [OF d i [unfolded ys]] unfolding ys [symmetric] t_def [symmetric] .
  have t: "t \<in> set xs" "?P t" "t \<noteq> NULL" using nth_mem [OF i] unfolding t_def ys by (auto simp: is_ready_def)
  have nn: "nxt s t \<noteq> NULL" using rq_inv_next_mem [OF inv t(1)] inv by (auto simp: rq_inv_def)
  have st: "pick_start s t (True \<or> True) = nxt s t" using t nn by (simp add: pick_start_def)
  have nin: "t \<notin> set (zs @ as)" using d xs by auto
  have "filter (pickable s t True ?b) (zs @ as) = filter ?P (zs @ as)"
    by (rule filter_cong) (use nin in \<open>auto simp: pickable_def\<close>)
  moreover have "\<not> pickable s t True ?b t" by (simp add: pickable_def)
  ultimately have "filter (pickable s t True ?b) (zs @ as @ [t]) = filter ?P (zs @ as)" by simp
  then have fd: "find (pickable s t True ?b) (round_from xs (nxt s t)) =
      (case filter ?P zs @ filter ?P as of [] \<Rightarrow> None | u # _ \<Rightarrow> Some u)"
    unfolding round_from_next [OF inv xs] find_hd_filter by simp
  have ne: "xs \<noteq> []" using xs by simp
  show ?thesis
    unfolding t_def [symmetric] prio_pick_next_eq [OF inv refl b ne] st fd
    using t(2) li by (cases "filter ?P zs"; cases "filter ?P as") (auto simp: f nth_append)
qed

theorem prio_pick_next_rotates_witness:
  "prio_pick_next ring_example ([16, 48] ! 1) True True = Some ([16, 48] ! (Suc 1 mod length [16, 48 :: addr]))"
proof -
  have m: "max_ready ring_example (-1) [16, 32, 48] = 10"
    by (simp add: ring_example_ready)
  show ?thesis
    by (rule prio_pick_next_rotates [OF ring_example_inv])
      (simp_all only: m, simp_all add: ring_example_ready)
qed

section \<open>The queue interface\<close>

text \<open>
  What the scheduler and the blocking primitives rely on: a queue that appends a thread it does
  not hold and removes a thread, held or not. Sequences of such operations are executed on the
  abstract list.
\<close>

datatype rq_op = RqAppend addr | RqRemove addr

fun rq_op_list :: "rq_op \<Rightarrow> addr list \<Rightarrow> addr list option" where
  "rq_op_list (RqAppend t) xs = (if t = NULL \<or> t \<in> set xs then None else Some (xs @ [t]))"
| "rq_op_list (RqRemove t) xs = Some (remove1 t xs)"

fun rq_ops_list :: "rq_op list \<Rightarrow> addr list \<Rightarrow> addr list option" where
  "rq_ops_list [] xs = Some xs"
| "rq_ops_list (q # qs) xs = Option.bind (rq_op_list q xs) (rq_ops_list qs)"

fun ops_exec :: "(addr \<Rightarrow> 's \<Rightarrow> 's option) \<Rightarrow> (addr \<Rightarrow> 's \<Rightarrow> 's option) \<Rightarrow> rq_op list \<Rightarrow> 's \<Rightarrow> 's option" where
  "ops_exec enq deq [] s = Some s"
| "ops_exec enq deq (RqAppend t # qs) s = Option.bind (enq t s) (ops_exec enq deq qs)"
| "ops_exec enq deq (RqRemove t # qs) s = Option.bind (deq t s) (ops_exec enq deq qs)"

locale thread_queue =
  fixes enq deq :: "addr \<Rightarrow> 's \<Rightarrow> 's option" and rel :: "'s \<Rightarrow> addr list \<Rightarrow> bool"
  assumes enq_law: "rel s xs \<Longrightarrow> t \<noteq> NULL \<Longrightarrow> t \<notin> set xs \<Longrightarrow> \<exists>s'. enq t s = Some s' \<and> rel s' (xs @ [t])"
    and deq_law: "rel s xs \<Longrightarrow> \<exists>s'. deq t s = Some s' \<and> rel s' (remove1 t xs)"
begin

lemma ops_refine:
  "rel s xs \<Longrightarrow> rq_ops_list qs xs = Some ys \<Longrightarrow> \<exists>s'. ops_exec enq deq qs s = Some s' \<and> rel s' ys"
proof (induction qs arbitrary: s xs)
  case Nil
  then show ?case by simp
next
  case (Cons q qs)
  show ?case
  proof (cases q)
    case (RqAppend t)
    then have t: "t \<noteq> NULL" "t \<notin> set xs" and r: "rq_ops_list qs (xs @ [t]) = Some ys"
      using Cons.prems(2) by (auto split: if_splits)
    obtain s1 where "enq t s = Some s1" "rel s1 (xs @ [t])" using enq_law [OF Cons.prems(1) t] by blast
    then show ?thesis using Cons.IH [OF _ r] RqAppend by simp
  next
    case (RqRemove t)
    then have r: "rq_ops_list qs (remove1 t xs) = Some ys" using Cons.prems(2) by simp
    obtain s1 where "deq t s = Some s1" "rel s1 (remove1 t xs)" using deq_law [OF Cons.prems(1)] by blast
    then show ?thesis using Cons.IH [OF _ r] RqRemove by simp
  qed
qed

text \<open>A thread moved out and back in ends up at the end of the queue, everyone else in order.\<close>

lemma requeue:
  assumes "rel s xs" "distinct xs" "t \<in> set xs" "t \<noteq> NULL"
  shows "\<exists>s'. Option.bind (deq t s) (enq t) = Some s' \<and> rel s' (remove1 t xs @ [t])"
proof -
  obtain s1 where s1: "deq t s = Some s1" "rel s1 (remove1 t xs)" using deq_law [OF assms(1)] by blast
  have "t \<notin> set (remove1 t xs)" using assms(2) by simp
  from enq_law [OF s1(2) assms(4) this] s1(1) show ?thesis by auto
qed

end

interpretation rq: thread_queue rq_append rq_remove rq_inv
proof unfold_locales
  show "\<exists>s'. rq_append t s = Some s' \<and> rq_inv s' (xs @ [t])"
    if "rq_inv s xs" "t \<noteq> NULL" "t \<notin> set xs" for s xs t
    using rq_append_spec [OF that] by blast
  show "\<exists>s'. rq_remove t s = Some s' \<and> rq_inv s' (remove1 t xs)" if "rq_inv s xs" for s xs t
    using rq_remove_spec [OF that] by blast
qed

text \<open>
  C3: any sequence of \<^verbatim>\<open>rq_append\<close> (of threads not in the queue) and \<^verbatim>\<open>rq_remove\<close> calls terminates,
  dereferences no null pointer, and leaves a circular list that holds exactly the threads the
  abstract FIFO list holds, in its order, with head and tail pointing to its ends.
\<close>
theorem rq_ops_refine_list:
  assumes "rq_inv s xs" and "rq_ops_list qs xs = Some ys"
  shows "\<exists>s'. ops_exec rq_append rq_remove qs s = Some s' \<and> rq_inv s' ys"
  using assms by (rule rq.ops_refine)

lemma rq_inv_boot: "rq_inv boot_state []"
  by (simp add: rq_inv_def boot_state_def zero_thread_def)

theorem rq_ops_refine_list_witness:
  "\<exists>s'. ops_exec rq_append rq_remove
      [RqAppend 16, RqAppend 32, RqAppend 48, RqRemove 32, RqRemove 64, RqAppend 32, RqRemove 16] boot_state
      = Some s' \<and> rq_inv s' [48, 32]"
  by (rule rq_ops_refine_list [OF rq_inv_boot]) simp

end
