(* ===== verification/ThreadStack.thy ===== *)
theory ThreadStack
  imports Kernel_State
begin

text \<open>
  The stack diagnostics of \<^verbatim>\<open>src/thread.cc\<close>: \<^verbatim>\<open>stack_init_guard_and_watermark\<close> writes a 64-byte
  guard pattern at the lowest addresses of a stack and fills the rest with a watermark byte;
  \<^verbatim>\<open>stack_guard_ok\<close> tests the pattern on every tick, \<^verbatim>\<open>stack_high_watermark_bytes\<close> estimates the
  deepest use. The theorems: initialisation establishes the pattern and a use of 0 and touches
  nothing outside the stack; the test is exact, so that a change of any guard byte is detected;
  the estimate is the distance from the lowest overwritten byte to the top.
\<close>

section \<open>Model\<close>

definition kStackGuardMagic :: u64 where "kStackGuardMagic = 0x737461636b677561"
definition kStackGuardBytes :: u64 where "kStackGuardBytes = 64"
definition kStackGuardPageBytes :: u64 where "kStackGuardPageBytes = 4096"
definition kStackWatermark :: u8 where "kStackWatermark = 0xA5"

text \<open>\<^verbatim>\<open>static_cast<uint8_t>((kStackGuardMagic >> (i * 8u)) & 0xFFu)\<close>\<close>

definition magic_byte :: "nat \<Rightarrow> u8" where
  "magic_byte i = ucast (drop_bit (i * 8) kStackGuardMagic AND 0xFF)"

function guard_bytes_loop :: "addr \<Rightarrow> nat \<Rightarrow> nat \<Rightarrow> mem \<Rightarrow> mem" where
  "guard_bytes_loop q i remain m =
     (if i < remain then guard_bytes_loop q (Suc i) remain (m(q + of_nat i := magic_byte i)) else m)"
  by pat_completeness auto
termination by (relation "measure (\<lambda>(q, i, remain, m). remain - i)") auto

function guard_loop :: "addr \<Rightarrow> nat \<Rightarrow> nat \<Rightarrow> mem \<Rightarrow> mem" where
  "guard_loop p off guard m =
     (if off < guard then
        let remain = guard - off;
            m = (if remain < 8 then guard_bytes_loop (p + of_nat off) 0 remain m
                 else store64 m (p + of_nat off) kStackGuardMagic)
        in guard_loop p (off + 8) guard m
      else m)"
  by pat_completeness auto
termination by (relation "measure (\<lambda>(p, off, guard, m). guard - off)") auto

function watermark_loop :: "addr \<Rightarrow> nat \<Rightarrow> nat \<Rightarrow> mem \<Rightarrow> mem" where
  "watermark_loop p i sz m =
     (if i < sz then watermark_loop p (Suc i) sz (m(p + of_nat i := kStackWatermark)) else m)"
  by pat_completeness auto
termination by (relation "measure (\<lambda>(p, i, sz, m). sz - i)") auto

declare guard_bytes_loop.simps [simp del] guard_loop.simps [simp del] watermark_loop.simps [simp del]

definition guard_size :: "u64 \<Rightarrow> u64" where
  "guard_size sz = (if sz \<ge> kStackGuardBytes then kStackGuardBytes else sz)"

definition stack_init_guard_and_watermark :: "addr \<Rightarrow> u64 \<Rightarrow> mem \<Rightarrow> mem" where
  "stack_init_guard_and_watermark base sz m =
     (if base = NULL \<or> sz = 0 then m
      else let guard = unat (guard_size sz);
               m = guard_loop base 0 guard m
           in watermark_loop base guard (unat sz) m)"

function check_bytes_loop :: "addr \<Rightarrow> nat \<Rightarrow> nat \<Rightarrow> mem \<Rightarrow> bool" where
  "check_bytes_loop q i remain m =
     (if i < remain then
        if m (q + of_nat i) \<noteq> magic_byte i then False else check_bytes_loop q (Suc i) remain m
      else True)"
  by pat_completeness auto
termination by (relation "measure (\<lambda>(q, i, remain, m). remain - i)") auto

function check_loop :: "addr \<Rightarrow> nat \<Rightarrow> nat \<Rightarrow> mem \<Rightarrow> bool" where
  "check_loop p off guard m =
     (if off < guard then
        let remain = guard - off in
        if remain < 8 then
          if \<not> check_bytes_loop (p + of_nat off) 0 remain m then False
          else check_loop p (off + 8) guard m
        else if load64 m (p + of_nat off) \<noteq> kStackGuardMagic then False
        else check_loop p (off + 8) guard m
      else True)"
  by pat_completeness auto
termination by (relation "measure (\<lambda>(p, off, guard, m). guard - off)") auto

declare check_bytes_loop.simps [simp del] check_loop.simps [simp del]

definition stack_guard_ok :: "kstate \<Rightarrow> addr \<Rightarrow> bool" where
  "stack_guard_ok s t \<longleftrightarrow>
     (if t = NULL \<or> t_stack_base (thr s t) = NULL \<or> t_stack_size (thr s t) = 0 then True
      else check_loop (t_stack_base (thr s t)) 0 (unat (guard_size (t_stack_size (thr s t)))) (bytes s))"

text \<open>The scan that counts unused bytes from the guard upwards.\<close>

function unused_loop :: "addr \<Rightarrow> nat \<Rightarrow> nat \<Rightarrow> nat \<Rightarrow> mem \<Rightarrow> nat" where
  "unused_loop p i sz unused m =
     (if i < sz then
        if m (p + of_nat i) \<noteq> kStackWatermark then unused
        else unused_loop p (Suc i) sz (Suc unused) m
      else unused)"
  by pat_completeness auto
termination by (relation "measure (\<lambda>(p, i, sz, unused, m). sz - i)") auto

declare unused_loop.simps [simp del]

definition stack_high_watermark_bytes :: "kstate \<Rightarrow> addr \<Rightarrow> u64" where
  "stack_high_watermark_bytes s t =
     (let base = t_stack_base (thr s t); sz = t_stack_size (thr s t) in
      if t = NULL \<or> base = NULL \<or> sz = 0 then 0
      else if sz \<le> kStackGuardBytes then sz
      else let unused = (of_nat (unused_loop base (unat kStackGuardBytes) (unat sz) 0 (bytes s)) :: u64);
               usable = sz - kStackGuardBytes
           in if unused \<le> usable then usable - unused else usable)"

definition thread_stack_guard_ok :: "kstate \<Rightarrow> addr \<Rightarrow> int" where
  "thread_stack_guard_ok s t = (if stack_guard_ok s t then 1 else 0)"

definition thread_stack_high_watermark_bytes :: "kstate \<Rightarrow> addr \<Rightarrow> u64" where
  "thread_stack_high_watermark_bytes s t = stack_high_watermark_bytes s t"

section \<open>The guard pattern\<close>

text \<open>The byte the pattern has at offset \<open>i\<close> of the stack.\<close>

definition guard_byte :: "nat \<Rightarrow> u8" where
  "guard_byte i = magic_byte (i mod 8)"

lemma magic_byte_drop: "magic_byte j = ucast (drop_bit (8 * j) kStackGuardMagic)"
proof (rule bit_word_eqI)
  fix i assume "i < LENGTH(8)"
  then have "bit (0xFF :: 64 word) i"
    using bit_mask_iff [where 'a = "64 word", of 8 i] by (simp add: mask_eq_exp_minus_1)
  then show "bit (magic_byte j) i = bit (ucast (drop_bit (8 * j) kStackGuardMagic) :: u8) i"
    by (simp add: magic_byte_def bit_simps mult.commute)
qed

lemma add_of_nat_eq_iff:
  assumes "i < 2 ^ 64" "j < 2 ^ 64"
  shows "(p :: addr) + of_nat i = p + of_nat j \<longleftrightarrow> i = j"
proof -
  have "unat (of_nat i :: addr) = i" "unat (of_nat j :: addr) = j"
    using assms by (simp_all add: unat_of_nat)
  then show ?thesis by (metis add_left_cancel)
qed

lemma upd_of_nat:
  assumes "i < 2 ^ 64" "j < 2 ^ 64"
  shows "(m((p :: addr) + of_nat i := v)) (p + of_nat j) = (if j = i then v else m (p + of_nat j))"
  using add_of_nat_eq_iff [OF assms(2,1), of p] by (simp only: fun_upd_apply)

lemma guard_bytes_loop_nth:
  assumes "remain \<le> 2 ^ 64" "j < 2 ^ 64"
  shows "guard_bytes_loop q i remain m (q + of_nat j) =
    (if i \<le> j \<and> j < remain then magic_byte j else m (q + of_nat j))"
  using assms
proof (induction q i remain m rule: guard_bytes_loop.induct)
  case (1 q i remain m)
  have step: "guard_bytes_loop q (Suc i) remain (m(q + of_nat i := magic_byte i)) (q + of_nat j) =
      (if i \<le> j \<and> j < remain then magic_byte j else m (q + of_nat j))" if i: "i < remain"
  proof -
    have "i < 2 ^ 64" using i 1(2) by (rule order.strict_trans2)
    note u = upd_of_nat [OF this 1(3), of m q "magic_byte i"]
    show ?thesis
      unfolding 1(1) [OF i 1(2,3)] u using i by (auto simp: le_less Suc_le_eq)
  qed
  show ?case
    by (subst guard_bytes_loop.simps) (simp add: step del: fun_upd_apply)
qed

lemma watermark_loop_nth:
  assumes "sz \<le> 2 ^ 64" "j < 2 ^ 64"
  shows "watermark_loop p i sz m (p + of_nat j) =
    (if i \<le> j \<and> j < sz then kStackWatermark else m (p + of_nat j))"
  using assms
proof (induction p i sz m rule: watermark_loop.induct)
  case (1 p i sz m)
  have step: "watermark_loop p (Suc i) sz (m(p + of_nat i := kStackWatermark)) (p + of_nat j) =
      (if i \<le> j \<and> j < sz then kStackWatermark else m (p + of_nat j))" if i: "i < sz"
  proof -
    have "i < 2 ^ 64" using i 1(2) by (rule order.strict_trans2)
    note u = upd_of_nat [OF this 1(3), of m p "kStackWatermark"]
    show ?thesis
      unfolding 1(1) [OF i 1(2,3)] u using i by (auto simp: le_less Suc_le_eq)
  qed
  show ?case
    by (subst watermark_loop.simps) (simp add: step del: fun_upd_apply)
qed

lemma all_from_split:
  "(\<forall>j. i \<le> j \<and> j < n \<longrightarrow> P j) \<longleftrightarrow> (i < n \<longrightarrow> P i \<and> (\<forall>j. Suc i \<le> j \<and> j < n \<longrightarrow> P j))" for i n :: nat
  by (auto simp: Suc_le_eq) (metis le_neq_implies_less)

lemma check_bytes_loop_iff:
  "check_bytes_loop q i remain m \<longleftrightarrow> (\<forall>j. i \<le> j \<and> j < remain \<longrightarrow> m (q + of_nat j) = magic_byte j)"
proof (induction q i remain m rule: check_bytes_loop.induct)
  case (1 q i remain m)
  show ?case
    using 1 by (cases "i < remain"; cases "m (q + of_nat i) = magic_byte i";
      subst check_bytes_loop.simps; subst all_from_split; simp)
qed

text \<open>An address of the stack seen from an offset \<open>off\<close>.\<close>

lemma shift_addr:
  assumes "off < 2 ^ 64" "j < 2 ^ 64"
  obtains k where "k < 2 ^ 64" "(p :: addr) + of_nat j = (p + of_nat off) + of_nat k"
    "off \<le> j \<Longrightarrow> k = j - off" "j < off \<Longrightarrow> k = 2 ^ 64 + j - off"
proof (cases "off \<le> j")
  case True
  then have "(of_nat j :: addr) = of_nat off + of_nat (j - off)" by (simp flip: of_nat_add)
  then show ?thesis using that [of "j - off"] True assms by (simp add: add.assoc)
next
  case False
  then have "of_nat off + of_nat (2 ^ 64 + j - off) = (of_nat (2 ^ 64 + j) :: addr)"
    using assms by (simp flip: of_nat_add)
  also have "\<dots> = of_nat j" by simp
  finally have "p + of_nat j = p + of_nat off + of_nat (2 ^ 64 + j - off)" by (metis add.assoc)
  moreover have "2 ^ 64 + j - off < 2 ^ 64" using False by simp
  ultimately show ?thesis using that [of "2 ^ 64 + j - off"] False by blast
qed

lemma store64_nth:
  assumes "k < 2 ^ 64"
  shows "store64 m q v (q + of_nat k) = (if k < 8 then ucast (drop_bit (8 * k) v) else m (q + of_nat k))"
proof (cases "k < 8")
  case True
  then show ?thesis by (simp add: store64_byte)
next
  case False
  have "unat (q + of_nat k - q) = k" using assms by (simp add: unat_of_nat)
  then have "q + of_nat k \<notin> span q 8" using False by (simp add: span_iff)
  then show ?thesis using False by (simp add: store64_other)
qed

text \<open>One round of the guard loop writes the pattern at \<open>off .. off + 7\<close>, cut at the end of the guard.\<close>

definition guard_chunk :: "addr \<Rightarrow> nat \<Rightarrow> nat \<Rightarrow> mem \<Rightarrow> mem" where
  "guard_chunk p off guard m =
     (if guard - off < 8 then guard_bytes_loop (p + of_nat off) 0 (guard - off) m
      else store64 m (p + of_nat off) kStackGuardMagic)"

lemma guard_byte_shift: "8 dvd off \<Longrightarrow> off \<le> j \<Longrightarrow> j < off + 8 \<Longrightarrow> guard_byte j = magic_byte (j - off)"
proof -
  assume "8 dvd off" "off \<le> j" "j < off + 8"
  then have "j mod 8 = j - off" by (auto simp: dvd_def) (metis add_diff_inverse_nat mod_less mod_mult_self2
        add.commute not_le nat_add_left_cancel_less)
  then show ?thesis by (simp add: guard_byte_def)
qed

lemma guard_chunk_nth:
  assumes "off < guard" "8 dvd off" "guard \<le> 2 ^ 64" "j < 2 ^ 64"
  shows "guard_chunk p off guard m (p + of_nat j) =
    (if off \<le> j \<and> j < off + 8 \<and> j < guard then guard_byte j else m (p + of_nat j))"
proof -
  have "off < 2 ^ 64" using assms(1,3) by (rule order.strict_trans2)
  then obtain k where k: "k < 2 ^ 64" "p + of_nat j = (p + of_nat off) + of_nat k"
    "off \<le> j \<Longrightarrow> k = j - off" "j < off \<Longrightarrow> k = 2 ^ 64 + j - off"
    using shift_addr [OF _ assms(4)] by metis
  have r: "guard - off \<le> 2 ^ 64" using assms(3) by linarith
  have far: "guard - off \<le> k" if "j < off" using k(4) [OF that] assms(3) by linarith
  have near: "k < 8 \<longleftrightarrow> j < off + 8" "k < guard - off \<longleftrightarrow> j < guard" if "off \<le> j"
    using k(3) [OF that] that by linarith+
  have v: "magic_byte k = guard_byte j" if "off \<le> j" "j < off + 8"
    using guard_byte_shift [OF assms(2) that] k(3) [OF that(1)] by simp
  have ch: "guard_chunk p off guard m (p + of_nat j) =
      (if k < guard - off \<and> k < 8 then magic_byte k else m (p + of_nat j))"
  proof (cases "guard - off < 8")
    case True
    have "guard_chunk p off guard m (p + of_nat j) =
        (if 0 \<le> k \<and> k < guard - off then magic_byte k else m (p + of_nat j))"
      by (simp only: guard_chunk_def True if_True k(2) guard_bytes_loop_nth [OF r k(1)])
    then show ?thesis using True by auto
  next
    case False
    have "guard_chunk p off guard m (p + of_nat j) = (if k < 8 then magic_byte k else m (p + of_nat j))"
      by (simp only: guard_chunk_def False if_False k(2) store64_nth [OF k(1)] magic_byte_drop)
    then show ?thesis using False by auto
  qed
  show ?thesis unfolding ch using far near v by (cases "off \<le> j") (auto simp: not_le not_less)
qed

lemma guard_loop_nth:
  assumes "8 dvd off" "guard \<le> 2 ^ 64" "j < 2 ^ 64"
  shows "guard_loop p off guard m (p + of_nat j) =
    (if off \<le> j \<and> j < guard then guard_byte j else m (p + of_nat j))"
  using assms
proof (induction p off guard m rule: guard_loop.induct)
  case (1 p off guard m)
  have d: "8 dvd off + 8" using 1(2) by simp
  have step: "guard_loop p (off + 8) guard (guard_chunk p off guard m) (p + of_nat j) =
      (if off \<le> j \<and> j < guard then guard_byte j else m (p + of_nat j))" if o: "off < guard"
    using 1(1) [OF o refl _ d 1(3,4), of "guard_chunk p off guard m"] guard_chunk_nth [OF o 1(2,3,4)]
    by (auto simp: guard_chunk_def not_le not_less split: if_splits)
  have eq: "guard_loop p off guard m =
      (if off < guard then guard_loop p (off + 8) guard (guard_chunk p off guard m) else m)"
    by (subst guard_loop.simps) (simp only: Let_def guard_chunk_def)
  show ?case unfolding eq using step by auto
qed

lemma check_chunk_iff:
  assumes "8 dvd off"
  shows "(if guard - off < 8 then check_bytes_loop (p + of_nat off) 0 (guard - off) m
          else load64 m (p + of_nat off) = kStackGuardMagic) \<longleftrightarrow>
         (\<forall>j. off \<le> j \<and> j < off + 8 \<and> j < guard \<longrightarrow> m (p + of_nat j) = guard_byte j)"
proof -
  have shift: "(\<forall>k < n. m (p + of_nat off + of_nat k) = magic_byte k) \<longleftrightarrow>
      (\<forall>j. off \<le> j \<and> j < off + n \<longrightarrow> m (p + of_nat j) = guard_byte j)" if n: "n \<le> 8" for n
  proof
    assume a: "\<forall>k < n. m (p + of_nat off + of_nat k) = magic_byte k"
    show "\<forall>j. off \<le> j \<and> j < off + n \<longrightarrow> m (p + of_nat j) = guard_byte j"
    proof (intro allI impI)
      fix j assume j: "off \<le> j \<and> j < off + n"
      then have "j - off < n" by linarith
      with a have "m (p + of_nat off + of_nat (j - off)) = magic_byte (j - off)" by blast
      moreover have "p + of_nat off + of_nat (j - off) = p + of_nat j"
        using j by (metis add.assoc of_nat_add le_add_diff_inverse)
      ultimately show "m (p + of_nat j) = guard_byte j"
        using guard_byte_shift [OF assms] j n by auto
    qed
  next
    assume a: "\<forall>j. off \<le> j \<and> j < off + n \<longrightarrow> m (p + of_nat j) = guard_byte j"
    show "\<forall>k < n. m (p + of_nat off + of_nat k) = magic_byte k"
    proof (intro allI impI)
      fix k assume k: "k < n"
      have "m (p + of_nat (off + k)) = guard_byte (off + k)"
        using a k by (metis le_add1 nat_add_left_cancel_less)
      moreover have "guard_byte (off + k) = magic_byte k"
        using guard_byte_shift [OF assms, of "off + k"] k n by simp
      ultimately show "m (p + of_nat off + of_nat k) = magic_byte k" by (metis add.assoc of_nat_add)
    qed
  qed
  show ?thesis
  proof (cases "guard - off < 8")
    case True
    have "check_bytes_loop (p + of_nat off) 0 (guard - off) m \<longleftrightarrow>
        (\<forall>k < guard - off. m (p + of_nat off + of_nat k) = magic_byte k)"
      by (simp add: check_bytes_loop_iff)
    also have "\<dots> \<longleftrightarrow> (\<forall>j. off \<le> j \<and> j < off + (guard - off) \<longrightarrow> m (p + of_nat j) = guard_byte j)"
      using True by (intro shift) simp
    finally show ?thesis using True by (auto 0 3)
  next
    case False
    then show ?thesis using shift [of 8] unfolding load64_eq_iff magic_byte_drop [symmetric] by auto
  qed
qed

lemma check_loop_iff:
  assumes "8 dvd off"
  shows "check_loop p off guard m \<longleftrightarrow> (\<forall>j. off \<le> j \<and> j < guard \<longrightarrow> m (p + of_nat j) = guard_byte j)"
  using assms
proof (induction p off guard m rule: check_loop.induct)
  case (1 p off guard m)
  let ?ok = "if guard - off < 8 then check_bytes_loop (p + of_nat off) 0 (guard - off) m
          else load64 m (p + of_nat off) = kStackGuardMagic"
  have d: "8 dvd off + 8" using 1(3) by simp
  have eq: "check_loop p off guard m \<longleftrightarrow> off < guard \<longrightarrow> ?ok \<and> check_loop p (off + 8) guard m"
    by (subst check_loop.simps) (simp only: Let_def, auto)
  have ih: "check_loop p (off + 8) guard m \<longleftrightarrow>
      (\<forall>j. off + 8 \<le> j \<and> j < guard \<longrightarrow> m (p + of_nat j) = guard_byte j)" if "off < guard" ?ok
    using that 1(1) [OF that(1) refl _ _ d] 1(2) [OF that(1) refl _ _ d] by (auto split: if_splits)
  have split: "(\<forall>j. off \<le> j \<and> j < guard \<longrightarrow> P j) \<longleftrightarrow>
      (\<forall>j. off \<le> j \<and> j < off + 8 \<and> j < guard \<longrightarrow> P j) \<and> (\<forall>j. off + 8 \<le> j \<and> j < guard \<longrightarrow> P j)" for P
    by (meson le_add1 le_trans linorder_not_le)
  show ?case
  proof (cases "off < guard")
    case True
    show ?thesis
      unfolding eq split [of "\<lambda>j. m (p + of_nat j) = guard_byte j"] check_chunk_iff [OF 1(3), symmetric]
      using True ih by blast
  next
    case False
    then show ?thesis unfolding eq by auto
  qed
qed

lemma guard_size_le: "unat (guard_size sz) \<le> 64" "guard_size sz \<le> sz" "unat (guard_size sz) \<le> unat sz"
  by (auto simp: guard_size_def kStackGuardBytes_def word_le_nat_alt)

text \<open>
  The contents of a stack after initialisation: pattern below, watermark above, the rest of memory
  as before.
\<close>

lemma stack_init_nth:
  assumes "base \<noteq> NULL" "sz \<noteq> 0" "j < 2 ^ 64"
  shows "stack_init_guard_and_watermark base sz m (base + of_nat j) =
    (if j < unat (guard_size sz) then guard_byte j
     else if j < unat sz then kStackWatermark else m (base + of_nat j))"
proof -
  have g: "unat (guard_size sz) \<le> 2 ^ 64" "unat sz \<le> 2 ^ 64"
    using guard_size_le(1) [of sz] unat_lt_2p64 [of sz] by (simp_all add: less_imp_le)
  show ?thesis
    using assms(1,2) guard_size_le(3) [of sz] guard_loop_nth [OF dvd_0_right g(1) assms(3)]
      watermark_loop_nth [OF g(2) assms(3)]
    by (auto simp: stack_init_guard_and_watermark_def Let_def)
qed

text \<open>
  C11: the guard test is exact. For a thread with a stack it holds if and only if every byte of the
  guard (the lowest 64 bytes, or the whole stack when it is smaller) has the value of the pattern,
  so a thread that has overwritten any of them with another value is caught at the next tick.
\<close>
theorem stack_guard_ok_iff:
  assumes "t \<noteq> NULL" "t_stack_base (thr s t) \<noteq> NULL" "t_stack_size (thr s t) \<noteq> 0"
  shows "stack_guard_ok s t \<longleftrightarrow>
    (\<forall>j < unat (guard_size (t_stack_size (thr s t))). bytes s (t_stack_base (thr s t) + of_nat j) = guard_byte j)"
  using assms by (simp add: stack_guard_ok_def check_loop_iff)

text \<open>A thread at address 16 with a stack of 128 bytes at 4096.\<close>

definition stack_example :: "mem \<Rightarrow> kstate" where
  "stack_example m = boot_state\<lparr>threads := (\<lambda>_. zero_thread\<lparr>t_stack_base := 4096, t_stack_size := 128\<rparr>),
     bytes := m\<rparr>"

lemma stack_example_simps [simp]:
  "t_stack_base (thr (stack_example m) t) = 4096" "t_stack_size (thr (stack_example m) t) = 128"
  "bytes (stack_example m) = m"
  by (simp_all add: stack_example_def zero_thread_def)

theorem stack_guard_ok_iff_witness: "\<not> stack_guard_ok (stack_example (\<lambda>_. 0)) 16"
proof -
  have g: "unat (guard_size 128) = 64" by (simp add: guard_size_def kStackGuardBytes_def)
  have z: "guard_byte 0 \<noteq> 0" by (simp add: guard_byte_def magic_byte_def kStackGuardMagic_def)
  show ?thesis
    using stack_guard_ok_iff [of 16 "stack_example (\<lambda>_. 0)"] g z by auto
qed

lemma unused_loop_run:
  assumes "\<And>j. i \<le> j \<Longrightarrow> j < k \<Longrightarrow> m (p + of_nat j) = kStackWatermark"
    and "i \<le> k" "k \<le> sz" "k < sz \<longrightarrow> m (p + of_nat k) \<noteq> kStackWatermark"
  shows "unused_loop p i sz u m = u + (k - i)"
  using assms
proof (induction p i sz u m rule: unused_loop.induct)
  case (1 p i sz u m)
  show ?case
  proof (cases "i = k")
    case True
    then show ?thesis using 1(5) by (subst unused_loop.simps) auto
  next
    case False
    then have i: "i < k" "i < sz" "m (p + of_nat i) = kStackWatermark" using 1 by auto
    then have "unused_loop p (Suc i) sz (Suc u) m = Suc u + (k - Suc i)"
      using 1(1) [OF i(2)] 1(2-5) by simp
    then show ?thesis using i by (subst unused_loop.simps) simp
  qed
qed

text \<open>
  The high-water mark. When the bytes above the guard still hold the watermark up to offset
  \<open>k\<close> and byte \<open>k\<close> has been overwritten (or \<open>k\<close> is the top of the stack), the reported use is
  exactly the \<open>size - k\<close> bytes from there to the top.
\<close>
lemma stack_high_watermark_exact:
  assumes t: "t \<noteq> NULL" "t_stack_base (thr s t) \<noteq> NULL" and sz: "t_stack_size (thr s t) = sz"
    and k: "64 \<le> k" "k \<le> unat sz" "64 < unat sz"
    and wm: "\<And>j. 64 \<le> j \<Longrightarrow> j < k \<Longrightarrow> bytes s (t_stack_base (thr s t) + of_nat j) = kStackWatermark"
    and top: "k < unat sz \<longrightarrow> bytes s (t_stack_base (thr s t) + of_nat k) \<noteq> kStackWatermark"
  shows "unat (stack_high_watermark_bytes s t) = unat sz - k"
proof -
  let ?b = "t_stack_base (thr s t)"
  have gb: "unat kStackGuardBytes = 64" by (simp add: kStackGuardBytes_def)
  have "unused_loop ?b 64 (unat sz) 0 (bytes s) = k - 64"
    using unused_loop_run [of 64 k "bytes s" ?b "unat sz" 0] wm k(1,2) top by simp
  moreover have "\<not> sz \<le> kStackGuardBytes" "sz \<noteq> 0" using k(3) gb by (auto simp: word_le_nat_alt)
  moreover have un: "unat (of_nat (k - 64) :: u64) = k - 64"
  proof -
    have "k - 64 < 18446744073709551616" using k(2) unat_lt_2p64 [of sz] by linarith
    then show ?thesis by (simp add: unat_of_nat)
  qed
  moreover have us: "unat (sz - kStackGuardBytes) = unat sz - 64"
    using k(3) gb by (simp add: unat_sub_nowrap word_le_nat_alt)
  moreover have le: "(of_nat (k - 64) :: u64) \<le> sz - kStackGuardBytes"
    using un us k by (simp add: word_le_nat_alt)
  moreover have "unat (sz - kStackGuardBytes - of_nat (k - 64)) = unat sz - k"
    using unat_sub_nowrap [OF le] un us k by simp
  ultimately show ?thesis
    using t sz gb by (simp add: stack_high_watermark_bytes_def Let_def)
qed

lemma stack_high_watermark_exact_example:
  "unat (stack_high_watermark_bytes (stack_example ((\<lambda>_. 0xA5)(4096 + 100 := 7))) 16) = 128 - 100"
proof -
  have ne: "(4096 :: addr) + of_nat j \<noteq> 4096 + 100" if "j < 100" for j
    using add_of_nat_eq_iff [of j 100 4096] that by simp
  show ?thesis
    using stack_high_watermark_exact [of 16 "stack_example ((\<lambda>_. 0xA5)(4096 + 100 := 7))" 128 100] ne
    by (simp add: kStackWatermark_def)
qed

text \<open>
  The initialisation of a new thread's stack. Afterwards the guard test passes, the
  high-water mark of a stack larger than the guard is 0, and no byte outside the stack has changed.
\<close>
lemma stack_init_establishes:
  assumes t: "t \<noteq> NULL" and b: "t_stack_base (thr s t) = base" "base \<noteq> NULL"
    and sz: "t_stack_size (thr s t) = sz" "sz \<noteq> 0"
    and s': "s' = s\<lparr>bytes := stack_init_guard_and_watermark base sz (bytes s)\<rparr>"
  shows "stack_guard_ok s' t \<and> (64 < unat sz \<longrightarrow> stack_high_watermark_bytes s' t = 0) \<and>
    (\<forall>x. unat (x - base) \<ge> unat sz \<longrightarrow> bytes s' x = bytes s x)"
proof (intro conjI impI allI)
  have th: "thr s' t = thr s t" using s' by simp
  have nth: "bytes s' (base + of_nat j) =
    (if j < unat (guard_size sz) then guard_byte j
     else if j < unat sz then kStackWatermark else bytes s (base + of_nat j))" if "j < 2 ^ 64" for j
    using stack_init_nth [OF b(2) sz(2) that] s' by simp
  have lt: "j < 2 ^ 64" if "j < unat sz" for j
    using order.strict_trans [OF that unat_lt_2p64] by simp
  have g: "j < unat sz" if "j < unat (guard_size sz)" for j
    using that guard_size_le(3) [of sz] by linarith
  have st: "t_stack_base (thr s' t) \<noteq> NULL" "t_stack_size (thr s' t) \<noteq> 0" using th b sz by simp_all
  show "stack_guard_ok s' t"
    using t st th b sz nth lt g by (simp add: stack_guard_ok_def check_loop_iff)
  show "stack_high_watermark_bytes s' t = 0" if big: "64 < unat sz"
  proof -
    have gs: "unat (guard_size sz) = 64"
      using big by (simp add: guard_size_def kStackGuardBytes_def word_le_nat_alt)
    have "unused_loop base 64 (unat sz) 0 (bytes s') = unat sz - 64"
      using unused_loop_run [of 64 "unat sz" "bytes s'" base "unat sz" 0] nth lt gs big by simp
    moreover have "\<not> sz \<le> kStackGuardBytes" "unat kStackGuardBytes = 64"
      using big by (auto simp: word_le_nat_alt kStackGuardBytes_def)
    moreover have "of_nat (unat sz - 64) = sz - kStackGuardBytes"
      using big by (simp add: of_nat_diff kStackGuardBytes_def)
    ultimately show ?thesis
      using t th b sz by (simp add: stack_high_watermark_bytes_def Let_def)
  qed
  fix x assume "unat sz \<le> unat (x - base)"
  then show "bytes s' x = bytes s x"
    using nth [of "unat (x - base)"] guard_size_le(3) [of sz] by simp
qed

lemma stack_init_establishes_example:
  "stack_guard_ok (stack_example (stack_init_guard_and_watermark 4096 128 (\<lambda>_. 0))) 16 \<and>
   stack_high_watermark_bytes (stack_example (stack_init_guard_and_watermark 4096 128 (\<lambda>_. 0))) 16 = 0"
proof -
  have e: "stack_example (stack_init_guard_and_watermark 4096 128 (\<lambda>_. 0)) =
      (stack_example (\<lambda>_. 0))\<lparr>bytes := stack_init_guard_and_watermark 4096 128 (bytes (stack_example (\<lambda>_. 0)))\<rparr>"
    by (simp add: stack_example_def)
  show ?thesis using stack_init_establishes [OF _ _ _ _ _ e, of 16] by simp
qed

end
