(* ===== verification/Context.thy ===== *)
theory Context
  imports Kernel_State
begin

text \<open>
  The context switch: \<^verbatim>\<open>fpsimd_save\<close> and \<^verbatim>\<open>fpsimd_load\<close> (\<^verbatim>\<open>src/arch/aarch64/fpsimd.cc\<close>), the stack
  switch \<^verbatim>\<open>arch_switch\<close> (\<^verbatim>\<open>src/arch/aarch64/ctx.S\<close>) with its twelve callee-saved registers pushed
  on the byte memory of the outgoing stack, and \<^verbatim>\<open>do_switch\<close> (\<^verbatim>\<open>src/thread.cc\<close>).

  \<^verbatim>\<open>arch_switch\<close> returns on another stack, so what follows it in \<^verbatim>\<open>do_switch\<close> runs in the frame of
  the incoming thread: \<open>resume\<close> is the code from there to the end of the kernel function in which
  that thread had gone to sleep. The outgoing thread's own return point is recorded as its \<open>kont\<close>.
\<close>

section \<open>Model\<close>

definition fpsimd_save :: "kstate \<Rightarrow> kstate" where
  "fpsimd_save s =
     (let t = cur_thread s in
      if t = NULL then s
      else upd_thread t (\<lambda>r. r\<lparr>t_fpcr := r_fpcr (regs s), t_fpsr := r_fpsr (regs s),
             t_fpsimd_vregs := (\<lambda>i. if i < 32 then r_q (regs s) i else t_fpsimd_vregs r i),
             t_fpsimd_valid := 1\<rparr>) s)"

definition fpsimd_load :: "kstate \<Rightarrow> kstate" where
  "fpsimd_load s =
     (let t = cur_thread s in
      if t = NULL then s
      else let r = thr s t;
               q = (if t_fpsimd_valid r = 0 then (\<lambda>i. if i < 32 then 0 else r_q (regs s) i)
                    else (\<lambda>i. if i < 32 then t_fpsimd_vregs r i else r_q (regs s) i))
           in s\<lparr>regs := (regs s)\<lparr>r_q := q, r_fpcr := t_fpcr r, r_fpsr := t_fpsr r\<rparr>\<rparr>)"

text \<open>\<^verbatim>\<open>stp xi, xj, [sp, #-16]!\<close> and \<^verbatim>\<open>ldp xi, xj, [sp], #16\<close>\<close>

definition push_pair :: "nat \<Rightarrow> nat \<Rightarrow> kstate \<Rightarrow> kstate" where
  "push_pair i j s =
     (let sp = r_sp (regs s) - 16 in
      s\<lparr>bytes := store64 (store64 (bytes s) sp (r_x (regs s) i)) (sp + 8) (r_x (regs s) j),
        regs := (regs s)\<lparr>r_sp := sp\<rparr>\<rparr>)"

definition pop_pair :: "nat \<Rightarrow> nat \<Rightarrow> kstate \<Rightarrow> kstate" where
  "pop_pair i j s =
     (let sp = r_sp (regs s) in
      s\<lparr>regs := (regs s)\<lparr>r_x := (r_x (regs s))(i := load64 (bytes s) sp, j := load64 (bytes s) (sp + 8)),
        r_sp := sp + 16\<rparr>\<rparr>)"

text \<open>The result is the value stored through the first argument, and the state after \<^verbatim>\<open>ret\<close>.\<close>

definition arch_switch :: "addr \<Rightarrow> kstate \<Rightarrow> addr \<times> kstate" where
  "arch_switch next_sp s =
     (let s = push_pair 19 20 s;
          s = push_pair 21 22 s;
          s = push_pair 23 24 s;
          s = push_pair 25 26 s;
          s = push_pair 27 28 s;
          s = push_pair 29 30 s;
          saved = r_sp (regs s);
          s = s\<lparr>regs := (regs s)\<lparr>r_sp := next_sp\<rparr>\<rparr>;
          s = pop_pair 29 30 s;
          s = pop_pair 27 28 s;
          s = pop_pair 25 26 s;
          s = pop_pair 23 24 s;
          s = pop_pair 21 22 s;
          s = pop_pair 19 20 s
      in (saved, s))"

text \<open>
  The incoming thread continues: a new thread at its entry point (through \<^verbatim>\<open>thread_trampoline\<close>,
  past no \<^verbatim>\<open>fpsimd_load\<close>), one that had yielded behind \<^verbatim>\<open>do_switch\<close>, one that had been rescheduled
  behind \<^verbatim>\<open>do_switch\<close> and \<^verbatim>\<open>cpu->need_resched = kNeedReschedNone\<close>.
\<close>

definition resume :: "kstate \<Rightarrow> kstate" where
  "resume s =
     (let t = cur_thread s in
      case kont s t of
        KStart \<Rightarrow> set_kont t KRun s
      | KYield \<Rightarrow> set_kont t KRun (fpsimd_load s)
      | KResched \<Rightarrow> set_kont t KRun (upd_cpu (need_resched_update (\<lambda>_. kNeedReschedNone)) (fpsimd_load s))
      | KMutexLock m \<Rightarrow> upd_cpu (need_resched_update (\<lambda>_. kNeedReschedNone)) (fpsimd_load s)
      | KRun \<Rightarrow> s)"

definition do_switch :: "kont \<Rightarrow> addr \<Rightarrow> addr \<Rightarrow> kstate \<Rightarrow> kstate" where
  "do_switch k cur next s =
     (let s = fpsimd_save s;
          s = upd_cpu (current_thread_update (\<lambda>_. next)) s;
          (saved, s) = arch_switch (t_sp (thr s next)) s;
          s = upd_thread cur (t_sp_update (\<lambda>_. saved)) s;
          s = set_kont cur k s
      in resume s)"

section \<open>Stack frames\<close>

lemma unat_sub_wrap: "unat (y :: addr) < unat d \<Longrightarrow> unat (y - d) = unat y + 2 ^ 64 - unat d"
  by (simp add: unat_sub_if')

lemma span_apart:
  assumes "8 \<le> unat (p - q)" "unat (p - q) \<le> 2 ^ 64 - 8"
  shows "span p 8 \<inter> span q 8 = {}"
proof -
  have "8 \<le> unat (x - p)" if "unat (x - q) < 8" for x
  proof -
    have "unat (x - p) = unat ((x - q) - (p - q))" by simp
    also have "\<dots> = unat (x - q) + 2 ^ 64 - unat (p - q)"
      by (rule unat_sub_wrap) (use that assms in linarith)
    finally show ?thesis using assms(2) by simp
  qed
  then show ?thesis by (auto simp: span_iff) (meson not_le)
qed

lemma load64_store64_apart:
  "8 \<le> unat (p - q) \<Longrightarrow> unat (p - q) \<le> 2 ^ 64 - 8 \<Longrightarrow> load64 (store64 m p v) q = load64 m q"
  by (rule load64_store64_other [OF span_apart])

text \<open>The order in which \<^verbatim>\<open>arch_switch\<close> lays out the registers, from the saved stack pointer upwards.\<close>

definition frame_regs :: "nat list" where
  "frame_regs = [29, 30, 27, 28, 25, 26, 23, 24, 21, 22, 19, 20]"

lemma push_pair_simps [simp]:
  "r_sp (regs (push_pair i j s)) = r_sp (regs s) - 16" "r_x (regs (push_pair i j s)) = r_x (regs s)"
  "bytes (push_pair i j s) = store64 (store64 (bytes s) (r_sp (regs s) - 16) (r_x (regs s) i))
     (r_sp (regs s) - 8) (r_x (regs s) j)"
  by (simp_all add: push_pair_def Let_def)

lemma pop_pair_simps [simp]:
  "r_sp (regs (pop_pair i j s)) = r_sp (regs s) + 16" "bytes (pop_pair i j s) = bytes s"
  "r_x (regs (pop_pair i j s)) = (r_x (regs s))(i := load64 (bytes s) (r_sp (regs s)),
     j := load64 (bytes s) (r_sp (regs s) + 8))"
  by (simp_all add: pop_pair_def Let_def)

lemma push_pop_frame:
  "push_pair i j s = s\<lparr>bytes := bytes (push_pair i j s), regs := (regs s)\<lparr>r_sp := r_sp (regs (push_pair i j s))\<rparr>\<rparr>"
  "pop_pair i j s = s\<lparr>regs := (regs s)\<lparr>r_x := r_x (regs (pop_pair i j s)), r_sp := r_sp (regs (pop_pair i j s))\<rparr>\<rparr>"
  by (simp_all add: push_pair_def pop_pair_def Let_def)

text \<open>The bytes of the outgoing frame, written below the stack pointer.\<close>

definition save_frame :: "mem \<Rightarrow> addr \<Rightarrow> (nat \<Rightarrow> u64) \<Rightarrow> mem" where
  "save_frame m f x =
     store64 (store64 (store64 (store64 (store64 (store64 (store64 (store64 (store64 (store64 (store64 (store64 m
       (f + 80) (x 19)) (f + 88) (x 20)) (f + 64) (x 21)) (f + 72) (x 22)) (f + 48) (x 23)) (f + 56) (x 24))
       (f + 32) (x 25)) (f + 40) (x 26)) (f + 16) (x 27)) (f + 24) (x 28)) f (x 29)) (f + 8) (x 30)"

text \<open>The registers read back from a frame.\<close>

definition load_frame :: "mem \<Rightarrow> addr \<Rightarrow> (nat \<Rightarrow> u64) \<Rightarrow> nat \<Rightarrow> u64" where
  "load_frame m f x = x(29 := load64 m f, 30 := load64 m (f + 8), 27 := load64 m (f + 16),
     28 := load64 m (f + 24), 25 := load64 m (f + 32), 26 := load64 m (f + 40), 23 := load64 m (f + 48),
     24 := load64 m (f + 56), 21 := load64 m (f + 64), 22 := load64 m (f + 72), 19 := load64 m (f + 80),
     20 := load64 m (f + 88))"

lemma arch_switch_eq:
  assumes "r_sp (regs s) = f + 96"
  shows "arch_switch p s = (f,
    s\<lparr>bytes := save_frame (bytes s) f (r_x (regs s)),
      regs := (regs s)\<lparr>r_sp := p + 96,
        r_x := load_frame (save_frame (bytes s) f (r_x (regs s))) p (r_x (regs s))\<rparr>\<rparr>)"
  using assms
  by (simp add: arch_switch_def push_pair_def pop_pair_def Let_def save_frame_def load_frame_def add.commute)

lemma save_frame_words:
  "load64 (save_frame m f x) f = x 29" "load64 (save_frame m f x) (f + 8) = x 30"
  "load64 (save_frame m f x) (f + 16) = x 27" "load64 (save_frame m f x) (f + 24) = x 28"
  "load64 (save_frame m f x) (f + 32) = x 25" "load64 (save_frame m f x) (f + 40) = x 26"
  "load64 (save_frame m f x) (f + 48) = x 23" "load64 (save_frame m f x) (f + 56) = x 24"
  "load64 (save_frame m f x) (f + 64) = x 21" "load64 (save_frame m f x) (f + 72) = x 22"
  "load64 (save_frame m f x) (f + 80) = x 19" "load64 (save_frame m f x) (f + 88) = x 20"
  by (simp_all add: save_frame_def load64_store64_apart)

lemma span_mono_add: "a + 8 \<le> n \<Longrightarrow> n \<le> 2 ^ 64 \<Longrightarrow> span (f + of_nat a) 8 \<subseteq> span f n"
proof
  fix x assume a: "a + 8 \<le> n" "n \<le> 2 ^ 64" and "x \<in> span (f + of_nat a) 8"
  then obtain i where "i < 8" "x = f + of_nat a + of_nat i" by (auto simp: span_def)
  then have "x = f + of_nat (a + i)" "a + i < n" using a by (simp_all add: add.assoc)
  then show "x \<in> span f n" unfolding span_def by blast
qed

lemma frame_word_span:
  "span f 8 \<subseteq> span f 96" "span (f + 8) 8 \<subseteq> span f 96" "span (f + 16) 8 \<subseteq> span f 96"
  "span (f + 24) 8 \<subseteq> span f 96" "span (f + 32) 8 \<subseteq> span f 96" "span (f + 40) 8 \<subseteq> span f 96"
  "span (f + 48) 8 \<subseteq> span f 96" "span (f + 56) 8 \<subseteq> span f 96" "span (f + 64) 8 \<subseteq> span f 96"
  "span (f + 72) 8 \<subseteq> span f 96" "span (f + 80) 8 \<subseteq> span f 96" "span (f + 88) 8 \<subseteq> span f 96"
  using span_mono_add [of 0 96 f] span_mono_add [of 8 96 f] span_mono_add [of 16 96 f]
    span_mono_add [of 24 96 f] span_mono_add [of 32 96 f] span_mono_add [of 40 96 f]
    span_mono_add [of 48 96 f] span_mono_add [of 56 96 f] span_mono_add [of 64 96 f]
    span_mono_add [of 72 96 f] span_mono_add [of 80 96 f] span_mono_add [of 88 96 f]
  by simp_all

lemma save_frame_other: "a \<notin> span f 96 \<Longrightarrow> save_frame m f x a = m a"
  using frame_word_span [of f, THEN contra_subsetD, of a]
  by (simp add: save_frame_def store64_other)

lemma load_frame_cong:
  assumes "\<And>a. a \<in> span f 96 \<Longrightarrow> m a = m' a"
  shows "load_frame m f x = load_frame m' f x"
proof -
  have "load64 m q = load64 m' q" if "span q 8 \<subseteq> span f 96" for q
    using assms that by (intro load64_cong) blast
  then show ?thesis using frame_word_span [of f] unfolding load_frame_def by presburger
qed

definition callee_saved :: "nat set" where
  "callee_saved = {19..30}"

lemma callee_saved_cases:
  "i \<in> callee_saved \<Longrightarrow> i \<in> {19, 20, 21, 22, 23, 24, 25, 26, 27, 28, 29, 30}"
  by (simp add: callee_saved_def) presburger

lemma load_save_frame: "i \<in> callee_saved \<Longrightarrow> load_frame (save_frame m f x) f y i = x i"
  by (drule callee_saved_cases) (auto simp: load_frame_def save_frame_words)

section \<open>The switch\<close>

lemma fpsimd_save_simps [simp]:
  "cpu (fpsimd_save s) = cpu s" "regs (fpsimd_save s) = regs s" "bytes (fpsimd_save s) = bytes s"
  "kont (fpsimd_save s) = kont s" "rq_head (fpsimd_save s) = rq_head s" "rq_tail (fpsimd_save s) = rq_tail s"
  "t_sp (threads (fpsimd_save s) t) = t_sp (threads s t)"
  "mutexes (fpsimd_save s) = mutexes s" "sems (fpsimd_save s) = sems s"
  by (simp_all add: fpsimd_save_def Let_def)

lemma fpsimd_load_simps [simp]:
  "cpu (fpsimd_load s) = cpu s" "bytes (fpsimd_load s) = bytes s" "threads (fpsimd_load s) = threads s"
  "kont (fpsimd_load s) = kont s" "rq_head (fpsimd_load s) = rq_head s" "rq_tail (fpsimd_load s) = rq_tail s"
  "mutexes (fpsimd_load s) = mutexes s" "sems (fpsimd_load s) = sems s"
  "r_sp (regs (fpsimd_load s)) = r_sp (regs s)" "r_x (regs (fpsimd_load s)) = r_x (regs s)"
  by (simp_all add: fpsimd_load_def Let_def)

lemma resume_simps [simp]:
  "threads (resume s) = threads s" "bytes (resume s) = bytes s" "mutexes (resume s) = mutexes s"
  "sems (resume s) = sems s" "rq_head (resume s) = rq_head s" "rq_tail (resume s) = rq_tail s"
  "current_thread (cpu (resume s)) = current_thread (cpu s)" "preempt_cnt (cpu (resume s)) = preempt_cnt (cpu s)"
  "irq_depth (cpu (resume s)) = irq_depth (cpu s)"
  "r_sp (regs (resume s)) = r_sp (regs s)" "r_x (regs (resume s)) = r_x (regs s)"
  by (simp_all add: resume_def Let_def split: kont.split)

lemma do_switch_eq:
  assumes "r_sp (regs s) = f + 96"
  shows "do_switch k cur next s = resume (set_kont cur k (upd_thread cur (t_sp_update (\<lambda>_. f))
    ((upd_cpu (current_thread_update (\<lambda>_. next)) (fpsimd_save s))
      \<lparr>bytes := save_frame (bytes s) f (r_x (regs s)),
       regs := (regs s)\<lparr>r_sp := t_sp (thr s next) + 96,
         r_x := load_frame (save_frame (bytes s) f (r_x (regs s))) (t_sp (thr s next)) (r_x (regs s))\<rparr>\<rparr>)))"
  using assms by (simp add: do_switch_def Let_def arch_switch_eq [of _ f])

text \<open>A switch leaves the scheduling fields of every thread and the queues alone.\<close>

lemma fpsimd_save_fields [simp]:
  "t_next (threads (fpsimd_save s) u) = t_next (threads s u)"
  "t_state (threads (fpsimd_save s) u) = t_state (threads s u)"
  "t_effective_priority (threads (fpsimd_save s) u) = t_effective_priority (threads s u)"
  "t_base_priority (threads (fpsimd_save s) u) = t_base_priority (threads s u)"
  "t_wait_next (threads (fpsimd_save s) u) = t_wait_next (threads s u)"
  "t_waiting_on (threads (fpsimd_save s) u) = t_waiting_on (threads s u)"
  "t_owned_mutexes (threads (fpsimd_save s) u) = t_owned_mutexes (threads s u)"
  "t_budget (threads (fpsimd_save s) u) = t_budget (threads s u)"
  "t_stack_base (threads (fpsimd_save s) u) = t_stack_base (threads s u)"
  "t_stack_size (threads (fpsimd_save s) u) = t_stack_size (threads s u)"
  "t_id (threads (fpsimd_save s) u) = t_id (threads s u)"
  by (simp_all add: fpsimd_save_def Let_def)

lemma do_switch_simps [simp]:
  "t_next (threads (do_switch k a b s) u) = t_next (threads s u)"
  "t_state (threads (do_switch k a b s) u) = t_state (threads s u)"
  "t_effective_priority (threads (do_switch k a b s) u) = t_effective_priority (threads s u)"
  "t_base_priority (threads (do_switch k a b s) u) = t_base_priority (threads s u)"
  "t_wait_next (threads (do_switch k a b s) u) = t_wait_next (threads s u)"
  "t_waiting_on (threads (do_switch k a b s) u) = t_waiting_on (threads s u)"
  "t_owned_mutexes (threads (do_switch k a b s) u) = t_owned_mutexes (threads s u)"
  "t_budget (threads (do_switch k a b s) u) = t_budget (threads s u)"
  "t_stack_base (threads (do_switch k a b s) u) = t_stack_base (threads s u)"
  "t_stack_size (threads (do_switch k a b s) u) = t_stack_size (threads s u)"
  "t_id (threads (do_switch k a b s) u) = t_id (threads s u)"
  "mutexes (do_switch k a b s) = mutexes s" "sems (do_switch k a b s) = sems s"
  "rq_head (do_switch k a b s) = rq_head s" "rq_tail (do_switch k a b s) = rq_tail s"
  "current_thread (cpu (do_switch k a b s)) = b" "preempt_cnt (cpu (do_switch k a b s)) = preempt_cnt (cpu s)"
  "irq_depth (cpu (do_switch k a b s)) = irq_depth (cpu s)"
  by (simp_all add: do_switch_eq [of s "r_sp (regs s) - 96"])

text \<open>The part of \<^verbatim>\<open>struct Thread\<close> that holds a suspended thread's context.\<close>

definition saved_ctx :: "thread \<Rightarrow> addr \<times> int \<times> (nat \<Rightarrow> 128 word) \<times> u64 \<times> u64" where
  "saved_ctx r = (t_sp r, t_fpsimd_valid r, t_fpsimd_vregs r, t_fpcr r, t_fpsr r)"

lemma do_switch_saves:
  assumes "cur_thread s = a" "a \<noteq> NULL" "a \<noteq> b"
  shows "\<exists>v. saved_ctx (thr (do_switch k a b s) a) = (r_sp (regs s) - 96, 1, v, r_fpcr (regs s), r_fpsr (regs s)) \<and>
      (\<forall>i < 32. v i = r_q (regs s) i)"
    and "bytes (do_switch k a b s) = save_frame (bytes s) (r_sp (regs s) - 96) (r_x (regs s))"
  using assms
  by (auto simp: do_switch_eq [of s "r_sp (regs s) - 96"] saved_ctx_def fpsimd_save_def Let_def)

lemma do_switch_loads:
  assumes "a \<noteq> NULL" "c \<noteq> a" "cur_thread s = c" "kont s a = k" "k \<noteq> KStart" "k \<noteq> KRun"
    and "saved_ctx (thr s a) = (f, 1, v, cr, sr)" "span (r_sp (regs s) - 96) 96 \<inter> span f 96 = {}"
    and "s' = do_switch kc c a s"
  shows "cur_thread s' = a" "r_sp (regs s') = f + 96"
    "r_x (regs s') = load_frame (bytes s) f (r_x (regs s))"
    "\<forall>i < 32. r_q (regs s') i = v i" "r_fpcr (regs s') = cr" "r_fpsr (regs s') = sr"
proof -
  let ?g = "r_sp (regs s) - 96"
  define s0 where "s0 = set_kont c kc (upd_thread c (t_sp_update (\<lambda>_. ?g))
    ((upd_cpu (current_thread_update (\<lambda>_. a)) (fpsimd_save s))
      \<lparr>bytes := save_frame (bytes s) ?g (r_x (regs s)),
       regs := (regs s)\<lparr>r_sp := t_sp (thr s a) + 96,
         r_x := load_frame (save_frame (bytes s) ?g (r_x (regs s))) (t_sp (thr s a)) (r_x (regs s))\<rparr>\<rparr>))"
  have s': "s' = resume s0" unfolding s0_def assms(9) by (rule do_switch_eq) simp
  have f: "t_sp (thr s a) = f" and th: "thr s a = thr s0 a"
    using assms(2,3,7) by (auto simp: saved_ctx_def s0_def fpsimd_save_def Let_def)
  have k0: "kont s0 a = k" "cur_thread s0 = a" using assms(2,4) by (simp_all add: s0_def)
  have regs: "r_sp (regs s0) = f + 96"
    "r_x (regs s0) = load_frame (save_frame (bytes s) ?g (r_x (regs s))) f (r_x (regs s))"
    by (simp_all add: s0_def f)
  have fr: "load_frame (save_frame (bytes s) ?g (r_x (regs s))) f y = load_frame (bytes s) f y" for y
    using assms(8) by (intro load_frame_cong save_frame_other) auto
  show "cur_thread s' = a" "r_sp (regs s') = f + 96"
    "r_x (regs s') = load_frame (bytes s) f (r_x (regs s))"
    using k0 regs fr by (simp_all add: s')
  have fp: "t_fpsimd_valid (thr s0 a) = 1" "t_fpsimd_vregs (thr s0 a) = v" "t_fpcr (thr s0 a) = cr"
    "t_fpsr (thr s0 a) = sr" using assms(7) unfolding th by (simp_all add: saved_ctx_def)
  have "regs (resume s0) = regs (fpsimd_load s0)"
    using k0 assms(5,6) by (cases k) (simp_all add: resume_def Let_def)
  then show "\<forall>i < 32. r_q (regs s') i = v i" "r_fpcr (regs s') = cr" "r_fpsr (regs s') = sr"
    using k0 fp assms(1) by (simp_all add: s' fpsimd_load_def Let_def)
qed

text \<open>
  C2: a context switch is transparent to the thread that is switched out. When thread \<open>a\<close> is
  switched out and, any number of steps later, some thread \<open>c\<close> switches back to it, then \<open>a\<close>
  continues with the stack pointer, all callee-saved registers, all vector registers and the
  floating-point control and status it had, provided that nobody wrote to its saved frame and
  context in between and \<open>c\<close> runs on another stack.
\<close>
theorem switch_round_trip:
  assumes a: "cur_thread s = a" "a \<noteq> NULL" "a \<noteq> b" and s1: "s1 = do_switch k a b s"
    and c: "cur_thread s2 = c" "c \<noteq> a" and k: "kont s2 a = k" "k \<noteq> KStart" "k \<noteq> KRun"
    and ctx: "saved_ctx (thr s2 a) = saved_ctx (thr s1 a)"
    and mem: "\<forall>x \<in> span (t_sp (thr s1 a)) 96. bytes s2 x = bytes s1 x"
    and apart: "span (r_sp (regs s2) - 96) 96 \<inter> span (t_sp (thr s1 a)) 96 = {}"
    and s3: "s3 = do_switch kc c a s2"
  shows "cur_thread s3 = a \<and> r_sp (regs s3) = r_sp (regs s) \<and>
    (\<forall>i \<in> callee_saved. r_x (regs s3) i = r_x (regs s) i) \<and> (\<forall>i < 32. r_q (regs s3) i = r_q (regs s) i) \<and>
    r_fpcr (regs s3) = r_fpcr (regs s) \<and> r_fpsr (regs s3) = r_fpsr (regs s)"
proof -
  let ?f = "r_sp (regs s) - 96"
  obtain v where v: "saved_ctx (thr s1 a) = (?f, 1, v, r_fpcr (regs s), r_fpsr (regs s))"
    "\<forall>i < 32. v i = r_q (regs s) i"
    using do_switch_saves(1) [OF a] s1 by blast
  have f: "t_sp (thr s1 a) = ?f" using v(1) by (simp add: saved_ctx_def)
  have ctx2: "saved_ctx (thr s2 a) = (?f, 1, v, r_fpcr (regs s), r_fpsr (regs s))" using ctx v(1) by simp
  note ld = do_switch_loads [OF a(2) c(2,1) k ctx2 apart [unfolded f] s3]
  have "load_frame (bytes s2) ?f y = load_frame (bytes s1) ?f y" for y
    using mem f by (intro load_frame_cong) simp
  then have "\<forall>i \<in> callee_saved. r_x (regs s3) i = r_x (regs s) i"
    using ld(3) do_switch_saves(2) [OF a, of k] load_save_frame by (simp add: s1)
  with ld v(2) show ?thesis by simp
qed

text \<open>Thread 16 runs on a stack that ends at 8192, thread 32 was suspended with its frame at 4096.\<close>

definition switch_example :: kstate where
  "switch_example = boot_state\<lparr>
     threads := (\<lambda>_. zero_thread)(32 := zero_thread\<lparr>t_sp := 4096\<rparr>),
     cpu := zero_cpu\<lparr>current_thread := 16\<rparr>,
     regs := \<lparr>r_sp = 8192, r_x = of_nat, r_q = of_nat, r_fpcr = 3, r_fpsr = 5, r_daif = 0\<rparr>,
     kont := (\<lambda>_. KRun)(32 := KStart)\<rparr>"

theorem switch_round_trip_witness:
  "r_x (regs (do_switch KYield 32 16 (do_switch KYield 16 32 switch_example))) 19 = 19 \<and>
   r_q (regs (do_switch KYield 32 16 (do_switch KYield 16 32 switch_example))) 7 = 7"
proof -
  let ?s = switch_example
  let ?s1 = "do_switch KYield 16 32 ?s"
  have e: "?s1 = resume (set_kont 16 KYield (upd_thread 16 (t_sp_update (\<lambda>_. 8096))
    ((upd_cpu (current_thread_update (\<lambda>_. 32)) (fpsimd_save ?s))
      \<lparr>bytes := save_frame (bytes ?s) 8096 (r_x (regs ?s)),
       regs := (regs ?s)\<lparr>r_sp := t_sp (thr ?s 32) + 96,
         r_x := load_frame (save_frame (bytes ?s) 8096 (r_x (regs ?s))) (t_sp (thr ?s 32)) (r_x (regs ?s))\<rparr>\<rparr>)))"
    by (rule do_switch_eq) (simp add: switch_example_def)
  have c: "cur_thread ?s = 16" "cur_thread ?s1 = 32" "kont ?s1 16 = KYield" "t_sp (thr ?s1 16) = 8096"
    "r_sp (regs ?s1) - 96 = 4096"
    unfolding e by (simp_all add: switch_example_def zero_cpu_def resume_def Let_def boot_state_def zero_thread_def)
  have "span 4096 96 \<inter> span 8096 96 = {}" by (rule span_disjoint) simp_all
  then have "cur_thread (do_switch KYield 32 16 ?s1) = 16 \<and>
      r_sp (regs (do_switch KYield 32 16 ?s1)) = r_sp (regs ?s) \<and>
    (\<forall>i \<in> callee_saved. r_x (regs (do_switch KYield 32 16 ?s1)) i = r_x (regs ?s) i) \<and>
    (\<forall>i < 32. r_q (regs (do_switch KYield 32 16 ?s1)) i = r_q (regs ?s) i) \<and>
    r_fpcr (regs (do_switch KYield 32 16 ?s1)) = r_fpcr (regs ?s) \<and>
    r_fpsr (regs (do_switch KYield 32 16 ?s1)) = r_fpsr (regs ?s)"
    using c by (intro switch_round_trip [of ?s 16 32 ?s1 KYield ?s1 32 _ KYield]) simp_all
  then show ?thesis by (simp add: callee_saved_def switch_example_def)
qed



end
