(* ===== verification/Sched.thy ===== *)
theory Sched
  imports RunQueue ThreadStack Context
begin

text \<open>
  The scheduler of \<^verbatim>\<open>src/thread.cc\<close> and the preemption counter of \<^verbatim>\<open>src/preempt.cc\<close>, for both
  policies. \<open>None\<close> is the value of a call that does not return: it halts in a \<^verbatim>\<open>wfe\<close> loop, chases
  a pointer chain for ever, or dereferences null. \<^verbatim>\<open>cpu_local()\<close> is never null after
  \<^verbatim>\<open>cpu_local_boot_init\<close>, so its null tests are not modelled.

  The invariant \<open>sched_inv s xs\<close>: the run queue holds the threads \<open>xs\<close>, all of them ready and
  with priorities in range, and the running thread is in it when it is ready.
\<close>

section \<open>Model\<close>

definition kSizeofThread :: u64 where "kSizeofThread = 640"
definition kThreadPoolAlign :: u64 where "kThreadPoolAlign = 16"
definition kThreadPoolBlockSize :: u64 where
  "kThreadPoolBlockSize = (kSizeofThread + (kThreadPoolAlign - 1)) AND NOT (kThreadPoolAlign - 1)"
definition kThreadPoolCount :: u64 where "kThreadPoolCount = 32"
definition kThreadPoolBytes :: u64 where
  "kThreadPoolBytes = kThreadPoolBlockSize * kThreadPoolCount + kThreadPoolAlign"

definition sched_init :: "kstate \<Rightarrow> kstate option" where
  "sched_init s =
     (let s = s\<lparr>rq_head := NULL, rq_tail := NULL, next_thread_id := 1, g_thread_pool_inited := 0\<rparr>;
          (backing, h) = kmem_alloc_aligned (heap s) kThreadPoolBytes kThreadPoolAlign;
          s = s\<lparr>heap := h\<rparr>
      in if backing = NULL then Some s
         else do {
           (r, m, pool) \<leftarrow> mem_pool_init (bytes s) (g_thread_pool s) backing kThreadPoolBytes kThreadPoolBlockSize;
           let s = s\<lparr>bytes := m, g_thread_pool := pool\<rparr>;
           Some (if r = 0 then s\<lparr>g_thread_pool_inited := 1\<rparr> else s)
         })"

definition sched_add :: "addr \<Rightarrow> kstate \<Rightarrow> kstate option" where
  "sched_add t s =
     (if t = NULL then Some s
      else let s = (if t_state (thr s t) \<noteq> kThreadReady
                    then upd_thread t (t_state_update (\<lambda>_. kThreadReady)) s else s)
           in rq_append t s)"

text \<open>\<^verbatim>\<open>sched_start\<close> does not return; the state is the one in which the first thread starts.\<close>

definition sched_start :: "kconfig \<Rightarrow> kstate \<Rightarrow> kstate option" where
  "sched_start cfg s = do {
     cur \<leftarrow> (case policy cfg of PRIO \<Rightarrow> prio_pick_next s NULL False False | RR \<Rightarrow> Some (rq_head s));
     if cur = NULL then None
     else do {
       let s = upd_thread cur (t_budget_update (\<lambda>_. kQuantumTicks)) s;
       let s = upd_cpu (current_thread_update (\<lambda>_. cur)) s;
       let (boot_sp, s) = arch_switch (t_sp (thr s cur)) s;
       Some (resume s)
     }
   }"

definition thread_yield :: "kconfig \<Rightarrow> kstate \<Rightarrow> kstate option" where
  "thread_yield cfg s =
     (let cur = cur_thread s in
      if preempt_cnt (cpu s) \<noteq> 0 then Some s
      else if cur = NULL then Some s
      else do {
        next \<leftarrow> (case policy cfg of
                   PRIO \<Rightarrow> prio_pick_next s cur True True
                 | RR \<Rightarrow> Some (if t_next (thr s cur) \<noteq> NULL then t_next (thr s cur) else cur));
        if next \<noteq> NULL \<and> next \<noteq> cur then Some (do_switch KYield cur next s) else Some s
      })"

definition sched_on_tick :: "kconfig \<Rightarrow> kstate \<Rightarrow> kstate option" where
  "sched_on_tick cfg s =
     (let cur = cur_thread s in
      if cur = NULL then Some s
      else if \<not> stack_guard_ok s cur then None
      else if preempt_cnt (cpu s) \<noteq> 0 then Some s
      else do {
        done \<leftarrow> (case policy cfg of
                   PRIO \<Rightarrow> if \<not> is_ready s cur then Some True
                           else rq_has_ready_prio_gt s (t_effective_priority (thr s cur))
                 | RR \<Rightarrow> Some False);
        if done then Some (upd_cpu (need_resched_update (\<lambda>_. kNeedReschedNormal)) s)
        else do {
          let s = (if t_budget (thr s cur) > 0
                   then upd_thread cur (t_budget_update (\<lambda>b. b - 1)) s else s);
          if t_budget (thr s cur) \<le> 0 then do {
            let s = upd_cpu (need_resched_update (\<lambda>_. case policy cfg of PRIO \<Rightarrow> kNeedReschedRotate
                                                      | RR \<Rightarrow> kNeedReschedNormal)) s;
            Some (upd_thread cur (t_budget_update (\<lambda>_. kQuantumTicks)) s)
          } else Some s
        }
      })"

text \<open>\<open>k\<close> is where the calling thread continues if it is switched out here.\<close>

definition sched_resched_from_irq_tail :: "kconfig \<Rightarrow> kont \<Rightarrow> kstate \<Rightarrow> kstate option" where
  "sched_resched_from_irq_tail cfg k s =
     (let cur = cur_thread s in
      if preempt_cnt (cpu s) \<noteq> 0 then Some s
      else do {
        next \<leftarrow> (case policy cfg of
                   PRIO \<Rightarrow> let rotate = (need_resched (cpu s) = kNeedReschedRotate)
                           in prio_pick_next s cur rotate rotate
                 | RR \<Rightarrow> Some (if cur \<noteq> NULL \<and> is_ready s cur \<and> t_next (thr s cur) \<noteq> NULL
                               then t_next (thr s cur) else rq_head s));
        if cur = NULL \<or> next = NULL \<or> next = cur
        then Some (upd_cpu (need_resched_update (\<lambda>_. kNeedReschedNone)) s)
        else Some (do_switch k cur next s)
      })"

definition sched_block_current :: "kstate \<Rightarrow> kstate option" where
  "sched_block_current s =
     (let cur = cur_thread s in
      if cur = NULL then Some s
      else if t_state (thr s cur) = kThreadBlocked then Some s
      else do {
        s \<leftarrow> rq_remove cur s;
        let s = upd_thread cur (t_state_update (\<lambda>_. kThreadBlocked)) s;
        Some (upd_thread cur (t_wait_next_update (\<lambda>_. NULL)) s)
      })"

definition sched_make_runnable :: "addr \<Rightarrow> kstate \<Rightarrow> kstate option" where
  "sched_make_runnable t s =
     (if t = NULL then Some s
      else if t_state (thr s t) = kThreadReady then Some s
      else let s = upd_thread t (t_state_update (\<lambda>_. kThreadReady)) s;
               s = upd_thread t (t_wait_next_update (\<lambda>_. NULL)) s;
               s = upd_thread t (t_budget_update (\<lambda>_. kQuantumTicks)) s
           in rq_append t s)"

definition thread_base_priority :: "kstate \<Rightarrow> addr \<Rightarrow> int" where
  "thread_base_priority s t = (if t \<noteq> NULL then t_base_priority (thr s t) else 0)"

definition thread_effective_priority :: "kstate \<Rightarrow> addr \<Rightarrow> int" where
  "thread_effective_priority s t = (if t \<noteq> NULL then t_effective_priority (thr s t) else 0)"

definition thread_set_base_priority :: "addr \<Rightarrow> int \<Rightarrow> kstate \<Rightarrow> kstate" where
  "thread_set_base_priority t prio s =
     (if t = NULL then s
      else let p = clamp_priority prio;
               s = upd_thread t (t_base_priority_update (\<lambda>_. p)) s
           in if t_effective_priority (thr s t) < p
              then upd_thread t (t_effective_priority_update (\<lambda>_. p)) s else s)"

definition thread_set_effective_priority :: "addr \<Rightarrow> int \<Rightarrow> kstate \<Rightarrow> kstate" where
  "thread_set_effective_priority t prio s =
     (if t = NULL then s
      else let p = clamp_priority prio;
               p = (if p < t_base_priority (thr s t) then t_base_priority (thr s t) else p)
           in upd_thread t (t_effective_priority_update (\<lambda>_. p)) s)"

definition preempt_disable :: "kstate \<Rightarrow> kstate" where
  "preempt_disable s = upd_cpu (preempt_cnt_update (\<lambda>c. c + 1)) s"

definition preempt_enable :: "kconfig \<Rightarrow> kont \<Rightarrow> kstate \<Rightarrow> kstate option" where
  "preempt_enable cfg k s =
     (if preempt_cnt (cpu s) = 0 then Some s
      else let s = upd_cpu (preempt_cnt_update (\<lambda>c. c - 1)) s
           in if preempt_cnt (cpu s) = 0 \<and> need_resched (cpu s) \<noteq> 0 \<and> irq_depth (cpu s) = 0
              then sched_resched_from_irq_tail cfg k s
              else Some s)"

definition preempt_return :: "kconfig \<Rightarrow> kstate \<Rightarrow> kstate option" where
  "preempt_return cfg s =
     (if preempt_cnt (cpu s) = 0 \<and> need_resched (cpu s) \<noteq> 0
      then sched_resched_from_irq_tail cfg KResched s else Some s)"

section \<open>The invariant\<close>

definition prio_ok :: "kstate \<Rightarrow> bool" where
  "prio_ok s \<longleftrightarrow> (\<forall>t. 0 \<le> t_base_priority (thr s t) \<and> t_base_priority (thr s t) \<le> eff s t \<and>
     eff s t \<le> kMaxPriority)"

definition sched_inv :: "kstate \<Rightarrow> addr list \<Rightarrow> bool" where
  "sched_inv s xs \<longleftrightarrow> rq_inv s xs \<and> prio_ok s \<and> (\<forall>t \<in> set xs. t_state (thr s t) = kThreadReady) \<and>
     (cur_thread s \<noteq> NULL \<longrightarrow> t_state (thr s (cur_thread s)) = kThreadReady \<longrightarrow> cur_thread s \<in> set xs)"

lemma clamp_priority_range: "0 \<le> clamp_priority p" "clamp_priority p \<le> kMaxPriority"
  by (auto simp: clamp_priority_def kMaxPriority_def)

lemma sched_invD:
  assumes "sched_inv s xs"
  shows "rq_inv s xs" "prio_ok s" "\<And>t. t \<in> set xs \<Longrightarrow> is_ready s t" "\<And>t. t \<in> set xs \<Longrightarrow> t \<noteq> NULL"
    "\<And>t. 0 \<le> eff s t"
  using assms by (auto simp: sched_inv_def is_ready_def rq_inv_def prio_ok_def intro: order.trans)

text \<open>Everything the invariant reads, so that a step that leaves it alone keeps the invariant.\<close>

lemma sched_inv_cong:
  assumes "sched_inv s xs" and "rq_head s' = rq_head s" "rq_tail s' = rq_tail s"
    and "\<And>t. t_next (thr s' t) = t_next (thr s t)" "\<And>t. t_state (thr s' t) = t_state (thr s t)"
    and "prio_ok s'" "cur_thread s' = cur_thread s"
  shows "sched_inv s' xs"
proof -
  have "rq_inv s' xs" using rq_inv_cong [OF sched_invD(1) [OF assms(1)] assms(2-4)] .
  then show ?thesis using assms by (simp add: sched_inv_def)
qed

lemma prio_ok_cong:
  assumes "prio_ok s" "\<And>t. t_base_priority (thr s' t) = t_base_priority (thr s t)"
    "\<And>t. eff s' t = eff s t"
  shows "prio_ok s'"
  using assms by (simp add: prio_ok_def)

lemma sched_inv_switch:
  assumes "sched_inv s xs" "n \<in> set xs"
  shows "sched_inv (do_switch k c n s) xs"
proof -
  have "rq_inv (do_switch k c n s) xs" using rq_inv_cong [OF sched_invD(1) [OF assms(1)]] by simp
  moreover have "prio_ok (do_switch k c n s)" using prio_ok_cong [OF sched_invD(2) [OF assms(1)]] by simp
  ultimately show ?thesis using assms by (simp add: sched_inv_def)
qed

section \<open>Operations keep the invariant\<close>

lemma rq_next_mem: "rq_inv s xs \<Longrightarrow> t_next (thr s t) \<noteq> NULL \<longleftrightarrow> t \<in> set xs"
  using rq_inv_next_mem [of s xs t] unfolding rq_inv_def by metis

lemma rq_head_mem: "rq_inv s xs \<Longrightarrow> rq_head s \<noteq> NULL \<Longrightarrow> rq_head s \<in> set xs"
  by (cases xs) (auto simp: rq_inv_def)

lemma prio_pick_next_sched:
  assumes "sched_inv s xs"
  shows "\<exists>t. prio_pick_next s c e r = Some t \<and> (t \<in> set xs \<or> t = c) \<and>
    (xs \<noteq> [] \<longrightarrow> is_ready s t \<and> (\<forall>v \<in> set xs. eff s v \<le> eff s t))"
proof (cases "xs = []")
  case True
  then have "rq_head s = NULL" using rq_inv_head [OF sched_invD(1) [OF assms]] by simp
  then show ?thesis using True by (simp add: prio_pick_next_def)
next
  case False
  then have "hd xs \<in> set xs" by simp
  from pick_next_is_max [OF sched_invD(1) [OF assms] this sched_invD(3) [OF assms this] sched_invD(5) [OF assms]]
  show ?thesis using sched_invD(3) [OF assms] by metis
qed

lemma sched_add_inv:
  assumes inv: "sched_inv s xs" and t: "t \<noteq> NULL" "t \<notin> set xs"
  shows "\<exists>s'. sched_add t s = Some s' \<and> sched_inv s' (xs @ [t])"
proof -
  define s1 where "s1 = (if t_state (thr s t) \<noteq> kThreadReady
      then upd_thread t (t_state_update (\<lambda>_. kThreadReady)) s else s)"
  have s1: "rq_inv s1 xs" "prio_ok s1" "cur_thread s1 = cur_thread s"
    "\<And>u. t_state (thr s1 u) = (if u = t then kThreadReady else t_state (thr s u))"
    using rq_inv_cong [OF sched_invD(1) [OF inv], of s1] prio_ok_cong [OF sched_invD(2) [OF inv], of s1]
    by (auto simp: s1_def)
  obtain s' where s': "rq_append t s1 = Some s'" "rq_inv s' (xs @ [t])" "links_only s1 s'"
    using rq_append_spec [OF s1(1) t] by blast
  have "prio_ok s'" using prio_ok_cong [OF s1(2)] links_only_simps [OF s'(3)] by simp
  then have "sched_inv s' (xs @ [t])"
    using inv s1 s' links_only_simps [OF s'(3)] by (auto simp: sched_inv_def)
  moreover have "sched_add t s = Some s'" using t(1) s'(1) by (simp add: sched_add_def s1_def Let_def)
  ultimately show ?thesis by blast
qed

lemma sched_make_runnable_inv:
  assumes inv: "sched_inv s xs" and t: "t \<noteq> NULL" "t_state (thr s t) \<noteq> kThreadReady"
  shows "\<exists>s'. sched_make_runnable t s = Some s' \<and> sched_inv s' (xs @ [t])"
proof -
  define s1 where "s1 = upd_thread t (t_budget_update (\<lambda>_. kQuantumTicks)) (upd_thread t (t_wait_next_update (\<lambda>_. NULL))
      (upd_thread t (t_state_update (\<lambda>_. kThreadReady)) s))"
  have s1: "rq_inv s1 xs" "prio_ok s1" "cur_thread s1 = cur_thread s"
    "\<And>u. t_state (thr s1 u) = (if u = t then kThreadReady else t_state (thr s u))"
    using rq_inv_cong [OF sched_invD(1) [OF inv], of s1] prio_ok_cong [OF sched_invD(2) [OF inv], of s1]
    by (auto simp: s1_def)
  have nt: "t \<notin> set xs" using inv t(2) by (auto simp: sched_inv_def)
  obtain s' where s': "rq_append t s1 = Some s'" "rq_inv s' (xs @ [t])" "links_only s1 s'"
    using rq_append_spec [OF s1(1) t(1) nt] by blast
  have "prio_ok s'" using prio_ok_cong [OF s1(2)] links_only_simps [OF s'(3)] by simp
  then have "sched_inv s' (xs @ [t])"
    using inv s1 s' links_only_simps [OF s'(3)] by (auto simp: sched_inv_def)
  moreover have "sched_make_runnable t s = Some s'"
    using t s'(1) by (simp add: sched_make_runnable_def s1_def Let_def)
  ultimately show ?thesis by blast
qed

lemma sched_block_current_inv:
  assumes inv: "sched_inv s xs"
  shows "\<exists>s'. sched_block_current s = Some s' \<and> sched_inv s' (remove1 (cur_thread s) xs)"
proof (cases "cur_thread s = NULL \<or> t_state (thr s (cur_thread s)) = kThreadBlocked")
  case True
  then have "cur_thread s \<notin> set xs"
    using inv sched_invD(4) [OF inv] by (auto simp: sched_inv_def kconst_defs)
  then show ?thesis using True inv by (auto simp: sched_block_current_def Let_def remove1_idem)
next
  case False
  let ?c = "cur_thread s"
  obtain s1 where s1: "rq_remove ?c s = Some s1" "rq_inv s1 (remove1 ?c xs)" "links_only s s1"
    using rq_remove_spec [OF sched_invD(1) [OF inv]] by blast
  define s' where "s' = upd_thread ?c (t_wait_next_update (\<lambda>_. NULL))
      (upd_thread ?c (t_state_update (\<lambda>_. kThreadBlocked)) s1)"
  have d: "distinct xs" using sched_invD(1) [OF inv] by (simp add: rq_inv_def)
  have "rq_inv s' (remove1 ?c xs)" using rq_inv_cong [OF s1(2), of s'] by (simp add: s'_def)
  moreover have "prio_ok s'"
    using prio_ok_cong [OF sched_invD(2) [OF inv], of s'] links_only_simps [OF s1(3)] by (simp add: s'_def)
  ultimately have "sched_inv s' (remove1 ?c xs)"
    using inv d links_only_simps [OF s1(3)] by (auto simp: sched_inv_def s'_def kconst_defs)
  moreover have "sched_block_current s = Some s'"
    using False s1(1) by (simp add: sched_block_current_def Let_def s'_def links_onlyD [OF s1(3)])
  ultimately show ?thesis by blast
qed

text \<open>
  A rescheduling point either leaves the running thread in place and clears the request, or
  switches to another thread of the queue.
\<close>

lemma resched_cases:
  assumes inv: "sched_inv s xs" and pc: "preempt_cnt (cpu s) = 0"
  obtains (stay) "sched_resched_from_irq_tail cfg k s =
      Some (upd_cpu (need_resched_update (\<lambda>_. kNeedReschedNone)) s)"
    | (switch) n where "n \<in> set xs" "n \<noteq> cur_thread s" "cur_thread s \<noteq> NULL"
      "sched_resched_from_irq_tail cfg k s = Some (do_switch k (cur_thread s) n s)"
proof -
  let ?c = "cur_thread s"
  have "\<exists>n. (case policy cfg of
      PRIO \<Rightarrow> let rotate = (need_resched (cpu s) = kNeedReschedRotate) in prio_pick_next s ?c rotate rotate
    | RR \<Rightarrow> Some (if ?c \<noteq> NULL \<and> is_ready s ?c \<and> t_next (thr s ?c) \<noteq> NULL
                  then t_next (thr s ?c) else rq_head s)) = Some n \<and> (n \<noteq> NULL \<longrightarrow> n \<noteq> ?c \<longrightarrow> n \<in> set xs)"
  proof (cases "policy cfg")
    case PRIO
    then show ?thesis
      using prio_pick_next_sched [OF inv, of ?c "need_resched (cpu s) = kNeedReschedRotate"]
      by (auto simp: Let_def)
  next
    case RR
    have "t_next (thr s ?c) \<noteq> NULL \<Longrightarrow> t_next (thr s ?c) \<in> set xs"
      using rq_inv_next_mem rq_next_mem sched_invD(1) [OF inv] by metis
    then show ?thesis using RR rq_head_mem [OF sched_invD(1) [OF inv]] by auto
  qed
  then obtain n where n: "(case policy cfg of
      PRIO \<Rightarrow> let rotate = (need_resched (cpu s) = kNeedReschedRotate) in prio_pick_next s ?c rotate rotate
    | RR \<Rightarrow> Some (if ?c \<noteq> NULL \<and> is_ready s ?c \<and> t_next (thr s ?c) \<noteq> NULL
                  then t_next (thr s ?c) else rq_head s)) = Some n" "n \<noteq> NULL \<longrightarrow> n \<noteq> ?c \<longrightarrow> n \<in> set xs"
    by blast
  have r: "sched_resched_from_irq_tail cfg k s =
      (if ?c = NULL \<or> n = NULL \<or> n = ?c then Some (upd_cpu (need_resched_update (\<lambda>_. kNeedReschedNone)) s)
       else Some (do_switch k ?c n s))"
    unfolding sched_resched_from_irq_tail_def Let_def n(1) [unfolded Let_def] using pc by simp
  show ?thesis
  proof (cases "?c = NULL \<or> n = NULL \<or> n = ?c")
    case True
    then show ?thesis using stay r by auto
  next
    case False
    then show ?thesis using switch [of n] r n(2) by auto
  qed
qed

lemma sched_inv_upd_cpu:
  "sched_inv s xs \<Longrightarrow> current_thread (f (cpu s)) = cur_thread s \<Longrightarrow> sched_inv (upd_cpu f s) xs"
  using sched_invD(2) [of s xs] by (auto elim!: sched_inv_cong simp: prio_ok_def)

lemma resched_inv:
  assumes "sched_inv s xs"
  shows "\<exists>s'. sched_resched_from_irq_tail cfg k s = Some s' \<and> sched_inv s' xs"
proof (cases "preempt_cnt (cpu s) = 0")
  case True
  show ?thesis
    by (rule resched_cases [OF assms True, of cfg k])
      (use sched_inv_switch [OF assms] sched_inv_upd_cpu [OF assms] in auto)
next
  case False
  then show ?thesis using assms by (simp add: sched_resched_from_irq_tail_def)
qed

lemma preempt_enable_inv:
  assumes "sched_inv s xs"
  shows "\<exists>s'. preempt_enable cfg k s = Some s' \<and> sched_inv s' xs"
proof (cases "preempt_cnt (cpu s) = 0")
  case True
  then show ?thesis using assms by (simp add: preempt_enable_def)
next
  case False
  let ?s = "upd_cpu (preempt_cnt_update (\<lambda>c. c - 1)) s"
  have "sched_inv ?s xs" using sched_inv_upd_cpu [OF assms] by simp
  then show ?thesis using False resched_inv [of ?s xs cfg k] by (simp add: preempt_enable_def Let_def)
qed

lemma preempt_return_inv:
  assumes "sched_inv s xs"
  shows "\<exists>s'. preempt_return cfg s = Some s' \<and> sched_inv s' xs"
  using resched_inv [OF assms, of cfg KResched] assms by (simp add: preempt_return_def)

lemma thread_yield_inv:
  assumes inv: "sched_inv s xs"
  shows "\<exists>s'. thread_yield cfg s = Some s' \<and> sched_inv s' xs"
proof -
  let ?c = "cur_thread s"
  have "\<exists>n. (case policy cfg of PRIO \<Rightarrow> prio_pick_next s ?c True True
      | RR \<Rightarrow> Some (if t_next (thr s ?c) \<noteq> NULL then t_next (thr s ?c) else ?c)) = Some n \<and>
    (n \<noteq> ?c \<longrightarrow> n \<in> set xs)"
  proof (cases "policy cfg")
    case PRIO
    then show ?thesis using prio_pick_next_sched [OF inv, of ?c True True] by auto
  next
    case RR
    have "t_next (thr s ?c) \<noteq> NULL \<Longrightarrow> t_next (thr s ?c) \<in> set xs"
      using rq_inv_next_mem rq_next_mem sched_invD(1) [OF inv] by metis
    then show ?thesis using RR by auto
  qed
  then obtain n where n: "(case policy cfg of PRIO \<Rightarrow> prio_pick_next s ?c True True
      | RR \<Rightarrow> Some (if t_next (thr s ?c) \<noteq> NULL then t_next (thr s ?c) else ?c)) = Some n"
    "n \<noteq> ?c \<longrightarrow> n \<in> set xs" by blast
  have y: "thread_yield cfg s = (if preempt_cnt (cpu s) \<noteq> 0 \<or> ?c = NULL \<or> n = NULL \<or> n = ?c then Some s
      else Some (do_switch KYield ?c n s))"
    unfolding thread_yield_def Let_def n(1) by simp
  show ?thesis
    unfolding y using inv n(2) sched_inv_switch [OF inv, of n KYield ?c] by simp
qed

text \<open>The tick, with its three outcomes.\<close>

definition tick_preempts :: "kconfig \<Rightarrow> kstate \<Rightarrow> addr list \<Rightarrow> bool" where
  "tick_preempts cfg s xs \<longleftrightarrow> policy cfg = PRIO \<and>
     (\<not> is_ready s (cur_thread s) \<or> (\<exists>u \<in> set xs. is_ready s u \<and> eff s u > eff s (cur_thread s)))"

lemma sched_on_tick_eq:
  assumes inv: "rq_inv s xs" and g: "stack_guard_ok s c" and c: "c = cur_thread s" "c \<noteq> NULL"
    and pc: "preempt_cnt (cpu s) = 0"
  shows "sched_on_tick cfg s = Some
    (if tick_preempts cfg s xs then upd_cpu (need_resched_update (\<lambda>_. kNeedReschedNormal)) s
     else if t_budget (thr s c) \<le> 1
     then upd_thread c (t_budget_update (\<lambda>_. kQuantumTicks)) (upd_cpu (need_resched_update
       (\<lambda>_. case policy cfg of PRIO \<Rightarrow> kNeedReschedRotate | RR \<Rightarrow> kNeedReschedNormal)) s)
     else upd_thread c (t_budget_update (\<lambda>b. b - 1)) s)"
proof -
  have b: "(case policy cfg of
      PRIO \<Rightarrow> if \<not> is_ready s c then Some True else rq_has_ready_prio_gt s (t_effective_priority (thr s c))
    | RR \<Rightarrow> Some False) = Some (tick_preempts cfg s xs)"
    using c by (cases "policy cfg") (auto simp: tick_preempts_def rq_has_ready_prio_gt_inv [OF inv])
  have u: "upd_thread c (t_budget_update (\<lambda>_. kQuantumTicks)) (upd_cpu f (upd_thread c (t_budget_update (\<lambda>b. b - 1)) s))
      = upd_thread c (t_budget_update (\<lambda>_. kQuantumTicks)) (upd_cpu f s)" for f
    by (simp add: upd_thread_def upd_cpu_def)
  show ?thesis
    unfolding sched_on_tick_def Let_def c(1) [symmetric] b using c(2) g pc
    by (simp add: u)
qed

lemma sched_inv_upd_thread:
  assumes "sched_inv s xs" and "\<And>r. t_next (h r) = t_next r" "\<And>r. t_state (h r) = t_state r"
      "\<And>r. t_base_priority (h r) = t_base_priority r" "\<And>r. t_effective_priority (h r) = t_effective_priority r"
  shows "sched_inv (upd_thread t h s) xs"
  by (rule sched_inv_cong [OF assms(1)])
    (use assms(2-) sched_invD(2) [OF assms(1)] in \<open>auto simp: prio_ok_def\<close>)

lemma sched_on_tick_inv:
  assumes inv: "sched_inv s xs" and g: "stack_guard_ok s (cur_thread s)"
  shows "\<exists>s'. sched_on_tick cfg s = Some s' \<and> sched_inv s' xs"
proof (cases "cur_thread s = NULL \<or> preempt_cnt (cpu s) \<noteq> 0")
  case True
  then show ?thesis using inv g by (auto simp: sched_on_tick_def Let_def)
next
  case False
  then show ?thesis
    using sched_on_tick_eq [OF sched_invD(1) [OF inv] g refl, of cfg] inv
    by (auto intro!: sched_inv_upd_thread sched_inv_upd_cpu)
qed

lemma sched_start_inv:
  assumes inv: "sched_inv s xs" and ne: "xs \<noteq> []"
  shows "\<exists>s'. sched_start cfg s = Some s' \<and> sched_inv s' xs \<and> cur_thread s' \<in> set xs \<and>
    (policy cfg = PRIO \<longrightarrow> (\<forall>v \<in> set xs. eff s' v \<le> eff s' (cur_thread s')))"
proof -
  have "\<exists>c \<in> set xs. (case policy cfg of PRIO \<Rightarrow> prio_pick_next s NULL False False | RR \<Rightarrow> Some (rq_head s)) = Some c \<and>
      (policy cfg = PRIO \<longrightarrow> (\<forall>v \<in> set xs. eff s v \<le> eff s c))"
  proof (cases "policy cfg")
    case PRIO
    then show ?thesis using prio_pick_next_sched [OF inv, of NULL False False] ne by (auto simp: is_ready_def)
  next
    case RR
    then show ?thesis using sched_invD(1) [OF inv] ne by (auto simp: rq_inv_def)
  qed
  then obtain c where c: "c \<in> set xs"
    "(case policy cfg of PRIO \<Rightarrow> prio_pick_next s NULL False False | RR \<Rightarrow> Some (rq_head s)) = Some c"
    "policy cfg = PRIO \<longrightarrow> (\<forall>v \<in> set xs. eff s v \<le> eff s c)" by blast
  define s1 where "s1 = upd_cpu (current_thread_update (\<lambda>_. c)) (upd_thread c (t_budget_update (\<lambda>_. kQuantumTicks)) s)"
  define s' where "s' = resume (snd (arch_switch (t_sp (thr s1 c)) s1))"
  have sw: "arch_switch p s1 = (r_sp (regs s1) - 96,
    s1\<lparr>bytes := save_frame (bytes s1) (r_sp (regs s1) - 96) (r_x (regs s1)),
      regs := (regs s1)\<lparr>r_sp := p + 96,
        r_x := load_frame (save_frame (bytes s1) (r_sp (regs s1) - 96) (r_x (regs s1))) p (r_x (regs s1))\<rparr>\<rparr>)" for p
    by (rule arch_switch_eq) simp
  have run: "sched_start cfg s = Some s'"
    using c sched_invD(4) [OF inv c(1)] unfolding sched_start_def s'_def s1_def Let_def by (simp add: case_prod_beta)
  have e: "eff s' v = eff s v" "cur_thread s' = c" for v unfolding s'_def sw by (auto simp: s1_def)
  have f: "rq_head s' = rq_head s" "rq_tail s' = rq_tail s" "t_next (thr s' v) = t_next (thr s v)"
    "t_state (thr s' v) = t_state (thr s v)" "t_base_priority (thr s' v) = t_base_priority (thr s v)" for v
    unfolding s'_def sw by (auto simp: s1_def)
  have "rq_inv s' xs" using rq_inv_cong [OF sched_invD(1) [OF inv], of s'] f by simp
  moreover have "prio_ok s'" using prio_ok_cong [OF sched_invD(2) [OF inv], of s'] f e by simp
  ultimately have "sched_inv s' xs" using inv c(1) f e by (auto simp: sched_inv_def)
  then show ?thesis using run e c by auto
qed

lemma priority_inv:
  assumes inv: "sched_inv s xs"
  shows "sched_inv (thread_set_base_priority t p s) xs" "sched_inv (thread_set_effective_priority t p s) xs"
proof -
  note r = clamp_priority_range [of p]
  show "sched_inv (thread_set_base_priority t p s) xs"
    by (rule sched_inv_cong [OF inv])
      (use sched_invD(2) [OF inv] r in \<open>auto simp: thread_set_base_priority_def Let_def prio_ok_def\<close>)
  show "sched_inv (thread_set_effective_priority t p s) xs"
    by (rule sched_inv_cong [OF inv])
      (use sched_invD(2) [OF inv] r in \<open>auto simp: thread_set_effective_priority_def Let_def prio_ok_def intro: order.trans\<close>)
qed

section \<open>Runs of the scheduler\<close>

text \<open>
  The entry points in any order, interleaved with thread code that changes registers and memory.
  A thread is added once: it is not in the queue.
\<close>

inductive sched_step :: "kconfig \<Rightarrow> kstate \<Rightarrow> kstate \<Rightarrow> bool" for cfg where
  step_add: "t_next (thr s t) = NULL \<Longrightarrow> sched_add t s = Some s' \<Longrightarrow> sched_step cfg s s'"
| step_start: "rq_head s \<noteq> NULL \<Longrightarrow> sched_start cfg s = Some s' \<Longrightarrow> sched_step cfg s s'"
| step_yield: "thread_yield cfg s = Some s' \<Longrightarrow> sched_step cfg s s'"
| step_tick: "sched_on_tick cfg s = Some s' \<Longrightarrow> sched_step cfg s s'"
| step_irq_return: "preempt_return cfg s = Some s' \<Longrightarrow> sched_step cfg s s'"
| step_disable: "sched_step cfg s (preempt_disable s)"
| step_enable: "preempt_enable cfg k s = Some s' \<Longrightarrow> sched_step cfg s s'"
| step_block: "sched_block_current s = Some s' \<Longrightarrow> sched_step cfg s s'"
| step_wake: "sched_make_runnable t s = Some s' \<Longrightarrow> sched_step cfg s s'"
| step_set_base: "sched_step cfg s (thread_set_base_priority t p s)"
| step_set_eff: "sched_step cfg s (thread_set_effective_priority t p s)"
| step_thread: "sched_step cfg s (s\<lparr>regs := r, bytes := m\<rparr>)"

lemma sched_step_inv:
  assumes "sched_step cfg s s'" "sched_inv s xs"
  shows "\<exists>ys. sched_inv s' ys"
  using assms
proof (induction rule: sched_step.induct)
  case (step_add s t s')
  have "t \<notin> set xs" using rq_next_mem [OF sched_invD(1) [OF step_add(3)]] step_add(1) by metis
  then show ?case
    using sched_add_inv [OF step_add(3), of t] step_add(2,3) by (cases "t = NULL") (auto simp: sched_add_def)
next
  case (step_start s s')
  then have "xs \<noteq> []" using rq_inv_head [OF sched_invD(1)] by blast
  then show ?case using sched_start_inv [OF step_start(3)] step_start(2) by (metis option.inject)
next
  case (step_yield s s')
  then show ?case using thread_yield_inv by (metis option.inject)
next
  case (step_tick s s')
  then have "cur_thread s \<noteq> NULL \<Longrightarrow> stack_guard_ok s (cur_thread s)"
    by (auto simp: sched_on_tick_def Let_def split: if_splits)
  moreover have "stack_guard_ok s NULL" by (simp add: stack_guard_ok_def)
  ultimately show ?case using sched_on_tick_inv [OF step_tick(2)] step_tick(1) by (metis option.inject)
next
  case (step_irq_return s s')
  then show ?case using preempt_return_inv by (metis option.inject)
next
  case (step_disable s)
  then have "sched_inv (preempt_disable s) xs" by (simp add: preempt_disable_def sched_inv_upd_cpu)
  then show ?case by blast
next
  case (step_enable k s s')
  then show ?case using preempt_enable_inv by (metis option.inject)
next
  case (step_block s s')
  then show ?case using sched_block_current_inv by (metis option.inject)
next
  case (step_wake t s s')
  show ?case
  proof (cases "t = NULL \<or> t_state (thr s t) = kThreadReady")
    case True
    then have "sched_make_runnable t s = Some s" by (auto simp: sched_make_runnable_def)
    then show ?thesis using step_wake by auto
  next
    case False
    then show ?thesis using sched_make_runnable_inv [OF step_wake(2)] step_wake(1) by (metis option.inject)
  qed
next
  case (step_set_base s t p)
  then show ?case using priority_inv(1) by blast
next
  case (step_set_eff s t p)
  then show ?case using priority_inv(2) by blast
next
  case (step_thread s m r)
  have "prio_ok (s\<lparr>regs := r, bytes := m\<rparr>)" using sched_invD(2) [OF step_thread] by (simp add: prio_ok_def)
  then have "sched_inv (s\<lparr>regs := r, bytes := m\<rparr>) xs" using sched_inv_cong [OF step_thread] by simp
  then show ?case by blast
qed

lemma sched_inv_boot: "sched_inv boot_state []"
  using rq_inv_boot by (simp add: sched_inv_def prio_ok_def boot_state_def zero_thread_def zero_cpu_def kMaxPriority_def)

lemma sched_steps_inv:
  "(sched_step cfg)\<^sup>*\<^sup>* boot_state s \<Longrightarrow> \<exists>xs. sched_inv s xs"
proof (induction rule: rtranclp_induct)
  case base
  then show ?case using sched_inv_boot by blast
next
  case (step y z)
  then show ?case using sched_step_inv by blast
qed

text \<open>
  C1: in every state the scheduler can reach from the zeroed boot state, by any sequence of its entry
  points and of thread code, the run queue is a circular list of distinct threads, all of them
  ready; every thread's priorities satisfy \<open>0 \<le> base \<le> effective \<le> 31\<close>; and the running thread
  is in the queue whenever it is ready.
\<close>
theorem sched_reachable_inv:
  assumes "(sched_step cfg)\<^sup>*\<^sup>* boot_state s"
  shows "\<exists>xs. rq_inv s xs \<and> (\<forall>t \<in> set xs. is_ready s t) \<and>
    (\<forall>t. 0 \<le> t_base_priority (thr s t) \<and> t_base_priority (thr s t) \<le> t_effective_priority (thr s t) \<and>
         t_effective_priority (thr s t) \<le> kMaxPriority) \<and>
    (is_ready s (cur_thread s) \<longrightarrow> cur_thread s \<in> set xs)"
proof -
  obtain xs where xs: "sched_inv s xs" using sched_steps_inv [OF assms] by blast
  have "is_ready s (cur_thread s) \<longrightarrow> cur_thread s \<in> set xs"
    using xs by (simp add: sched_inv_def is_ready_def)
  moreover have "\<forall>t \<in> set xs. is_ready s t" using sched_invD(3) [OF xs] by blast
  ultimately show ?thesis
    using sched_invD(1,2) [OF xs] unfolding prio_ok_def by blast
qed

lemma boot_add_start:
  "\<exists>s. (sched_step cfg)\<^sup>*\<^sup>* boot_state s \<and> cur_thread s = 16"
proof -
  obtain s1 where s1: "sched_add 16 boot_state = Some s1" "sched_inv s1 ([] @ [16])"
    using sched_add_inv [OF sched_inv_boot, of 16] by auto
  have "t_next (thr boot_state 16) = NULL" by (simp add: boot_state_def zero_thread_def)
  then have a: "sched_step cfg boot_state s1" using s1(1) by (rule step_add)
  obtain s2 where s2: "sched_start cfg s1 = Some s2" "cur_thread s2 \<in> set ([] @ [16])"
    using sched_start_inv [OF s1(2), of cfg] by auto
  have "rq_head s1 \<noteq> NULL" using rq_inv_head [OF sched_invD(1) [OF s1(2)]] by simp
  then have "sched_step cfg s1 s2" using s2(1) by (rule step_start)
  with a s2(2) show ?thesis by (auto intro: exI [of _ s2] rtranclp_trans)
qed

theorem sched_reachable_inv_witness:
  "\<exists>s xs. (sched_step \<lparr>policy = PRIO, mutex_pi = True, lockdep = False\<rparr>)\<^sup>*\<^sup>* boot_state s \<and>
     cur_thread s = 16 \<and> rq_inv s xs \<and> (is_ready s (cur_thread s) \<longrightarrow> cur_thread s \<in> set xs)"
  using boot_add_start [of "\<lparr>policy = PRIO, mutex_pi = True, lockdep = False\<rparr>"]
    sched_reachable_inv by metis

section \<open>What the policies promise\<close>

text \<open>
  C6: under the PRIO policy a rescheduling point with preemption enabled returns, and whenever the queue
  holds a thread it leaves the CPU with a ready thread of the highest effective priority.
\<close>
theorem prio_resched_runs_highest:
  assumes "sched_inv s xs" "policy cfg = PRIO" "xs \<noteq> []" "cur_thread s \<noteq> NULL" "preempt_cnt (cpu s) = 0"
  shows "\<exists>s'. sched_resched_from_irq_tail cfg k s = Some s' \<and> is_ready s' (cur_thread s') \<and>
    (\<forall>v \<in> set xs. eff s' v \<le> eff s' (cur_thread s'))"
proof -
  obtain n where n: "prio_pick_next s (cur_thread s) (need_resched (cpu s) = kNeedReschedRotate)
      (need_resched (cpu s) = kNeedReschedRotate) = Some n" "is_ready s n" "\<forall>v \<in> set xs. eff s v \<le> eff s n"
    using prio_pick_next_sched [OF assms(1)] assms(3) by metis
  have nz: "n \<noteq> NULL" using n(2) by (simp add: is_ready_def)
  have r: "sched_resched_from_irq_tail cfg k s =
      (if n = cur_thread s then Some (upd_cpu (need_resched_update (\<lambda>_. kNeedReschedNone)) s)
       else Some (do_switch k (cur_thread s) n s))"
    using assms n(1) nz by (simp add: sched_resched_from_irq_tail_def Let_def)
  show ?thesis unfolding r using n(2,3) by (auto simp: is_ready_def)
qed

text \<open>Three threads in the run queue \<open>[16, 32, 48]\<close>, thread 32 of lower priority running.\<close>

definition sched_example :: kstate where
  "sched_example = ring_example\<lparr>cpu := zero_cpu\<lparr>current_thread := 32, need_resched := 1\<rparr>\<rparr>"

lemma sched_example_inv: "sched_inv sched_example [16, 32, 48]"
proof -
  have "rq_inv sched_example [16, 32, 48]" using rq_inv_cong [OF ring_example_inv, of sched_example]
    by (simp add: sched_example_def)
  then show ?thesis
    by (simp add: sched_inv_def prio_ok_def sched_example_def ring_example_def zero_thread_def kconst_defs)
qed

theorem prio_resched_runs_highest_witness:
  "\<exists>s'. sched_resched_from_irq_tail \<lparr>policy = PRIO, mutex_pi = True, lockdep = False\<rparr> KResched sched_example = Some s' \<and>
     is_ready s' (cur_thread s') \<and> (\<forall>v \<in> set [16, 32, 48]. eff s' v \<le> eff s' (cur_thread s'))"
  by (rule prio_resched_runs_highest [OF sched_example_inv])
    (simp_all add: sched_example_def zero_cpu_def)

text \<open>A number of consecutive calls of one entry point.\<close>

fun repeat_call :: "nat \<Rightarrow> (kstate \<Rightarrow> kstate option) \<Rightarrow> kstate \<Rightarrow> kstate option" where
  "repeat_call 0 f s = Some s"
| "repeat_call (Suc n) f s = Option.bind (f s) (repeat_call n f)"

lemma rr_resched:
  assumes inv: "sched_inv s xs" and rr: "policy cfg = RR" and pc: "preempt_cnt (cpu s) = 0"
    and i: "i < length xs" "cur_thread s = xs ! i"
  shows "\<exists>s'. sched_resched_from_irq_tail cfg k s = Some s' \<and> sched_inv s' xs \<and> preempt_cnt (cpu s') = 0 \<and>
    cur_thread s' = xs ! (Suc i mod length xs)"
proof -
  let ?c = "cur_thread s"
  have c: "?c \<in> set xs" "?c \<noteq> NULL" "is_ready s ?c"
    using i sched_invD(3,4) [OF inv] by (simp_all add: i(2))
  obtain ys zs where xs: "xs = ys @ ?c # zs" "length ys = i" using i id_take_nth_drop [OF i(1)] by fastforce
  have n: "t_next (thr s ?c) = hd (zs @ ys @ [?c])" using ring_next [OF sched_invD(1) [OF inv] xs(1)] .
  have nth: "hd (zs @ ys @ [?c]) = xs ! (Suc i mod length xs)"
  proof (cases zs)
    case Nil
    then have "Suc i mod length xs = 0" using xs by simp
    then show ?thesis using Nil xs(1) by (cases ys) (auto simp: nth_append)
  next
    case (Cons z zs')
    then have x: "xs = (ys @ [?c]) @ z # zs'" using xs(1) by simp
    have "length xs = Suc i + Suc (length zs')" using arg_cong [OF x, of length] xs(2) by simp
    then have "Suc i mod length xs = Suc i" by simp
    moreover have "xs ! Suc i = z"
      using nth_append_length [of "ys @ [?c]" z zs'] xs(2) unfolding x [symmetric] by simp
    ultimately show ?thesis using Cons by simp
  qed
  have nz: "t_next (thr s ?c) \<noteq> NULL" using rq_next_mem [OF sched_invD(1) [OF inv]] c(1) by blast
  have mem: "t_next (thr s ?c) \<in> set xs" using rq_inv_next_mem [OF sched_invD(1) [OF inv] c(1)] .
  have r: "sched_resched_from_irq_tail cfg k s =
      (if t_next (thr s ?c) = ?c then Some (upd_cpu (need_resched_update (\<lambda>_. kNeedReschedNone)) s)
       else Some (do_switch k ?c (t_next (thr s ?c)) s))"
    using rr pc c nz by (simp add: sched_resched_from_irq_tail_def Let_def)
  show ?thesis
  proof (cases "t_next (thr s ?c) = ?c")
    case True
    then show ?thesis using r pc n nth sched_inv_upd_cpu [OF inv] by simp
  next
    case False
    then show ?thesis using r pc n nth sched_inv_switch [OF inv mem] by simp
  qed
qed

text \<open>
  C7: the RR policy is round robin. From the \<open>i\<close>-th thread of the queue, \<open>n\<close> rescheduling points
  without a change of the queue lead to thread \<open>(i + n) mod length\<close>: every ready thread runs once
  in every round.
\<close>
theorem rr_round_robin:
  assumes "sched_inv s xs" "policy cfg = RR" "preempt_cnt (cpu s) = 0" "i < length xs" "cur_thread s = xs ! i"
  shows "\<exists>s'. repeat_call n (sched_resched_from_irq_tail cfg k) s = Some s' \<and>
    cur_thread s' = xs ! ((i + n) mod length xs)"
  using assms(1,3-)
proof (induction n arbitrary: s i)
  case 0
  then show ?case by simp
next
  case (Suc n)
  obtain s1 where s1: "sched_resched_from_irq_tail cfg k s = Some s1" "sched_inv s1 xs"
      "preempt_cnt (cpu s1) = 0" "cur_thread s1 = xs ! (Suc i mod length xs)"
    using rr_resched [OF Suc.prems(1) assms(2) Suc.prems(2-4)] by blast
  have "Suc i mod length xs < length xs" using Suc.prems(3) by (intro mod_less_divisor) auto
  from Suc.IH [OF s1(2,3) this s1(4)] show ?case
    using s1(1) by (simp add: mod_add_left_eq)
qed

theorem rr_round_robin_witness:
  "\<exists>s'. repeat_call 5 (sched_resched_from_irq_tail \<lparr>policy = RR, mutex_pi = True, lockdep = False\<rparr> KResched) sched_example
     = Some s' \<and> cur_thread s' = [16, 32, 48] ! ((1 + 5) mod length [16, 32, 48 :: addr])"
  by (rule rr_round_robin [OF sched_example_inv]) (simp_all add: sched_example_def zero_cpu_def)

text \<open>
  A tick of a thread that keeps its stack, its readiness and its rank only counts its budget.
\<close>

lemma tick_preempts_upd [simp]:
  "tick_preempts cfg (upd_thread t (t_budget_update f) s) xs = tick_preempts cfg s xs"
  by (auto simp: tick_preempts_def is_ready_def)

lemma stack_guard_upd [simp]: "stack_guard_ok (upd_thread t (t_budget_update f) s) c = stack_guard_ok s c"
  by (auto simp: stack_guard_ok_def)

lemma rq_inv_upd_budget: "rq_inv s xs \<Longrightarrow> rq_inv (upd_thread t (t_budget_update f) s) xs"
  by (erule rq_inv_cong) auto

lemma upd_thread_budget_id: "upd_thread t (t_budget_update (\<lambda>b. b - 0)) s = s"
proof -
  have "t_budget_update (\<lambda>b. b) r = r" for r :: thread by (cases r) simp
  then have "upd_thread t (t_budget_update (\<lambda>b. b - 0)) s = s\<lparr>threads := threads s\<rparr>"
    by (simp only: upd_thread_def diff_0_right fun_upd_triv)
  then show ?thesis by simp
qed

lemma repeat_call_last: "repeat_call (Suc m) f s = Option.bind (repeat_call m f s) f"
proof (induction m arbitrary: s)
  case 0
  then show ?case by (cases "f s") auto
next
  case (Suc m)
  then show ?case by (cases "f s") auto
qed

lemma ticks_count_down:
  assumes "rq_inv s xs" "c = cur_thread s" "c \<noteq> NULL" "preempt_cnt (cpu s) = 0" "stack_guard_ok s c"
    and "\<not> tick_preempts cfg s xs" "int n < t_budget (thr s c)"
  shows "repeat_call n (sched_on_tick cfg) s = Some (upd_thread c (t_budget_update (\<lambda>b. b - int n)) s)"
  using assms
proof (induction n arbitrary: s)
  case 0
  then show ?case using upd_thread_budget_id [of c s] by simp
next
  case (Suc n)
  let ?s = "upd_thread c (t_budget_update (\<lambda>b. b - 1)) s"
  have "sched_on_tick cfg s = Some ?s"
    using sched_on_tick_eq [OF Suc.prems(1,5,2,3,4), of cfg] Suc.prems(6,7) by simp
  moreover have "repeat_call n (sched_on_tick cfg) ?s = Some (upd_thread c (t_budget_update (\<lambda>b. b - int n)) ?s)"
    by (rule Suc.IH) (use Suc.prems rq_inv_upd_budget [OF Suc.prems(1)] in simp_all)
  moreover have "upd_thread c (t_budget_update (\<lambda>b. b - int n)) ?s =
      upd_thread c (t_budget_update (\<lambda>b. b - int (Suc n))) s"
    by (simp add: upd_thread_def o_def algebra_simps)
  ultimately show ?case by simp
qed

text \<open>
  C8: time slices. A running thread with \<open>n\<close> ticks of budget left, which no tick finds overtaken by a
  higher-priority ready thread and whose stack guard is intact, gets exactly \<open>n\<close> ticks: before the
  \<open>n\<close>-th the request flag is untouched, at the \<open>n\<close>-th the budget is refilled and rescheduling is
  requested, in the rotating form under PRIO.
\<close>
theorem quantum_expires:
  assumes "rq_inv s xs" "c = cur_thread s" "c \<noteq> NULL" "preempt_cnt (cpu s) = 0" "stack_guard_ok s c"
    and "\<not> tick_preempts cfg s xs" and n: "t_budget (thr s c) = int n" "0 < n"
  shows "(\<forall>m < n. \<exists>s'. repeat_call m (sched_on_tick cfg) s = Some s' \<and>
      need_resched (cpu s') = need_resched (cpu s) \<and> t_budget (thr s' c) = int (n - m)) \<and>
    (\<exists>s'. repeat_call n (sched_on_tick cfg) s = Some s' \<and> t_budget (thr s' c) = kQuantumTicks \<and>
      need_resched (cpu s') = (case policy cfg of PRIO \<Rightarrow> kNeedReschedRotate | RR \<Rightarrow> kNeedReschedNormal))"
proof (intro conjI allI impI)
  fix m assume "m < n"
  then show "\<exists>s'. repeat_call m (sched_on_tick cfg) s = Some s' \<and>
      need_resched (cpu s') = need_resched (cpu s) \<and> t_budget (thr s' c) = int (n - m)"
    using ticks_count_down [OF assms(1-6), of m] n by auto
next
  obtain m where m: "n = Suc m" using n(2) by (cases n) auto
  let ?s = "upd_thread c (t_budget_update (\<lambda>b. b - int m)) s"
  have "repeat_call m (sched_on_tick cfg) s = Some ?s" using ticks_count_down [OF assms(1-6), of m] n m by simp
  then have "repeat_call n (sched_on_tick cfg) s = sched_on_tick cfg ?s" unfolding m repeat_call_last by simp
  moreover have "sched_on_tick cfg ?s = Some (upd_thread c (t_budget_update (\<lambda>_. kQuantumTicks)) (upd_cpu
      (need_resched_update (\<lambda>_. case policy cfg of PRIO \<Rightarrow> kNeedReschedRotate | RR \<Rightarrow> kNeedReschedNormal)) ?s))"
    using sched_on_tick_eq [OF rq_inv_upd_budget [OF assms(1)], of c "\<lambda>b. b - int m" c cfg] assms n m by simp
  ultimately show "\<exists>s'. repeat_call n (sched_on_tick cfg) s = Some s' \<and> t_budget (thr s' c) = kQuantumTicks \<and>
      need_resched (cpu s') = (case policy cfg of PRIO \<Rightarrow> kNeedReschedRotate | RR \<Rightarrow> kNeedReschedNormal)"
    by simp
qed

text \<open>Thread 16 of the ring runs with a full quantum.\<close>

definition tick_example :: kstate where
  "tick_example = upd_thread 16 (t_budget_update (\<lambda>_. kQuantumTicks))
     (ring_example\<lparr>cpu := zero_cpu\<lparr>current_thread := 16\<rparr>\<rparr>)"

theorem quantum_expires_witness:
  "\<exists>s'. repeat_call 5 (sched_on_tick \<lparr>policy = PRIO, mutex_pi = True, lockdep = False\<rparr>) tick_example = Some s' \<and>
     t_budget (thr s' 16) = kQuantumTicks \<and> need_resched (cpu s') = kNeedReschedRotate"
proof -
  let ?cfg = "\<lparr>policy = PRIO, mutex_pi = True, lockdep = False\<rparr>"
  have "rq_inv tick_example [16, 32, 48]"
    using rq_inv_cong [OF ring_example_inv, of tick_example] by (simp add: tick_example_def)
  moreover have "16 = cur_thread tick_example" "preempt_cnt (cpu tick_example) = 0"
    by (simp_all add: tick_example_def zero_cpu_def)
  moreover have "stack_guard_ok tick_example 16"
    by (simp add: stack_guard_ok_def tick_example_def ring_example_def zero_thread_def)
  moreover have "\<not> tick_preempts ?cfg tick_example [16, 32, 48]"
    by (simp add: tick_preempts_def is_ready_def tick_example_def ring_example_def zero_thread_def zero_cpu_def kThreadReady_def)
  moreover have "t_budget (thr tick_example 16) = int 5" by (simp add: tick_example_def kQuantumTicks_def)
  ultimately have "\<exists>s'. repeat_call 5 (sched_on_tick ?cfg) tick_example = Some s' \<and> t_budget (thr s' 16) = kQuantumTicks \<and>
      need_resched (cpu s') = (case policy ?cfg of PRIO \<Rightarrow> kNeedReschedRotate | RR \<Rightarrow> kNeedReschedNormal)"
    by (intro quantum_expires [THEN conjunct2, of tick_example "[16, 32, 48]" 16 ?cfg 5]) simp_all
  then show ?thesis unfolding kconfig.simps sched_policy.case .
qed

text \<open>
  Critical sections. While the preemption counter is not zero, neither a yield, nor a
  rescheduling point, nor the return of an interrupt changes anything, and a tick does not either;
  the calls return at once.
\<close>
lemma preempt_disabled_no_switch:
  assumes "preempt_cnt (cpu s) \<noteq> 0"
  shows "thread_yield cfg s = Some s \<and> sched_resched_from_irq_tail cfg k s = Some s \<and>
    preempt_return cfg s = Some s \<and> (sched_on_tick cfg s = Some s \<or> \<not> stack_guard_ok s (cur_thread s))"
  using assms
  by (auto simp: thread_yield_def sched_resched_from_irq_tail_def preempt_return_def sched_on_tick_def Let_def)

lemma preempt_disabled_no_switch_example:
  "thread_yield \<lparr>policy = RR, mutex_pi = True, lockdep = False\<rparr> (preempt_disable sched_example) =
     Some (preempt_disable sched_example)"
  using preempt_disabled_no_switch [of "preempt_disable sched_example"]
  by (simp add: preempt_disable_def sched_example_def zero_cpu_def)

lemma funpow_preempt_disable:
  "(preempt_disable ^^ n) s = upd_cpu (preempt_cnt_update (\<lambda>c. c + of_nat n)) s"
  by (induction n) (auto simp: preempt_disable_def upd_cpu_def algebra_simps)

lemma enables_below:
  assumes "preempt_cnt (cpu s) = of_nat n" "m < n" "n < 2 ^ 32"
  shows "repeat_call m (preempt_enable cfg k) s = Some (upd_cpu (preempt_cnt_update (\<lambda>c. c - of_nat m)) s)"
  using assms
proof (induction m arbitrary: n s)
  case 0
  then show ?case by (simp add: upd_cpu_def)
next
  case (Suc m)
  let ?s = "upd_cpu (preempt_cnt_update (\<lambda>c. c - 1)) s"
  have ne: "(of_nat k :: u32) \<noteq> 0" if "0 < k" "k \<le> n" for k
    using that Suc.prems(3) by (simp add: word_of_nat_eq_0_iff) (auto dest: dvd_imp_le)
  have c: "preempt_cnt (cpu ?s) = of_nat (n - 1)"
    using Suc.prems(1,2) by (simp add: of_nat_diff)
  have "preempt_enable cfg k s = Some ?s"
    using ne [of n] ne [of "n - 1"] Suc.prems c by (simp add: preempt_enable_def Let_def del: of_nat_diff)
  moreover have "repeat_call m (preempt_enable cfg k) ?s = Some (upd_cpu (preempt_cnt_update (\<lambda>c. c - of_nat m)) ?s)"
    by (rule Suc.IH [OF c]) (use Suc.prems in auto)
  ultimately show ?case by (simp add: upd_cpu_def algebra_simps)
qed

text \<open>
  Critical sections nest. After \<open>n\<close> \<^verbatim>\<open>preempt_disable\<close> calls from an enabled state, fewer than
  \<open>n\<close> \<^verbatim>\<open>preempt_enable\<close> calls never reschedule and only count down; the thread, its registers and
  everything else stay as they were. (The 32-bit counter must not wrap.)
\<close>
lemma preempt_nesting:
  assumes "preempt_cnt (cpu s) = 0" "m < n" "n < 2 ^ 32"
  shows "repeat_call m (preempt_enable cfg k) ((preempt_disable ^^ n) s) =
    Some (upd_cpu (preempt_cnt_update (\<lambda>_. of_nat (n - m))) s)"
proof -
  have "repeat_call m (preempt_enable cfg k) ((preempt_disable ^^ n) s) =
      Some (upd_cpu (preempt_cnt_update (\<lambda>c. c - of_nat m)) ((preempt_disable ^^ n) s))"
    by (rule enables_below [OF _ assms(2,3)]) (simp add: funpow_preempt_disable assms(1))
  then show ?thesis using assms(1,2) by (simp add: funpow_preempt_disable upd_cpu_def of_nat_diff)
qed

lemma preempt_nesting_example:
  "repeat_call 2 (preempt_enable \<lparr>policy = PRIO, mutex_pi = True, lockdep = False\<rparr> KResched)
     ((preempt_disable ^^ 3) sched_example) = Some (upd_cpu (preempt_cnt_update (\<lambda>_. 1)) sched_example)"
  using preempt_nesting [of sched_example 2 3 "\<lparr>policy = PRIO, mutex_pi = True, lockdep = False\<rparr>" KResched]
  by (simp add: sched_example_def zero_cpu_def)

end
