(* ===== verification/WaitQueue.thy ===== *)
theory WaitQueue
  imports Sched
begin

text \<open>
  The wait queues of \<^verbatim>\<open>src/sync.cc\<close>: null-terminated lists of threads linked through
  \<^verbatim>\<open>Thread::wait_next\<close>, reached through a head pointer (\<^verbatim>\<open>Thread**\<close>): \<open>waitq_pop_highest\<close> takes the
  head's value and returns its new value. Popping takes out the first of the waiters of the highest
  effective priority, so that draining a queue is a stable sort by priority.
\<close>

section \<open>Model\<close>

partial_function (option) waitq_scan ::
  "kstate \<Rightarrow> addr \<Rightarrow> addr \<Rightarrow> addr \<Rightarrow> addr \<Rightarrow> int \<Rightarrow> (addr \<times> addr) option" where
  "waitq_scan s t prev best_prev best best_prio =
     (if t = NULL then Some (best_prev, best)
      else let prio = thread_effective_priority s t in
        if prio > best_prio then waitq_scan s (t_wait_next (thr s t)) t prev t prio
        else waitq_scan s (t_wait_next (thr s t)) t best_prev best best_prio)"

text \<open>The result: the thread popped, the new value of \<^verbatim>\<open>*head\<close>, the state.\<close>

definition waitq_pop_highest :: "addr \<Rightarrow> kstate \<Rightarrow> (addr \<times> addr \<times> kstate) option" where
  "waitq_pop_highest head s =
     (if head = NULL then Some (NULL, head, s)
      else do {
        (best_prev, best) \<leftarrow> waitq_scan s head NULL NULL head (thread_effective_priority s head);
        let (head, s) = (if best_prev \<noteq> NULL
              then (head, upd_thread best_prev (t_wait_next_update (\<lambda>_. t_wait_next (thr s best))) s)
              else (t_wait_next (thr s best), s));
        Some (best, head, upd_thread best (t_wait_next_update (\<lambda>_. NULL)) s)
      })"

partial_function (option) waitq_max_loop :: "kstate \<Rightarrow> addr \<Rightarrow> int \<Rightarrow> int option" where
  "waitq_max_loop s t best =
     (if t = NULL then Some best
      else let prio = thread_effective_priority s t
           in waitq_max_loop s (t_wait_next (thr s t)) (if prio > best then prio else best))"

definition waitq_max_priority :: "kstate \<Rightarrow> addr \<Rightarrow> int option" where
  "waitq_max_priority s head = waitq_max_loop s head (-1)"

section \<open>A queue as a list\<close>

abbreviation wnx :: "kstate \<Rightarrow> addr \<Rightarrow> addr" where
  "wnx s \<equiv> (\<lambda>t. t_wait_next (threads s t))"

lemma thread_effective_priority_eff: "t \<noteq> NULL \<Longrightarrow> thread_effective_priority s t = eff s t"
  by (simp add: thread_effective_priority_def)

text \<open>The scan on a list of waiters: predecessor and winner.\<close>

fun scan_list :: "(addr \<Rightarrow> int) \<Rightarrow> addr \<Rightarrow> addr \<Rightarrow> addr \<Rightarrow> addr list \<Rightarrow> addr \<times> addr" where
  "scan_list p prev bp b [] = (bp, b)"
| "scan_list p prev bp b (t # ts) =
     (if p t > p b then scan_list p t prev t ts else scan_list p t bp b ts)"

lemma waitq_scan_list:
  "llist (wnx s) t ts \<Longrightarrow> b \<noteq> NULL \<Longrightarrow> waitq_scan s t prev bp b (eff s b) = Some (scan_list (eff s) prev bp b ts)"
proof (induction ts arbitrary: t prev bp b)
  case Nil
  then show ?case by (subst waitq_scan.simps) simp
next
  case (Cons u ts)
  then have u: "t = u" "u \<noteq> NULL" "llist (wnx s) (t_wait_next (thr s u)) ts" by auto
  show ?case
    using Cons.IH [OF u(3)] Cons.prems(2) u
    by (subst waitq_scan.simps) (simp add: thread_effective_priority_eff Let_def)
qed

text \<open>A split of the queue at the first waiter of the greatest priority.\<close>

definition first_max :: "(addr \<Rightarrow> int) \<Rightarrow> addr list \<Rightarrow> addr \<Rightarrow> addr list \<Rightarrow> bool" where
  "first_max p ys b zs \<longleftrightarrow> (\<forall>y \<in> set ys. p y < p b) \<and> (\<forall>z \<in> set zs. p z \<le> p b)"

definition last_or_null :: "addr list \<Rightarrow> addr" where
  "last_or_null ys = (if ys = [] then NULL else last ys)"

lemma scan_list_first_max:
  "first_max p ys b mid \<Longrightarrow> bp = last_or_null ys \<Longrightarrow> prev = last (b # mid) \<Longrightarrow>
   \<exists>ys' b' zs'. scan_list p prev bp b ts = (last_or_null ys', b') \<and> ys @ b # mid @ ts = ys' @ b' # zs' \<and>
     first_max p ys' b' zs'"
proof (induction ts arbitrary: ys b mid bp prev)
  case Nil
  then show ?case by auto
next
  case (Cons t ts)
  show ?case
  proof (cases "p t > p b")
    case True
    have "first_max p (ys @ b # mid) t []"
      using Cons.prems(1) True by (auto simp: first_max_def)
    moreover have "prev = last_or_null (ys @ b # mid)" using Cons.prems(3) by (simp add: last_or_null_def)
    ultimately show ?thesis using Cons.IH [of "ys @ b # mid" t "[]"] True by simp
  next
    case False
    have "first_max p ys b (mid @ [t])" using Cons.prems(1) False by (auto simp: first_max_def)
    then show ?thesis using Cons.IH [OF _ Cons.prems(2), of b "mid @ [t]" t] False by simp
  qed
qed

text \<open>Operations on wait queues write nothing but the \<^verbatim>\<open>wait_next\<close> fields of threads.\<close>

definition waits_only :: "kstate \<Rightarrow> kstate \<Rightarrow> bool" where
  "waits_only s s' \<longleftrightarrow> s' = s\<lparr>threads := threads s'\<rparr> \<and>
     (\<forall>u. thr s' u = (thr s u)\<lparr>t_wait_next := t_wait_next (thr s' u)\<rparr>)"

lemma thread_same_wait_next [simp]: "(r :: thread)\<lparr>t_wait_next := t_wait_next r\<rparr> = r"
  by simp

lemma waits_only_refl [simp]: "waits_only s s"
  by (simp add: waits_only_def)

lemma wnx_upd: "wnx (upd_thread t (t_wait_next_update f) s) = (wnx s)(t := f (wnx s t))"
  by auto

lemma waits_only_upd: "waits_only s (upd_thread t (t_wait_next_update f) s)"
  by (simp add: waits_only_def upd_thread_def)

lemma waits_only_trans: "waits_only s s' \<Longrightarrow> waits_only s' s'' \<Longrightarrow> waits_only s s''"
proof -
  assume a: "waits_only s s'" "waits_only s' s''"
  have "s'' = s'\<lparr>threads := threads s''\<rparr>" using a(2) unfolding waits_only_def by blast
  also have "\<dots> = s\<lparr>threads := threads s'\<rparr>\<lparr>threads := threads s''\<rparr>"
    using a(1) unfolding waits_only_def by metis
  finally have "s'' = s\<lparr>threads := threads s''\<rparr>" by simp
  moreover have "thr s'' u = (thr s u)\<lparr>t_wait_next := t_wait_next (thr s'' u)\<rparr>" for u
  proof -
    have "thr s'' u = (thr s' u)\<lparr>t_wait_next := t_wait_next (thr s'' u)\<rparr>"
      using a(2) unfolding waits_only_def by blast
    also have "\<dots> = (thr s u)\<lparr>t_wait_next := t_wait_next (thr s' u)\<rparr>\<lparr>t_wait_next := t_wait_next (thr s'' u)\<rparr>"
      using a(1) unfolding waits_only_def by metis
    finally show ?thesis by simp
  qed
  ultimately show ?thesis unfolding waits_only_def by blast
qed

lemma waits_onlyD:
  assumes "waits_only s s'"
  shows "cpu s' = cpu s" "mutexes s' = mutexes s" "sems s' = sems s" "rq_head s' = rq_head s"
    "rq_tail s' = rq_tail s" "regs s' = regs s" "bytes s' = bytes s" "kont s' = kont s" "klog s' = klog s"
proof -
  have e: "s' = s\<lparr>threads := threads s'\<rparr>" using assms unfolding waits_only_def by blast
  show "cpu s' = cpu s" "mutexes s' = mutexes s" "sems s' = sems s" "rq_head s' = rq_head s"
    "rq_tail s' = rq_tail s" "regs s' = regs s" "bytes s' = bytes s" "kont s' = kont s" "klog s' = klog s"
    by (subst e, simp)+
qed

lemma waits_only_thread:
  assumes "waits_only s s'"
  shows "t_state (thr s' u) = t_state (thr s u)"
    "t_effective_priority (thr s' u) = t_effective_priority (thr s u)"
    "t_base_priority (thr s' u) = t_base_priority (thr s u)" "t_next (thr s' u) = t_next (thr s u)"
    "t_waiting_on (thr s' u) = t_waiting_on (thr s u)"
    "t_owned_mutexes (thr s' u) = t_owned_mutexes (thr s u)" "t_budget (thr s' u) = t_budget (thr s u)"
proof -
  have e: "thr s' u = (thr s u)\<lparr>t_wait_next := t_wait_next (thr s' u)\<rparr>"
    using assms unfolding waits_only_def by blast
  show "t_state (thr s' u) = t_state (thr s u)"
    "t_effective_priority (thr s' u) = t_effective_priority (thr s u)"
    "t_base_priority (thr s' u) = t_base_priority (thr s u)" "t_next (thr s' u) = t_next (thr s u)"
    "t_waiting_on (thr s' u) = t_waiting_on (thr s u)"
    "t_owned_mutexes (thr s' u) = t_owned_mutexes (thr s u)" "t_budget (thr s' u) = t_budget (thr s u)"
    by (subst e, simp)+
qed

lemmas waits_only_simps = waits_onlyD waits_only_thread

lemma waitq_pop_highest_spec:
  assumes q: "llist (wnx s) h xs" and ne: "xs \<noteq> []"
  shows "\<exists>ys b zs h' s'. xs = ys @ b # zs \<and> first_max (eff s) ys b zs \<and>
    waitq_pop_highest h s = Some (b, h', s') \<and> llist (wnx s') h' (ys @ zs) \<and> wnx s' b = NULL \<and>
    waits_only s s' \<and> (\<forall>u. u \<notin> set xs \<longrightarrow> wnx s' u = wnx s u)"
proof -
  obtain ts where xs: "xs = h # ts" using q ne by (cases xs) auto
  have h: "h \<noteq> NULL" and qt: "llist (wnx s) (wnx s h) ts" using q xs by auto
  have "\<exists>ys b zs. scan_list (eff s) h NULL h ts = (last_or_null ys, b) \<and> [] @ h # [] @ ts = ys @ b # zs \<and>
      first_max (eff s) ys b zs"
    by (rule scan_list_first_max) (simp_all add: first_max_def last_or_null_def)
  then obtain ys b zs where sc: "scan_list (eff s) h NULL h ts = (last_or_null ys, b)"
    and sp: "xs = ys @ b # zs" and fm: "first_max (eff s) ys b zs" using xs by auto
  have scan: "waitq_scan s h NULL NULL h (eff s h) = Some (last_or_null ys, b)"
    using waitq_scan_list [OF q h] sc xs by simp
  have d: "distinct xs" "NULL \<notin> set xs" using llist_distinct [OF q] lpath_not_NULL [OF q] by auto
  define s1 where "s1 = (if last_or_null ys \<noteq> NULL
      then upd_thread (last_or_null ys) (t_wait_next_update (\<lambda>_. wnx s b)) s else s)"
  define h' where "h' = (if last_or_null ys \<noteq> NULL then h else wnx s b)"
  define s' where "s' = upd_thread b (t_wait_next_update (\<lambda>_. NULL)) s1"
  have pop: "waitq_pop_highest h s = Some (b, h', s')"
    using h scan by (simp add: waitq_pop_highest_def thread_effective_priority_eff s'_def s1_def h'_def)
  have ln: "last_or_null ys = NULL \<longleftrightarrow> ys = []"
    using d(2) sp by (auto simp: last_or_null_def) (metis last_in_set)
  obtain r where r: "lpath (wnx s) h ys r" "r = b" "b \<noteq> NULL" "llist (wnx s) (wnx s b) zs"
    using q sp by auto
  have "llist (wnx s') h' (ys @ zs)"
  proof (cases ys rule: rev_cases)
    case Nil
    then have "last_or_null ys = NULL" by (simp add: last_or_null_def)
    then show ?thesis using r d sp Nil unfolding s'_def s1_def h'_def wnx_upd by simp
  next
    case (snoc us u)
    then have u: "last_or_null ys = u" "u \<noteq> NULL" "u \<noteq> b" using d sp by (auto simp: last_or_null_def)
    have "wnx s' = (wnx s)(u := wnx s b, b := NULL)"
      unfolding s'_def s1_def using u by auto
    moreover have "h' = h" using u by (simp add: h'_def)
    ultimately show ?thesis using u r d sp snoc by auto
  qed
  moreover have "waits_only s s'"
    unfolding s'_def s1_def by (auto intro: waits_only_upd waits_only_trans [OF waits_only_upd])
  moreover have "\<forall>u. u \<notin> set xs \<longrightarrow> wnx s' u = wnx s u"
    using sp by (auto simp: s'_def s1_def last_or_null_def)
  moreover have "wnx s' b = NULL" by (simp add: s'_def)
  ultimately show ?thesis using sp fm pop by blast
qed

lemma waitq_pop_empty [simp]: "waitq_pop_highest NULL s = Some (NULL, NULL, s)"
  by (simp add: waitq_pop_highest_def)

lemma waitq_max_loop_list:
  "llist (wnx s) t ts \<Longrightarrow> waitq_max_loop s t b = Some (fold (\<lambda>u b. max b (eff s u)) ts b)"
proof (induction ts arbitrary: t b)
  case Nil
  then show ?case by (subst waitq_max_loop.simps) simp
next
  case (Cons u ts)
  then have u: "t = u" "u \<noteq> NULL" "llist (wnx s) (t_wait_next (thr s u)) ts" by auto
  have "(if eff s u > b then eff s u else b) = max b (eff s u)" by simp
  then show ?case
    using Cons.IH [OF u(3)] u
    by (subst waitq_max_loop.simps) (simp add: thread_effective_priority_eff Let_def)
qed

lemma fold_max_Max: "fold (\<lambda>u b. max b (f u)) ts (b :: int) = Max (insert b (f ` set ts))"
proof (induction ts arbitrary: b)
  case Nil
  then show ?case by simp
next
  case (Cons u ts)
  have "insert b (f ` set (u # ts)) = insert b (insert (f u) (f ` set ts))" by simp
  moreover have "Max (insert b (insert (f u) (f ` set ts))) = Max (insert (max b (f u)) (f ` set ts))"
    by (cases "ts = []") (simp_all add: max.assoc)
  ultimately show ?case using Cons.IH by simp
qed

lemma waitq_max_priority_list:
  "llist (wnx s) h xs \<Longrightarrow> waitq_max_priority s h = Some (Max (insert (-1) (eff s ` set xs)))"
  by (simp add: waitq_max_priority_def waitq_max_loop_list fold_max_Max)

section \<open>Draining a queue\<close>

text \<open>Pop until the queue is empty, at most \<open>n\<close> times; the threads in the order they come out.\<close>

fun waitq_drain :: "nat \<Rightarrow> addr \<Rightarrow> kstate \<Rightarrow> (addr list \<times> kstate) option" where
  "waitq_drain 0 h s = (if h = NULL then Some ([], s) else None)"
| "waitq_drain (Suc n) h s =
     (if h = NULL then Some ([], s)
      else do {
        (t, h, s) \<leftarrow> waitq_pop_highest h s;
        (ts, s) \<leftarrow> waitq_drain n h s;
        Some (t # ts, s)
      })"

lemma sort_key_first_max:
  "first_max p ys b zs \<Longrightarrow> sort_key (\<lambda>t. - p t) (ys @ b # zs) = b # sort_key (\<lambda>t. - p t) (ys @ zs)"
proof (induction ys)
  case Nil
  have "insort_key (\<lambda>t. - p t) b (sort_key (\<lambda>t. - p t) zs) = b # sort_key (\<lambda>t. - p t) zs"
  proof (cases "sort_key (\<lambda>t. - p t) zs")
    case Nil
    then show ?thesis by simp
  next
    case (Cons z us)
    then have "z \<in> set zs" by (metis list.set_intros(1) set_sort)
    then show ?thesis using Nil.prems Cons by (simp add: first_max_def)
  qed
  then show ?case by simp
next
  case (Cons y ys)
  then have "first_max p ys b zs" "p y < p b" by (auto simp: first_max_def)
  then show ?case using Cons.IH by simp
qed

lemma waitq_drain_sorts:
  assumes "llist (wnx s) h xs" "length xs \<le> n"
  shows "\<exists>s'. waitq_drain n h s = Some (sort_key (\<lambda>t. - eff s t) xs, s') \<and> waits_only s s' \<and>
    (\<forall>t \<in> set xs. wnx s' t = NULL) \<and> (\<forall>u. u \<notin> set xs \<longrightarrow> wnx s' u = wnx s u)"
  using assms
proof (induction n arbitrary: s h xs)
  case 0
  then show ?case by simp
next
  case (Suc n)
  show ?case
  proof (cases "xs = []")
    case True
    then show ?thesis using Suc.prems by simp
  next
    case False
    obtain ys b zs h' s1 where xs: "xs = ys @ b # zs" and fm: "first_max (eff s) ys b zs"
      and pop: "waitq_pop_highest h s = Some (b, h', s1)" and q: "llist (wnx s1) h' (ys @ zs)"
      and b: "wnx s1 b = NULL" and w: "waits_only s s1" and o: "\<forall>u. u \<notin> set xs \<longrightarrow> wnx s1 u = wnx s u"
      using waitq_pop_highest_spec [OF Suc.prems(1) False] by blast
    have h: "h \<noteq> NULL" using Suc.prems(1) False by auto
    have "length (ys @ zs) \<le> n" using Suc.prems(2) xs by simp
    from Suc.IH [OF q this] obtain s' where s': "waits_only s1 s'" "\<forall>t \<in> set (ys @ zs). wnx s' t = NULL"
      "\<forall>u. u \<notin> set (ys @ zs) \<longrightarrow> wnx s' u = wnx s1 u"
      "waitq_drain n h' s1 = Some (sort_key (\<lambda>t. - eff s1 t) (ys @ zs), s')" by blast
    have e: "(\<lambda>t. - eff s1 t) = (\<lambda>t. - eff s t)" using waits_only_thread(2) [OF w] by simp
    have bn: "b \<notin> set (ys @ zs)" using llist_distinct [OF Suc.prems(1)] xs by simp
    have "waitq_drain (Suc n) h s = Some (b # sort_key (\<lambda>t. - eff s t) (ys @ zs), s')"
      using h pop s'(4) e by simp
    moreover have "b # sort_key (\<lambda>t. - eff s t) (ys @ zs) = sort_key (\<lambda>t. - eff s t) xs"
      using sort_key_first_max [OF fm] xs by simp
    moreover have "\<forall>t \<in> set xs. wnx s' t = NULL" using s'(2,3) b bn xs by auto
    moreover have "\<forall>u. u \<notin> set xs \<longrightarrow> wnx s' u = wnx s u" using s'(3) o xs by auto
    ultimately show ?thesis using waits_only_trans [OF w s'(1)] by auto
  qed
qed

text \<open>
  C21: a wait queue hands out its threads by priority, first come first served among equals: popping
  until the queue is empty takes as many pops as there are waiters, yields the waiters sorted by
  descending effective priority with equal ones in queue order, and leaves every one of them
  unlinked.
\<close>
theorem waitq_drains_by_priority:
  assumes "llist (wnx s) h xs"
  shows "\<exists>s'. waitq_drain (length xs) h s = Some (sort_key (\<lambda>t. - t_effective_priority (thr s t)) xs, s') \<and>
    (\<forall>t \<in> set xs. t_wait_next (thr s' t) = NULL)"
  using waitq_drain_sorts [OF assms order.refl] by auto

text \<open>Four waiters 16, 32, 48, 64 of priorities 3, 9, 3, 9.\<close>

definition waitq_example :: kstate where
  "waitq_example = boot_state\<lparr>threads := (\<lambda>_. zero_thread)
     (16 := zero_thread\<lparr>t_wait_next := 32, t_effective_priority := 3\<rparr>,
      32 := zero_thread\<lparr>t_wait_next := 48, t_effective_priority := 9\<rparr>,
      48 := zero_thread\<lparr>t_wait_next := 64, t_effective_priority := 3\<rparr>,
      64 := zero_thread\<lparr>t_effective_priority := 9\<rparr>)\<rparr>"

theorem waitq_drains_by_priority_witness:
  "\<exists>s'. waitq_drain (length [16, 32, 48, 64 :: addr]) 16 waitq_example = Some ([32, 64, 16, 48], s') \<and>
     (\<forall>t \<in> set [16, 32, 48, 64]. t_wait_next (thr s' t) = NULL)"
proof -
  have "llist (wnx waitq_example) 16 [16, 32, 48, 64]" by (simp add: waitq_example_def zero_thread_def)
  moreover have "eff waitq_example 16 = 3" "eff waitq_example 32 = 9" "eff waitq_example 48 = 3" "eff waitq_example 64 = 9"
    by (simp_all add: waitq_example_def zero_thread_def)
  then have "sort_key (\<lambda>t. - eff waitq_example t) [16, 32, 48, 64] = [32, 64, 16, 48]" by simp
  ultimately show ?thesis using waitq_drains_by_priority [of waitq_example 16 "[16, 32, 48, 64]"]
    by (simp only:)
qed

end
