(* ===== verification/Sync.thy ===== *)
theory Sync
  imports WaitQueue
begin

text \<open>
  The blocking primitives of \<^verbatim>\<open>src/sync.cc\<close>: mutexes with priority inheritance and the list of
  mutexes a thread owns, counting semaphores, and the deadlock walk of the lockdep configuration.

  \<^verbatim>\<open>mutex_lock\<close> is a loop whose body may end in a context switch. \<open>mutex_lock\<close> here is one round: the
  calling thread then either has returned from \<^verbatim>\<open>mutex_lock\<close> (its \<open>kont\<close> is not \<open>KMutexLock m\<close>), or it
  has to go round again when it runs.
\<close>

section \<open>Owned mutexes and priority inheritance\<close>

abbreviation mtx :: "kstate \<Rightarrow> addr \<Rightarrow> mutex" where
  "mtx s m \<equiv> mutexes s m"

definition thread_owned_mutex_add :: "addr \<Rightarrow> addr \<Rightarrow> kstate \<Rightarrow> kstate" where
  "thread_owned_mutex_add t m s =
     (if t = NULL \<or> m = NULL then s
      else let s = upd_mutex m (m_owner_next_update (\<lambda>_. t_owned_mutexes (thr s t))) s
           in upd_thread t (t_owned_mutexes_update (\<lambda>_. m)) s)"

partial_function (option) owned_remove_loop :: "addr \<Rightarrow> addr \<Rightarrow> addr \<Rightarrow> addr \<Rightarrow> kstate \<Rightarrow> kstate option" where
  "owned_remove_loop t m it prev s =
     (if it = NULL then Some s
      else if it = m then
        let s = (if prev \<noteq> NULL then upd_mutex prev (m_owner_next_update (\<lambda>_. m_owner_next (mtx s it))) s
                 else upd_thread t (t_owned_mutexes_update (\<lambda>_. m_owner_next (mtx s it))) s)
        in Some (upd_mutex it (m_owner_next_update (\<lambda>_. NULL)) s)
      else owned_remove_loop t m (m_owner_next (mtx s it)) it s)"

definition thread_owned_mutex_remove :: "addr \<Rightarrow> addr \<Rightarrow> kstate \<Rightarrow> kstate option" where
  "thread_owned_mutex_remove t m s =
     (if t = NULL \<or> m = NULL then Some s
      else owned_remove_loop t m (t_owned_mutexes (thr s t)) NULL s)"

partial_function (option) recompute_loop :: "kstate \<Rightarrow> addr \<Rightarrow> int \<Rightarrow> int option" where
  "recompute_loop s m ep =
     (if m = NULL then Some ep
      else if m_pi_enabled (mtx s m) = 0 then recompute_loop s (m_owner_next (mtx s m)) ep
      else Option.bind (waitq_max_priority s (m_waiters (mtx s m)))
        (\<lambda>w. recompute_loop s (m_owner_next (mtx s m)) (if w > ep then w else ep)))"

definition recompute_effective_priority :: "kconfig \<Rightarrow> addr \<Rightarrow> kstate \<Rightarrow> kstate option" where
  "recompute_effective_priority cfg t s =
     (if t = NULL then Some s
      else let ep = thread_base_priority s t in
        Option.bind (if mutex_pi cfg then recompute_loop s (t_owned_mutexes (thr s t)) ep else Some ep)
          (\<lambda>ep. Some (thread_set_effective_priority t ep s)))"

definition mutex_apply_pi :: "kconfig \<Rightarrow> addr \<Rightarrow> kstate \<Rightarrow> kstate option" where
  "mutex_apply_pi cfg m s =
     (if m = NULL \<or> m_pi_enabled (mtx s m) = 0 then Some s
      else if m_owner (mtx s m) = NULL then Some s
      else recompute_effective_priority cfg (m_owner (mtx s m)) s)"

section \<open>Deadlock detection\<close>

fun lockdep_walk :: "kstate \<Rightarrow> addr \<Rightarrow> addr \<Rightarrow> nat \<Rightarrow> bool" where
  "lockdep_walk s cur owner 0 = False"
| "lockdep_walk s cur owner (Suc n) =
     (if owner = NULL then False
      else if owner = cur then True
      else let wait = t_waiting_on (thr s owner)
           in if wait = NULL then False else lockdep_walk s cur (m_owner (mtx s wait)) n)"

definition lockdep_would_deadlock :: "kstate \<Rightarrow> addr \<Rightarrow> addr \<Rightarrow> bool" where
  "lockdep_would_deadlock s cur m =
     (if cur = NULL \<or> m = NULL then False else lockdep_walk s cur (m_owner (mtx s m)) 16)"

section \<open>Mutexes\<close>

definition mutex_init :: "kconfig \<Rightarrow> addr \<Rightarrow> kstate \<Rightarrow> kstate" where
  "mutex_init cfg m s =
     (if m = NULL then s
      else upd_mutex m (\<lambda>_. \<lparr>m_owner = NULL, m_waiters = NULL, m_owner_next = NULL,
             m_pi_enabled = (if mutex_pi cfg then 1 else 0)\<rparr>) s)"

definition mutex_set_pi_enabled :: "kconfig \<Rightarrow> addr \<Rightarrow> int \<Rightarrow> kstate \<Rightarrow> kstate option" where
  "mutex_set_pi_enabled cfg m enabled s =
     (if m = NULL then Some s
      else do {
        let s = preempt_disable s;
        let s = upd_mutex m (m_pi_enabled_update (\<lambda>_. if enabled \<noteq> 0 then 1 else 0)) s;
        s \<leftarrow> (if m_owner (mtx s m) \<noteq> NULL then recompute_effective_priority cfg (m_owner (mtx s m)) s else Some s);
        preempt_enable cfg KResched s
      })"

definition mutex_block :: "kconfig \<Rightarrow> addr \<Rightarrow> addr \<Rightarrow> kstate \<Rightarrow> kstate option" where
  "mutex_block cfg m cur s = do {
     let s = upd_thread cur (t_waiting_on_update (\<lambda>_. m)) s;
     let s = upd_thread cur (t_wait_next_update (\<lambda>_. m_waiters (mtx s m))) s;
     let s = upd_mutex m (m_waiters_update (\<lambda>_. cur)) s;
     s \<leftarrow> mutex_apply_pi cfg m s;
     s \<leftarrow> sched_block_current s;
     Some (upd_cpu (need_resched_update (\<lambda>_. 1)) s)
   }"

definition mutex_lock :: "kconfig \<Rightarrow> addr \<Rightarrow> kstate \<Rightarrow> kstate option" where
  "mutex_lock cfg m s =
     (if m = NULL then Some s
      else let s = preempt_disable s;
               cur = cur_thread s in
      if cur = NULL then preempt_enable cfg KResched s
      else let s = set_kont cur KRun s in
      if m_owner (mtx s m) = cur then
        let s = upd_thread cur (t_waiting_on_update (\<lambda>_. NULL)) s
        in preempt_enable cfg KResched s
      else if m_owner (mtx s m) = NULL then
        let s = upd_mutex m (m_owner_update (\<lambda>_. cur)) s;
            s = thread_owned_mutex_add cur m s;
            s = upd_thread cur (t_waiting_on_update (\<lambda>_. NULL)) s
        in preempt_enable cfg KResched s
      else if lockdep cfg \<and> lockdep_would_deadlock s cur m then None
      else do {
        s \<leftarrow> mutex_block cfg m cur s;
        preempt_enable cfg (KMutexLock m) (set_kont cur (KMutexLock m) s)
      })"

definition mutex_trylock :: "kconfig \<Rightarrow> addr \<Rightarrow> kstate \<Rightarrow> (int \<times> kstate) option" where
  "mutex_trylock cfg m s =
     (if m = NULL then Some (-1, s)
      else let s = preempt_disable s;
               cur = cur_thread s;
               ret = (\<lambda>r s. do { s \<leftarrow> preempt_enable cfg KResched s; Some (r, s) }) in
      if cur = NULL then ret (-1) s
      else if m_owner (mtx s m) = NULL then
        let s = upd_mutex m (m_owner_update (\<lambda>_. cur)) s;
            s = thread_owned_mutex_add cur m s;
            s = upd_thread cur (t_waiting_on_update (\<lambda>_. NULL)) s
        in ret 0 s
      else if m_owner (mtx s m) = cur then
        ret 0 (upd_thread cur (t_waiting_on_update (\<lambda>_. NULL)) s)
      else ret (-1) s)"

text \<open>\<^verbatim>\<open>mutex_unlock\<close> up to its \<^verbatim>\<open>preempt_enable\<close>, for the owner.\<close>

definition mutex_release :: "kconfig \<Rightarrow> addr \<Rightarrow> addr \<Rightarrow> kstate \<Rightarrow> kstate option" where
  "mutex_release cfg m cur s = do {
     s \<leftarrow> thread_owned_mutex_remove cur m s;
     (next_owner, head, s) \<leftarrow> waitq_pop_highest (m_waiters (mtx s m)) s;
     let s = upd_mutex m (m_waiters_update (\<lambda>_. head)) s;
     s \<leftarrow> (if next_owner \<noteq> NULL then do {
              let s = upd_mutex m (m_owner_update (\<lambda>_. next_owner)) s;
              let s = upd_thread next_owner (t_waiting_on_update (\<lambda>_. NULL)) s;
              let s = thread_owned_mutex_add next_owner m s;
              s \<leftarrow> sched_make_runnable next_owner s;
              mutex_apply_pi cfg m s
            } else Some (upd_mutex m (m_owner_update (\<lambda>_. NULL)) s));
     s \<leftarrow> recompute_effective_priority cfg cur s;
     Some (if next_owner \<noteq> NULL \<and> cur_thread s = cur \<and>
              thread_effective_priority s next_owner > thread_effective_priority s cur
           then upd_cpu (need_resched_update (\<lambda>_. 1)) s else s)
   }"

definition mutex_unlock :: "kconfig \<Rightarrow> addr \<Rightarrow> kstate \<Rightarrow> kstate option" where
  "mutex_unlock cfg m s =
     (if m = NULL then Some s
      else let s = preempt_disable s;
               cur = cur_thread s in
      if cur = NULL \<or> m_owner (mtx s m) \<noteq> cur then preempt_enable cfg KResched s
      else do {
        s \<leftarrow> mutex_release cfg m cur s;
        preempt_enable cfg KResched s
      })"

section \<open>Semaphores\<close>

definition sem_init :: "addr \<Rightarrow> int \<Rightarrow> kstate \<Rightarrow> kstate" where
  "sem_init p initial_count s =
     (if p = NULL then s else upd_sem p (\<lambda>_. \<lparr>s_count = initial_count, s_waiters = NULL\<rparr>) s)"

definition sem_block :: "addr \<Rightarrow> addr \<Rightarrow> kstate \<Rightarrow> kstate option" where
  "sem_block p cur s = do {
     let s = upd_thread cur (t_waiting_on_update (\<lambda>_. NULL)) s;
     let s = upd_thread cur (t_wait_next_update (\<lambda>_. s_waiters (sems s p))) s;
     let s = upd_sem p (s_waiters_update (\<lambda>_. cur)) s;
     s \<leftarrow> sched_block_current s;
     Some (upd_cpu (need_resched_update (\<lambda>_. 1)) s)
   }"

definition sem_down :: "kconfig \<Rightarrow> addr \<Rightarrow> kstate \<Rightarrow> kstate option" where
  "sem_down cfg p s =
     (if p = NULL then Some s
      else let s = preempt_disable s;
               s = upd_sem p (s_count_update (\<lambda>c. c - 1)) s in
      if s_count (sems s p) \<ge> 0 then preempt_enable cfg KResched s
      else let cur = cur_thread s in
      if cur = NULL then preempt_enable cfg KResched s
      else do {
        s \<leftarrow> sem_block p cur s;
        preempt_enable cfg KResched s
      })"

definition sem_wake :: "addr \<Rightarrow> kstate \<Rightarrow> kstate option" where
  "sem_wake p s = do {
     (t, head, s) \<leftarrow> waitq_pop_highest (s_waiters (sems s p)) s;
     let s = upd_sem p (s_waiters_update (\<lambda>_. head)) s;
     if t = NULL then Some s
     else do {
       s \<leftarrow> sched_make_runnable t s;
       Some (if cur_thread s \<noteq> NULL \<and>
                thread_effective_priority s t > thread_effective_priority s (cur_thread s)
             then upd_cpu (need_resched_update (\<lambda>_. 1)) s else s)
     }
   }"

definition sem_up :: "kconfig \<Rightarrow> addr \<Rightarrow> kstate \<Rightarrow> kstate option" where
  "sem_up cfg p s =
     (if p = NULL then Some s
      else let s = preempt_disable s;
               s = upd_sem p (s_count_update (\<lambda>c. c + 1)) s
           in do {
             s \<leftarrow> (if s_count (sems s p) \<le> 0 then sem_wake p s else Some s);
             preempt_enable cfg KResched s
           })"

section \<open>The effective priority of an owner\<close>

abbreviation mnx :: "kstate \<Rightarrow> addr \<Rightarrow> addr" where
  "mnx s \<equiv> (\<lambda>m. m_owner_next (mutexes s m))"

text \<open>
  The threads whose priority the owner of the mutexes \<open>ms\<close> inherits: the waiters of those with
  inheritance enabled. \<open>Q m\<close> is the wait queue of mutex \<open>m\<close>.
\<close>

definition donors :: "kconfig \<Rightarrow> kstate \<Rightarrow> (addr \<Rightarrow> addr list) \<Rightarrow> addr list \<Rightarrow> addr set" where
  "donors cfg s Q ms = (if mutex_pi cfg then \<Union>m \<in> {m \<in> set ms. m_pi_enabled (mtx s m) \<noteq> 0}. set (Q m) else {})"

lemma finite_donors [simp]: "finite (donors cfg s Q ms)"
  by (simp add: donors_def)

lemma Max_insert_Max:
  fixes ep :: int
  assumes "finite A" "finite B"
  shows "Max (insert (Max (insert ep A)) B) = Max (insert ep (A \<union> B))"
proof (cases "B = {}")
  case False
  have "insert ep (A \<union> B) = insert ep A \<union> B" by auto
  then show ?thesis using assms False by (cases "A = {}") (simp_all add: Max_Un max.assoc)
qed simp

lemma recompute_loop_max:
  assumes "mutex_pi cfg" "llist (mnx s) m ms" "\<forall>m \<in> set ms. llist (wnx s) (m_waiters (mtx s m)) (Q m)" "-1 \<le> ep"
  shows "recompute_loop s m ep = Some (Max (insert ep (eff s ` donors cfg s Q ms)))"
  using assms(2-)
proof (induction ms arbitrary: m ep)
  case Nil
  then show ?case by (subst recompute_loop.simps) (simp add: donors_def)
next
  case (Cons u ms)
  then have u: "m = u" "u \<noteq> NULL" "llist (mnx s) (m_owner_next (mtx s u)) ms"
    "llist (wnx s) (m_waiters (mtx s u)) (Q u)" "\<forall>m \<in> set ms. llist (wnx s) (m_waiters (mtx s m)) (Q m)" by auto
  show ?case
  proof (cases "m_pi_enabled (mtx s u) = 0")
    case True
    then have "donors cfg s Q (u # ms) = donors cfg s Q ms" by (auto simp: donors_def)
    then show ?thesis using Cons.IH [OF u(3,5) Cons.prems(3)] u True by (subst recompute_loop.simps) simp
  next
    case False
    let ?A = "eff s ` set (Q u)" and ?B = "eff s ` donors cfg s Q ms"
    have d: "eff s ` donors cfg s Q (u # ms) = ?A \<union> ?B" using False assms(1) by (auto simp: donors_def)
    have w: "(if Max (insert (-1) ?A) > ep then Max (insert (-1) ?A) else ep) = Max (insert ep ?A)"
      using Cons.prems(3) by (cases "?A = {}") (auto simp: max_def)
    have "recompute_loop s m ep = recompute_loop s (m_owner_next (mtx s u)) (Max (insert ep ?A))"
      using u False waitq_max_priority_list [OF u(4)] w by (subst recompute_loop.simps) simp
    also have "\<dots> = Some (Max (insert (Max (insert ep ?A)) ?B))"
      by (rule Cons.IH [OF u(3,5)]) (use order.trans [OF Cons.prems(3) Max_ge [of "insert ep ?A" ep]] in simp)
    also have "\<dots> = Some (Max (insert ep (eff s ` donors cfg s Q (u # ms))))"
      unfolding d by (subst Max_insert_Max) simp_all
    finally show ?thesis .
  qed
qed

definition inherited :: "kconfig \<Rightarrow> kstate \<Rightarrow> (addr \<Rightarrow> addr list) \<Rightarrow> addr list \<Rightarrow> addr \<Rightarrow> int" where
  "inherited cfg s Q ms t = Max (insert (t_base_priority (thr s t)) (eff s ` donors cfg s Q ms))"

lemma inherited_range:
  assumes "prio_ok s"
  shows "0 \<le> inherited cfg s Q ms t" "t_base_priority (thr s t) \<le> inherited cfg s Q ms t"
    "inherited cfg s Q ms t \<le> kMaxPriority"
proof -
  let ?S = "insert (t_base_priority (thr s t)) (eff s ` donors cfg s Q ms)"
  show b: "t_base_priority (thr s t) \<le> inherited cfg s Q ms t" unfolding inherited_def by simp
  have "0 \<le> t_base_priority (thr s t)" using assms by (simp add: prio_ok_def)
  then show "0 \<le> inherited cfg s Q ms t" using b by (rule order.trans)
  have "t_base_priority (thr s t) \<le> kMaxPriority" using assms unfolding prio_ok_def by (meson order.trans)
  then have "\<forall>x \<in> ?S. x \<le> kMaxPriority" using assms by (auto simp: prio_ok_def)
  then show "inherited cfg s Q ms t \<le> kMaxPriority" unfolding inherited_def by (subst Max_le_iff) auto
qed

lemma recompute_inherits:
  assumes "prio_ok s" "t \<noteq> NULL" "llist (mnx s) (t_owned_mutexes (thr s t)) ms"
    "\<forall>m \<in> set ms. llist (wnx s) (m_waiters (mtx s m)) (Q m)"
  shows "recompute_effective_priority cfg t s =
    Some (upd_thread t (t_effective_priority_update (\<lambda>_. inherited cfg s Q ms t)) s)"
proof -
  have b: "0 \<le> t_base_priority (thr s t)" using assms(1) by (simp add: prio_ok_def)
  have l: "(if mutex_pi cfg then recompute_loop s (t_owned_mutexes (thr s t)) (t_base_priority (thr s t))
      else Some (t_base_priority (thr s t))) = Some (inherited cfg s Q ms t)"
  proof (cases "mutex_pi cfg")
    case True
    then show ?thesis using recompute_loop_max [OF True assms(3,4)] b by (simp add: inherited_def)
  next
    case False
    then show ?thesis by (simp add: inherited_def donors_def)
  qed
  have c: "clamp_priority (inherited cfg s Q ms t) = inherited cfg s Q ms t"
    using inherited_range [OF assms(1)] by (simp add: clamp_priority_def not_less)
  show ?thesis
    unfolding recompute_effective_priority_def using assms(2) l c inherited_range(2) [OF assms(1), of t cfg Q ms]
    by (simp add: thread_base_priority_def thread_set_effective_priority_def Let_def not_less)
qed

section \<open>The list of owned mutexes\<close>

definition own_lists :: "kstate \<Rightarrow> (addr \<Rightarrow> addr list) \<Rightarrow> bool" where
  "own_lists s Own \<longleftrightarrow> (\<forall>t. t \<noteq> NULL \<longrightarrow> llist (mnx s) (t_owned_mutexes (thr s t)) (Own t)) \<and>
     (\<forall>t u. t \<noteq> NULL \<longrightarrow> u \<noteq> NULL \<longrightarrow> t \<noteq> u \<longrightarrow> set (Own t) \<inter> set (Own u) = {})"

text \<open>The two list operations write nothing but the list's links and heads.\<close>

definition owned_only :: "kstate \<Rightarrow> kstate \<Rightarrow> bool" where
  "owned_only s s' \<longleftrightarrow> s' = s\<lparr>threads := threads s', mutexes := mutexes s'\<rparr> \<and>
     (\<forall>u. thr s' u = (thr s u)\<lparr>t_owned_mutexes := t_owned_mutexes (thr s' u)\<rparr>) \<and>
     (\<forall>m. mtx s' m = (mtx s m)\<lparr>m_owner_next := m_owner_next (mtx s' m)\<rparr>)"

lemma thread_same_owned [simp]: "(r :: thread)\<lparr>t_owned_mutexes := t_owned_mutexes r\<rparr> = r"
  by simp

lemma mutex_same_next [simp]: "(r :: mutex)\<lparr>m_owner_next := m_owner_next r\<rparr> = r"
  by simp

lemma owned_onlyD:
  assumes "owned_only s s'"
  shows "cpu s' = cpu s" "sems s' = sems s" "rq_head s' = rq_head s" "rq_tail s' = rq_tail s"
    "t_state (thr s' u) = t_state (thr s u)"
    "t_effective_priority (thr s' u) = t_effective_priority (thr s u)"
    "t_base_priority (thr s' u) = t_base_priority (thr s u)" "t_next (thr s' u) = t_next (thr s u)"
    "t_wait_next (thr s' u) = t_wait_next (thr s u)" "t_waiting_on (thr s' u) = t_waiting_on (thr s u)"
    "m_owner (mtx s' m) = m_owner (mtx s m)" "m_waiters (mtx s' m) = m_waiters (mtx s m)"
    "m_pi_enabled (mtx s' m) = m_pi_enabled (mtx s m)"
proof -
  have e: "s' = s\<lparr>threads := threads s', mutexes := mutexes s'\<rparr>" using assms unfolding owned_only_def by blast
  show "cpu s' = cpu s" "sems s' = sems s" "rq_head s' = rq_head s" "rq_tail s' = rq_tail s"
    by (subst e, simp)+
  have t: "thr s' u = (thr s u)\<lparr>t_owned_mutexes := t_owned_mutexes (thr s' u)\<rparr>"
    using assms unfolding owned_only_def by blast
  show "t_state (thr s' u) = t_state (thr s u)"
    "t_effective_priority (thr s' u) = t_effective_priority (thr s u)"
    "t_base_priority (thr s' u) = t_base_priority (thr s u)" "t_next (thr s' u) = t_next (thr s u)"
    "t_wait_next (thr s' u) = t_wait_next (thr s u)" "t_waiting_on (thr s' u) = t_waiting_on (thr s u)"
    by (subst t, simp)+
  have m: "mtx s' m = (mtx s m)\<lparr>m_owner_next := m_owner_next (mtx s' m)\<rparr>"
    using assms unfolding owned_only_def by blast
  show "m_owner (mtx s' m) = m_owner (mtx s m)" "m_waiters (mtx s' m) = m_waiters (mtx s m)"
    "m_pi_enabled (mtx s' m) = m_pi_enabled (mtx s m)"
    by (subst m, simp)+
qed

lemma own_lists_cong:
  assumes "own_lists s Own" "\<And>t. t_owned_mutexes (thr s' t) = t_owned_mutexes (thr s t)"
    "\<And>m. m_owner_next (mtx s' m) = m_owner_next (mtx s m)"
  shows "own_lists s' Own"
  using assms by (simp add: own_lists_def)

lemma own_add:
  assumes own: "own_lists s Own" and t: "t \<noteq> NULL" and m: "m \<noteq> NULL" "\<And>u. u \<noteq> NULL \<Longrightarrow> m \<notin> set (Own u)"
  shows "own_lists (thread_owned_mutex_add t m s) (Own(t := m # Own t))" "owned_only s (thread_owned_mutex_add t m s)"
proof -
  have a: "thread_owned_mutex_add t m s = upd_thread t (t_owned_mutexes_update (\<lambda>_. m))
      (upd_mutex m (m_owner_next_update (\<lambda>_. t_owned_mutexes (thr s t))) s)"
    using t m(1) by (simp add: thread_owned_mutex_add_def Let_def)
  have nx: "mnx (thread_owned_mutex_add t m s) = (mnx s)(m := t_owned_mutexes (thr s t))"
    unfolding a by auto
  show "owned_only s (thread_owned_mutex_add t m s)"
    unfolding a by (simp add: owned_only_def upd_thread_def upd_mutex_def)
  have "llist (mnx (thread_owned_mutex_add t m s)) (t_owned_mutexes (thr (thread_owned_mutex_add t m s) u)) ((Own(t := m # Own t)) u)"
    if "u \<noteq> NULL" for u
    using own m that t unfolding nx by (simp add: own_lists_def a)
  then show "own_lists (thread_owned_mutex_add t m s) (Own(t := m # Own t))"
    using own m(2) t by (auto simp: own_lists_def)
qed

lemma owned_remove_loop_path:
  "llist (mnx s) it (ms @ m # ms') \<Longrightarrow> m \<notin> set ms \<Longrightarrow>
   owned_remove_loop t m it prev s =
     (let p = (if ms = [] then prev else last ms);
          s = (if p \<noteq> NULL then upd_mutex p (m_owner_next_update (\<lambda>_. m_owner_next (mtx s m))) s
               else upd_thread t (t_owned_mutexes_update (\<lambda>_. m_owner_next (mtx s m))) s)
      in Some (upd_mutex m (m_owner_next_update (\<lambda>_. NULL)) s))"
proof (induction ms arbitrary: it prev)
  case Nil
  then show ?case by (subst owned_remove_loop.simps) (simp add: Let_def)
next
  case (Cons u ms)
  then have u: "it = u" "u \<noteq> NULL" "u \<noteq> m" "llist (mnx s) (m_owner_next (mtx s u)) (ms @ m # ms')" by auto
  show ?case
    using Cons.IH [OF u(4), of u] Cons.prems(2) u by (subst owned_remove_loop.simps) simp
qed

lemma own_remove:
  assumes own: "own_lists s Own" and t: "t \<noteq> NULL" and m: "m \<in> set (Own t)"
  shows "\<exists>s'. thread_owned_mutex_remove t m s = Some s' \<and> own_lists s' (Own(t := remove1 m (Own t))) \<and> owned_only s s'"
proof -
  have l: "llist (mnx s) (t_owned_mutexes (thr s t)) (Own t)" using own t by (simp add: own_lists_def)
  obtain ms ms' where ot: "Own t = ms @ m # ms'" "m \<notin> set ms" using m by (meson split_list_first)
  have d: "distinct (Own t)" "NULL \<notin> set (Own t)" using llist_distinct [OF l] lpath_not_NULL [OF l] by auto
  then have mn: "m \<noteq> NULL" using ot by auto
  define p where "p = (if ms = [] then NULL else last ms)"
  define s1 where "s1 = (if p \<noteq> NULL then upd_mutex p (m_owner_next_update (\<lambda>_. m_owner_next (mtx s m))) s
      else upd_thread t (t_owned_mutexes_update (\<lambda>_. m_owner_next (mtx s m))) s)"
  define s' where "s' = upd_mutex m (m_owner_next_update (\<lambda>_. NULL)) s1"
  have run: "thread_owned_mutex_remove t m s = Some s'"
    using owned_remove_loop_path [OF l [unfolded ot(1)] ot(2), of t NULL] t mn
    by (simp add: thread_owned_mutex_remove_def s'_def s1_def p_def)
  have "owned_only s s'"
    unfolding owned_only_def s'_def s1_def upd_mutex_def upd_thread_def by simp
  moreover have rm: "remove1 m (Own t) = ms @ ms'" using ot by (simp add: remove1_append)
  moreover have lt: "llist (mnx s') (t_owned_mutexes (thr s' t)) (ms @ ms')"
  proof (cases ms rule: rev_cases)
    case Nil
    then have "p = NULL" by (simp add: p_def)
    then have "mnx s' = (mnx s)(m := NULL)" "t_owned_mutexes (thr s' t) = mnx s m"
      unfolding s'_def s1_def by auto
    then show ?thesis using l ot d Nil by auto
  next
    case (snoc us u)
    then have u: "p = u" "u \<noteq> NULL" "u \<noteq> m" using d ot by (auto simp: p_def)
    then have "mnx s' = (mnx s)(u := mnx s m, m := NULL)" "t_owned_mutexes (thr s' t) = t_owned_mutexes (thr s t)"
      unfolding s'_def s1_def by auto
    then show ?thesis using l ot d snoc u by auto
  qed
  moreover have "llist (mnx s') (t_owned_mutexes (thr s' v)) (Own v)" if v: "v \<noteq> NULL" "v \<noteq> t" for v
  proof -
    have "set (Own v) \<inter> set (Own t) = {}" using own v t by (simp add: own_lists_def)
    then have dj: "m \<notin> set (Own v)" "p \<noteq> NULL \<Longrightarrow> p \<notin> set (Own v)"
      using ot by (auto simp: p_def split: if_splits)
    have lv: "llist (mnx s) (t_owned_mutexes (thr s v)) (Own v)" using own v by (simp add: own_lists_def)
    have ow: "t_owned_mutexes (thr s' v) = t_owned_mutexes (thr s v)"
      using v unfolding s'_def s1_def by auto
    have "\<And>x. x \<in> set (Own v) \<Longrightarrow> mnx s' x = mnx s x" using dj unfolding s'_def s1_def by auto
    then show ?thesis using lv unfolding ow by (subst lpath_cong [of _ "mnx s'" "mnx s"]) auto
  qed
  moreover have "\<forall>u v. u \<noteq> NULL \<longrightarrow> v \<noteq> NULL \<longrightarrow> u \<noteq> v \<longrightarrow>
      set ((Own(t := ms @ ms')) u) \<inter> set ((Own(t := ms @ ms')) v) = {}"
  proof (intro allI impI)
    fix u v :: addr assume uv: "u \<noteq> NULL" "v \<noteq> NULL" "u \<noteq> v"
    have "set ((Own(t := ms @ ms')) w) \<subseteq> set (Own w)" for w using ot by auto
    moreover have "set (Own u) \<inter> set (Own v) = {}" using own uv by (simp add: own_lists_def)
    ultimately show "set ((Own(t := ms @ ms')) u) \<inter> set ((Own(t := ms @ ms')) v) = {}" by blast
  qed
  ultimately have "own_lists s' (Own(t := remove1 m (Own t)))" by (simp add: own_lists_def)
  then show ?thesis using run \<open>owned_only s s'\<close> by blast
qed

section \<open>Inherited priorities and deadlock detection\<close>

text \<open>
  C31: the effective priority of a thread is recomputed to the maximum of its base priority and the
  effective priorities of all threads that wait for a mutex it owns with inheritance enabled.
\<close>
theorem recompute_effective_priority_max:
  assumes "prio_ok s" "mutex_pi cfg" "t \<noteq> NULL" "llist (\<lambda>m. m_owner_next (mutexes s m)) (t_owned_mutexes (thr s t)) ms"
    and "\<forall>m \<in> set ms. llist (\<lambda>u. t_wait_next (thr s u)) (m_waiters (mutexes s m)) (Q m)"
  shows "\<exists>s'. recompute_effective_priority cfg t s = Some s' \<and>
    t_effective_priority (thr s' t) = Max (insert (t_base_priority (thr s t))
      {t_effective_priority (thr s u) | u m. m \<in> set ms \<and> m_pi_enabled (mutexes s m) \<noteq> 0 \<and> u \<in> set (Q m)}) \<and>
    (\<forall>u. u \<noteq> t \<longrightarrow> thr s' u = thr s u) \<and> mutexes s' = mutexes s \<and> sems s' = sems s"
proof -
  have d: "eff s ` donors cfg s Q ms =
      {t_effective_priority (thr s u) | u m. m \<in> set ms \<and> m_pi_enabled (mutexes s m) \<noteq> 0 \<and> u \<in> set (Q m)}"
    using assms(2) by (auto simp: donors_def)
  show ?thesis
    unfolding recompute_inherits [OF assms(1,3-5)] by (simp add: inherited_def d)
qed

text \<open>Thread 16 owns mutex 1024 with inheritance, where threads 32 and 48 of priorities 9 and 7 wait.\<close>

definition pi_example :: kstate where
  "pi_example = boot_state\<lparr>threads := (\<lambda>_. zero_thread)
     (16 := zero_thread\<lparr>t_base_priority := 3, t_effective_priority := 3, t_owned_mutexes := 1024\<rparr>,
      32 := zero_thread\<lparr>t_effective_priority := 9, t_wait_next := 48\<rparr>,
      48 := zero_thread\<lparr>t_effective_priority := 7\<rparr>),
     mutexes := (mutexes boot_state)(1024 := \<lparr>m_owner = 16, m_waiters = 32, m_owner_next = 0, m_pi_enabled = 1\<rparr>)\<rparr>"

theorem recompute_effective_priority_max_witness:
  "\<exists>s'. recompute_effective_priority \<lparr>policy = PRIO, mutex_pi = True, lockdep = False\<rparr> 16 pi_example = Some s' \<and>
     t_effective_priority (thr s' 16) = 9"
proof -
  let ?cfg = "\<lparr>policy = PRIO, mutex_pi = True, lockdep = False\<rparr>"
  have p: "prio_ok pi_example" by (auto simp: prio_ok_def pi_example_def zero_thread_def kconst_defs)
  have l: "llist (mnx pi_example) (t_owned_mutexes (thr pi_example 16)) [1024]"
    "\<forall>m \<in> set [1024]. llist (wnx pi_example) (m_waiters (mtx pi_example m)) [32, 48]"
    by (simp_all add: pi_example_def zero_thread_def)
  have pi: "m_pi_enabled (mutexes pi_example 1024) \<noteq> 0" by (simp add: pi_example_def)
  have "{t_effective_priority (thr pi_example u) | u m. m \<in> set [1024] \<and> m_pi_enabled (mutexes pi_example m) \<noteq> 0 \<and>
      u \<in> set [32, 48]} = eff pi_example ` {32, 48}"
    using pi by auto
  moreover have "eff pi_example ` {32, 48} = {9, 7}" by (simp add: pi_example_def)
  moreover have "t_base_priority (thr pi_example 16) = 3" by (simp add: pi_example_def)
  ultimately show ?thesis
    using recompute_effective_priority_max [OF p _ _ l(1), of ?cfg "\<lambda>_. [32, 48]"] l(2) by auto
qed

text \<open>The thread that holds the mutex a thread is waiting for, \<open>NULL\<close> at the end of the chain.\<close>

definition waits_for :: "kstate \<Rightarrow> addr \<Rightarrow> addr" where
  "waits_for s t = (if t = NULL \<or> t_waiting_on (thr s t) = NULL then NULL
     else m_owner (mutexes s (t_waiting_on (thr s t))))"

lemma waits_for_NULL: "(waits_for s ^^ k) NULL = NULL"
  by (induction k) (simp_all add: waits_for_def)

lemma lockdep_walk_chain:
  assumes "cur \<noteq> NULL"
  shows "lockdep_walk s cur t n \<longleftrightarrow> (\<exists>k < n. (waits_for s ^^ k) t = cur)"
proof (induction n arbitrary: t)
  case 0
  show ?case by simp
next
  case (Suc n)
  have split: "(\<exists>k < Suc n. (waits_for s ^^ k) t = cur) \<longleftrightarrow> t = cur \<or> (\<exists>k < n. (waits_for s ^^ k) (waits_for s t) = cur)"
  proof -
    have "(\<exists>k < Suc n. P k) \<longleftrightarrow> P 0 \<or> (\<exists>k < n. P (Suc k))" for P :: "nat \<Rightarrow> bool"
      by (metis less_Suc_eq_0_disj)
    then show ?thesis by (simp add: funpow_swap1)
  qed
  show ?case
    unfolding split using Suc.IH assms
    by (cases "t = NULL \<or> t_waiting_on (thr s t) = NULL") (auto simp: waits_for_def [of s t] waits_for_NULL)
qed

text \<open>
  The lockdep walk is exact within its depth. It reports a deadlock exactly when the running thread
  is found among the first sixteen threads of the chain that starts at the mutex's owner and goes
  from each thread to the owner of the mutex it waits for; it stops on any chain, cyclic ones included.
\<close>
lemma lockdep_exact:
  assumes "cur \<noteq> NULL" "m \<noteq> NULL"
  shows "lockdep_would_deadlock s cur m \<longleftrightarrow> (\<exists>k < 16. (waits_for s ^^ k) (m_owner (mutexes s m)) = cur)"
  using assms by (simp only: lockdep_would_deadlock_def lockdep_walk_chain simp_thms if_False)

text \<open>The AB/BA deadlock: thread 16 owns 1024 and waits for 2048, which 32 owns, and 32 asks for 1024.\<close>

definition abba_example :: kstate where
  "abba_example = boot_state\<lparr>threads := (\<lambda>_. zero_thread)(16 := zero_thread\<lparr>t_waiting_on := 2048\<rparr>),
     mutexes := (mutexes boot_state)(1024 := \<lparr>m_owner = 16, m_waiters = 0, m_owner_next = 0, m_pi_enabled = 1\<rparr>,
       2048 := \<lparr>m_owner = 32, m_waiters = 16, m_owner_next = 0, m_pi_enabled = 1\<rparr>)\<rparr>"

lemma lockdep_exact_example:
  "lockdep_would_deadlock abba_example 32 1024 \<and> \<not> lockdep_would_deadlock abba_example 48 1024"
proof
  have w: "m_owner (mutexes abba_example 1024) = 16" "waits_for abba_example 16 = 32" "waits_for abba_example 32 = NULL"
    by (simp_all add: abba_example_def waits_for_def zero_thread_def)
  have "\<exists>k < 16. (waits_for abba_example ^^ k) (m_owner (mutexes abba_example 1024)) = 32"
    using w by (intro exI [of _ 1]) simp
  then show "lockdep_would_deadlock abba_example 32 1024"
    using lockdep_exact [of 32 1024 abba_example] by simp
  have "(waits_for abba_example ^^ k) 16 \<noteq> 48" for k
  proof (cases k)
    case (Suc n)
    then show ?thesis
    proof (cases n)
      case (Suc j)
      have "(waits_for abba_example ^^ Suc (Suc j)) 16 = (waits_for abba_example ^^ j) NULL"
        unfolding funpow_Suc_right o_apply w ..
      then show ?thesis using Suc \<open>k = Suc n\<close> by (simp add: waits_for_NULL)
    qed (simp add: w)
  qed simp
  then show "\<not> lockdep_would_deadlock abba_example 48 1024"
    using lockdep_exact [of 48 1024 abba_example] w(1) by simp
qed

end
