(* ===== verification/SyncState.thy ===== *)
theory SyncState
  imports Sync
begin

text \<open>
  The invariant of the blocking primitives, \<open>sync_inv s Own Q\<close>: \<open>Own t\<close> is the list of the mutexes
  thread \<open>t\<close> owns, \<open>Q p\<close> the wait queue of place \<open>p\<close>; and what \<^verbatim>\<open>mutex_lock\<close>'s blocking part, \<^verbatim>\<open>mutex_unlock\<close>
  and the semaphore operations do to a state that satisfies it.
\<close>

section \<open>The invariant\<close>

text \<open>A place to wait: a mutex or a semaphore.\<close>

type_synonym place = "addr + addr"

fun whead :: "kstate \<Rightarrow> place \<Rightarrow> addr" where
  "whead s (Inl m) = m_waiters (mutexes s m)"
| "whead s (Inr p) = s_waiters (sems s p)"

definition sync_inv :: "kstate \<Rightarrow> (addr \<Rightarrow> addr list) \<Rightarrow> (place \<Rightarrow> addr list) \<Rightarrow> bool" where
  "sync_inv s Own Q \<longleftrightarrow> own_lists s Own \<and>
     (\<forall>t m. t \<noteq> NULL \<longrightarrow> (m \<in> set (Own t) \<longleftrightarrow> m \<noteq> NULL \<and> m_owner (mtx s m) = t)) \<and>
     (\<forall>p. llist (wnx s) (whead s p) (Q p)) \<and>
     (\<forall>p p'. p \<noteq> p' \<longrightarrow> set (Q p) \<inter> set (Q p') = {}) \<and>
     (\<forall>p. \<forall>t \<in> set (Q p). t_state (thr s t) = kThreadBlocked) \<and>
     (\<forall>m. Q (Inl m) \<noteq> [] \<longrightarrow> m_owner (mtx s m) \<noteq> NULL)"

lemma sync_invD:
  assumes "sync_inv s Own Q"
  shows "own_lists s Own" "\<And>t m. t \<noteq> NULL \<Longrightarrow> m \<in> set (Own t) \<longleftrightarrow> m \<noteq> NULL \<and> m_owner (mtx s m) = t"
    "\<And>p. llist (wnx s) (whead s p) (Q p)" "\<And>p p'. p \<noteq> p' \<Longrightarrow> set (Q p) \<inter> set (Q p') = {}"
    "\<And>p t. t \<in> set (Q p) \<Longrightarrow> t_state (thr s t) = kThreadBlocked"
    "\<And>m. Q (Inl m) \<noteq> [] \<Longrightarrow> m_owner (mtx s m) \<noteq> NULL"
  using assms unfolding sync_inv_def by blast+

text \<open>Everything outside the scheduler's own fields.\<close>

definition sched_only :: "kstate \<Rightarrow> kstate \<Rightarrow> bool" where
  "sched_only s s' \<longleftrightarrow> mutexes s' = mutexes s \<and> sems s' = sems s \<and>
     (\<forall>t. t_wait_next (thr s' t) = t_wait_next (thr s t) \<and> t_state (thr s' t) = t_state (thr s t) \<and>
       t_owned_mutexes (thr s' t) = t_owned_mutexes (thr s t) \<and> t_waiting_on (thr s' t) = t_waiting_on (thr s t) \<and>
       eff s' t = eff s t \<and> t_base_priority (thr s' t) = t_base_priority (thr s t))"

lemma sched_only_refl [simp]: "sched_only s s"
  by (simp add: sched_only_def)

lemma whead_cong: "mutexes s' = mutexes s \<Longrightarrow> sems s' = sems s \<Longrightarrow> whead s' p = whead s p"
  by (cases p) simp_all

lemma sync_inv_sched_only:
  assumes "sync_inv s Own Q" "sched_only s s'"
  shows "sync_inv s' Own Q"
  using assms whead_cong [of s' s] unfolding sync_inv_def sched_only_def by (simp add: own_lists_def)

lemma resched_only: "sched_resched_from_irq_tail cfg k s = Some s' \<Longrightarrow> sched_only s s'"
  by (auto simp: sched_resched_from_irq_tail_def sched_only_def Let_def bind_eq_Some_conv split: if_splits)

lemma sched_only_upd_cpu [simp]: "sched_only s (upd_cpu f s)" "sched_only (upd_cpu f s) s' = sched_only s s'"
  by (simp_all add: sched_only_def)

lemma sched_only_set_kont [simp]: "sched_only (set_kont t k s) s' = sched_only s s'" "sched_only s (set_kont t k s)"
  by (simp_all add: sched_only_def)

lemma preempt_enable_only: "preempt_enable cfg k s = Some s' \<Longrightarrow> sched_only s s'"
  by (auto simp: preempt_enable_def Let_def dest!: resched_only split: if_splits)

lemma preempt_return_only: "preempt_return cfg s = Some s' \<Longrightarrow> sched_only s s'"
  by (auto simp: preempt_return_def dest!: resched_only split: if_splits)

lemma thread_yield_only: "thread_yield cfg s = Some s' \<Longrightarrow> sched_only s s'"
  by (auto simp: thread_yield_def sched_only_def Let_def bind_eq_Some_conv split: if_splits)

lemma sched_on_tick_only: "sched_on_tick cfg s = Some s' \<Longrightarrow> sched_only s s'"
  by (auto simp: sched_on_tick_def sched_only_def Let_def bind_eq_Some_conv split: if_splits)

section \<open>Blocking and waking\<close>

definition same_sync :: "kstate \<Rightarrow> kstate \<Rightarrow> bool" where
  "same_sync s s' \<longleftrightarrow> mutexes s' = mutexes s \<and> sems s' = sems s \<and> cpu s' = cpu s \<and> kont s' = kont s \<and>
     (\<forall>t. t_owned_mutexes (thr s' t) = t_owned_mutexes (thr s t) \<and> t_waiting_on (thr s' t) = t_waiting_on (thr s t) \<and>
       eff s' t = eff s t \<and> t_base_priority (thr s' t) = t_base_priority (thr s t))"

lemma sched_block_current_spec:
  assumes inv: "sched_inv s xs" and r: "is_ready s c" and c: "c = cur_thread s"
  shows "\<exists>s'. sched_block_current s = Some s' \<and> sched_inv s' (remove1 c xs) \<and> same_sync s s' \<and>
    (\<forall>t. t_state (thr s' t) = (if t = c then kThreadBlocked else t_state (thr s t))) \<and>
    (\<forall>t. t_wait_next (thr s' t) = (if t = c then NULL else t_wait_next (thr s t)))"
proof -
  have n: "c \<noteq> NULL" "t_state (thr s c) \<noteq> kThreadBlocked" using r by (auto simp: is_ready_def kconst_defs)
  obtain s1 where s1: "rq_remove c s = Some s1" "links_only s s1"
    using rq_remove_spec [OF sched_invD(1) [OF inv]] by blast
  have "sched_block_current s = Some (upd_thread c (t_wait_next_update (\<lambda>_. NULL))
      (upd_thread c (t_state_update (\<lambda>_. kThreadBlocked)) s1))" (is "_ = Some ?s")
    using n s1(1) c by (simp add: sched_block_current_def Let_def links_onlyD [OF s1(2)])
  moreover from this have "sched_inv ?s (remove1 c xs)" using sched_block_current_inv [OF inv] c by simp
  moreover have "same_sync s ?s" using links_only_simps [OF s1(2)] by (simp add: same_sync_def)
  ultimately show ?thesis using links_only_simps [OF s1(2)] by auto
qed

lemma sched_make_runnable_spec:
  assumes inv: "sched_inv s xs" and t: "t \<noteq> NULL" "t_state (thr s t) = kThreadBlocked"
  shows "\<exists>s'. sched_make_runnable t s = Some s' \<and> sched_inv s' (xs @ [t]) \<and> same_sync s s' \<and>
    (\<forall>u. t_state (thr s' u) = (if u = t then kThreadReady else t_state (thr s u))) \<and>
    (\<forall>u. t_wait_next (thr s' u) = (if u = t then NULL else t_wait_next (thr s u)))"
proof -
  have n: "t_state (thr s t) \<noteq> kThreadReady" using t(2) by (simp add: kconst_defs)
  obtain s' where s': "sched_make_runnable t s = Some s'" "sched_inv s' (xs @ [t])"
    using sched_make_runnable_inv [OF inv t(1) n] by blast
  define s1 where "s1 = upd_thread t (t_budget_update (\<lambda>_. kQuantumTicks)) (upd_thread t (t_wait_next_update (\<lambda>_. NULL))
      (upd_thread t (t_state_update (\<lambda>_. kThreadReady)) s))"
  have "rq_append t s1 = Some s'" using s'(1) t n by (simp add: sched_make_runnable_def s1_def Let_def)
  moreover have "rq_inv s1 xs" using rq_inv_cong [OF sched_invD(1) [OF inv], of s1] by (simp add: s1_def)
  moreover have "t \<notin> set xs" using inv n by (auto simp: sched_inv_def)
  ultimately have l: "links_only s1 s'" using rq_append_spec [of s1 xs t] t(1) by auto
  have "same_sync s s'" using links_only_simps [OF l] by (simp add: same_sync_def s1_def)
  then show ?thesis using s' links_only_simps [OF l] by (auto simp: s1_def)
qed

text \<open>
  Blocking on a place: the caller is pushed on the wait queue, then \<^verbatim>\<open>sched_block_current\<close> clears its
  \<^verbatim>\<open>wait_next\<close> link again. The queue that remains is the caller alone.
\<close>

lemma sync_inv_blocked:
  assumes inv: "sync_inv s Own Q" and r: "is_ready s c"
    and own: "\<And>t. t_owned_mutexes (thr s' t) = t_owned_mutexes (thr s t)"
      "\<And>m. m_owner_next (mtx s' m) = m_owner_next (mtx s m)" "\<And>m. m_owner (mtx s' m) = m_owner (mtx s m)"
    and hd: "\<And>q. whead s' q = (if q = p then c else whead s q)"
    and st: "\<And>t. t_state (thr s' t) = (if t = c then kThreadBlocked else t_state (thr s t))"
    and wn: "\<And>t. t_wait_next (thr s' t) = (if t = c then NULL else t_wait_next (thr s t))"
    and ow: "\<And>m. p = Inl m \<Longrightarrow> m_owner (mtx s m) \<noteq> NULL"
  shows "sync_inv s' Own (Q(p := [c]))"
proof -
  note D = sync_invD [OF inv]
  have c: "c \<noteq> NULL" "\<And>q. c \<notin> set (Q q)"
    using r D(5) by (force simp: is_ready_def kconst_defs)+
  have "llist (wnx s') (whead s' q) ((Q(p := [c])) q)" for q
  proof (cases "q = p")
    case True
    then show ?thesis using c hd wn by simp
  next
    case False
    have "lpath (wnx s') (whead s q) (Q q) NULL = lpath (wnx s) (whead s q) (Q q) NULL"
      by (rule lpath_cong) (use c(2) [of q] wn in auto)
    then show ?thesis using False D(3) hd by simp
  qed
  moreover have "own_lists s' Own" using own_lists_cong [OF D(1)] own by blast
  moreover have "set ((Q(p := [c])) q) \<inter> set ((Q(p := [c])) q') = {}" if "q \<noteq> q'" for q q'
    using that D(4) [of q q'] c(2) by (auto simp: fun_upd_def)
  moreover have "t_state (thr s' t) = kThreadBlocked" if "t \<in> set ((Q(p := [c])) q)" for q t
    using that D(5) [of t q] st by (auto simp: fun_upd_def split: if_splits)
  moreover have "m_owner (mtx s' m) \<noteq> NULL" if "(Q(p := [c])) (Inl m) \<noteq> []" for m
    using that D(6) [of m] ow own(3) by (auto simp: fun_upd_def split: if_splits)
  ultimately show ?thesis using D(2) own(3) unfolding sync_inv_def by auto
qed

lemma mutex_block_spec:
  assumes sch: "sched_inv s xs" and inv: "sync_inv s Own Q" and r: "is_ready s c" and c: "c = cur_thread s"
    and m: "m \<noteq> NULL" and w: "m_owner (mtx s m) = w" "w \<noteq> NULL" "w \<noteq> c"
  shows "\<exists>s'. mutex_block cfg m c s = Some s' \<and> sched_inv s' (remove1 c xs) \<and> sync_inv s' Own (Q(Inl m := [c])) \<and>
    (\<forall>t. t_state (thr s' t) = (if t = c then kThreadBlocked else t_state (thr s t))) \<and> t_waiting_on (thr s' c) = m \<and>
    need_resched (cpu s') = 1 \<and> cur_thread s' = c \<and> (mutex_pi cfg \<and> m_pi_enabled (mtx s m) \<noteq> 0 \<longrightarrow> eff s' c \<le> eff s' w) \<and>
    cpu s' = (cpu s)\<lparr>need_resched := 1\<rparr>"
proof -
  note D = sync_invD [OF inv]
  have cn: "c \<noteq> NULL" "\<And>q. c \<notin> set (Q q)"
    using r D(5) by (force simp: is_ready_def kconst_defs)+
  define s1 where "s1 = upd_mutex m (m_waiters_update (\<lambda>_. c)) (upd_thread c (t_wait_next_update (\<lambda>_. m_waiters (mtx s m)))
      (upd_thread c (t_waiting_on_update (\<lambda>_. m)) s))"
  define Q1 where "Q1 = (\<lambda>m'. if m' = m then c # Q (Inl m) else Q (Inl m'))"
  define p where "p = inherited cfg s1 Q1 (Own w) w"
  define s2 where "s2 = (if m_pi_enabled (mtx s m) = 0 then s1 else upd_thread w (t_effective_priority_update (\<lambda>_. p)) s1)"
  have e1: "eff s1 t = eff s t" for t by (simp add: s1_def)
  have sch1: "sched_inv s1 xs"
    by (rule sched_inv_cong [OF sch]) (use prio_ok_cong [OF sched_invD(2) [OF sch], of s1] in \<open>auto simp: s1_def\<close>)
  have q1: "llist (wnx s1) (m_waiters (mtx s1 m')) (Q1 m')" for m'
  proof -
    have "lpath (wnx s1) (whead s (Inl m')) (Q (Inl m')) NULL = lpath (wnx s) (whead s (Inl m')) (Q (Inl m')) NULL"
      by (rule lpath_cong) (use cn(2) [of "Inl m'"] in \<open>auto simp: s1_def\<close>)
    then show ?thesis using D(3) [of "Inl m'"] cn(1) by (auto simp: Q1_def s1_def)
  qed
  have "llist (mnx s1) (t_owned_mutexes (thr s1 w)) (Own w)"
  proof -
    have "mnx s1 = mnx s" "t_owned_mutexes (thr s1 w) = t_owned_mutexes (thr s w)" by (auto simp: s1_def)
    then show ?thesis using D(1) w(2) by (simp add: own_lists_def)
  qed
  then have rec: "recompute_effective_priority cfg w s1 = Some (upd_thread w (t_effective_priority_update (\<lambda>_. p)) s1)"
    unfolding p_def by (rule recompute_inherits [OF sched_invD(2) [OF sch1] w(2)]) (use q1 in blast)
  have ap: "mutex_apply_pi cfg m s1 = Some s2"
    using rec m w by (simp add: mutex_apply_pi_def s2_def) (simp add: s1_def)
  have "\<exists>q. upd_thread w (t_effective_priority_update (\<lambda>_. p)) s1 = thread_set_effective_priority w q s1"
    using rec w(2) unfolding recompute_effective_priority_def by (auto simp: Let_def bind_eq_Some_conv) metis
  then have sch2: "sched_inv s2 xs" using sch1 priority_inv(2) [OF sch1] by (auto simp: s2_def)
  have cu: "cur_thread s2 = c" using c by (simp add: s2_def s1_def)
  have st2: "t_state (thr s2 t) = t_state (thr s t)" for t by (simp add: s2_def s1_def)
  then have r2: "is_ready s2 c" using r by (simp add: is_ready_def)
  obtain s3 where s3: "sched_block_current s2 = Some s3" "sched_inv s3 (remove1 c xs)" "same_sync s2 s3"
    "\<And>t. t_state (thr s3 t) = (if t = c then kThreadBlocked else t_state (thr s2 t))"
    "\<And>t. t_wait_next (thr s3 t) = (if t = c then NULL else t_wait_next (thr s2 t))"
    using sched_block_current_spec [OF sch2 r2 cu [symmetric]] by blast
  let ?s = "upd_cpu (need_resched_update (\<lambda>_. 1)) s3"
  note ss = s3(3) [unfolded same_sync_def]
  have run: "mutex_block cfg m c s = Some ?s"
    unfolding mutex_block_def Let_def using ap s3(1) by (simp add: s1_def)
  have "eff s' c \<le> eff s' w" if pi: "mutex_pi cfg" "m_pi_enabled (mtx s m) \<noteq> 0" and s': "s' = ?s" for s'
  proof -
    have "m \<in> set (Own w)" using D(2) [OF w(2)] w(1) m by blast
    then have "c \<in> donors cfg s1 Q1 (Own w)" using pi by (auto simp: donors_def Q1_def s1_def intro!: bexI [of _ m])
    then have "eff s1 c \<le> p" unfolding p_def inherited_def by (intro Max_ge) auto
    then show ?thesis using pi w(3) ss by (simp add: s' s2_def)
  qed
  moreover have "sync_inv ?s Own (Q(Inl m := [c]))"
  proof (rule sync_inv_blocked [OF inv r])
    show "whead ?s q = (if q = Inl m then c else whead s q)" for q
      using ss by (cases q) (simp_all add: s2_def s1_def)
  qed (use ss s3(4,5) w in \<open>simp_all add: s2_def s1_def\<close>)
  moreover have "sched_inv ?s (remove1 c xs)" using sched_inv_upd_cpu [OF s3(2)] by simp
  moreover have "t_waiting_on (thr ?s c) = m" using ss w(3) by (simp add: s2_def s1_def)
  moreover have "cur_thread ?s = c" "cpu ?s = (cpu s)\<lparr>need_resched := 1\<rparr>" using ss cu by (simp_all add: s2_def s1_def)
  ultimately show ?thesis using run s3(4) st2 c by (intro exI [of _ ?s]) simp
qed

lemma sem_block_spec:
  assumes sch: "sched_inv s xs" and inv: "sync_inv s Own Q" and r: "is_ready s c" and c: "c = cur_thread s"
  shows "\<exists>s'. sem_block p c s = Some s' \<and> sched_inv s' (remove1 c xs) \<and> sync_inv s' Own (Q(Inr p := [c])) \<and>
    (\<forall>t. t_state (thr s' t) = (if t = c then kThreadBlocked else t_state (thr s t))) \<and>
    need_resched (cpu s') = 1 \<and> cur_thread s' = c \<and> s_count (sems s' p) = s_count (sems s p) \<and>
    cpu s' = (cpu s)\<lparr>need_resched := 1\<rparr> \<and> mutexes s' = mutexes s \<and> (\<forall>t. eff s' t = eff s t)"
proof -
  define s1 where "s1 = upd_sem p (s_waiters_update (\<lambda>_. c)) (upd_thread c (t_wait_next_update (\<lambda>_. s_waiters (sems s p)))
      (upd_thread c (t_waiting_on_update (\<lambda>_. NULL)) s))"
  have sch1: "sched_inv s1 xs"
    by (rule sched_inv_cong [OF sch]) (use prio_ok_cong [OF sched_invD(2) [OF sch], of s1] in \<open>auto simp: s1_def\<close>)
  have r1: "is_ready s1 c" and c1: "cur_thread s1 = c" using r c by (simp_all add: is_ready_def s1_def)
  obtain s3 where s3: "sched_block_current s1 = Some s3" "sched_inv s3 (remove1 c xs)" "same_sync s1 s3"
    "\<And>t. t_state (thr s3 t) = (if t = c then kThreadBlocked else t_state (thr s1 t))"
    "\<And>t. t_wait_next (thr s3 t) = (if t = c then NULL else t_wait_next (thr s1 t))"
    using sched_block_current_spec [OF sch1 r1 c1 [symmetric]] by blast
  let ?s = "upd_cpu (need_resched_update (\<lambda>_. 1)) s3"
  note ss = s3(3) [unfolded same_sync_def]
  have "sem_block p c s = Some ?s" unfolding sem_block_def Let_def using s3(1) by (simp add: s1_def)
  moreover have "sync_inv ?s Own (Q(Inr p := [c]))"
  proof (rule sync_inv_blocked [OF inv r])
    show "whead ?s q = (if q = Inr p then c else whead s q)" for q
      using ss by (cases q) (simp_all add: s1_def)
  qed (use ss s3(4,5) in \<open>simp_all add: s1_def\<close>)
  moreover have "sched_inv ?s (remove1 c xs)" using sched_inv_upd_cpu [OF s3(2)] by simp
  moreover have "cur_thread ?s = c" "s_count (sems ?s p) = s_count (sems s p)" "cpu ?s = (cpu s)\<lparr>need_resched := 1\<rparr>"
    "mutexes ?s = mutexes s" "eff ?s t = eff s t" for t using ss c1 by (simp_all add: s1_def)
  ultimately show ?thesis using s3(4) c by (intro exI [of _ ?s]) (simp add: s1_def)
qed

section \<open>Recomputing priorities\<close>

lemma sync_inv_upd_eff [simp]: "sync_inv (upd_thread t (t_effective_priority_update f) s) Own Q = sync_inv s Own Q"
proof -
  have e: "t_owned_mutexes (thr (upd_thread t (t_effective_priority_update f) s) u) = t_owned_mutexes (thr s u)"
    "t_state (thr (upd_thread t (t_effective_priority_update f) s) u) = t_state (thr s u)"
    "t_wait_next (thr (upd_thread t (t_effective_priority_update f) s) u) = t_wait_next (thr s u)" for u by auto
  have w: "whead (upd_thread t (t_effective_priority_update f) s) p = whead s p" for p by (rule whead_cong) auto
  show ?thesis unfolding sync_inv_def own_lists_def e w by simp
qed

abbreviation Qm :: "(place \<Rightarrow> addr list) \<Rightarrow> addr \<Rightarrow> addr list" where
  "Qm Q \<equiv> (\<lambda>m. Q (Inl m))"

lemma recompute_sync:
  assumes "sched_inv s xs" "sync_inv s Own Q" "t \<noteq> NULL"
  shows "recompute_effective_priority cfg t s =
      Some (upd_thread t (t_effective_priority_update (\<lambda>_. inherited cfg s (Qm Q) (Own t) t)) s)" (is ?A)
    and "sched_inv (upd_thread t (t_effective_priority_update (\<lambda>_. inherited cfg s (Qm Q) (Own t) t)) s) xs" (is ?B)
proof -
  note D = sync_invD [OF assms(2)]
  have "llist (wnx s) (m_waiters (mtx s m)) (Q (Inl m))" for m using D(3) [of "Inl m"] by simp
  then show a: ?A
    by (intro recompute_inherits sched_invD(2) [OF assms(1)] assms(3)) (use D(1) assms(3) in \<open>auto simp: own_lists_def\<close>)
  have "\<exists>q. upd_thread t (t_effective_priority_update (\<lambda>_. inherited cfg s (Qm Q) (Own t) t)) s = thread_set_effective_priority t q s"
    using a assms(3) unfolding recompute_effective_priority_def by (auto simp: Let_def bind_eq_Some_conv) metis
  then show ?B using priority_inv(2) [OF assms(1)] by auto
qed

text \<open>What a thread inherits does not depend on the priority of a thread that waits for no mutex.\<close>

lemma inherited_cong:
  assumes "\<And>m. m_pi_enabled (mtx s' m) = m_pi_enabled (mtx s m)" "t_base_priority (thr s' t) = t_base_priority (thr s t)"
    "\<And>m u. u \<in> set (Q m) \<Longrightarrow> eff s' u = eff s u"
  shows "inherited cfg s' Q ms t = inherited cfg s Q ms t"
proof -
  have d: "donors cfg s' Q ms = donors cfg s Q ms" using assms(1) by (simp add: donors_def)
  have "eff s' u = eff s u" if "u \<in> donors cfg s Q ms" for u
    using that assms(3) by (auto simp: donors_def split: if_splits)
  then have "eff s' ` donors cfg s Q ms = eff s ` donors cfg s Q ms" by (rule image_cong [OF refl])
  then show ?thesis unfolding inherited_def d by (simp add: assms(2))
qed

section \<open>Unlocking\<close>

definition released :: "(addr \<Rightarrow> addr list) \<Rightarrow> addr \<Rightarrow> addr \<Rightarrow> addr \<Rightarrow> addr list" where
  "released Own c m = Own(c := remove1 m (Own c))"

lemma release_owned:
  assumes sch: "sched_inv s xs" and inv: "sync_inv s Own Q" and c: "c \<noteq> NULL"
    and m: "m \<noteq> NULL" "m_owner (mtx s m) = c"
  shows "\<exists>s'. thread_owned_mutex_remove c m s = Some s' \<and> owned_only s s' \<and> own_lists s' (released Own c m) \<and>
    sched_inv s' xs \<and> (\<forall>u. u \<noteq> NULL \<longrightarrow> m \<notin> set (released Own c m u)) \<and>
    (\<forall>u n. u \<noteq> NULL \<longrightarrow> n \<in> set (released Own c m u) \<longleftrightarrow> n \<noteq> m \<and> n \<noteq> NULL \<and> m_owner (mtx s n) = u)"
proof -
  note D = sync_invD [OF inv]
  have "m \<in> set (Own c)" using D(2) [OF c] m by blast
  then obtain s' where s': "thread_owned_mutex_remove c m s = Some s'" "own_lists s' (released Own c m)" "owned_only s s'"
    using own_remove [OF D(1) c] unfolding released_def by blast
  have "sched_inv s' xs"
    by (rule sched_inv_cong [OF sch]) (use prio_ok_cong [OF sched_invD(2) [OF sch], of s'] owned_onlyD [OF s'(3)] in auto)
  moreover have "distinct (Own c)"
    using llist_distinct D(1) c unfolding own_lists_def by blast
  moreover from this have rel: "n \<in> set (released Own c m u) \<longleftrightarrow> n \<noteq> m \<and> n \<noteq> NULL \<and> m_owner (mtx s n) = u" if "u \<noteq> NULL" for u n
    using D(2) [OF that, of n] m(2) that by (auto simp: released_def)
  ultimately show ?thesis using s' by blast
qed

lemma ready_not_waiting: "sync_inv s Own Q \<Longrightarrow> is_ready s c \<Longrightarrow> c \<noteq> NULL \<and> c \<notin> set (Q p)"
  using sync_invD(5) [of s Own Q c p] by (auto simp: is_ready_def kconst_defs)

lemma mutex_release_empty:
  assumes sch: "sched_inv s xs" and inv: "sync_inv s Own Q" and r: "is_ready s c"
    and m: "m \<noteq> NULL" "m_owner (mtx s m) = c" and q: "Q (Inl m) = []"
  shows "\<exists>s'. mutex_release cfg m c s = Some s' \<and> sched_inv s' xs \<and> sync_inv s' (released Own c m) Q \<and>
    m_owner (mtx s' m) = NULL \<and> (\<forall>t. t_state (thr s' t) = t_state (thr s t)) \<and> cpu s' = cpu s \<and>
    (\<forall>n. n \<noteq> m \<longrightarrow> m_owner (mtx s' n) = m_owner (mtx s n)) \<and>
    eff s' c = inherited cfg s' (Qm Q) (released Own c m c) c"
proof -
  note D = sync_invD [OF inv]
  have c: "c \<noteq> NULL" "\<And>p. c \<notin> set (Q p)" using ready_not_waiting [OF inv r] by auto
  obtain s1 where s1: "thread_owned_mutex_remove c m s = Some s1" "owned_only s s1" "own_lists s1 (released Own c m)"
    "sched_inv s1 xs" "\<And>u n. u \<noteq> NULL \<Longrightarrow> n \<in> set (released Own c m u) \<longleftrightarrow> n \<noteq> m \<and> n \<noteq> NULL \<and> m_owner (mtx s n) = u"
    using release_owned [OF sch inv c(1) m] by blast
  note o = owned_onlyD [OF s1(2)]
  have h: "m_waiters (mtx s m) = NULL" using D(3) [of "Inl m"] q by simp
  define s2 where "s2 = upd_mutex m (m_owner_update (\<lambda>_. NULL)) (upd_mutex m (m_waiters_update (\<lambda>_. NULL)) s1)"
  have wh: "whead s2 p = whead s p" for p using h o by (cases p) (auto simp: s2_def)
  have "own_lists s2 (released Own c m)" using own_lists_cong [OF s1(3), of s2] by (simp add: s2_def)
  moreover have "n \<in> set (released Own c m t) \<longleftrightarrow> n \<noteq> NULL \<and> m_owner (mtx s2 n) = t" if "t \<noteq> NULL" for t n
    using s1(5) [OF that] that o by (auto simp: s2_def)
  moreover have "llist (wnx s2) (whead s2 p) (Q p)" for p
  proof -
    have "wnx s2 = wnx s" using o by (auto simp: s2_def)
    then show ?thesis using D(3) wh by simp
  qed
  moreover have "t_state (thr s2 t) = t_state (thr s t)" for t using o by (simp add: s2_def)
  moreover have "m_owner (mtx s2 n) \<noteq> NULL" if "Q (Inl n) \<noteq> []" for n
    using D(6) [OF that] that q o by (auto simp: s2_def)
  ultimately have i2: "sync_inv s2 (released Own c m) Q" using D(4,5) unfolding sync_inv_def by auto
  have k2: "sched_inv s2 xs"
    by (rule sched_inv_cong [OF s1(4)]) (use prio_ok_cong [OF sched_invD(2) [OF s1(4)], of s2] in \<open>auto simp: s2_def\<close>)
  define v where "v = inherited cfg s2 (Qm Q) (released Own c m c) c"
  let ?s = "upd_thread c (t_effective_priority_update (\<lambda>_. v)) s2"
  note rec = recompute_sync [OF k2 i2 c(1), of cfg, folded v_def]
  have run: "mutex_release cfg m c s = Some ?s"
    unfolding mutex_release_def using s1(1) h o(12) rec(1) by (simp add: s2_def)
  have "inherited cfg ?s (Qm Q) (released Own c m c) c = v"
    unfolding v_def by (rule inherited_cong) (use c(2) in auto)
  then have "eff ?s c = inherited cfg ?s (Qm Q) (released Own c m c) c" by simp
  moreover have "sync_inv ?s (released Own c m) Q" using i2 by simp
  moreover have "cpu ?s = cpu s" "m_owner (mtx ?s m) = NULL" using o by (simp_all add: s2_def)
  moreover have "t_state (thr ?s t) = t_state (thr s t)" "n \<noteq> m \<Longrightarrow> m_owner (mtx ?s n) = m_owner (mtx s n)" for t n
    using o by (auto simp: s2_def)
  ultimately show ?thesis using run rec(2) by blast
qed

lemma mutex_release_wakes:
  assumes sch: "sched_inv s xs" and inv: "sync_inv s Own Q" and r: "is_ready s c" and cc: "c = cur_thread s"
    and m: "m \<noteq> NULL" "m_owner (mtx s m) = c" and q: "Q (Inl m) \<noteq> []"
  shows "\<exists>ys b zs s' Own'. Q (Inl m) = ys @ b # zs \<and> first_max (eff s) ys b zs \<and> mutex_release cfg m c s = Some s' \<and>
    Own' = (released Own c m)(b := m # released Own c m b) \<and>
    sched_inv s' (xs @ [b]) \<and> sync_inv s' Own' (Q(Inl m := ys @ zs)) \<and>
    m_owner (mtx s' m) = b \<and> t_waiting_on (thr s' b) = NULL \<and> cur_thread s' = c \<and>
    (\<forall>t. t_state (thr s' t) = (if t = b then kThreadReady else t_state (thr s t))) \<and>
    (\<forall>n. n \<noteq> m \<longrightarrow> m_owner (mtx s' n) = m_owner (mtx s n)) \<and>
    eff s' c = inherited cfg s' (Qm (Q(Inl m := ys @ zs))) (Own' c) c \<and>
    need_resched (cpu s') = (if eff s' b > eff s' c then 1 else need_resched (cpu s)) \<and>
    cpu s' = (cpu s)\<lparr>need_resched := need_resched (cpu s')\<rparr>"
proof -
  note D = sync_invD [OF inv]
  have c: "c \<noteq> NULL" "\<And>p. c \<notin> set (Q p)" using ready_not_waiting [OF inv r] by auto
  obtain s1 where s1: "thread_owned_mutex_remove c m s = Some s1" "owned_only s s1" "own_lists s1 (released Own c m)"
    "sched_inv s1 xs" "\<And>u n. u \<noteq> NULL \<Longrightarrow> n \<in> set (released Own c m u) \<longleftrightarrow> n \<noteq> m \<and> n \<noteq> NULL \<and> m_owner (mtx s n) = u"
    using release_owned [OF sch inv c(1) m] by blast
  note o = owned_onlyD [OF s1(2)]
  have w1: "wnx s1 = wnx s" "eff s1 = eff s" using o by auto
  have q1: "llist (wnx s1) (m_waiters (mtx s1 m)) (Q (Inl m))" using D(3) [of "Inl m"] w1 o by simp
  obtain ys b zs h s2 where split: "Q (Inl m) = ys @ b # zs" and fm: "first_max (eff s) ys b zs"
    and pop: "waitq_pop_highest (m_waiters (mtx s1 m)) s1 = Some (b, h, s2)" and q2: "llist (wnx s2) h (ys @ zs)"
    and wo: "waits_only s1 s2" and fr: "\<And>u. u \<notin> set (Q (Inl m)) \<Longrightarrow> wnx s2 u = wnx s1 u"
    using waitq_pop_highest_spec [OF q1 q] w1(2) by metis
  note w = waits_only_simps [OF wo]
  have b: "b \<in> set (Q (Inl m))" "b \<noteq> NULL" "b \<noteq> c" "t_state (thr s b) = kThreadBlocked"
    using split lpath_not_NULL [OF q1] c(2) [of "Inl m"] D(5) [of b "Inl m"] by auto
  have bn: "b \<notin> set (ys @ zs)" using llist_distinct [OF q1] split by simp
  define Own' where "Own' = (released Own c m)(b := m # released Own c m b)"
  define s4 where "s4 = upd_thread b (t_waiting_on_update (\<lambda>_. NULL)) (upd_mutex m (m_owner_update (\<lambda>_. b))
      (upd_mutex m (m_waiters_update (\<lambda>_. h)) s2))"
  define s5 where "s5 = thread_owned_mutex_add b m s4"
  have l4: "own_lists s4 (released Own c m)"
    using own_lists_cong [OF s1(3), of s4] w by (simp add: s4_def)
  have a: "own_lists s5 Own'" "owned_only s4 s5"
    unfolding s5_def Own'_def using own_add [OF l4 b(2) m(1)] s1(5) by auto
  note o5 = owned_onlyD [OF a(2)]
  have k5: "sched_inv s5 xs"
    by (rule sched_inv_cong [OF s1(4)])
      (use prio_ok_cong [OF sched_invD(2) [OF s1(4)], of s5] o5 w in \<open>auto simp: s4_def\<close>)
  have b5: "t_state (thr s5 b) = kThreadBlocked" using o5 w o b by (simp add: s4_def)
  obtain s6 where s6: "sched_make_runnable b s5 = Some s6" "sched_inv s6 (xs @ [b])" "same_sync s5 s6"
    "\<And>u. t_state (thr s6 u) = (if u = b then kThreadReady else t_state (thr s5 u))"
    "\<And>u. t_wait_next (thr s6 u) = (if u = b then NULL else t_wait_next (thr s5 u))"
    using sched_make_runnable_spec [OF k5 b(2) b5] by blast
  note ss = s6(3) [unfolded same_sync_def]
  let ?Q = "Q(Inl m := ys @ zs)"
  have wh: "whead s6 p = (if p = Inl m then h else whead s p)" for p
    using ss o5 w o by (cases p) (simp_all add: s4_def)
  have wn: "wnx s6 u = (if u = b then NULL else wnx s2 u)" for u using s6(5) o5 by (simp add: s4_def)
  have ow: "m_owner (mtx s6 n) = (if n = m then b else m_owner (mtx s n))" for n using ss o5 w o by (simp add: s4_def)
  have st: "t_state (thr s6 t) = (if t = b then kThreadReady else t_state (thr s t))" for t
    using s6(4) o5 w o by (simp add: s4_def)
  have i6: "sync_inv s6 Own' ?Q"
  proof -
    have "own_lists s6 Own'" using own_lists_cong [OF a(1), of s6] ss by simp
    moreover have "n \<in> set (Own' t) \<longleftrightarrow> n \<noteq> NULL \<and> m_owner (mtx s6 n) = t" if "t \<noteq> NULL" for t n
      using s1(5) [OF that] m ow by (auto simp: Own'_def)
    moreover have "llist (wnx s6) (whead s6 p) (?Q p)" for p
    proof (cases "p = Inl m")
      case True
      have "lpath (wnx s6) h (ys @ zs) NULL = lpath (wnx s2) h (ys @ zs) NULL"
        by (rule lpath_cong) (use bn wn in auto)
      then show ?thesis using True q2 wh [of "Inl m"] by (simp del: lpath_append)
    next
      case False
      have "wnx s6 u = wnx s u" if "u \<in> set (Q p)" for u
        using that D(4) [OF False] b(1) fr [of u] wn w1(1) by (metis disjoint_iff)
      then have "lpath (wnx s6) (whead s p) (Q p) NULL = lpath (wnx s) (whead s p) (Q p) NULL"
        by (intro lpath_cong) auto
      then show ?thesis using False D(3) wh by simp
    qed
    moreover have sub: "set (?Q p) \<subseteq> set (Q p)" "b \<notin> set (?Q p)" for p
      using split bn D(4) [of p "Inl m"] b(1) by auto
    then have "set (?Q p) \<inter> set (?Q p') = {}" if "p \<noteq> p'" for p p' using D(4) [OF that] by blast
    moreover have "t_state (thr s6 t) = kThreadBlocked" if "t \<in> set (?Q p)" for t p
      using that sub [of p] D(5) [of t p] st by auto
    moreover have "m_owner (mtx s6 n) \<noteq> NULL" if "?Q (Inl n) \<noteq> []" for n
      using that D(6) [of n] b(2) ow by (auto simp: fun_upd_def split: if_splits)
    ultimately show ?thesis unfolding sync_inv_def by blast
  qed
  define v where "v = inherited cfg s6 (Qm ?Q) (Own' b) b"
  define s7 where "s7 = (if m_pi_enabled (mtx s6 m) = 0 then s6 else upd_thread b (t_effective_priority_update (\<lambda>_. v)) s6)"
  have ap: "mutex_apply_pi cfg m s6 = Some s7"
    using recompute_sync(1) [OF s6(2) i6 b(2), of cfg] m(1) ow b(2) by (simp add: mutex_apply_pi_def s7_def v_def)
  have k7: "sched_inv s7 (xs @ [b])" using recompute_sync(2) [OF s6(2) i6 b(2), of cfg] s6(2) by (simp add: s7_def v_def)
  have i7: "sync_inv s7 Own' ?Q" using i6 by (simp add: s7_def)
  define x where "x = inherited cfg s7 (Qm ?Q) (Own' c) c"
  define s8 where "s8 = upd_thread c (t_effective_priority_update (\<lambda>_. x)) s7"
  note rec = recompute_sync [OF k7 i7 c(1), of cfg, folded x_def, folded s8_def]
  define s' where "s' = (if eff s8 b > eff s8 c then upd_cpu (need_resched_update (\<lambda>_. 1)) s8 else s8)"
  have cpu8: "cpu s8 = cpu s" using ss o5 w o by (simp add: s8_def s7_def s4_def)
  have run: "mutex_release cfg m c s = Some s'"
    unfolding mutex_release_def Let_def
    using s1(1) pop b c(1) s6(1) ap rec(1) cpu8 cc
    by (simp add: s'_def s5_def s4_def thread_effective_priority_eff)
  have nq: "c \<notin> set (Qm ?Q n)" for n using c(2) [of "Inl m"] c(2) [of "Inl n"] split by auto
  have "inherited cfg s' (Qm ?Q) (Own' c) c = x"
    unfolding x_def s'_def s8_def by (rule inherited_cong) (use nq in auto)
  moreover have "eff s' c = x" by (simp add: s'_def s8_def)
  moreover have "sched_inv s' (xs @ [b])" using rec(2) sched_inv_upd_cpu [OF rec(2)] by (simp add: s'_def)
  moreover have "sync_inv s' Own' ?Q"
    using i7 sync_inv_sched_only [of s8] by (simp add: s'_def s8_def)
  moreover have "m_owner (mtx s' n) = (if n = m then b else m_owner (mtx s n))" for n
    using ow by (simp add: s'_def s8_def s7_def)
  moreover have "t_waiting_on (thr s' b) = NULL"
    using ss o5 b(3) by (simp add: s'_def s8_def s7_def s4_def)
  moreover have "cur_thread s' = c" using cpu8 cc by (simp add: s'_def)
  moreover have "t_state (thr s' t) = (if t = b then kThreadReady else t_state (thr s t))" for t
    using st by (simp add: s'_def s8_def s7_def)
  moreover have "need_resched (cpu s') = (if eff s' b > eff s' c then 1 else need_resched (cpu s))"
    using cpu8 by (simp add: s'_def)
  moreover have "cpu s' = (cpu s)\<lparr>need_resched := need_resched (cpu s')\<rparr>" using cpu8 by (simp add: s'_def)
  ultimately show ?thesis using split fm run Own'_def
    by (intro exI [of _ ys] exI [of _ b] exI [of _ zs] exI [of _ s'] exI [of _ Own'] conjI allI impI) simp_all
qed

end
