(* ===== verification/SyncRun.thy ===== *)
theory SyncRun
  imports SyncState
begin

text \<open>
  Runs of the scheduler together with the blocking primitives of \<^verbatim>\<open>src/sync.cc\<close>: one preservation
  lemma per entry point, the step relation \<open>sync_step\<close>, and what holds in all reachable states and
  all continuations. The last section also records what is wrong with the wait queues: a second
  waiter erases the first.
\<close>

section \<open>Every operation keeps the invariant\<close>

text \<open>
  \<open>step_ok s s' Own Q\<close>: from a state \<open>s\<close> with wait queues \<open>Q\<close> the state \<open>s'\<close> again satisfies both
  invariants, no wait queue has more than one thread, a thread blocked outside every queue stays so,
  and threads other than the running one keep the mutexes they own.
\<close>

definition blocked :: "kstate \<Rightarrow> addr \<Rightarrow> bool" where
  "blocked s t \<longleftrightarrow> t_state (thr s t) = kThreadBlocked"

definition step_ok :: "kstate \<Rightarrow> kstate \<Rightarrow> (addr \<Rightarrow> addr list) \<Rightarrow> (place \<Rightarrow> addr list) \<Rightarrow> bool" where
  "step_ok s s' Own Q \<longleftrightarrow> (\<exists>xs Own' Q'. sched_inv s' xs \<and> sync_inv s' Own' Q' \<and> (\<forall>p. length (Q' p) \<le> 1) \<and>
     (\<forall>t. blocked s t \<longrightarrow> (\<forall>p. t \<notin> set (Q p)) \<longrightarrow> blocked s' t \<and> (\<forall>p. t \<notin> set (Q' p))) \<and>
     (\<forall>t. t \<noteq> NULL \<longrightarrow> t \<noteq> cur_thread s \<longrightarrow> set (Own t) \<subseteq> set (Own' t)))"

definition sync_ok :: "kstate \<Rightarrow> addr list \<Rightarrow> (addr \<Rightarrow> addr list) \<Rightarrow> (place \<Rightarrow> addr list) \<Rightarrow> bool" where
  "sync_ok s xs Own Q \<longleftrightarrow> sched_inv s xs \<and> sync_inv s Own Q \<and> (\<forall>p. length (Q p) \<le> 1)"

lemma sync_okD:
  assumes "sync_ok s xs Own Q"
  shows "sched_inv s xs" "sync_inv s Own Q" "length (Q p) \<le> 1"
  using assms by (auto simp: sync_ok_def)

lemma step_okI:
  assumes "sched_inv s' ys" "sync_inv s' Own' Q'" "\<And>p. length (Q' p) \<le> 1"
    "\<And>t. blocked s t \<Longrightarrow> (\<And>p. t \<notin> set (Q p)) \<Longrightarrow> blocked s' t \<and> (\<forall>p. t \<notin> set (Q' p))"
    "\<And>t. t \<noteq> NULL \<Longrightarrow> t \<noteq> cur_thread s \<Longrightarrow> set (Own t) \<subseteq> set (Own' t)"
  shows "step_ok s s' Own Q"
  using assms unfolding step_ok_def by blast

lemma same_ok:
  assumes ok: "sync_ok s xs Own Q" and "sched_inv s' ys" "sync_inv s' Own' Q" "\<And>t. t_state (thr s' t) = t_state (thr s t)"
    "\<And>t. t \<noteq> NULL \<Longrightarrow> t \<noteq> cur_thread s \<Longrightarrow> set (Own t) \<subseteq> set (Own' t)"
  shows "step_ok s s' Own Q"
  by (rule step_okI [OF assms(2,3) sync_okD(3) [OF ok]]) (use assms(4,5) in \<open>simp_all add: blocked_def\<close>)

lemma refl_ok: "sync_ok s xs Own Q \<Longrightarrow> step_ok s s Own Q"
proof -
  assume ok: "sync_ok s xs Own Q"
  show ?thesis by (rule same_ok [OF ok sync_okD(1,2) [OF ok]]) auto
qed

lemma sched_only_ok: "sync_ok s xs Own Q \<Longrightarrow> sched_inv s' ys \<Longrightarrow> sched_only s s' \<Longrightarrow> step_ok s s' Own Q"
  by (rule same_ok) (auto simp: sched_only_def intro: sync_inv_sched_only [OF sync_okD(2)])

lemma enable_ok:
  assumes ok: "sync_ok s xs Own Q" and "step_ok s s1 Own Q" "preempt_enable cfg k s1 = Some s2"
  shows "step_ok s s2 Own Q"
proof -
  obtain ys Own' Q' where a: "sched_inv s1 ys" "sync_inv s1 Own' Q'" "\<And>p. length (Q' p) \<le> 1"
    "\<And>t. blocked s t \<Longrightarrow> (\<And>p. t \<notin> set (Q p)) \<Longrightarrow> blocked s1 t \<and> (\<forall>p. t \<notin> set (Q' p))"
    "\<And>t. t \<noteq> NULL \<Longrightarrow> t \<noteq> cur_thread s \<Longrightarrow> set (Own t) \<subseteq> set (Own' t)"
    using assms(2) unfolding step_ok_def by blast
  have o: "sched_only s1 s2" by (rule preempt_enable_only [OF assms(3)])
  have "sched_inv s2 ys" using preempt_enable_inv [OF a(1), of cfg k] assms(3) by simp
  then show ?thesis
    by (rule step_okI [OF _ sync_inv_sched_only [OF a(2) o] a(3)]) (use a(4,5) o in \<open>auto simp: blocked_def sched_only_def\<close>)
qed

lemma acquire_ok:
  assumes ok: "sync_ok s xs Own Q" and c: "c \<noteq> NULL" and m: "m \<noteq> NULL" "m_owner (mtx s m) = NULL"
  defines "s' \<equiv> upd_thread c (t_waiting_on_update (\<lambda>_. NULL)) (thread_owned_mutex_add c m (upd_mutex m (m_owner_update (\<lambda>_. c)) s))"
  shows "sched_inv s' xs" "sync_inv s' (Own(c := m # Own c)) Q" "step_ok s s' Own Q"
    "\<And>n. m_owner (mtx s' n) = (if n = m then c else m_owner (mtx s n))"
proof -
  note D = sync_invD [OF sync_okD(2) [OF ok]]
  define s1 where "s1 = upd_mutex m (m_owner_update (\<lambda>_. c)) s"
  have "m \<notin> set (Own u)" if "u \<noteq> NULL" for u using D(2) [OF that] m that by auto
  moreover have "own_lists s1 Own" using own_lists_cong [OF D(1), of s1] by (simp add: s1_def)
  ultimately have a: "own_lists (thread_owned_mutex_add c m s1) (Own(c := m # Own c))"
    "owned_only s1 (thread_owned_mutex_add c m s1)" using own_add [OF _ c m(1)] by blast+
  note o = owned_onlyD [OF a(2)]
  have e: "s' = upd_thread c (t_waiting_on_update (\<lambda>_. NULL)) (thread_owned_mutex_add c m s1)" by (simp add: s'_def s1_def)
  show k: "sched_inv s' xs"
    by (rule sched_inv_cong [OF sync_okD(1) [OF ok]])
      (use prio_ok_cong [OF sched_invD(2) [OF sync_okD(1) [OF ok]], of s'] o in \<open>auto simp: e s1_def\<close>)
  show ow: "m_owner (mtx s' n) = (if n = m then c else m_owner (mtx s n))" for n using o by (simp add: e s1_def)
  have "own_lists s' (Own(c := m # Own c))" using own_lists_cong [OF a(1), of s'] by (simp add: e)
  moreover have "whead s' p = whead s p" for p using o by (cases p) (simp_all add: e s1_def)
  moreover have "wnx s' = wnx s" using o by (auto simp: e s1_def)
  moreover have st: "t_state (thr s' t) = t_state (thr s t)" for t using o by (simp add: e s1_def)
  ultimately show i: "sync_inv s' (Own(c := m # Own c)) Q"
    using sync_okD(2) [OF ok] ow m c unfolding sync_inv_def by auto
  show "step_ok s s' Own Q" by (rule same_ok [OF ok k i st]) auto
qed

lemma waiting_on_ok:
  assumes ok: "sync_ok s xs Own Q"
  shows "sched_inv (upd_thread t (t_waiting_on_update f) s) xs" "sync_inv (upd_thread t (t_waiting_on_update f) s) Own Q"
proof -
  let ?s = "upd_thread t (t_waiting_on_update f) s"
  show "sched_inv ?s xs" by (rule sched_inv_upd_thread [OF sync_okD(1) [OF ok]]) simp_all
  have "whead ?s p = whead s p" for p by (rule whead_cong) simp_all
  moreover have "wnx ?s = wnx s" by auto
  ultimately show "sync_inv ?s Own Q"
    using sync_okD(2) [OF ok] unfolding sync_inv_def own_lists_def by simp
qed

lemma block_ok:
  assumes ok: "sync_ok s xs Own Q" and st: "\<And>t. t_state (thr s' t) = (if t = c then kThreadBlocked else t_state (thr s t))"
    and "sched_inv s' ys" "sync_inv s' Own (Q(p := [c]))" "is_ready s c"
  shows "step_ok s s' Own Q"
  by (rule step_okI [OF assms(3,4)]) (use sync_okD(3) [OF ok] st assms(5) in \<open>auto simp: blocked_def is_ready_def kconst_defs\<close>)

lemma wake_ok:
  assumes ok: "sync_ok s xs Own Q" and st: "\<And>t. t_state (thr s' t) = (if t = b then kThreadReady else t_state (thr s t))"
    and "sched_inv s' ys" "sync_inv s' Own' (Q(p := as @ bs))" "Q p = as @ b # bs"
    "\<And>t. t \<noteq> NULL \<Longrightarrow> t \<noteq> cur_thread s \<Longrightarrow> set (Own t) \<subseteq> set (Own' t)"
  shows "step_ok s s' Own Q"
proof (rule step_okI [OF assms(3,4) _ _ assms(6)])
  have sub: "set ((Q(p := as @ bs)) q) \<subseteq> set (Q q)" for q using assms(5) by auto
  show "length ((Q(p := as @ bs)) q) \<le> 1" for q using sync_okD(3) [OF ok, of q] sync_okD(3) [OF ok, of p] assms(5) by auto
  fix t assume t: "blocked s t" "\<And>q. t \<notin> set (Q q)"
  have "t \<noteq> b" using t(2) [of p] assms(5) by auto
  moreover have nq: "t \<notin> set ((Q(p := as @ bs)) q)" for q using t(2) [of q] sub [of q] by blast
  ultimately show "blocked s' t \<and> (\<forall>q. t \<notin> set ((Q(p := as @ bs)) q))"
    using t(1) st [of t] unfolding blocked_def by metis
qed

lemma release_ok:
  assumes ok: "sync_ok s xs Own Q" and r: "is_ready s c" and c: "c = cur_thread s" and m: "m \<noteq> NULL" "m_owner (mtx s m) = c"
    and run: "mutex_release cfg m c s = Some s'"
  shows "step_ok s s' Own Q"
proof (cases "Q (Inl m) = []")
  case True
  from mutex_release_empty [OF sync_okD(1,2) [OF ok] r m True, of cfg] run show ?thesis
    using same_ok [OF ok] c by (auto simp: released_def)
next
  case False
  obtain ys b zs Own' where w: "Q (Inl m) = ys @ b # zs" "sched_inv s' (xs @ [b])"
    "sync_inv s' Own' (Q(Inl m := ys @ zs))" "Own' = (released Own c m)(b := m # released Own c m b)"
    "\<And>t. t_state (thr s' t) = (if t = b then kThreadReady else t_state (thr s t))"
    using mutex_release_wakes [OF sync_okD(1,2) [OF ok] r c m False, of cfg] run by (metis option.inject)
  show ?thesis by (rule wake_ok [OF ok w(5,2,3,1)]) (auto simp: w(4) released_def c)
qed

lemma step_ok_from:
  "step_ok s s' Own Q \<Longrightarrow> (\<And>t. t_state (thr s0 t) = t_state (thr s t)) \<Longrightarrow>
   cur_thread s0 = cur_thread s \<Longrightarrow> step_ok s0 s' Own Q"
  by (auto simp: step_ok_def blocked_def)

lemma sync_ok_sched_only:
  "sync_ok s xs Own Q \<Longrightarrow> sched_inv s' ys \<Longrightarrow> sched_only s s' \<Longrightarrow> sync_ok s' ys Own Q"
  by (auto simp: sync_ok_def intro: sync_inv_sched_only)

lemma sync_ok_disable: "sync_ok s xs Own Q \<Longrightarrow> sync_ok (preempt_disable s) xs Own Q"
proof -
  assume ok: "sync_ok s xs Own Q"
  have "sched_inv (preempt_disable s) xs"
    using sched_inv_upd_cpu [OF sync_okD(1) [OF ok]] by (simp add: preempt_disable_def)
  then show ?thesis by (rule sync_ok_sched_only [OF ok]) (simp add: preempt_disable_def)
qed

lemma sync_ok_kont: "sync_ok s xs Own Q \<Longrightarrow> sync_ok (set_kont t k s) xs Own Q"
proof -
  assume ok: "sync_ok s xs Own Q"
  have "prio_ok (set_kont t k s)" using sched_invD(2) [OF sync_okD(1) [OF ok]] by (simp add: prio_ok_def)
  then have "sched_inv (set_kont t k s) xs" using sched_inv_cong [OF sync_okD(1) [OF ok]] by simp
  then show ?thesis by (rule sync_ok_sched_only [OF ok]) simp
qed

lemma disable_state: "thr (preempt_disable s) t = thr s t" "mtx (preempt_disable s) m = mtx s m"
  "sems (preempt_disable s) = sems s" "cur_thread (preempt_disable s) = cur_thread s"
  "is_ready (preempt_disable s) t = is_ready s t"
  by (simp_all add: preempt_disable_def is_ready_def)

lemma waiting_on_step:
  "sync_ok s xs Own Q \<Longrightarrow> step_ok s (upd_thread t (t_waiting_on_update f) s) Own Q"
  by (rule same_ok [OF _ waiting_on_ok(1) waiting_on_ok(2)]) auto

lemma mutex_lock_ok:
  assumes ok: "sync_ok s xs Own Q" and r: "is_ready s (cur_thread s)" and run: "mutex_lock cfg m s = Some s'"
  shows "step_ok s s' Own Q"
proof (cases "m = NULL")
  case True
  then show ?thesis using run refl_ok [OF ok] by (simp add: mutex_lock_def)
next
  case m: False
  let ?c = "cur_thread s"
  define s1 where "s1 = set_kont ?c KRun (preempt_disable s)"
  have ok1: "sync_ok s1 xs Own Q" unfolding s1_def by (intro sync_ok_kont sync_ok_disable ok)
  have c: "?c \<noteq> NULL" using r by (simp add: is_ready_def)
  have s1: "t_state (thr s t) = t_state (thr s1 t)" "mtx s1 n = mtx s n" "cur_thread s1 = ?c" for t n
    by (simp_all add: s1_def disable_state)
  have r1: "is_ready s1 ?c" using r by (simp add: s1_def disable_state is_ready_def)
  note run' = run [unfolded mutex_lock_def Let_def disable_state, folded s1_def]
  consider "m_owner (mtx s m) = ?c" | "m_owner (mtx s m) = NULL"
    | "m_owner (mtx s m) \<noteq> ?c" "m_owner (mtx s m) \<noteq> NULL" by blast
  then have "step_ok s1 s' Own Q"
  proof cases
    case 1
    then have "preempt_enable cfg KResched (upd_thread ?c (t_waiting_on_update (\<lambda>_. NULL)) s1) = Some s'"
      using run' m c s1 by simp
    then show ?thesis using enable_ok [OF ok1 waiting_on_step [OF ok1]] by blast
  next
    case 2
    then have e: "preempt_enable cfg KResched (upd_thread ?c (t_waiting_on_update (\<lambda>_. NULL))
        (thread_owned_mutex_add ?c m (upd_mutex m (m_owner_update (\<lambda>_. ?c)) s1))) = Some s'"
      using run' m c s1 by simp
    have "m_owner (mtx s1 m) = NULL" using 2 s1 by simp
    from acquire_ok(3) [OF ok1 c m this] e show ?thesis by (rule enable_ok [OF ok1])
  next
    case 3
    obtain s2 where b: "mutex_block cfg m ?c s1 = Some s2"
      and e: "preempt_enable cfg (KMutexLock m) (set_kont ?c (KMutexLock m) s2) = Some s'"
      using run' m c 3 s1 by (auto simp: bind_eq_Some_conv split: if_splits)
    have w: "m_owner (mtx s1 m) = m_owner (mtx s m)" using s1 by simp
    have blk: "sched_inv s2 (remove1 ?c xs)" "sync_inv s2 Own (Q(Inl m := [?c]))"
      "\<And>t. t_state (thr s2 t) = (if t = ?c then kThreadBlocked else t_state (thr s1 t))"
      using mutex_block_spec [OF sync_okD(1,2) [OF ok1] r1 s1(3) [symmetric] m w 3(2,1), of cfg] b by auto
    have len: "length ((Q(Inl m := [?c])) p) \<le> 1" for p using sync_okD(3) [OF ok] by simp
    have "sync_ok s2 (remove1 ?c xs) Own (Q(Inl m := [?c]))" using blk len by (simp add: sync_ok_def)
    then have "sync_ok (set_kont ?c (KMutexLock m) s2) (remove1 ?c xs) Own (Q(Inl m := [?c]))" by (rule sync_ok_kont)
    note k = sync_okD [OF this]
    have "step_ok s1 (set_kont ?c (KMutexLock m) s2) Own Q"
      by (rule block_ok [OF ok1 _ k(1,2) r1]) (use blk(3) in simp)
    then show ?thesis using e by (rule enable_ok [OF ok1])
  qed
  then show ?thesis using s1(1) s1(3) [symmetric] by (rule step_ok_from)
qed

lemma mutex_trylock_ok:
  assumes ok: "sync_ok s xs Own Q" and r: "is_ready s (cur_thread s)" and run: "mutex_trylock cfg m s = Some (v, s')"
  shows "step_ok s s' Own Q"
proof (cases "m = NULL")
  case True
  then show ?thesis using run refl_ok [OF ok] by (simp add: mutex_trylock_def)
next
  case m: False
  let ?c = "cur_thread s" and ?s = "preempt_disable s"
  have ok1: "sync_ok ?s xs Own Q" by (rule sync_ok_disable [OF ok])
  have c: "?c \<noteq> NULL" using r by (simp add: is_ready_def)
  note run' = run [unfolded mutex_trylock_def Let_def disable_state]
  consider "m_owner (mtx s m) = NULL" | "m_owner (mtx s m) = ?c" "m_owner (mtx s m) \<noteq> NULL"
    | "m_owner (mtx s m) \<noteq> ?c" "m_owner (mtx s m) \<noteq> NULL" by blast
  then have "step_ok ?s s' Own Q"
  proof cases
    case 1
    then have e: "preempt_enable cfg KResched (upd_thread ?c (t_waiting_on_update (\<lambda>_. NULL))
        (thread_owned_mutex_add ?c m (upd_mutex m (m_owner_update (\<lambda>_. ?c)) ?s))) = Some s'"
      using run' m c by (auto simp: bind_eq_Some_conv)
    have "m_owner (mtx ?s m) = NULL" using 1 by (simp add: disable_state)
    from acquire_ok(3) [OF ok1 c m this] e show ?thesis by (rule enable_ok [OF ok1])
  next
    case 2
    then have "preempt_enable cfg KResched (upd_thread ?c (t_waiting_on_update (\<lambda>_. NULL)) ?s) = Some s'"
      using run' m c by (auto simp: bind_eq_Some_conv)
    then show ?thesis using enable_ok [OF ok1 waiting_on_step [OF ok1]] by blast
  next
    case 3
    then have "preempt_enable cfg KResched ?s = Some s'" using run' m c by (auto simp: bind_eq_Some_conv)
    then show ?thesis by (rule enable_ok [OF ok1 refl_ok [OF ok1]])
  qed
  then show ?thesis by (rule step_ok_from) (simp_all add: disable_state)
qed

lemma mutex_unlock_ok:
  assumes ok: "sync_ok s xs Own Q" and r: "is_ready s (cur_thread s)" and run: "mutex_unlock cfg m s = Some s'"
  shows "step_ok s s' Own Q"
proof (cases "m = NULL")
  case True
  then show ?thesis using run refl_ok [OF ok] by (simp add: mutex_unlock_def)
next
  case m: False
  let ?c = "cur_thread s" and ?s = "preempt_disable s"
  have ok1: "sync_ok ?s xs Own Q" by (rule sync_ok_disable [OF ok])
  have c: "?c \<noteq> NULL" using r by (simp add: is_ready_def)
  note run' = run [unfolded mutex_unlock_def Let_def disable_state]
  have "step_ok ?s s' Own Q"
  proof (cases "m_owner (mtx s m) = ?c")
    case True
    then obtain s2 where s2: "mutex_release cfg m ?c ?s = Some s2" "preempt_enable cfg KResched s2 = Some s'"
      using run' m c by (auto simp: bind_eq_Some_conv)
    have "step_ok ?s s2 Own Q"
      by (rule release_ok [OF ok1 _ _ m _ s2(1)]) (use r True in \<open>simp_all add: disable_state\<close>)
    then show ?thesis using s2(2) by (rule enable_ok [OF ok1])
  next
    case False
    then have "preempt_enable cfg KResched ?s = Some s'" using run' m by simp
    then show ?thesis by (rule enable_ok [OF ok1 refl_ok [OF ok1]])
  qed
  then show ?thesis by (rule step_ok_from) (simp_all add: disable_state)
qed

lemma pi_flag_ok:
  assumes ok: "sync_ok s xs Own Q"
  shows "sync_ok (upd_mutex m (m_pi_enabled_update f) (preempt_disable s)) xs Own Q" (is "sync_ok ?s xs Own Q")
proof -
  have "sched_inv ?s xs"
    by (rule sched_inv_cong [OF sync_okD(1) [OF ok]])
      (use sched_invD(2) [OF sync_okD(1) [OF ok]] in \<open>auto simp: disable_state prio_ok_def preempt_disable_def\<close>)
  moreover have "sync_inv ?s Own Q"
  proof -
    have "whead ?s p = whead s p" for p by (cases p) (simp_all add: disable_state)
    moreover have "wnx ?s = wnx s" "mnx ?s = mnx s" by (auto simp: disable_state)
    moreover have "m_owner (mtx ?s n) = m_owner (mtx s n)" for n by (simp add: disable_state)
    ultimately show ?thesis using sync_okD(2) [OF ok] unfolding sync_inv_def own_lists_def
      by (simp add: disable_state)
  qed
  ultimately show ?thesis using sync_okD(3) [OF ok] by (simp add: sync_ok_def)
qed

lemma mutex_set_pi_ok:
  assumes ok: "sync_ok s xs Own Q" and run: "mutex_set_pi_enabled cfg m e s = Some s'"
  shows "step_ok s s' Own Q"
proof (cases "m = NULL")
  case True
  then show ?thesis using run refl_ok [OF ok] by (simp add: mutex_set_pi_enabled_def)
next
  case m: False
  define s1 where "s1 = upd_mutex m (m_pi_enabled_update (\<lambda>_. if e \<noteq> 0 then 1 else 0)) (preempt_disable s)"
  have ok1: "sync_ok s1 xs Own Q" unfolding s1_def by (rule pi_flag_ok [OF ok])
  let ?w = "m_owner (mtx s1 m)"
  obtain s2 where s2: "(if ?w \<noteq> NULL then recompute_effective_priority cfg ?w s1 else Some s1) = Some s2"
    "preempt_enable cfg KResched s2 = Some s'"
    using run m unfolding mutex_set_pi_enabled_def Let_def s1_def by (auto simp: bind_eq_Some_conv split: if_splits)
  have "step_ok s1 s2 Own Q"
  proof (cases "?w = NULL")
    case True
    then show ?thesis using s2(1) refl_ok [OF ok1] by simp
  next
    case False
    note rec = recompute_sync [OF sync_okD(1,2) [OF ok1] False, of cfg]
    have e: "s2 = upd_thread ?w (t_effective_priority_update (\<lambda>_. inherited cfg s1 (Qm Q) (Own ?w) ?w)) s1"
      using rec(1) s2(1) False by simp
    show ?thesis unfolding e
      by (rule same_ok [OF ok1 rec(2)]) (use sync_okD(2) [OF ok1] in auto)
  qed
  then have "step_ok s1 s' Own Q" using s2(2) by (rule enable_ok [OF ok1])
  then show ?thesis by (rule step_ok_from) (simp_all add: s1_def disable_state)
qed

lemma sem_count_ok:
  assumes ok: "sync_ok s xs Own Q"
  shows "sync_ok (upd_sem p (s_count_update f) s) xs Own Q"
proof -
  let ?s = "upd_sem p (s_count_update f) s"
  have "whead ?s q = whead s q" for q by (cases q) simp_all
  then have "sync_inv ?s Own Q" using sync_okD(2) [OF ok] unfolding sync_inv_def own_lists_def by simp
  moreover have "sched_inv ?s xs"
    by (rule sched_inv_cong [OF sync_okD(1) [OF ok]])
      (use sched_invD(2) [OF sync_okD(1) [OF ok]] in \<open>auto simp: prio_ok_def\<close>)
  ultimately show ?thesis using sync_okD(3) [OF ok] by (simp add: sync_ok_def)
qed

lemma sem_wake_spec:
  assumes ok: "sync_ok s xs Own Q" and ne: "Q (Inr p) \<noteq> []"
  shows "\<exists>ys b zs s'. Q (Inr p) = ys @ b # zs \<and> first_max (eff s) ys b zs \<and> sem_wake p s = Some s' \<and>
    sched_inv s' (xs @ [b]) \<and> sync_inv s' Own (Q(Inr p := ys @ zs)) \<and>
    (\<forall>t. t_state (thr s' t) = (if t = b then kThreadReady else t_state (thr s t))) \<and>
    cpu s' = (cpu s)\<lparr>need_resched := need_resched (cpu s')\<rparr> \<and> (\<forall>t. eff s' t = eff s t) \<and>
    (cur_thread s \<noteq> NULL \<and> eff s (cur_thread s) < eff s b \<longrightarrow> need_resched (cpu s') = 1)"
proof -
  note D = sync_invD [OF sync_okD(2) [OF ok]]
  have q1: "llist (wnx s) (s_waiters (sems s p)) (Q (Inr p))" using D(3) [of "Inr p"] by simp
  obtain ys b zs h s2 where split: "Q (Inr p) = ys @ b # zs" and fm: "first_max (eff s) ys b zs"
    and pop: "waitq_pop_highest (s_waiters (sems s p)) s = Some (b, h, s2)" and q2: "llist (wnx s2) h (ys @ zs)"
    and wo: "waits_only s s2" and fr: "\<And>u. u \<notin> set (Q (Inr p)) \<Longrightarrow> wnx s2 u = wnx s u"
    using waitq_pop_highest_spec [OF q1 ne] by metis
  note w = waits_only_simps [OF wo]
  have b: "b \<in> set (Q (Inr p))" "b \<noteq> NULL" "t_state (thr s b) = kThreadBlocked"
    using split lpath_not_NULL [OF q1] D(5) [of b "Inr p"] by auto
  have bn: "b \<notin> set (ys @ zs)" using llist_distinct [OF q1] split by simp
  define s5 where "s5 = upd_sem p (s_waiters_update (\<lambda>_. h)) s2"
  have k5: "sched_inv s5 xs"
    by (rule sched_inv_cong [OF sync_okD(1) [OF ok]])
      (use prio_ok_cong [OF sched_invD(2) [OF sync_okD(1) [OF ok]], of s5] w in \<open>auto simp: s5_def\<close>)
  have b5: "t_state (thr s5 b) = kThreadBlocked" using w b by (simp add: s5_def)
  obtain s6 where s6: "sched_make_runnable b s5 = Some s6" "sched_inv s6 (xs @ [b])" "same_sync s5 s6"
    "\<And>u. t_state (thr s6 u) = (if u = b then kThreadReady else t_state (thr s5 u))"
    "\<And>u. t_wait_next (thr s6 u) = (if u = b then NULL else t_wait_next (thr s5 u))"
    using sched_make_runnable_spec [OF k5 b(2) b5] by blast
  note ss = s6(3) [unfolded same_sync_def]
  let ?Q = "Q(Inr p := ys @ zs)"
  have wh: "whead s6 q = (if q = Inr p then h else whead s q)" for q
    using ss w by (cases q) (simp_all add: s5_def)
  have wn: "wnx s6 u = (if u = b then NULL else wnx s2 u)" for u using s6(5) by (simp add: s5_def)
  have st: "t_state (thr s6 t) = (if t = b then kThreadReady else t_state (thr s t))" for t
    using s6(4) w by (simp add: s5_def)
  have i6: "sync_inv s6 Own ?Q"
  proof -
    have "own_lists s6 Own" using own_lists_cong [OF D(1), of s6] ss w by (simp add: s5_def)
    moreover have ow: "m_owner (mtx s6 n) = m_owner (mtx s n)" for n using ss w by (simp add: s5_def)
    moreover have "llist (wnx s6) (whead s6 q) (?Q q)" for q
    proof (cases "q = Inr p")
      case True
      have "lpath (wnx s6) h (ys @ zs) NULL = lpath (wnx s2) h (ys @ zs) NULL"
        by (rule lpath_cong) (use bn wn in auto)
      then show ?thesis using True q2 wh [of "Inr p"] by (simp del: lpath_append)
    next
      case False
      have "wnx s6 u = wnx s u" if "u \<in> set (Q q)" for u
        using that D(4) [OF False] b(1) fr [of u] wn by (metis disjoint_iff)
      then have "lpath (wnx s6) (whead s q) (Q q) NULL = lpath (wnx s) (whead s q) (Q q) NULL"
        by (intro lpath_cong) auto
      then show ?thesis using False D(3) wh by simp
    qed
    moreover have sub: "set (?Q q) \<subseteq> set (Q q)" "b \<notin> set (?Q q)" for q
      using split bn D(4) [of q "Inr p"] b(1) by auto
    then have "set (?Q q) \<inter> set (?Q q') = {}" if "q \<noteq> q'" for q q' using D(4) [OF that] by blast
    moreover have "t_state (thr s6 t) = kThreadBlocked" if "t \<in> set (?Q q)" for t q
      using that sub [of q] D(5) [of t q] st by auto
    ultimately show ?thesis using D(2,6) unfolding sync_inv_def by auto
  qed
  define s' where "s' = (if cur_thread s6 \<noteq> NULL \<and> thread_effective_priority s6 b > thread_effective_priority s6 (cur_thread s6)
      then upd_cpu (need_resched_update (\<lambda>_. 1)) s6 else s6)"
  have "sem_wake p s = Some s'"
    unfolding sem_wake_def Let_def using pop b s6(1) by (simp add: s'_def s5_def)
  moreover have "sched_inv s' (xs @ [b])" "sync_inv s' Own ?Q"
    using s6(2) sched_inv_upd_cpu [OF s6(2)] i6 sync_inv_sched_only [OF i6] by (auto simp: s'_def)
  moreover have "t_state (thr s' t) = (if t = b then kThreadReady else t_state (thr s t))" for t
    using st by (simp add: s'_def)
  moreover have "cpu s' = (cpu s)\<lparr>need_resched := need_resched (cpu s')\<rparr> \<and> (\<forall>t. eff s' t = eff s t) \<and>
    (cur_thread s \<noteq> NULL \<and> eff s (cur_thread s) < eff s b \<longrightarrow> need_resched (cpu s') = 1)"
  proof -
    have "cpu s6 = cpu s" "\<And>t. eff s6 t = eff s t" using ss w by (simp_all add: s5_def)
    then show ?thesis using b(2) by (auto simp: s'_def thread_effective_priority_def)
  qed
  ultimately show ?thesis using split fm by blast
qed

lemma sem_wake_ok:
  assumes ok: "sync_ok s xs Own Q" and run: "sem_wake p s = Some s'"
  shows "step_ok s s' Own Q"
proof (cases "Q (Inr p) = []")
  case True
  then have "s_waiters (sems s p) = NULL" using sync_invD(3) [OF sync_okD(2) [OF ok], of "Inr p"] by simp
  moreover have "upd_sem p (s_waiters_update (\<lambda>_. s_waiters (sems s p))) s = s"
    by (simp add: upd_sem_def)
  ultimately have "s' = s" using run by (simp add: sem_wake_def)
  then show ?thesis using refl_ok [OF ok] by simp
next
  case False
  obtain ys b zs where w: "Q (Inr p) = ys @ b # zs" "sched_inv s' (xs @ [b])" "sync_inv s' Own (Q(Inr p := ys @ zs))"
    "\<And>t. t_state (thr s' t) = (if t = b then kThreadReady else t_state (thr s t))"
    using sem_wake_spec [OF ok False] run by (metis option.inject)
  show ?thesis by (rule wake_ok [OF ok w(4,2,3,1)]) simp
qed

lemma sem_up_ok:
  assumes ok: "sync_ok s xs Own Q" and run: "sem_up cfg p s = Some s'"
  shows "step_ok s s' Own Q"
proof (cases "p = NULL")
  case True
  then show ?thesis using run refl_ok [OF ok] by (simp add: sem_up_def)
next
  case False
  let ?s = "upd_sem p (s_count_update (\<lambda>c. c + 1)) (preempt_disable s)"
  have ok1: "sync_ok ?s xs Own Q" by (intro sem_count_ok sync_ok_disable ok)
  obtain s2 where s2: "(if s_count (sems ?s p) \<le> 0 then sem_wake p ?s else Some ?s) = Some s2"
    "preempt_enable cfg KResched s2 = Some s'"
    using run False unfolding sem_up_def Let_def by (auto simp: bind_eq_Some_conv split: if_splits)
  have "step_ok ?s s2 Own Q"
    using s2(1) sem_wake_ok [OF ok1] refl_ok [OF ok1] by (auto split: if_splits)
  from enable_ok [OF ok1 this s2(2)] show ?thesis by (rule step_ok_from) (simp_all add: disable_state)
qed

lemma sem_down_ok:
  assumes ok: "sync_ok s xs Own Q" and r: "is_ready s (cur_thread s)" and run: "sem_down cfg p s = Some s'"
  shows "step_ok s s' Own Q"
proof (cases "p = NULL")
  case True
  then show ?thesis using run refl_ok [OF ok] by (simp add: sem_down_def)
next
  case p: False
  let ?s = "upd_sem p (s_count_update (\<lambda>c. c - 1)) (preempt_disable s)" and ?c = "cur_thread s"
  have ok1: "sync_ok ?s xs Own Q" by (intro sem_count_ok sync_ok_disable ok)
  have c: "?c \<noteq> NULL" "is_ready ?s ?c" "?c = cur_thread ?s" using r by (simp_all add: is_ready_def disable_state)
  have "step_ok ?s s' Own Q"
  proof (cases "s_count (sems ?s p) \<ge> 0")
    case True
    then have "preempt_enable cfg KResched ?s = Some s'" using run p by (simp add: sem_down_def Let_def)
    then show ?thesis by (rule enable_ok [OF ok1 refl_ok [OF ok1]])
  next
    case False
    then obtain s2 where s2: "sem_block p ?c ?s = Some s2" "preempt_enable cfg KResched s2 = Some s'"
      using run p c(1,3) by (auto simp: sem_down_def Let_def bind_eq_Some_conv)
    have blk: "sched_inv s2 (remove1 ?c xs)" "sync_inv s2 Own (Q(Inr p := [?c]))"
      "\<And>t. t_state (thr s2 t) = (if t = ?c then kThreadBlocked else t_state (thr ?s t))"
      using sem_block_spec [OF sync_okD(1,2) [OF ok1] c(2,3), of p] s2(1) by auto
    have "step_ok ?s s2 Own Q" by (rule block_ok [OF ok1 blk(3,1,2) c(2)])
    then show ?thesis using s2(2) by (rule enable_ok [OF ok1])
  qed
  then show ?thesis by (rule step_ok_from) (simp_all add: disable_state)
qed

section \<open>Runs\<close>

text \<open>
  The entry points of the scheduler and of the blocking primitives in any order. The primitives are
  called by the running thread, which is ready; objects are initialised while they are unused, and
  a thread is added once. \<^verbatim>\<open>mutex_lock\<close> is taken round by round, so a thread that was switched out
  inside it may do anything a thread may do, in particular the next round.
\<close>

inductive sync_step :: "kconfig \<Rightarrow> kstate \<Rightarrow> kstate \<Rightarrow> bool" for cfg where
  sync_lock: "is_ready s (cur_thread s) \<Longrightarrow> mutex_lock cfg m s = Some s' \<Longrightarrow> sync_step cfg s s'"
| sync_trylock: "is_ready s (cur_thread s) \<Longrightarrow> mutex_trylock cfg m s = Some (v, s') \<Longrightarrow> sync_step cfg s s'"
| sync_unlock: "is_ready s (cur_thread s) \<Longrightarrow> mutex_unlock cfg m s = Some s' \<Longrightarrow> sync_step cfg s s'"
| sync_down: "is_ready s (cur_thread s) \<Longrightarrow> sem_down cfg p s = Some s' \<Longrightarrow> sync_step cfg s s'"
| sync_up: "sem_up cfg p s = Some s' \<Longrightarrow> sync_step cfg s s'"
| sync_set_pi: "mutex_set_pi_enabled cfg m e s = Some s' \<Longrightarrow> sync_step cfg s s'"
| sync_mutex_init: "m_owner (mtx s m) = NULL \<Longrightarrow> sync_step cfg s (mutex_init cfg m s)"
| sync_sem_init: "s_waiters (sems s p) = NULL \<Longrightarrow> sync_step cfg s (sem_init p n s)"
| sync_add: "t_next (thr s t) = NULL \<Longrightarrow> t_state (thr s t) = kThreadReady \<Longrightarrow> sched_add t s = Some s' \<Longrightarrow> sync_step cfg s s'"
| sync_start: "rq_head s \<noteq> NULL \<Longrightarrow> sched_start cfg s = Some s' \<Longrightarrow> sync_step cfg s s'"
| sync_yield: "thread_yield cfg s = Some s' \<Longrightarrow> sync_step cfg s s'"
| sync_tick: "sched_on_tick cfg s = Some s' \<Longrightarrow> sync_step cfg s s'"
| sync_irq_return: "preempt_return cfg s = Some s' \<Longrightarrow> sync_step cfg s s'"
| sync_disable: "sync_step cfg s (preempt_disable s)"
| sync_enable: "preempt_enable cfg k s = Some s' \<Longrightarrow> sync_step cfg s s'"
| sync_thread: "sync_step cfg s (s\<lparr>regs := r, bytes := b\<rparr>)"

lemma arch_switch_frame: "threads (snd (arch_switch p x)) = threads x" "mutexes (snd (arch_switch p x)) = mutexes x"
  "sems (snd (arch_switch p x)) = sems x"
  by (simp_all add: arch_switch_eq [where f = "r_sp (regs x) - 96" and s = x])

lemma sched_start_only: "sched_start cfg s = Some s' \<Longrightarrow> sched_only s s'"
  by (auto simp: sched_start_def sched_only_def Let_def bind_eq_Some_conv case_prod_beta arch_switch_frame split: if_splits)

lemma sched_add_only:
  assumes "sched_inv s xs" "t_next (thr s t) = NULL" "t_state (thr s t) = kThreadReady" "sched_add t s = Some s'"
  shows "(\<exists>ys. sched_inv s' ys) \<and> sched_only s s'"
proof (cases "t = NULL")
  case True
  then show ?thesis using assms by (auto simp: sched_add_def)
next
  case False
  have t: "t \<notin> set xs" using rq_next_mem [OF sched_invD(1) [OF assms(1)]] assms(2) by metis
  have "rq_append t s = Some s'" using assms(3,4) False by (simp add: sched_add_def)
  then have l: "links_only s s'" using rq_append_spec [OF sched_invD(1) [OF assms(1)] False t] by auto
  have "sched_only s s'" using links_only_simps [OF l] by (simp add: sched_only_def)
  moreover have "\<exists>ys. sched_inv s' ys" using sched_add_inv [OF assms(1) False t] assms(4) by auto
  ultimately show ?thesis by blast
qed

lemma sync_step_ok:
  assumes "sync_step cfg s s'" "sync_ok s xs Own Q"
  shows "step_ok s s' Own Q"
  using assms
proof (induction rule: sync_step.induct)
  case (sync_mutex_init s m)
  show ?case
  proof (cases "m = NULL")
    case True
    then show ?thesis using refl_ok [OF sync_mutex_init(2)] by (simp add: mutex_init_def)
  next
    case m: False
    note D = sync_invD [OF sync_okD(2) [OF sync_mutex_init(2)]]
    let ?s = "mutex_init cfg m s"
    have "Q (Inl m) = []" using D(6) [of m] sync_mutex_init(1) by blast
    then have w: "m_waiters (mtx s m) = NULL" using D(3) [of "Inl m"] by simp
    have nm: "m \<notin> set (Own t)" if "t \<noteq> NULL" for t using D(2) [OF that] sync_mutex_init(1) that by auto
    have wh: "whead ?s p = whead s p" for p using m w by (cases p) (auto simp: mutex_init_def)
    have mt: "mnx ?s = (mnx s)(m := NULL)" "m_owner (mtx ?s n) = m_owner (mtx s n)" "threads ?s = threads s" for n
      using m sync_mutex_init(1) by (auto simp: mutex_init_def)
    have "llist (mnx ?s) (t_owned_mutexes (thr ?s t)) (Own t)" if "t \<noteq> NULL" for t
      using D(1) nm [OF that] that unfolding mt own_lists_def by simp
    then have i: "sync_inv ?s Own Q"
      using sync_okD(2) [OF sync_mutex_init(2)] unfolding sync_inv_def own_lists_def by (simp add: wh mt(2,3))
    have "sched_inv ?s xs"
      by (rule sched_inv_cong [OF sync_okD(1) [OF sync_mutex_init(2)]])
        (use sched_invD(2) [OF sync_okD(1) [OF sync_mutex_init(2)]] in \<open>auto simp: mutex_init_def prio_ok_def\<close>)
    from same_ok [OF sync_mutex_init(2) this i] show ?thesis by (simp add: mt)
  qed
next
  case (sync_sem_init s p n)
  let ?s = "sem_init p n s"
  have wh: "whead ?s q = whead s q" for q using sync_sem_init(1) by (cases q) (auto simp: sem_init_def)
  have st: "threads ?s = threads s" "mutexes ?s = mutexes s" "cpu ?s = cpu s" by (simp_all add: sem_init_def)
  have i: "sync_inv ?s Own Q"
    using sync_okD(2) [OF sync_sem_init(2)] unfolding sync_inv_def own_lists_def by (simp add: wh st)
  have "sched_inv ?s xs"
    by (rule sched_inv_cong [OF sync_okD(1) [OF sync_sem_init(2)]])
      (use sched_invD(2) [OF sync_okD(1) [OF sync_sem_init(2)]] in \<open>auto simp: sem_init_def prio_ok_def\<close>)
  from same_ok [OF sync_sem_init(2) this i] show ?case by (simp add: st)
next
  case (sync_add s t s')
  then show ?case using sched_add_only [OF sync_okD(1)] sched_only_ok by blast
next
  case (sync_start s s')
  have "xs \<noteq> []" using rq_inv_head [OF sched_invD(1) [OF sync_okD(1) [OF sync_start(3)]]] sync_start(1) by blast
  then have "sched_inv s' xs" using sched_start_inv [OF sync_okD(1) [OF sync_start(3)], of cfg] sync_start(2) by auto
  then show ?case using sched_only_ok [OF sync_start(3)] sched_start_only [OF sync_start(2)] by blast
next
  case (sync_yield s s')
  then show ?case using thread_yield_inv [OF sync_okD(1)] sched_only_ok thread_yield_only by (metis option.inject)
next
  case (sync_tick s s')
  have "cur_thread s \<noteq> NULL \<Longrightarrow> stack_guard_ok s (cur_thread s)"
    using sync_tick(1) by (auto simp: sched_on_tick_def Let_def split: if_splits)
  moreover have "stack_guard_ok s NULL" by (simp add: stack_guard_ok_def)
  ultimately have "stack_guard_ok s (cur_thread s)" by metis
  from sched_on_tick_inv [OF sync_okD(1) [OF sync_tick(2)] this, of cfg] sync_tick show ?case
    using sched_only_ok sched_on_tick_only by (metis option.inject)
next
  case (sync_irq_return s s')
  then show ?case using preempt_return_inv [OF sync_okD(1)] sched_only_ok preempt_return_only by (metis option.inject)
next
  case (sync_disable s)
  from sync_okD(1) [OF sync_ok_disable [OF sync_disable]] show ?case
    by (rule sched_only_ok [OF sync_disable]) (simp add: preempt_disable_def)
next
  case (sync_enable k s s')
  then show ?case using enable_ok refl_ok by blast
next
  case (sync_thread s b r)
  let ?s = "s\<lparr>regs := r, bytes := b\<rparr>"
  have "sched_inv ?s xs"
    by (rule sched_inv_cong [OF sync_okD(1) [OF sync_thread]])
      (use sched_invD(2) [OF sync_okD(1) [OF sync_thread]] in \<open>auto simp: prio_ok_def\<close>)
  then show ?case by (rule sched_only_ok [OF sync_thread]) (simp add: sched_only_def)
next
  case (sync_lock s m s')
  show ?case by (rule mutex_lock_ok [OF sync_lock(3,1,2)])
next
  case (sync_trylock s m v s')
  show ?case by (rule mutex_trylock_ok [OF sync_trylock(3,1,2)])
next
  case (sync_unlock s m s')
  show ?case by (rule mutex_unlock_ok [OF sync_unlock(3,1,2)])
next
  case (sync_down s p s')
  show ?case by (rule sem_down_ok [OF sync_down(3,1,2)])
next
  case (sync_up p s s')
  show ?case by (rule sem_up_ok [OF sync_up(2,1)])
next
  case (sync_set_pi m e s s')
  show ?case by (rule mutex_set_pi_ok [OF sync_set_pi(2,1)])
qed

lemma step_ok_sync_ok: "step_ok s s' Own Q \<Longrightarrow> \<exists>xs Own' Q'. sync_ok s' xs Own' Q'"
  unfolding step_ok_def sync_ok_def by blast

lemma sync_ok_boot: "sync_ok boot_state [] (\<lambda>_. []) (\<lambda>_. [])"
proof -
  have "whead boot_state p = NULL" for p by (cases p) (simp_all add: boot_state_def)
  then show ?thesis using sched_inv_boot
    by (auto simp: sync_ok_def sync_inv_def own_lists_def) (simp_all add: boot_state_def zero_thread_def)
qed

lemma sync_steps_ok:
  assumes "(sync_step cfg)\<^sup>*\<^sup>* s s'" "\<exists>xs Own Q. sync_ok s xs Own Q"
  shows "\<exists>xs Own Q. sync_ok s' xs Own Q"
  using assms(1)
proof (induction rule: rtranclp_induct)
  case base
  show ?case by (rule assms(2))
next
  case (step y z)
  then obtain xs Own Q where "sync_ok y xs Own Q" by blast
  from sync_step_ok [OF step(2) this] show ?case by (rule step_ok_sync_ok)
qed

text \<open>A thread is lost when it is blocked and no wait queue holds it.\<close>

definition lost :: "kstate \<Rightarrow> addr \<Rightarrow> bool" where
  "lost s t \<longleftrightarrow> t_state (thr s t) = kThreadBlocked \<and> (\<forall>p ts. llist (wnx s) (whead s p) ts \<longrightarrow> t \<notin> set ts)"

lemma lost_iff: "sync_ok s xs Own Q \<Longrightarrow> lost s t \<longleftrightarrow> blocked s t \<and> (\<forall>p. t \<notin> set (Q p))"
proof -
  assume "sync_ok s xs Own Q"
  note q = sync_invD(3) [OF sync_okD(2) [OF this]]
  have "(\<forall>ts. llist (wnx s) (whead s p) ts \<longrightarrow> t \<notin> set ts) \<longleftrightarrow> t \<notin> set (Q p)" for p
    using q [of p] llist_unique [OF q [of p]] by blast
  then show ?thesis by (simp add: lost_def blocked_def)
qed

lemma lost_step:
  assumes "sync_step cfg s s'" "sync_ok s xs Own Q" "lost s t"
  shows "lost s' t"
proof -
  have l: "blocked s t" "\<forall>p. t \<notin> set (Q p)" using assms(3) unfolding lost_iff [OF assms(2)] by simp_all
  obtain ys Own' Q' where "sched_inv s' ys" "sync_inv s' Own' Q'" "\<forall>p. length (Q' p) \<le> 1"
    and a: "\<forall>t. blocked s t \<longrightarrow> (\<forall>p. t \<notin> set (Q p)) \<longrightarrow> blocked s' t \<and> (\<forall>p. t \<notin> set (Q' p))"
    using sync_step_ok [OF assms(1,2)] unfolding step_ok_def by (elim exE conjE)
  then have "sync_ok s' ys Own' Q'" by (simp add: sync_ok_def)
  from lost_iff [OF this] a l show ?thesis by simp
qed

lemma lost_steps:
  assumes "(sync_step cfg)\<^sup>*\<^sup>* s s'" "sync_ok s xs Own Q" "lost s t"
  shows "lost s' t"
  using assms(1)
proof (induction rule: rtranclp_induct)
  case base
  show ?case by (rule assms(3))
next
  case (step y z)
  have "\<exists>xs Own Q. sync_ok s xs Own Q" using assms(2) by blast
  then obtain ys Own' Q' where "sync_ok y ys Own' Q'" using sync_steps_ok [OF step(1)] by blast
  then show ?case using lost_step [OF step(2)] step.IH by blast
qed

section \<open>What the primitives promise\<close>

lemma reach_sync_ok: "(sync_step cfg)\<^sup>*\<^sup>* boot_state s \<Longrightarrow> \<exists>xs Own Q. sync_ok s xs Own Q"
  using sync_steps_ok sync_ok_boot by blast


text \<open>
  C23: mutual exclusion. A step of the system in which the running thread is not the owner of a held
  mutex leaves the owner alone: nobody else can release or take over the mutex.
\<close>
theorem mutex_owner_stable:
  assumes ok: "sync_ok s xs Own Q" and step: "sync_step cfg s s'"
    and m: "m \<noteq> NULL" "m_owner (mutexes s m) = t" "t \<noteq> NULL" "t \<noteq> cur_thread s"
  shows "m_owner (mutexes s' m) = t"
proof -
  obtain Own' Q' where i: "sync_inv s' Own' Q'" and sub: "set (Own t) \<subseteq> set (Own' t)"
    using sync_step_ok [OF step ok] m(3,4) unfolding step_ok_def by (elim exE conjE) blast
  have "m \<in> set (Own t)" using sync_invD(2) [OF sync_okD(2) [OF ok] m(3)] m(1,2) by blast
  then show ?thesis using sync_invD(2) [OF i m(3)] sub by blast
qed

text \<open>The running thread blocks on a mutex that another thread owns.\<close>

lemma mutex_lock_contended_ok:
  assumes ok: "sync_ok s xs Own Q" and r: "is_ready s c" and c: "c = cur_thread s"
    and m: "m \<noteq> NULL" "m_owner (mtx s m) = w" "w \<noteq> NULL" "w \<noteq> c" and nl: "\<not> lockdep cfg"
  shows "\<exists>s'. mutex_lock cfg m s = Some s' \<and> sync_ok s' (remove1 c xs) Own (Q(Inl m := [c])) \<and> blocked s' c \<and>
    t_waiting_on (thr s' c) = m \<and> (\<forall>t. t \<noteq> c \<longrightarrow> t_state (thr s' t) = t_state (thr s t)) \<and>
    (mutex_pi cfg \<and> m_pi_enabled (mtx s m) \<noteq> 0 \<longrightarrow> eff s' c \<le> eff s' w)"
proof -
  define s1 where "s1 = set_kont c KRun (preempt_disable s)"
  have ok1: "sync_ok s1 xs Own Q" unfolding s1_def by (intro sync_ok_kont sync_ok_disable ok)
  have s1: "mtx s1 n = mtx s n" "cur_thread s1 = c" "t_state (thr s1 t) = t_state (thr s t)" for n t
    using c by (simp_all add: s1_def disable_state)
  have r1: "is_ready s1 c" using r by (simp add: s1_def disable_state is_ready_def)
  have w1: "m_owner (mtx s1 m) = w" using m s1 by simp
  obtain s2 where s2: "mutex_block cfg m c s1 = Some s2" "sched_inv s2 (remove1 c xs)" "sync_inv s2 Own (Q(Inl m := [c]))"
    "\<And>t. t_state (thr s2 t) = (if t = c then kThreadBlocked else t_state (thr s1 t))" "t_waiting_on (thr s2 c) = m"
    "mutex_pi cfg \<and> m_pi_enabled (mtx s1 m) \<noteq> 0 \<longrightarrow> eff s2 c \<le> eff s2 w"
    using mutex_block_spec [OF sync_okD(1,2) [OF ok1] r1 s1(2) [symmetric] m(1) w1 m(3,4), of cfg] by blast
  have ok2: "sync_ok s2 (remove1 c xs) Own (Q(Inl m := [c]))" using s2 sync_okD(3) [OF ok] by (simp add: sync_ok_def)
  let ?s = "set_kont c (KMutexLock m) s2"
  have ok3: "sync_ok ?s (remove1 c xs) Own (Q(Inl m := [c]))" by (rule sync_ok_kont [OF ok2])
  obtain s' where s': "preempt_enable cfg (KMutexLock m) ?s = Some s'" "sched_inv s' (remove1 c xs)"
    using preempt_enable_inv [OF sync_okD(1) [OF ok3]] by blast
  have o: "sched_only ?s s'" by (rule preempt_enable_only [OF s'(1)])
  have cn: "c \<noteq> NULL" using r by (simp add: is_ready_def)
  have "mutex_lock cfg m s = Some s'"
    unfolding mutex_lock_def Let_def disable_state c [symmetric] s1_def [symmetric] using m nl s2(1) s'(1) s1 cn by simp
  moreover have "sync_ok s' (remove1 c xs) Own (Q(Inl m := [c]))" by (rule sync_ok_sched_only [OF ok3 s'(2) o])
  ultimately show ?thesis using s2(4-6) o s1 by (auto simp: sched_only_def blocked_def)
qed

text \<open>
  C24: locking a mutex that another thread owns returns no error and does not take the mutex: the caller
  is blocked, out of the run queue and at the head of the wait queue, the owner is unchanged, and with
  priority inheritance the owner now has at least the caller's effective priority.
\<close>
theorem mutex_lock_contended:
  assumes "sync_ok s xs Own Q" "is_ready s (cur_thread s)" "m \<noteq> NULL"
    and "m_owner (mutexes s m) = w" "w \<noteq> NULL" "w \<noteq> cur_thread s" "\<not> lockdep cfg"
  shows "\<exists>s'. mutex_lock cfg m s = Some s' \<and> t_state (thr s' (cur_thread s)) = kThreadBlocked \<and>
    t_next (thr s' (cur_thread s)) = NULL \<and> m_waiters (mutexes s' m) = cur_thread s \<and> m_owner (mutexes s' m) = w \<and>
    (mutex_pi cfg \<and> m_pi_enabled (mutexes s m) \<noteq> 0 \<longrightarrow>
       t_effective_priority (thr s' (cur_thread s)) \<le> t_effective_priority (thr s' w))"
proof -
  let ?c = "cur_thread s"
  obtain s' where s': "mutex_lock cfg m s = Some s'" "sync_ok s' (remove1 ?c xs) Own (Q(Inl m := [?c]))" "blocked s' ?c"
    "mutex_pi cfg \<and> m_pi_enabled (mtx s m) \<noteq> 0 \<longrightarrow> eff s' ?c \<le> eff s' w"
    using mutex_lock_contended_ok [OF assms(1,2) refl assms(3-7)] by blast
  note D = sync_invD [OF sync_okD(2) [OF s'(2)]]
  have "distinct xs" using sched_invD(1) [OF sync_okD(1) [OF assms(1)]] by (simp add: rq_inv_def)
  then have "t_next (thr s' ?c) = NULL" using rq_next_mem [OF sched_invD(1) [OF sync_okD(1) [OF s'(2)]]] by auto
  moreover have "m_waiters (mtx s' m) = ?c" using D(3) [of "Inl m"] by simp
  moreover have "m_owner (mtx s' m) = w"
    using D(2) [OF assms(5)] sync_invD(2) [OF sync_okD(2) [OF assms(1)] assms(5)] assms(3,4) by blast
  ultimately show ?thesis using s' by (auto simp: blocked_def)
qed

text \<open>
  C25: the second waiter evicts the first. When a thread is already waiting for a mutex and the running
  thread blocks on it too, the wait queue is the running thread alone: the link to the earlier
  waiter, stored in \<^verbatim>\<open>wait_next\<close>, is erased by \<^verbatim>\<open>sched_block_current\<close>. The earlier waiter is in no
  queue and stays blocked in every continuation of the system.
\<close>
theorem second_waiter_evicts_first:
  assumes "sync_ok s xs Own Q" "is_ready s (cur_thread s)" "m \<noteq> NULL"
    and "m_owner (mutexes s m) \<noteq> NULL" "m_owner (mutexes s m) \<noteq> cur_thread s" "\<not> lockdep cfg"
    and "m_waiters (mutexes s m) = v" "v \<noteq> NULL"
  shows "\<exists>s'. mutex_lock cfg m s = Some s' \<and> m_waiters (mutexes s' m) = cur_thread s \<and>
    t_wait_next (thr s' (cur_thread s)) = NULL \<and>
    (\<forall>s''. (sync_step cfg)\<^sup>*\<^sup>* s' s'' \<longrightarrow> t_state (thr s'' v) = kThreadBlocked \<and> t_next (thr s'' v) = NULL \<and>
       (\<forall>p. whead s'' p \<noteq> v))"
proof -
  let ?c = "cur_thread s"
  obtain s' where s': "mutex_lock cfg m s = Some s'" "sync_ok s' (remove1 ?c xs) Own (Q(Inl m := [?c]))"
    "\<forall>t. t \<noteq> ?c \<longrightarrow> t_state (thr s' t) = t_state (thr s t)"
    using mutex_lock_contended_ok [OF assms(1,2) refl assms(3) refl assms(4-6)] by blast
  note D = sync_invD [OF sync_okD(2) [OF assms(1)]]
  have q: "Q (Inl m) = [v]"
    using D(3) [of "Inl m"] sync_okD(3) [OF assms(1), of "Inl m"] assms(7,8) by (cases "Q (Inl m)") auto
  have vb: "t_state (thr s v) = kThreadBlocked" using D(5) [of v "Inl m"] q by simp
  then have vc: "v \<noteq> ?c" using assms(2) by (auto simp: is_ready_def kconst_defs)
  have "v \<notin> set ((Q(Inl m := [?c])) p)" for p using D(4) [of p "Inl m"] q vc by auto
  then have l: "lost s' v" using lost_iff [OF s'(2)] s'(3) vb vc by (simp add: blocked_def)
  have fut: "t_state (thr s2 v) = kThreadBlocked \<and> t_next (thr s2 v) = NULL \<and> (\<forall>p. whead s2 p \<noteq> v)"
    if st: "(sync_step cfg)\<^sup>*\<^sup>* s' s2" for s2
  proof -
    have l2: "lost s2 v" by (rule lost_steps [OF st s'(2) l])
    have "\<exists>xs Own Q. sync_ok s' xs Own Q" using s'(2) by blast
    then obtain ys Own2 Q2 where ok2: "sync_ok s2 ys Own2 Q2" using sync_steps_ok [OF st] by blast
    have b: "t_state (thr s2 v) = kThreadBlocked" using l2 by (simp add: lost_def)
    then have "v \<notin> set ys" using sync_okD(1) [OF ok2] by (auto simp: sched_inv_def kconst_defs)
    then have n: "t_next (thr s2 v) = NULL" using rq_next_mem [OF sched_invD(1) [OF sync_okD(1) [OF ok2]]] by blast
    have "whead s2 p \<noteq> v" for p
    proof
      assume h: "whead s2 p = v"
      have "llist (wnx s2) (whead s2 p) (Q2 p)" by (rule sync_invD(3) [OF sync_okD(2) [OF ok2]])
      then have "v \<in> set (Q2 p)" using h assms(8) by (cases "Q2 p") auto
      then show False using lost_iff [OF ok2] l2 by blast
    qed
    then show ?thesis using b n by blast
  qed
  have "llist (wnx s') (whead s' (Inl m)) ((Q(Inl m := [?c])) (Inl m))"
    by (rule sync_invD(3) [OF sync_okD(2) [OF s'(2)]])
  then have "m_waiters (mtx s' m) = ?c \<and> wnx s' ?c = NULL" by simp
  then show ?thesis using s'(1) fut by blast
qed

text \<open>
  C26: unlocking hands the mutex over. When the owner unlocks, the mutex goes directly to the first waiter
  of the highest effective priority, which becomes ready, joins the run queue and leaves the wait
  queue; without waiters the mutex becomes free. No other mutex changes hands, and the former owner's
  effective priority is its base priority or the highest one it still inherits.
\<close>
theorem mutex_unlock_hands_over:
  assumes "sched_inv s xs" "sync_inv s Own Q" "is_ready s (cur_thread s)" "m \<noteq> NULL" "m_owner (mutexes s m) = cur_thread s"
  shows "\<exists>s'. mutex_unlock cfg m s = Some s' \<and> (\<forall>n. n \<noteq> m \<longrightarrow> m_owner (mutexes s' n) = m_owner (mutexes s n)) \<and>
    (if Q (Inl m) = [] then m_owner (mutexes s' m) = NULL
     else \<exists>ys b zs. Q (Inl m) = ys @ b # zs \<and> first_max (\<lambda>t. t_effective_priority (thr s t)) ys b zs \<and>
       m_owner (mutexes s' m) = b \<and> is_ready s' b \<and> t_next (thr s' b) \<noteq> NULL \<and> t_waiting_on (thr s' b) = NULL \<and>
       llist (\<lambda>t. t_wait_next (thr s' t)) (m_waiters (mutexes s' m)) (ys @ zs)) \<and>
    t_effective_priority (thr s' (cur_thread s)) =
      inherited cfg s' (\<lambda>n. Q (Inl n)) (remove1 m (Own (cur_thread s))) (cur_thread s)"
proof -
  let ?c = "cur_thread s" and ?s = "preempt_disable s"
  have k: "sched_inv ?s xs" using sched_inv_upd_cpu [OF assms(1)] by (simp add: preempt_disable_def)
  have i: "sync_inv ?s Own Q" by (rule sync_inv_sched_only [OF assms(2)]) (simp add: preempt_disable_def)
  have c: "is_ready ?s ?c" "?c = cur_thread ?s" "m_owner (mtx ?s m) = ?c" "?c \<noteq> NULL"
    using assms(3,5) by (simp_all add: disable_state is_ready_def)
  have inh: "inherited cfg s' q ms ?c = inherited cfg s2 q ms ?c" if "sched_only s2 s'" for s2 s' q ms
    by (rule inherited_cong) (use that in \<open>simp_all add: sched_only_def\<close>)
  have fin: "\<exists>s'. mutex_unlock cfg m s = Some s' \<and> sched_only s2 s' \<and> sched_inv s' ys"
    if rl: "mutex_release cfg m ?c ?s = Some s2" "sched_inv s2 ys" for s2 ys
  proof -
    obtain s' where "preempt_enable cfg KResched s2 = Some s'" "sched_inv s' ys"
      using preempt_enable_inv [OF rl(2)] by blast
    moreover from this have "mutex_unlock cfg m s = Some s'"
      unfolding mutex_unlock_def Let_def disable_state using assms(4,5) rl(1) c(4) by simp
    ultimately show ?thesis using preempt_enable_only by blast
  qed
  show ?thesis
  proof (cases "Q (Inl m) = []")
    case True
    obtain s2 where s2: "mutex_release cfg m ?c ?s = Some s2" "sched_inv s2 xs" "m_owner (mtx s2 m) = NULL"
      "\<forall>n. n \<noteq> m \<longrightarrow> m_owner (mtx s2 n) = m_owner (mtx ?s n)" "eff s2 ?c = inherited cfg s2 (Qm Q) (released Own ?c m ?c) ?c"
      using mutex_release_empty [OF k i c(1) assms(4) c(3) True, of cfg] by blast
    obtain s' where s': "mutex_unlock cfg m s = Some s'" "sched_only s2 s'" using fin [OF s2(1,2)] by blast
    have "eff s' ?c = inherited cfg s' (Qm Q) (remove1 m (Own ?c)) ?c"
      using s2(5) s'(2) inh [OF s'(2)] by (simp add: released_def sched_only_def)
    then show ?thesis using s' s2(3,4) True by (auto simp: sched_only_def disable_state)
  next
    case False
    obtain ys b zs s2 Own' where s2: "Q (Inl m) = ys @ b # zs" "first_max (eff ?s) ys b zs"
      "mutex_release cfg m ?c ?s = Some s2" "Own' = (released Own ?c m)(b := m # released Own ?c m b)"
      "sched_inv s2 (xs @ [b])" "sync_inv s2 Own' (Q(Inl m := ys @ zs))" "m_owner (mtx s2 m) = b"
      "t_waiting_on (thr s2 b) = NULL" "\<forall>t. t_state (thr s2 t) = (if t = b then kThreadReady else t_state (thr ?s t))"
      "\<forall>n. n \<noteq> m \<longrightarrow> m_owner (mtx s2 n) = m_owner (mtx ?s n)"
      "eff s2 ?c = inherited cfg s2 (Qm (Q(Inl m := ys @ zs))) (Own' ?c) ?c"
      using mutex_release_wakes [OF k i c(1,2) assms(4) c(3) False, of cfg] by blast
    obtain s' where s': "mutex_unlock cfg m s = Some s'" "sched_only s2 s'" "sched_inv s' (xs @ [b])"
      using fin [OF s2(3,5)] by blast
    have b: "b \<in> set (Q (Inl m))" using s2(1) by simp
    then have "b \<noteq> ?c" "b \<noteq> NULL"
      using ready_not_waiting [OF i c(1), of "Inl m"] lpath_not_NULL [OF sync_invD(3) [OF i, of "Inl m"]] by auto
    then have "eff s' ?c = inherited cfg s' (Qm (Q(Inl m := ys @ zs))) (remove1 m (Own ?c)) ?c"
      using s2(11) s'(2) inh [OF s'(2)] s2(4) by (simp add: released_def sched_only_def)
    also have "\<dots> = inherited cfg s' (Qm Q) (remove1 m (Own ?c)) ?c"
    proof -
      have "distinct (Own ?c)" using llist_distinct sync_invD(1) [OF assms(2)] c(4) unfolding own_lists_def by blast
      then have "m \<notin> set (remove1 m (Own ?c))" by simp
      then have "donors cfg s' (Qm (Q(Inl m := ys @ zs))) (remove1 m (Own ?c)) = donors cfg s' (Qm Q) (remove1 m (Own ?c))"
        by (auto simp: donors_def split: if_splits)
      then show ?thesis by (simp add: inherited_def)
    qed
    finally have "eff s' ?c = inherited cfg s' (Qm Q) (remove1 m (Own ?c)) ?c" .
    moreover have "is_ready s' b" using s2(9) s'(2) \<open>b \<noteq> NULL\<close> by (simp add: is_ready_def sched_only_def)
    moreover have "t_next (thr s' b) \<noteq> NULL" using rq_next_mem [OF sched_invD(1) [OF s'(3)], of b] by simp
    moreover have "llist (wnx s') (m_waiters (mtx s' m)) (ys @ zs)"
      using sync_invD(3) [OF s2(6), of "Inl m"] s'(2) by (simp add: sched_only_def)
    moreover have "first_max (eff s) ys b zs" using s2(2) by (simp add: disable_state)
    moreover have "m_owner (mtx s' m) = b" "t_waiting_on (thr s' b) = NULL" using s2(7,8) s'(2) by (simp_all add: sched_only_def)
    moreover have "\<forall>n. n \<noteq> m \<longrightarrow> m_owner (mtx s' n) = m_owner (mtx s n)" using s2(10) s'(2) by (simp add: sched_only_def disable_state)
    ultimately show ?thesis using False s2(1) s'(1) by (auto simp del: lpath_append)
  qed
qed

lemma mutex_lock_free_ok:
  assumes ok: "sync_ok s xs Own Q" and r: "is_ready s c" and c: "c = cur_thread s"
    and m: "m \<noteq> NULL" "m_owner (mtx s m) = NULL"
  shows "\<exists>s'. mutex_lock cfg m s = Some s' \<and> m_owner (mtx s' m) = c"
proof -
  define s1 where "s1 = set_kont c KRun (preempt_disable s)"
  have ok1: "sync_ok s1 xs Own Q" unfolding s1_def by (intro sync_ok_kont sync_ok_disable ok)
  have cn: "c \<noteq> NULL" using r by (simp add: is_ready_def)
  have m1: "m_owner (mtx s1 m) = NULL" using m by (simp add: s1_def disable_state)
  define s2 where "s2 = upd_thread c (t_waiting_on_update (\<lambda>_. NULL))
      (thread_owned_mutex_add c m (upd_mutex m (m_owner_update (\<lambda>_. c)) s1))"
  note a = acquire_ok [OF ok1 cn m(1) m1, folded s2_def]
  obtain s' where s': "preempt_enable cfg KResched s2 = Some s'" using preempt_enable_inv [OF a(1)] by blast
  have "mutex_lock cfg m s = Some s'"
    unfolding mutex_lock_def Let_def disable_state c [symmetric] s1_def [symmetric]
    using m m1 cn s' by (simp add: s2_def)
  moreover have "m_owner (mtx s' m) = c"
    using preempt_enable_only [OF s'] a(4) by (simp add: sched_only_def)
  ultimately show ?thesis by blast
qed

text \<open>
  Mutex 1024 is owned by thread 16, thread 32 waits for it, and thread 48 is ready. One of 16 and 48
  runs.
\<close>

definition sync_example :: "addr \<Rightarrow> kstate" where
  "sync_example c = boot_state\<lparr>threads := (\<lambda>_. zero_thread)
     (16 := zero_thread\<lparr>t_next := 48, t_effective_priority := 5, t_owned_mutexes := 1024\<rparr>,
      32 := zero_thread\<lparr>t_state := kThreadBlocked, t_effective_priority := 5, t_waiting_on := 1024\<rparr>,
      48 := zero_thread\<lparr>t_next := 16, t_effective_priority := 9\<rparr>),
     mutexes := (mutexes boot_state)(1024 := \<lparr>m_owner = 16, m_waiters = 32, m_owner_next = 0, m_pi_enabled = 1\<rparr>),
     rq_head := 16, rq_tail := 48, cpu := zero_cpu\<lparr>current_thread := c\<rparr>\<rparr>"

abbreviation pi_cfg :: kconfig where
  "pi_cfg \<equiv> \<lparr>policy = PRIO, mutex_pi = True, lockdep = False\<rparr>"

lemma sync_example_simps:
  "mutexes (sync_example c) 1024 = \<lparr>m_owner = 16, m_waiters = 32, m_owner_next = 0, m_pi_enabled = 1\<rparr>"
  "n \<noteq> 1024 \<Longrightarrow> mutexes (sync_example c) n = \<lparr>m_owner = 0, m_waiters = 0, m_owner_next = 0, m_pi_enabled = 0\<rparr>"
  "sems (sync_example c) p = \<lparr>s_count = 0, s_waiters = 0\<rparr>" "cur_thread (sync_example c) = c"
  "is_ready (sync_example c) 16" "is_ready (sync_example c) 48"
  by (simp_all add: sync_example_def boot_state_def zero_thread_def is_ready_def kconst_defs)

lemma sync_example_threads:
  "t_wait_next (thr (sync_example c) t) = NULL"
  "t_owned_mutexes (thr (sync_example c) t) = (if t = 16 then 1024 else NULL)"
  "t_state (thr (sync_example c) t) = (if t = 32 then kThreadBlocked else kThreadReady)"
  by (simp_all add: sync_example_def zero_thread_def kconst_defs)

lemma sync_example_ok:
  assumes c: "c = 16 \<or> c = 48"
  shows "sync_ok (sync_example c) [16, 48] ((\<lambda>_. [])(16 := [1024])) ((\<lambda>_. [])(Inl 1024 := [32]))"
proof -
  let ?s = "sync_example c"
  have "rq_inv ?s [16, 48]" by (simp add: rq_inv_def sync_example_def zero_thread_def)
  moreover have "prio_ok ?s" by (auto simp: prio_ok_def sync_example_def zero_thread_def kconst_defs)
  ultimately have "sched_inv ?s [16, 48]"
    using c by (auto simp: sched_inv_def sync_example_threads sync_example_simps(4) kconst_defs)
  moreover have "llist (wnx ?s) (whead ?s p) (((\<lambda>_. [])(Inl 1024 := [32])) p)" for p
    by (cases p) (auto simp: sync_example_simps sync_example_threads)
  moreover have "m_owner (mutexes ?s m) = (if m = 1024 then 16 else NULL)" "m_owner_next (mutexes ?s m) = NULL" for m
    by (cases "m = 1024"; simp add: sync_example_simps)+
  ultimately show ?thesis
    by (auto simp: sync_ok_def sync_inv_def own_lists_def sync_example_threads)
qed


theorem mutex_owner_stable_witness:
  "\<exists>s'. sync_step pi_cfg (sync_example 48) s' \<and> m_owner (mutexes s' 1024) = 16"
proof -
  have ok: "sync_ok (sync_example 48) [16, 48] ((\<lambda>_. [])(16 := [1024])) ((\<lambda>_. [])(Inl 1024 := [32]))"
    by (rule sync_example_ok) simp
  obtain s' where "preempt_enable pi_cfg KResched (preempt_disable (sync_example 48)) = Some s'"
    using preempt_enable_inv [OF sync_okD(1) [OF sync_ok_disable [OF ok]]] by blast
  then have "mutex_unlock pi_cfg 1024 (sync_example 48) = Some s'"
    by (simp add: mutex_unlock_def Let_def disable_state sync_example_simps)
  then have st: "sync_step pi_cfg (sync_example 48) s'"
    using sync_example_simps(4-6) by (intro sync_unlock) simp_all
  from mutex_owner_stable [OF ok st, of 1024 16] st show ?thesis
    by (auto simp: sync_example_simps)
qed

theorem mutex_lock_contended_witness:
  "\<exists>s'. mutex_lock pi_cfg 1024 (sync_example 48) = Some s' \<and> t_state (thr s' 48) = kThreadBlocked \<and>
     m_owner (mutexes s' 1024) = 16 \<and> t_effective_priority (thr s' 48) \<le> t_effective_priority (thr s' 16)"
  using mutex_lock_contended [OF sync_example_ok, of 48 1024 16 pi_cfg]
  by (auto simp: sync_example_simps)

theorem second_waiter_evicts_first_witness:
  "\<exists>s'. mutex_lock pi_cfg 1024 (sync_example 48) = Some s' \<and> m_waiters (mutexes s' 1024) = 48 \<and>
     (\<forall>s''. (sync_step pi_cfg)\<^sup>*\<^sup>* s' s'' \<longrightarrow> t_state (thr s'' 32) = kThreadBlocked \<and> (\<forall>p. whead s'' p \<noteq> 32))"
  using second_waiter_evicts_first [OF sync_example_ok, of 48 1024 pi_cfg 32]
  by (simp add: sync_example_simps) blast

theorem mutex_unlock_hands_over_witness:
  "\<exists>s'. mutex_unlock pi_cfg 1024 (sync_example 16) = Some s' \<and> m_owner (mutexes s' 1024) = 32 \<and> is_ready s' 32"
proof -
  have ok: "sync_ok (sync_example 16) [16, 48] ((\<lambda>_. [])(16 := [1024])) ((\<lambda>_. [])(Inl 1024 := [32]))"
    by (rule sync_example_ok) simp
  have "is_ready (sync_example 16) (cur_thread (sync_example 16))"
    "m_owner (mutexes (sync_example 16) 1024) = cur_thread (sync_example 16)"
    by (simp_all add: sync_example_simps)
  from mutex_unlock_hands_over [OF sync_okD(1,2) [OF ok] this(1) _ this(2), of pi_cfg]
  obtain s' where "mutex_unlock pi_cfg 1024 (sync_example 16) = Some s'"
    "\<exists>ys b zs. [32] = ys @ b # zs \<and> m_owner (mutexes s' 1024) = b \<and> is_ready s' b" by auto
  moreover from this(2) have "m_owner (mutexes s' 1024) = 32 \<and> is_ready s' 32"
    by (auto simp: Cons_eq_append_conv)
  ultimately show ?thesis by blast
qed

end
