(* ===== verification/PageTable.thy ===== *)
theory PageTable
  imports Prelude
begin

text \<open>
  What the MMU set-up of both boards shares: descriptor encodings, the translation tables as 64-bit words in a table
  memory \<open>pt\<close> indexed by address (so that a descriptor names the next table by its address, as the code's casts do),
  and the tables of a RAM gigabyte at \<open>base\<close>. Where the linker puts the tables and the DMA window is the parameter \<open>mmu_layout\<close>.

  What the hardware does with the tables is the specification side: \<open>walk\<close> is the translation of
  the Arm architecture for a 4 KB granule and a 48-bit address (the regime \<^verbatim>\<open>tcr_value\<close> selects), and
  \<open>tlb\<close> holds translations that the CPU may have cached and use until the next \<^verbatim>\<open>tlbi vmalle1\<close>.
  Barriers have no effect in this sequential model.

  The two boards' code is proved once: locale \<open>ram_tables\<close> is the hardware's view of tables with one RAM gigabyte, locale
  \<open>board\<close> adds what the set-up, \<^verbatim>\<open>ensure_l3_...\<close> and \<^verbatim>\<open>mmu_guard_page\<close> of a board have to do; \<open>Mmu\<close> and \<open>MmuRpi4\<close>
  interpret it on the definitions translated from their files.
\<close>

section \<open>State\<close>

record mmu_layout =
  a_l0 :: addr
  a_l1 :: addr
  a_l2_ram :: addr
  a_l3_dma0 :: addr
  a_l3_dma1 :: addr
  a_l3_extra :: addr
  dma_nc_start :: addr
  dma_nc_end :: addr

text \<open>A translation at page granularity: the physical page, attribute index, shareability, XN bits.\<close>

record xlat =
  x_page :: addr
  x_attr :: u64
  x_sh :: u64
  x_xn :: u64

type_synonym ptmem = "addr \<Rightarrow> u64"

record mmu =
  pt :: ptmem
  g_l3_extra_next :: u32
  mair_el1 :: u64
  tcr_el1 :: u64
  ttbr0_el1 :: u64
  sctlr_el1 :: u64
  tlb :: "addr \<Rightarrow> xlat option"

datatype dma_policy = Cacheable | NonCacheable

section \<open>Descriptors\<close>

definition kPtePxN :: u64 where "kPtePxN = push_bit 53 1"
definition kPteUxN :: u64 where "kPteUxN = push_bit 54 1"

definition kAttrIdxNormal :: u64 where "kAttrIdxNormal = 0"
definition kAttrIdxDevice :: u64 where "kAttrIdxDevice = 1"
definition kAttrIdxNormalNc :: u64 where "kAttrIdxNormalNc = 2"

definition kMairAttrNormalWbWa :: u64 where "kMairAttrNormalWbWa = 0xFF"
definition kMairAttrDevice_nGnRE :: u64 where "kMairAttrDevice_nGnRE = 0x04"
definition kMairAttrNormalNc :: u64 where "kMairAttrNormalNc = 0x44"

definition kL2BlockSize :: u64 where "kL2BlockSize = 0x200000"
definition kPageSize :: u64 where "kPageSize = 0x1000"

definition mair_value :: u64 where
  "mair_value = push_bit (8 * unat kAttrIdxNormal) kMairAttrNormalWbWa OR
     push_bit (8 * unat kAttrIdxDevice) kMairAttrDevice_nGnRE OR
     push_bit (8 * unat kAttrIdxNormalNc) kMairAttrNormalNc"

definition tcr_value :: "u64 \<Rightarrow> u64" where
  "tcr_value mmfr0 =
     (let parange = mmfr0 AND 0xF;
          parange = (if parange > 6 then 5 else parange)
      in 16 OR push_bit 23 1 OR push_bit 8 1 OR push_bit 10 1 OR push_bit 12 3 OR push_bit 14 0 OR
         push_bit 32 parange)"

definition pte_table :: "u64 \<Rightarrow> u64" where
  "pte_table next_table_phys = (next_table_phys AND 0x0000FFFFFFFFF000) OR 3"

definition pte_page :: "u64 \<Rightarrow> u64 \<Rightarrow> u64 \<Rightarrow> u64" where
  "pte_page phys_base attr_index sh =
     (phys_base AND 0x0000FFFFFFFFF000) OR 3 OR push_bit 2 attr_index OR push_bit 6 0 OR push_bit 8 sh OR
     push_bit 10 1"

definition pte_block :: "u64 \<Rightarrow> u64 \<Rightarrow> u64 \<Rightarrow> u64" where
  "pte_block phys_base attr_index sh =
     (phys_base AND 0x0000FFFFFFFFF000) OR 1 OR push_bit 2 attr_index OR push_bit 6 0 OR push_bit 8 sh OR
     push_bit 10 1"

section \<open>The tables\<close>

text \<open>Entry \<open>i\<close> of the table at \<open>b\<close>.\<close>

definition entry :: "addr \<Rightarrow> nat \<Rightarrow> addr" where
  "entry b i = b + 8 * of_nat i"

definition put :: "addr \<Rightarrow> nat \<Rightarrow> u64 \<Rightarrow> ptmem \<Rightarrow> ptmem" where
  "put b i v m = m(entry b i := v)"

definition l3_extra :: "mmu_layout \<Rightarrow> nat \<Rightarrow> addr" where
  "l3_extra L t = a_l3_extra L + 4096 * of_nat t"

definition clear_tables :: "mmu_layout \<Rightarrow> ptmem \<Rightarrow> ptmem" where
  "clear_tables L m =
     (let m = for_loop 512 (\<lambda>i m.
            let m = put (a_l0 L) i 0 m;
                m = put (a_l1 L) i 0 m;
                m = put (a_l2_ram L) i 0 m;
                m = put (a_l3_dma0 L) i 0 m
            in put (a_l3_dma1 L) i 0 m) m
      in for_loop 8 (\<lambda>t. for_loop 512 (\<lambda>i. put (l3_extra L t) i 0)) m)"

definition dma_table :: "dma_policy \<Rightarrow> addr \<Rightarrow> addr \<Rightarrow> addr \<Rightarrow> addr \<Rightarrow> ptmem \<Rightarrow> ptmem" where
  "dma_table pol dma_start dma_end block_base l3 =
     for_loop 512 (\<lambda>i m.
       let va = block_base + of_nat i * kPageSize;
           inside = va \<ge> dma_start \<and> va < dma_end;
           xn = (if inside then kPtePxN OR kPteUxN else 0);
           attr = (if inside \<and> pol = NonCacheable then kAttrIdxNormalNc else kAttrIdxNormal)
       in put l3 i (pte_page va attr 3 OR xn) m)"

definition tlbi_vmalle1 :: "mmu \<Rightarrow> mmu" where
  "tlbi_vmalle1 st = st\<lparr>tlb := (\<lambda>_. None)\<rparr>"

definition mmu_enabled :: "mmu \<Rightarrow> bool" where
  "mmu_enabled st \<longleftrightarrow> sctlr_el1 st AND 1 \<noteq> 0"

section \<open>The hardware's table walk\<close>

text \<open>The index of a virtual address at levels 0 to 3, and the address field of a descriptor.\<close>

definition va_index :: "nat \<Rightarrow> addr \<Rightarrow> nat" where
  "va_index lvl va = unat va div 2 ^ (39 - 9 * lvl) mod 512"

definition desc_addr :: "u64 \<Rightarrow> addr" where
  "desc_addr d = d AND 0x0000FFFFFFFFF000"

text \<open>
  A leaf at a level whose entries map \<open>2 ^ n\<close> bytes. A descriptor without the access flag faults.
\<close>

definition leaf :: "u64 \<Rightarrow> nat \<Rightarrow> addr \<Rightarrow> xlat option" where
  "leaf d n va =
     (if \<not> bit d 10 then None
      else Some \<lparr>x_page = (desc_addr d AND NOT (mask n)) + (va AND mask n AND NOT (mask 12)),
        x_attr = drop_bit 2 d AND 7, x_sh = drop_bit 8 d AND 3, x_xn = d AND (kPtePxN OR kPteUxN)\<rparr>)"

definition walk :: "ptmem \<Rightarrow> addr \<Rightarrow> addr \<Rightarrow> xlat option" where
  "walk m ttbr0 va =
     (if unat va \<ge> 2 ^ 48 then None
      else let d0 = m (entry ttbr0 (va_index 0 va))
           in if d0 AND 3 \<noteq> 3 then None
              else let d1 = m (entry (desc_addr d0) (va_index 1 va))
                   in if d1 AND 3 = 1 then leaf d1 30 va
                      else if d1 AND 3 \<noteq> 3 then None
                      else let d2 = m (entry (desc_addr d1) (va_index 2 va))
                           in if d2 AND 3 = 1 then leaf d2 21 va
                              else if d2 AND 3 \<noteq> 3 then None
                              else let d3 = m (entry (desc_addr d2) (va_index 3 va))
                                   in if d3 AND 3 \<noteq> 3 then None else leaf d3 12 va)"

definition translate :: "mmu \<Rightarrow> addr \<Rightarrow> xlat option" where
  "translate st va = (case tlb st (va AND NOT (mask 12)) of Some x \<Rightarrow> Some x | None \<Rightarrow> walk (pt st) (ttbr0_el1 st) va)"

section \<open>Descriptor fields\<close>

lemma len64: "LENGTH(64) = 64"
  by simp

lemma bit_pow: "bit ((2 :: u64) ^ k) i \<longleftrightarrow> i = k \<and> k < 64"
  by (auto simp only: bit_exp_iff possible_bit_word len64)

lemma bit_consts:
  "bit (0x0000FFFFFFFFF000 :: u64) i \<longleftrightarrow> 12 \<le> i \<and> i < 48"
  "bit (3 :: u64) i \<longleftrightarrow> i < 2" "bit (7 :: u64) i \<longleftrightarrow> i < 3" "bit (1024 :: u64) i \<longleftrightarrow> i = 10"
  "bit kPtePxN i \<longleftrightarrow> i = 53" "bit kPteUxN i \<longleftrightarrow> i = 54"
proof -
  have "(0x0000FFFFFFFFF000 :: u64) = push_bit 12 (mask 36)"
    by (simp add: mask_eq_exp_minus_1 push_bit_eq_mult)
  then show "bit (0x0000FFFFFFFFF000 :: u64) i \<longleftrightarrow> 12 \<le> i \<and> i < 48"
    by (auto simp only: bit_push_bit_iff bit_mask_iff possible_bit_word len64)
  have "(3 :: u64) = mask 2" "(7 :: u64) = mask 3" by (simp_all add: mask_eq_exp_minus_1)
  then show "bit (3 :: u64) i \<longleftrightarrow> i < 2" "bit (7 :: u64) i \<longleftrightarrow> i < 3"
    by (auto simp only: bit_mask_iff possible_bit_word len64)
  have e: "(1024 :: u64) = 2 ^ 10" "kPtePxN = 2 ^ 53" "kPteUxN = 2 ^ 54"
    by (simp_all add: kPtePxN_def kPteUxN_def push_bit_eq_mult)
  show "bit (1024 :: u64) i \<longleftrightarrow> i = 10" unfolding e(1) bit_pow by auto
  show "bit kPtePxN i \<longleftrightarrow> i = 53" unfolding e(2) bit_pow by auto
  show "bit kPteUxN i \<longleftrightarrow> i = 54" unfolding e(3) bit_pow by auto
qed

text \<open>Attribute fields as the descriptors carry them.\<close>

definition attr_ok :: "u64 \<Rightarrow> u64 \<Rightarrow> u64 \<Rightarrow> bool" where
  "attr_ok a sh xn \<longleftrightarrow> a AND 7 = a \<and> sh AND 3 = sh \<and> xn AND (kPtePxN OR kPteUxN) = xn"

lemma attr_bits:
  assumes "attr_ok a sh xn"
  shows "bit a i \<Longrightarrow> i < 3" "bit sh i \<Longrightarrow> i < 2" "bit xn i \<Longrightarrow> i = 53 \<or> i = 54"
proof -
  have "bit (a AND 7) i = bit a i" "bit (sh AND 3) i = bit sh i" "bit (xn AND (kPtePxN OR kPteUxN)) i = bit xn i"
    using assms by (simp_all add: attr_ok_def)
  then show "bit a i \<Longrightarrow> i < 3" "bit sh i \<Longrightarrow> i < 2" "bit xn i \<Longrightarrow> i = 53 \<or> i = 54"
    by (auto simp: bit_and_iff bit_or_iff bit_consts simp del: bit_numeral_word_iff)
qed

lemma bit_pte:
  "bit (pte_page p a sh) i \<longleftrightarrow> bit p i \<and> 12 \<le> i \<and> i < 48 \<or> i < 2 \<or> (2 \<le> i \<and> i < 64 \<and> bit a (i - 2)) \<or>
     (8 \<le> i \<and> i < 64 \<and> bit sh (i - 8)) \<or> i = 10"
  "bit (pte_block p a sh) i \<longleftrightarrow> bit p i \<and> 12 \<le> i \<and> i < 48 \<or> i = 0 \<or> (2 \<le> i \<and> i < 64 \<and> bit a (i - 2)) \<or>
     (8 \<le> i \<and> i < 64 \<and> bit sh (i - 8)) \<or> i = 10"
  by (auto simp: pte_page_def pte_block_def bit_and_iff bit_or_iff bit_push_bit_iff bit_consts bit_1_iff
      simp del: bit_numeral_word_iff)

lemma bit_pte_attr:
  assumes "attr_ok a sh xn"
  shows "bit (pte_page p a sh OR xn) i \<longleftrightarrow> (if i < 2 then True else if i < 5 then bit a (i - 2)
      else if i < 8 then False else if i < 10 then bit sh (i - 8) else if i < 12 then i = 10
      else if i < 48 then bit p i else (i = 53 \<or> i = 54) \<and> bit xn i)"
    and "bit (pte_block p a sh OR xn) i \<longleftrightarrow> (if i < 2 then i = 0 else if i < 5 then bit a (i - 2)
      else if i < 8 then False else if i < 10 then bit sh (i - 8) else if i < 12 then i = 10
      else if i < 48 then bit p i else (i = 53 \<or> i = 54) \<and> bit xn i)"
  using attr_bits(1) [OF assms, of "i - 2"] attr_bits(2) [OF assms, of "i - 8"] attr_bits(3) [OF assms, of i]
  by (auto simp: bit_pte bit_or_iff split: if_splits)

lemma pte_fields:
  assumes "attr_ok a sh xn"
  shows "desc_addr (pte_page p a sh OR xn) = desc_addr p"
    "(pte_page p a sh OR xn) AND 3 = 3" "bit (pte_page p a sh OR xn) 10"
    "drop_bit 2 (pte_page p a sh OR xn) AND 7 = a" "drop_bit 8 (pte_page p a sh OR xn) AND 3 = sh"
    "(pte_page p a sh OR xn) AND (kPtePxN OR kPteUxN) = xn"
    "desc_addr (pte_block p a sh OR xn) = desc_addr p"
    "(pte_block p a sh OR xn) AND 3 = 1" "bit (pte_block p a sh OR xn) 10"
    "drop_bit 2 (pte_block p a sh OR xn) AND 7 = a" "drop_bit 8 (pte_block p a sh OR xn) AND 3 = sh"
    "(pte_block p a sh OR xn) AND (kPtePxN OR kPteUxN) = xn"
proof -
  note simps = bit_pte_attr [OF assms] desc_addr_def bit_and_iff bit_or_iff [of kPtePxN] bit_drop_bit_eq o_apply bit_consts bit_1_iff
  note ab = attr_bits [OF assms]
  show "bit (pte_page p a sh OR xn) 10" "bit (pte_block p a sh OR xn) 10" by (simp_all only: simps) simp_all
  show "desc_addr (pte_page p a sh OR xn) = desc_addr p"
    by (rule bit_word_eqI, simp only: simps, auto)
  show "desc_addr (pte_block p a sh OR xn) = desc_addr p"
    by (rule bit_word_eqI, simp only: simps, auto)
  show "(pte_page p a sh OR xn) AND 3 = 3"
    by (rule bit_word_eqI, simp only: simps, auto)
  show "(pte_block p a sh OR xn) AND 3 = 1"
    by (rule bit_word_eqI, simp only: simps, auto)
  show "drop_bit 2 (pte_page p a sh OR xn) AND 7 = a"
    by (rule bit_word_eqI, simp only: simps, auto dest: ab)
  show "drop_bit 2 (pte_block p a sh OR xn) AND 7 = a"
    by (rule bit_word_eqI, simp only: simps, auto dest: ab)
  show "drop_bit 8 (pte_page p a sh OR xn) AND 3 = sh"
    by (rule bit_word_eqI, simp only: simps, auto dest: ab)
  show "drop_bit 8 (pte_block p a sh OR xn) AND 3 = sh"
    by (rule bit_word_eqI, simp only: simps, auto dest: ab)
  show "(pte_page p a sh OR xn) AND (kPtePxN OR kPteUxN) = xn"
    by (rule bit_word_eqI, simp only: simps, auto dest: ab)
  show "(pte_block p a sh OR xn) AND (kPtePxN OR kPteUxN) = xn"
    by (rule bit_word_eqI, simp only: simps, auto dest: ab)
qed

lemma pte_table_fields: "desc_addr (pte_table p) = desc_addr p" "pte_table p AND 3 = 3"
  by (auto intro!: bit_word_eqI simp: pte_table_def desc_addr_def bit_and_iff bit_or_iff bit_consts
      simp del: bit_numeral_word_iff)

section \<open>Tables in memory\<close>

definition tbl_ok :: "addr \<Rightarrow> bool" where
  "tbl_ok b \<longleftrightarrow> b \<noteq> 0 \<and> 4096 dvd unat b \<and> unat b + 4096 \<le> 2 ^ 48"

lemma unat_entry: "tbl_ok b \<Longrightarrow> i < 512 \<Longrightarrow> unat (entry b i) = unat b + 8 * i"
proof -
  assume b: "tbl_ok b" and i: "i < 512"
  have "unat (8 * of_nat i :: addr) = 8 * i" using i by (simp add: unat_word_ariths unat_of_nat)
  then show ?thesis
    using b i unfolding entry_def by (subst unat_add_nowrap) (auto simp: tbl_ok_def)
qed

lemma entry_eq_iff:
  assumes "tbl_ok b" "tbl_ok c" "i < 512" "j < 512"
  shows "entry b i = entry c j \<longleftrightarrow> b = c \<and> i = j"
proof
  assume "entry b i = entry c j"
  then have e: "unat b + 8 * i = unat c + 8 * j" using assms by (metis unat_entry)
  obtain x y where xy: "unat b = 4096 * x" "unat c = 4096 * y" using assms(1,2) by (auto simp: tbl_ok_def dvd_def)
  have "512 * x + i = 512 * y + j" using e xy by linarith
  then have "i = j" using assms(3,4) by (metis mod_less mod_mult_self4)
  then show "b = c \<and> i = j" using e by (simp add: word_unat_eq_iff)
qed simp

lemma desc_addr_aligned: "4096 dvd unat b \<Longrightarrow> unat b < 2 ^ 48 \<Longrightarrow> desc_addr b = b"
proof (rule bit_word_eqI)
  fix i assume b: "4096 dvd unat b" "unat b < 2 ^ 48" and "i < LENGTH(64)"
  have lo: "\<not> bit b i" if "i < 12"
  proof -
    have "take_bit 12 (unat b) = 0" using b by (simp add: take_bit_eq_mod mod_eq_0_iff_dvd)
    then have "\<not> bit (take_bit 12 (unat b)) i" by simp
    then show ?thesis using that by (simp add: bit_take_bit_iff bit_unsigned_iff)
  qed
  have hi: "\<not> bit b i" if "48 \<le> i"
  proof -
    have "unat b < 2 ^ i" using that b(2) by (meson less_le_trans one_le_numeral power_increasing)
    then have "take_bit i (unat b) = unat b" by (simp add: take_bit_nat_eq_self_iff)
    then have "bit (unat b) i = bit (take_bit i (unat b)) i" by simp
    then show ?thesis by (simp add: bit_take_bit_iff bit_unsigned_iff)
  qed
  show "bit (desc_addr b) i = bit b i"
    using lo hi by (auto simp: desc_addr_def bit_and_iff bit_consts not_less [symmetric] simp del: bit_numeral_word_iff)
qed

lemma desc_addr_tbl: "tbl_ok b \<Longrightarrow> desc_addr b = b"
  by (rule desc_addr_aligned) (auto simp: tbl_ok_def)

lemma put_entry:
  "tbl_ok b \<Longrightarrow> tbl_ok c \<Longrightarrow> i < 512 \<Longrightarrow> j < 512 \<Longrightarrow>
   put b i v m (entry c j) = (if c = b \<and> j = i then v else m (entry c j))"
  using entry_eq_iff [of c b j i] by (simp add: put_def)

text \<open>A loop that writes entries of one table: what each entry of any table holds afterwards.\<close>

lemma for_loop_table:
  assumes "tbl_ok b" "tbl_ok c" "j < 512" "n \<le> 512"
  shows "for_loop n (\<lambda>i. put b i (f i)) m (entry c j) = (if c = b \<and> j < n then f j else m (entry c j))"
  using assms(4)
proof (induction n)
  case 0
  then show ?case by simp
next
  case (Suc n)
  then show ?case using assms(1-3) by (auto simp: for_loop_Suc put_entry)
qed

definition tables :: "mmu_layout \<Rightarrow> addr list" where
  "tables L = [a_l0 L, a_l1 L, a_l2_ram L, a_l3_dma0 L, a_l3_dma1 L] @ map (l3_extra L) [0..<8]"

definition layout_ok :: "mmu_layout \<Rightarrow> bool" where
  "layout_ok L \<longleftrightarrow> distinct (tables L) \<and> (\<forall>b \<in> set (tables L). tbl_ok b)"

lemma layout_tbl:
  assumes "layout_ok L"
  shows "tbl_ok (a_l0 L)" "tbl_ok (a_l1 L)" "tbl_ok (a_l2_ram L)" "tbl_ok (a_l3_dma0 L)" "tbl_ok (a_l3_dma1 L)"
    "t < 8 \<Longrightarrow> tbl_ok (l3_extra L t)"
  using assms by (auto simp: layout_ok_def tables_def)

lemma layout_distinct:
  assumes "layout_ok L"
  shows "a_l0 L \<noteq> a_l1 L" "a_l0 L \<noteq> a_l2_ram L" "a_l0 L \<noteq> a_l3_dma0 L" "a_l0 L \<noteq> a_l3_dma1 L"
    "a_l1 L \<noteq> a_l2_ram L" "a_l1 L \<noteq> a_l3_dma0 L" "a_l1 L \<noteq> a_l3_dma1 L"
    "a_l2_ram L \<noteq> a_l3_dma0 L" "a_l2_ram L \<noteq> a_l3_dma1 L" "a_l3_dma0 L \<noteq> a_l3_dma1 L"
    "t < 8 \<Longrightarrow> a_l0 L \<noteq> l3_extra L t" "t < 8 \<Longrightarrow> a_l1 L \<noteq> l3_extra L t" "t < 8 \<Longrightarrow> a_l2_ram L \<noteq> l3_extra L t"
    "t < 8 \<Longrightarrow> a_l3_dma0 L \<noteq> l3_extra L t" "t < 8 \<Longrightarrow> a_l3_dma1 L \<noteq> l3_extra L t"
    "t < 8 \<Longrightarrow> u < 8 \<Longrightarrow> l3_extra L t = l3_extra L u \<longleftrightarrow> t = u"
  using assms by (auto simp: layout_ok_def tables_def distinct_map inj_on_def)

lemma clear_tables_0:
  assumes "layout_ok L" "c \<in> set (tables L)" "j < 512"
  shows "clear_tables L m (entry c j) = 0"
proof -
  have c: "tbl_ok c" using assms by (simp add: layout_ok_def)
  let ?body = "\<lambda>i m. put (a_l3_dma1 L) i 0 (put (a_l3_dma0 L) i 0 (put (a_l2_ram L) i 0
      (put (a_l1 L) i 0 (put (a_l0 L) i 0 m))))"
  have first: "for_loop n ?body m (entry c j) = 0"
    if "c \<in> {a_l0 L, a_l1 L, a_l2_ram L, a_l3_dma0 L, a_l3_dma1 L}" "j < n" "n \<le> 512" for n
    using that(2,3)
  proof (induction n)
    case 0
    then show ?case by simp
  next
    case (Suc n)
    then show ?case
      using that(1) c layout_tbl [OF assms(1)] assms(3)
      by (cases "j = n") (auto simp: for_loop_Suc put_entry)
  qed
  have second: "for_loop n (\<lambda>t. for_loop 512 (\<lambda>i. put (l3_extra L t) i 0)) m' (entry c j) =
      (if \<exists>t < n. c = l3_extra L t then 0 else m' (entry c j))" if "n \<le> 8" for n m'
    using that
  proof (induction n)
    case 0
    then show ?case by simp
  next
    case (Suc n)
    then show ?case
      using for_loop_table [OF layout_tbl(6) [OF assms(1)] c assms(3), of n 512 "\<lambda>_. 0"] assms(3)
      by (auto simp: for_loop_Suc less_Suc_eq)
  qed
  have "c \<in> {a_l0 L, a_l1 L, a_l2_ram L, a_l3_dma0 L, a_l3_dma1 L} \<or> (\<exists>t < 8. c = l3_extra L t)"
    using assms(2) by (auto simp: tables_def)
  then show ?thesis
    using first [of 512] second [of 8] assms(3) unfolding clear_tables_def Let_def by auto
qed

section \<open>Leaves\<close>

definition page_of :: "addr \<Rightarrow> addr" where
  "page_of va = va AND NOT (mask 12)"

lemma unat_page_of: "unat (page_of va) = unat va div 4096 * 4096"
  using unat_and_not_mask [of va 12] by (simp add: page_of_def)

lemma unat_block_offset: "12 \<le> n \<Longrightarrow> unat (va AND mask n AND NOT (mask 12) :: addr) = unat va mod 2 ^ n div 4096 * 4096"
proof -
  have "unat (va AND mask n) = unat va mod 2 ^ n"
  proof -
    have "unat (take_bit n va) = unat va mod 2 ^ n" unfolding unsigned_take_bit_eq by (rule take_bit_eq_mod)
    then show ?thesis by (simp only: take_bit_eq_mask)
  qed
  then show ?thesis using unat_and_not_mask [of "va AND mask n" 12] by (simp add: and.assoc)
qed

lemma and_not_mask_aligned: "2 ^ n dvd unat (b :: addr) \<Longrightarrow> b AND NOT (mask n) = b"
  using unat_and_not_mask [of b n] by (simp add: word_unat_eq_iff)

text \<open>A leaf for an aligned block: the block's page at the offset of the address.\<close>

lemma leaf_aligned:
  assumes a: "attr_ok a sh xn" and n: "12 \<le> n" and B: "2 ^ n dvd unat B" "unat B < 2 ^ 48"
    and d: "d = pte_page B a sh OR xn \<or> d = pte_block B a sh OR xn"
  shows "leaf d n va = Some \<lparr>x_page = B + (va AND mask n AND NOT (mask 12)), x_attr = a, x_sh = sh, x_xn = xn\<rparr>"
proof -
  have "(2 :: nat) ^ 12 dvd 2 ^ n" using n by (rule le_imp_power_dvd)
  from dvd_trans [OF this B(1)] have "4096 dvd unat B" by simp
  then have "desc_addr B = B" using B(2) by (rule desc_addr_aligned)
  then show ?thesis using d pte_fields [OF a] and_not_mask_aligned [OF B(1)] by (auto simp: leaf_def)
qed

lemma va_index_lt [simp]: "va_index lvl va < 512"
  by (simp add: va_index_def)

lemma block_page:
  fixes B va p :: addr
  assumes "unat B + unat va mod 2 ^ n div 4096 * 4096 = unat va div 4096 * 4096 + d" "12 \<le> n" "unat B < 2 ^ 48" "n \<le> 48"
    and "unat p = unat va div 4096 * 4096 + d"
  shows "B + (va AND mask n AND NOT (mask 12)) = p"
proof -
  have "unat va mod 2 ^ n < 2 ^ 48"
    using assms(4) by (meson less_le_trans mod_less_divisor one_le_numeral power_increasing zero_less_numeral zero_less_power)
  moreover have "unat (va AND mask n AND NOT (mask 12)) \<le> unat va mod 2 ^ n"
    by (subst unat_block_offset [OF assms(2)]) (rule div_times_less_eq_dividend)
  ultimately have "unat B + unat (va AND mask n AND NOT (mask 12)) < 2 ^ 48 + 2 ^ 48"
    using assms(3) by linarith
  then have "unat B + unat (va AND mask n AND NOT (mask 12)) < 2 ^ 64" by simp
  then have "unat (B + (va AND mask n AND NOT (mask 12))) = unat p"
    using assms unat_block_offset [OF assms(2)] by (subst unat_add_nowrap) auto
  then show ?thesis by (simp add: word_unat_eq_iff)
qed

text \<open>A level-1 block that maps the gigabyte of \<open>va\<close> to the one at \<open>B\<close>, \<open>D\<close> bytes below.\<close>

lemma leaf_gb:
  assumes a: "attr_ok a sh xn" and B: "1073741824 dvd unat B" "unat B + unat D = unat va div 1073741824 * 1073741824"
    and va: "unat va < 2 ^ 48"
  shows "leaf (pte_block B a sh OR xn) 30 va = Some \<lparr>x_page = page_of va - D, x_attr = a, x_sh = sh, x_xn = xn\<rparr>"
proof -
  let ?o = "va AND mask 30 AND NOT (mask 12)"
  have o: "unat ?o = unat va mod 1073741824 div 4096 * 4096" by (subst unat_block_offset) simp_all
  have le: "unat B + unat D \<le> unat va" unfolding B(2) by simp
  have "unat va div 4096 * 4096 = unat va div 1073741824 * 1073741824 + unat va mod 1073741824 div 4096 * 4096"
  proof -
    define q r where "q = unat va div 1073741824" and "r = unat va mod 1073741824"
    have u: "unat va = r + 4096 * (262144 * q)" by (simp add: q_def r_def)
    have "unat va div 4096 = 262144 * q + r div 4096" by (subst u) (rule div_mult_self2, simp)
    then have "unat va div 4096 * 4096 = q * 1073741824 + r div 4096 * 4096" by simp
    then show ?thesis unfolding q_def r_def .
  qed
  then have p: "unat (page_of va) = unat B + unat D + unat ?o" unfolding unat_page_of o B(2) .
  have "unat (page_of va - D) = unat (page_of va) - unat D" by (rule unat_sub_nowrap) (simp add: word_le_nat_alt p)
  moreover have "unat (B + ?o) = unat B + unat ?o"
  proof (rule unat_add_nowrap)
    have "unat ?o \<le> unat va" unfolding o by (meson div_times_less_eq_dividend le_trans mod_less_eq_dividend)
    then show "unat B + unat ?o < 2 ^ 64" using le va by simp
  qed
  ultimately have "B + ?o = page_of va - D" using p by (simp add: word_unat_eq_iff)
  moreover have "2 ^ 30 dvd unat B" "unat B < 2 ^ 48" using B(1) le va by simp_all
  ultimately show ?thesis using leaf_aligned [OF a, of 30 B _ va] by simp
qed

section \<open>A gigabyte of RAM\<close>

text \<open>The \<open>k\<close>-th 2 MB block of the gigabyte at \<open>base\<close>, and the block's \<open>i\<close>-th page.\<close>

definition ram_block :: "addr \<Rightarrow> nat \<Rightarrow> addr" where
  "ram_block base k = base + of_nat k * kL2BlockSize"

definition ram_page :: "addr \<Rightarrow> nat \<Rightarrow> nat \<Rightarrow> addr" where
  "ram_page base k i = ram_block base k + of_nat i * kPageSize"

definition in_ram_at :: "addr \<Rightarrow> addr \<Rightarrow> bool" where
  "in_ram_at base va \<longleftrightarrow> unat base \<le> unat va \<and> unat va < unat base + 1073741824"

lemma in_ram_atE:
  assumes "in_ram_at base va"
  obtains y where "unat va = unat base + y" "y < 1073741824"
proof
  show "unat va = unat base + (unat va - unat base)" "unat va - unat base < 1073741824"
    using assms unfolding in_ram_at_def by linarith+
qed

text \<open>The DMA window, and the blocks of its first and its last byte.\<close>

definition dma_ok_at :: "addr \<Rightarrow> mmu_layout \<Rightarrow> bool" where
  "dma_ok_at base L \<longleftrightarrow> unat base \<le> unat (dma_nc_start L) \<and> unat (dma_nc_start L) < unat (dma_nc_end L) \<and>
     unat (dma_nc_end L) \<le> unat base + 1073741824"

definition dma_first_at :: "addr \<Rightarrow> mmu_layout \<Rightarrow> nat" where
  "dma_first_at base L = (unat (dma_nc_start L) - unat base) div 2097152"

definition dma_last_at :: "addr \<Rightarrow> mmu_layout \<Rightarrow> nat" where
  "dma_last_at base L = (unat (dma_nc_end L) - 1 - unat base) div 2097152"

definition in_dma :: "mmu_layout \<Rightarrow> addr \<Rightarrow> bool" where
  "in_dma L p \<longleftrightarrow> p \<ge> dma_nc_start L \<and> p < dma_nc_end L"

definition dma_attr :: "dma_policy \<Rightarrow> bool \<Rightarrow> u64" where
  "dma_attr pol inside = (if inside \<and> pol = NonCacheable then kAttrIdxNormalNc else kAttrIdxNormal)"

definition dma_xn :: "bool \<Rightarrow> u64" where
  "dma_xn inside = (if inside then kPtePxN OR kPteUxN else 0)"

text \<open>A page of the window as the tables can tell: in one of the two blocks that are mapped page by page.\<close>

definition dma_page_at :: "addr \<Rightarrow> mmu_layout \<Rightarrow> addr \<Rightarrow> bool" where
  "dma_page_at base L va \<longleftrightarrow> dma_ok_at base L \<and> in_dma L (page_of va) \<and>
     ((unat va - unat base) div 2097152 = dma_first_at base L \<or> (unat va - unat base) div 2097152 = dma_last_at base L)"

definition ram_xlat :: "dma_policy \<Rightarrow> addr \<Rightarrow> mmu_layout \<Rightarrow> addr \<Rightarrow> xlat" where
  "ram_xlat pol base L va =
     \<lparr>x_page = page_of va, x_attr = dma_attr pol (dma_page_at base L va), x_sh = 3, x_xn = dma_xn (dma_page_at base L va)\<rparr>"

text \<open>What the boot code writes for page \<open>i\<close> of block \<open>k\<close> if the block holds part of the DMA window, and for the window.\<close>

definition dma_pte :: "dma_policy \<Rightarrow> addr \<Rightarrow> mmu_layout \<Rightarrow> nat \<Rightarrow> nat \<Rightarrow> u64" where
  "dma_pte pol base L k i = pte_page (ram_page base k i) (dma_attr pol (in_dma L (ram_page base k i))) 3 OR
     dma_xn (in_dma L (ram_page base k i))"

definition with_dma :: "dma_policy \<Rightarrow> addr \<Rightarrow> mmu_layout \<Rightarrow> ptmem \<Rightarrow> ptmem" where
  "with_dma pol base L m =
     (if \<not> dma_ok_at base L then m
      else let m = put (a_l2_ram L) (dma_first_at base L) (pte_table (a_l3_dma0 L))
                (for_loop 512 (\<lambda>i. put (a_l3_dma0 L) i (dma_pte pol base L (dma_first_at base L) i)) m)
          in if dma_first_at base L = dma_last_at base L then m
             else put (a_l2_ram L) (dma_last_at base L) (pte_table (a_l3_dma1 L))
                (for_loop 512 (\<lambda>i. put (a_l3_dma1 L) i (dma_pte pol base L (dma_last_at base L) i)) m))"

definition boot_l2 :: "addr \<Rightarrow> mmu_layout \<Rightarrow> nat \<Rightarrow> u64" where
  "boot_l2 base L k = (if dma_ok_at base L \<and> k = dma_last_at base L \<and> dma_first_at base L \<noteq> dma_last_at base L then pte_table (a_l3_dma1 L)
     else if dma_ok_at base L \<and> k = dma_first_at base L then pte_table (a_l3_dma0 L)
     else pte_block (ram_block base k) kAttrIdxNormal 3)"

definition boot_tables_at :: "addr \<Rightarrow> mmu_layout \<Rightarrow> nat \<Rightarrow> addr option" where
  "boot_tables_at base L k = (if dma_ok_at base L \<and> k = dma_last_at base L \<and> dma_first_at base L \<noteq> dma_last_at base L then Some (a_l3_dma1 L)
     else if dma_ok_at base L \<and> k = dma_first_at base L then Some (a_l3_dma0 L) else None)"

lemma attr_ok_consts:
  "attr_ok kAttrIdxDevice 0 (kPtePxN OR kPteUxN)" "attr_ok kAttrIdxNormalNc 3 (kPtePxN OR kPteUxN)"
  "attr_ok kAttrIdxNormal 3 0" "attr_ok (dma_attr pol b) 3 (dma_xn c)"
  by (simp_all add: attr_ok_def kAttrIdxDevice_def kAttrIdxNormalNc_def kAttrIdxNormal_def dma_attr_def dma_xn_def)

lemma dma_table_eq:
  "dma_table pol (dma_nc_start L) (dma_nc_end L) (ram_block base k) l3 = for_loop 512 (\<lambda>i. put l3 i (dma_pte pol base L k i))"
  unfolding dma_table_def Let_def dma_pte_def dma_attr_def dma_xn_def in_dma_def ram_page_def ..

text \<open>
  The upper two levels: one level-0 entry, and \<open>l1 L j\<close> in entry \<open>j\<close> of level 1. Every level-2 entry of RAM is an
  identity block, or refers to a level-3 table of its own (\<open>T k\<close>); the extra tables are handed out in order.
\<close>

definition has_top :: "(mmu_layout \<Rightarrow> nat \<Rightarrow> u64) \<Rightarrow> mmu_layout \<Rightarrow> ptmem \<Rightarrow> bool" where
  "has_top l1 L m \<longleftrightarrow> (\<forall>j < 512. m (entry (a_l0 L) j) = (if j = 0 then pte_table (a_l1 L) else 0)) \<and>
     (\<forall>j < 512. m (entry (a_l1 L) j) = l1 L j)"

definition l3_owned :: "mmu_layout \<Rightarrow> nat \<Rightarrow> addr \<Rightarrow> bool" where
  "l3_owned L n b \<longleftrightarrow> b = a_l3_dma0 L \<or> b = a_l3_dma1 L \<or> (\<exists>t < n. b = l3_extra L t)"

definition tables_inv :: "addr \<Rightarrow> (mmu_layout \<Rightarrow> nat \<Rightarrow> u64) \<Rightarrow> mmu_layout \<Rightarrow> mmu \<Rightarrow> (nat \<Rightarrow> addr option) \<Rightarrow> bool" where
  "tables_inv base l1 L st T \<longleftrightarrow> layout_ok L \<and> has_top l1 L (pt st) \<and> ttbr0_el1 st = a_l0 L \<and> unat (g_l3_extra_next st) \<le> 8 \<and>
     (\<forall>k < 512. case T k of
        None \<Rightarrow> \<exists>a sh xn. attr_ok a sh xn \<and> pt st (entry (a_l2_ram L) k) = pte_block (ram_block base k) a sh OR xn
      | Some b \<Rightarrow> pt st (entry (a_l2_ram L) k) = pte_table b \<and> l3_owned L (unat (g_l3_extra_next st)) b) \<and>
     (\<forall>k < 512. \<forall>l < 512. T k = T l \<longrightarrow> T k \<noteq> None \<longrightarrow> k = l)"

lemma l3_owned_tbl:
  assumes "layout_ok L" "l3_owned L n b" "n \<le> 8"
  shows "tbl_ok b" "b \<noteq> a_l0 L" "b \<noteq> a_l1 L" "b \<noteq> a_l2_ram L"
proof -
  have ex: "b = a_l3_dma0 L \<or> b = a_l3_dma1 L \<or> (\<exists>t < 8. b = l3_extra L t)"
  proof -
    have "t < 8" if "t < n" for t using that assms(3) by simp
    then show ?thesis using assms(2) unfolding l3_owned_def by blast
  qed
  then show "tbl_ok b" using layout_tbl [OF assms(1)] by blast
  show "b \<noteq> a_l0 L" "b \<noteq> a_l1 L" "b \<noteq> a_l2_ram L"
    using ex layout_distinct(3,4,6,7,8,9,11,12,13) [OF assms(1)] by metis+
qed

lemma tables_invD:
  assumes "tables_inv base l1 L st T"
  shows "layout_ok L" "has_top l1 L (pt st)" "ttbr0_el1 st = a_l0 L" "unat (g_l3_extra_next st) \<le> 8"
    "\<And>k b. k < 512 \<Longrightarrow> T k = Some b \<Longrightarrow> pt st (entry (a_l2_ram L) k) = pte_table b \<and>
        l3_owned L (unat (g_l3_extra_next st)) b"
    "\<And>k. k < 512 \<Longrightarrow> T k = None \<Longrightarrow>
        \<exists>a sh xn. attr_ok a sh xn \<and> pt st (entry (a_l2_ram L) k) = pte_block (ram_block base k) a sh OR xn"
    "\<And>k l. k < 512 \<Longrightarrow> l < 512 \<Longrightarrow> T k = T l \<Longrightarrow> T k \<noteq> None \<Longrightarrow> k = l"
proof -
  show "layout_ok L" "has_top l1 L (pt st)" "ttbr0_el1 st = a_l0 L" "unat (g_l3_extra_next st) \<le> 8"
    using assms by (simp_all add: tables_inv_def)
  have "case T k of
        None \<Rightarrow> \<exists>a sh xn. attr_ok a sh xn \<and> pt st (entry (a_l2_ram L) k) = pte_block (ram_block base k) a sh OR xn
      | Some b \<Rightarrow> pt st (entry (a_l2_ram L) k) = pte_table b \<and> l3_owned L (unat (g_l3_extra_next st)) b" if "k < 512" for k
    using assms that unfolding tables_inv_def by blast
  note c = this
  show "pt st (entry (a_l2_ram L) k) = pte_table b \<and> l3_owned L (unat (g_l3_extra_next st)) b"
    if "k < 512" "T k = Some b" for k b using c [OF that(1)] that(2) by simp
  show "\<exists>a sh xn. attr_ok a sh xn \<and> pt st (entry (a_l2_ram L) k) = pte_block (ram_block base k) a sh OR xn"
    if "k < 512" "T k = None" for k using c [OF that(1)] that(2) by simp
  show "k = l" if "k < 512" "l < 512" "T k = T l" "T k \<noteq> None" for k l
    using assms that unfolding tables_inv_def by blast
qed

lemma put_keeps_top:
  assumes "layout_ok L" "has_top l1 L m" "tbl_ok b" "i < 512" "b \<noteq> a_l0 L" "b \<noteq> a_l1 L"
  shows "has_top l1 L (put b i v m)"
  using assms layout_tbl(1,2) [OF assms(1)] by (simp add: has_top_def put_entry)

lemma for_loop_top:
  assumes "layout_ok L" "has_top l1 L m" "tbl_ok b" "n \<le> 512" "b \<noteq> a_l0 L" "b \<noteq> a_l1 L"
  shows "has_top l1 L (for_loop n (\<lambda>i. put b i (f i)) m)"
  using assms layout_tbl(1,2) [OF assms(1)] by (simp add: has_top_def for_loop_table)

section \<open>The hardware's view\<close>

locale ram_tables =
  fixes base :: addr and l1 :: "mmu_layout \<Rightarrow> nat \<Rightarrow> u64"
  assumes base_aligned: "unat base mod 1073741824 = 0" and base_low: "unat base \<le> 2147483648"
    and l1_ram: "l1 L (unat base div 1073741824) = pte_table (a_l2_ram L)"
    and l1_other: "j < 512 \<Longrightarrow> j \<noteq> unat base div 1073741824 \<Longrightarrow> l1 L j AND 3 \<noteq> 3"
begin

lemma base_gb:
  obtains q where "unat base = 1073741824 * q" "q < 3" "unat base div 1073741824 = q"
proof -
  obtain q where q: "unat base = 1073741824 * q" using base_aligned by (auto simp: mod_eq_0_iff_dvd)
  moreover have "q < 3" using base_low unfolding q by linarith
  ultimately show thesis using that by simp
qed

lemma base_dvd: "2097152 dvd unat base" "4096 dvd unat base"
proof -
  obtain q where "unat base = 1073741824 * q" by (rule base_gb)
  then have "unat base = 2097152 * (512 * q)" "unat base = 4096 * (262144 * q)" by simp_all
  then show "2097152 dvd unat base" "4096 dvd unat base" by (metis dvd_triv_left)+
qed

lemma in_ram_pages:
  "in_ram_at base x \<longleftrightarrow> unat base div 4096 \<le> unat x div 4096 \<and> unat x div 4096 < unat base div 4096 + 262144"
proof -
  obtain w where w: "unat base = 4096 * w" using base_dvd(2) by (elim dvdE)
  then show ?thesis
    by (simp add: in_ram_at_def less_eq_div_iff_mult_less_eq div_less_iff_less_mult mult.commute add_mult_distrib2)
qed

lemma unat_ram_block: "k < 512 \<Longrightarrow> unat (ram_block base k) = unat base + k * 2097152"
proof -
  assume k: "k < 512"
  have "unat (of_nat k * kL2BlockSize :: u64) = k * 2097152"
    using k by (simp add: unat_word_ariths unat_of_nat kL2BlockSize_def)
  then show ?thesis
    unfolding ram_block_def using k base_low by (subst unat_add_nowrap) simp_all
qed

lemma unat_ram_page: "k < 512 \<Longrightarrow> i < 512 \<Longrightarrow> unat (ram_page base k i) = unat base + k * 2097152 + i * 4096"
proof -
  assume k: "k < 512" "i < 512"
  have "unat (of_nat i * kPageSize :: u64) = i * 4096"
    using k by (simp add: unat_word_ariths unat_of_nat kPageSize_def)
  then show ?thesis
    unfolding ram_page_def using k base_low by (subst unat_add_nowrap) (simp_all add: unat_ram_block)
qed

lemma block_down:
  assumes "in_ram_at base a"
  shows "a AND NOT (kL2BlockSize - 1) = ram_block base ((unat a - unat base) div 2097152)"
    "(unat a - unat base) div 2097152 < 512"
proof -
  obtain y where y: "unat a = unat base + y" "y < 1073741824"
    using assms by (rule in_ram_atE)
  obtain q where q: "unat base = 1073741824 * q" by (rule base_gb)
  have d: "(unat a - unat base) div 2097152 = y div 2097152" using y by simp
  show k: "(unat a - unat base) div 2097152 < 512" unfolding d using y by simp
  have m: "kL2BlockSize - 1 = mask 21" by (simp add: kL2BlockSize_def mask_eq_exp_minus_1)
  have "unat (a AND NOT (kL2BlockSize - 1)) = unat a div 2097152 * 2097152"
    unfolding m using unat_and_not_mask [of a 21] by simp
  also have "unat a div 2097152 = 512 * q + y div 2097152"
    using div_mult_self2 [of 2097152 y "512 * q"] y(1) q by simp
  also have "(512 * q + y div 2097152) * 2097152 = unat (ram_block base (y div 2097152))"
    using unat_ram_block [OF k] q unfolding d by simp
  finally show "a AND NOT (kL2BlockSize - 1) = ram_block base ((unat a - unat base) div 2097152)"
    unfolding d by (simp add: word_unat_eq_iff)
qed

lemma ram_block_index: "k < 512 \<Longrightarrow> unat ((ram_block base k - base) div kL2BlockSize) = k"
  by (simp add: ram_block_def kL2BlockSize_def unat_div unat_word_ariths unat_of_nat)

lemma ram_block_inj: "k < 512 \<Longrightarrow> l < 512 \<Longrightarrow> ram_block base k = ram_block base l \<longleftrightarrow> k = l"
proof
  assume k: "k < 512" "l < 512" and "ram_block base k = ram_block base l"
  then have "unat base + k * 2097152 = unat base + l * (2097152 :: nat)"
    using unat_ram_block [OF k(1)] unat_ram_block [OF k(2)] by metis
  then show "k = l" by linarith
qed simp

lemma dma_blocks:
  assumes "dma_ok_at base L"
  shows "dma_nc_start L AND NOT (kL2BlockSize - 1) = ram_block base (dma_first_at base L)"
    "(dma_nc_end L - 1) AND NOT (kL2BlockSize - 1) = ram_block base (dma_last_at base L)"
    "dma_first_at base L < 512" "dma_last_at base L < 512"
proof -
  have b: "unat base \<le> unat (dma_nc_start L)" "unat (dma_nc_start L) < unat (dma_nc_end L)"
    "unat (dma_nc_end L) \<le> unat base + 1073741824" using assms by (simp_all add: dma_ok_at_def)
  have "1 \<le> dma_nc_end L" using b by (simp add: word_le_nat_alt)
  then have e: "unat (dma_nc_end L - 1) = unat (dma_nc_end L) - 1" by (simp add: unat_sub_nowrap)
  have s: "in_ram_at base (dma_nc_start L)" "in_ram_at base (dma_nc_end L - 1)"
    using b unfolding in_ram_at_def e by linarith+
  show "dma_nc_start L AND NOT (kL2BlockSize - 1) = ram_block base (dma_first_at base L)" "dma_first_at base L < 512"
    unfolding dma_first_at_def by (rule block_down [OF s(1)])+
  show "(dma_nc_end L - 1) AND NOT (kL2BlockSize - 1) = ram_block base (dma_last_at base L)" "dma_last_at base L < 512"
    unfolding dma_last_at_def e [symmetric] by (rule block_down [OF s(2)])+
qed

lemma ram_index:
  assumes "in_ram_at base va"
  shows "va_index 2 va = (unat va - unat base) div 2097152" "va_index 3 va = unat va div 4096 mod 512"
    "va_index 1 va = unat base div 1073741824" "va_index 0 va = 0" "unat va < 2 ^ 48"
    "unat base + va_index 2 va * 2097152 + va_index 3 va * 4096 = unat va div 4096 * 4096"
proof -
  obtain y where y: "unat va = unat base + y" "y < 1073741824"
    using assms by (rule in_ram_atE)
  obtain q where q: "unat base = 1073741824 * q" "q < 3" "unat base div 1073741824 = q" by (rule base_gb)
  have u: "unat va = y + 2097152 * (512 * q)" "unat va = y + 4096 * (262144 * q)" "unat va = y + 1073741824 * q"
    using y q by simp_all
  have "unat va div 2097152 = 512 * q + y div 2097152" unfolding u(1) by (rule div_mult_self2) simp
  moreover have "unat va div 4096 = 262144 * q + y div 4096" unfolding u(2) by (rule div_mult_self2) simp
  moreover have "unat va div 1073741824 = q" unfolding u(3) using y(2) div_mult_self2 [of 1073741824 y q] by simp
  ultimately have d: "unat va div 2097152 = 512 * q + y div 2097152" "unat va div 4096 = 262144 * q + y div 4096"
    "unat va div 1073741824 = q" by blast+
  have d4: "unat va div 549755813888 = 0" using u(3) y(2) q(2) by simp
  have m: "(262144 * q + z) mod 512 = z mod 512" for z :: nat
    using mod_mult_self4 [of 512 "512 * q" z] by (simp only: mult.assoc [symmetric]) simp
  have v: "va_index 2 va = y div 2097152" "va_index 3 va = y div 4096 mod 512"
    unfolding va_index_def using d(1,2) m less_mult_imp_div_less [of y 512 2097152] y(2) by simp_all
  show "va_index 2 va = (unat va - unat base) div 2097152" using v(1) y(1) by simp
  show "va_index 3 va = unat va div 4096 mod 512" by (simp add: va_index_def)
  show "va_index 1 va = unat base div 1073741824" "va_index 0 va = 0"
    unfolding va_index_def using d(3) d4 q by simp_all
  show "unat va < 2 ^ 48" using u(3) y(2) q(2) by simp
  have "y div 2097152 = y div 4096 div 512" by (simp add: div_mult2_eq [symmetric])
  then have "y div 4096 = y div 2097152 * 512 + y div 4096 mod 512" by simp
  then show "unat base + va_index 2 va * 2097152 + va_index 3 va * 4096 = unat va div 4096 * 4096"
    unfolding v d(2) using q by simp
qed

lemma ram_page_of:
  assumes "in_ram_at base va"
  shows "ram_page base (va_index 2 va) (va_index 3 va) = page_of va"
  using ram_index(6) [OF assms] by (simp add: word_unat_eq_iff unat_ram_page unat_page_of)

lemma ram_block_page:
  assumes "in_ram_at base va"
  shows "ram_block base (va_index 2 va) + (va AND mask 21 AND NOT (mask 12)) = page_of va"
proof (rule block_page [of _ _ _ 0])
  have m: "unat va mod 2 ^ 21 div 4096 = unat va div 4096 mod 512"
  proof -
    have "unat va mod (4096 * 512) div 4096 = unat va div 4096 mod 512" by (rule mod_mult2_eq [THEN arg_cong [of _ _ "\<lambda>x. x div 4096"], THEN trans]) simp
    then show ?thesis by simp
  qed
  show "unat (ram_block base (va_index 2 va)) + unat va mod 2 ^ 21 div 4096 * 4096 = unat va div 4096 * 4096 + 0"
    unfolding m unat_ram_block [OF va_index_lt] using ram_index(6) [OF assms] ram_index(2) [OF assms] by simp
  show "unat (ram_block base (va_index 2 va)) < 2 ^ 48"
    unfolding unat_ram_block [OF va_index_lt] using va_index_lt [of 2 va] base_low by (simp del: va_index_lt)
  show "unat (page_of va) = unat va div 4096 * 4096 + 0" by (simp add: unat_page_of)
qed simp_all

text \<open>The two ways a RAM page can be mapped: by its block, or by its entry in a level-3 table.\<close>

lemma ram_leaves:
  assumes v: "in_ram_at base va" and a: "attr_ok a sh xn"
  shows "leaf (pte_block (ram_block base (va_index 2 va)) a sh OR xn) 21 va =
      Some \<lparr>x_page = page_of va, x_attr = a, x_sh = sh, x_xn = xn\<rparr>"
    "leaf (pte_page (ram_page base (va_index 2 va) (va_index 3 va)) a sh OR xn) 12 va =
      Some \<lparr>x_page = page_of va, x_attr = a, x_sh = sh, x_xn = xn\<rparr>"
proof -
  note k = va_index_lt [of 2 va] va_index_lt [of 3 va]
  have "2 ^ 21 dvd unat (ram_block base (va_index 2 va))" "unat (ram_block base (va_index 2 va)) < 2 ^ 48"
    unfolding unat_ram_block [OF k(1)] using k base_dvd base_low by (auto intro!: dvd_add simp del: va_index_lt)
  from leaf_aligned [OF a _ this, of _ va] show "leaf (pte_block (ram_block base (va_index 2 va)) a sh OR xn) 21 va =
      Some \<lparr>x_page = page_of va, x_attr = a, x_sh = sh, x_xn = xn\<rparr>"
    using ram_block_page [OF v] by simp
  have "2 ^ 12 dvd unat (ram_page base (va_index 2 va) (va_index 3 va))"
    "unat (ram_page base (va_index 2 va) (va_index 3 va)) < 2 ^ 48"
    unfolding unat_ram_page [OF k] using k base_dvd base_low by (auto intro!: dvd_add simp del: va_index_lt)
  from leaf_aligned [OF a _ this, of _ va]
  show "leaf (pte_page (ram_page base (va_index 2 va) (va_index 3 va)) a sh OR xn) 12 va =
      Some \<lparr>x_page = page_of va, x_attr = a, x_sh = sh, x_xn = xn\<rparr>"
    using ram_page_of [OF v] by simp
qed

lemma walk_ram:
  assumes "layout_ok L" "has_top l1 L m" "in_ram_at base va"
  shows "walk m (a_l0 L) va =
       (let d2 = m (entry (a_l2_ram L) (va_index 2 va)) in
        if d2 AND 3 = 1 then leaf d2 21 va
        else if d2 AND 3 \<noteq> 3 then None
        else let d3 = m (entry (desc_addr d2) (va_index 3 va))
             in if d3 AND 3 \<noteq> 3 then None else leaf d3 12 va)"
proof -
  note i = ram_index [OF assms(3)]
  have d0: "m (entry (a_l0 L) (va_index 0 va)) = pte_table (a_l1 L)"
    using assms(2) i(4) unfolding has_top_def by simp
  have d1: "m (entry (a_l1 L) (va_index 1 va)) = pte_table (a_l2_ram L)"
    using assms(2) l1_ram va_index_lt [of 1 va] unfolding has_top_def i(3) by simp
  have s: "\<not> 2 ^ 48 \<le> unat va" using i(5) by simp
  show ?thesis
    unfolding walk_def Let_def if_not_P [OF s] d0 pte_table_fields desc_addr_tbl [OF layout_tbl(2) [OF assms(1)]] d1
      desc_addr_tbl [OF layout_tbl(3) [OF assms(1)]] by simp
qed

text \<open>Outside RAM there is no second level.\<close>

lemma walk_not_ram_eq:
  assumes "layout_ok L" "has_top l1 L m" "\<not> in_ram_at base va"
  shows "walk m (a_l0 L) va = (if unat va < 549755813888 \<and> l1 L (unat va div 1073741824) AND 3 = 1
    then leaf (l1 L (unat va div 1073741824)) 30 va else None)"
proof (cases "unat va < 549755813888")
  case True
  have i: "va_index 0 va = 0" "va_index 1 va = unat va div 1073741824" using True by (simp_all add: va_index_def)
  have lt: "unat va div 1073741824 < 512" using va_index_lt [of 1 va] unfolding i(2) .
  have d0: "m (entry (a_l0 L) (va_index 0 va)) = pte_table (a_l1 L)" using assms(2) i(1) unfolding has_top_def by simp
  have d1: "m (entry (a_l1 L) (va_index 1 va)) = l1 L (unat va div 1073741824)"
    using assms(2) lt unfolding has_top_def i(2) by simp
  have ne: "unat va div 1073741824 \<noteq> unat base div 1073741824"
  proof
    assume e: "unat va div 1073741824 = unat base div 1073741824"
    have "unat base = unat base div 1073741824 * 1073741824" using base_aligned by (simp add: mod_eq_0_iff_dvd)
    moreover have "unat va = unat va div 1073741824 * 1073741824 + unat va mod 1073741824" by simp
    moreover have "unat va mod 1073741824 < 1073741824" by simp
    ultimately show False using assms(3) e unfolding in_ram_at_def by linarith
  qed
  show ?thesis
    unfolding walk_def Let_def d0 pte_table_fields desc_addr_tbl [OF layout_tbl(2) [OF assms(1)]] d1
    using True l1_other [OF lt ne, of L] by simp
next
  case False
  show ?thesis
  proof (cases "unat va < 2 ^ 48")
    case True
    have "unat va div 549755813888 < 512" "unat va div 549755813888 \<noteq> 0" using True False by simp_all
    then have "va_index 0 va \<noteq> 0" by (simp add: va_index_def)
    then have "m (entry (a_l0 L) (va_index 0 va)) = 0" using assms(2) unfolding has_top_def by simp
    then show ?thesis using False by (simp add: walk_def)
  next
    case 2: False
    then show ?thesis using False by (simp add: walk_def)
  qed
qed

lemma walk_not_ram:
  assumes "layout_ok L" "has_top l1 L m" "has_top l1 L m'" "\<not> in_ram_at base va"
  shows "walk m (a_l0 L) va = walk m' (a_l0 L) va"
  using walk_not_ram_eq [OF assms(1,2,4)] walk_not_ram_eq [OF assms(1,3,4)] by simp

lemma walk_ram_table:
  assumes "layout_ok L" "has_top l1 L m" "in_ram_at base va" "m (entry (a_l2_ram L) (va_index 2 va)) = pte_table b" "tbl_ok b"
  shows "walk m (a_l0 L) va = (let d3 = m (entry b (va_index 3 va)) in if d3 AND 3 \<noteq> 3 then None else leaf d3 12 va)"
  using walk_ram [OF assms(1-3)] assms(4) pte_table_fields desc_addr_tbl [OF assms(5)] by (simp add: Let_def)

lemma walk_ram_block:
  assumes "layout_ok L" "has_top l1 L m" "in_ram_at base va" "attr_ok a sh xn"
    "m (entry (a_l2_ram L) (va_index 2 va)) = pte_block (ram_block base (va_index 2 va)) a sh OR xn"
  shows "walk m (a_l0 L) va = Some \<lparr>x_page = page_of va, x_attr = a, x_sh = sh, x_xn = xn\<rparr>"
  using walk_ram [OF assms(1-3)] assms(5) ram_leaves(1) [OF assms(3,4)] pte_fields(8) [OF assms(4)] by (simp add: Let_def)

text \<open>Splitting a block into a table of pages changes no translation.\<close>

lemma split_block:
  assumes inv: "tables_inv base l1 L st T" and k: "k < 512" "T k = None" and n: "g_l3_extra_next st < 8"
    and a: "attr_ok a sh xn" and e: "pt st (entry (a_l2_ram L) k) = pte_block (ram_block base k) a sh OR xn"
    and st': "st' = st\<lparr>g_l3_extra_next := g_l3_extra_next st + 1,
      pt := put (a_l2_ram L) k (pte_table b)
        (for_loop 512 (\<lambda>i. put b i (pte_page (ram_page base k i) a sh OR xn)) (pt st))\<rparr>"
    and b: "b = l3_extra L (unat (g_l3_extra_next st))"
  shows "tables_inv base l1 L st' (T(k := Some b))" and "\<And>va. walk (pt st') (a_l0 L) va = walk (pt st) (a_l0 L) va"
proof -
  let ?n = "unat (g_l3_extra_next st)"
  note D = tables_invD [OF inv] and t = layout_tbl [OF tables_invD(1) [OF inv]]
    and d = layout_distinct [OF tables_invD(1) [OF inv]]
  have n8: "?n < 8" using n by (simp add: word_less_nat_alt)
  have n': "unat (g_l3_extra_next st') = Suc ?n"
  proof -
    have "unat (g_l3_extra_next st + 1) = ?n + 1" using n8 by (simp add: unat_word_ariths)
    then show ?thesis by (simp add: st')
  qed
  have tb: "tbl_ok b" "b \<noteq> a_l0 L" "b \<noteq> a_l1 L" "b \<noteq> a_l2_ram L" using t(6) [OF n8] d(11-13) [OF n8] b by auto
  have fresh: "b \<noteq> c" if "l3_owned L ?n c" for c
    using that d(14-16) [OF n8] n8 b unfolding l3_owned_def by (metis order.strict_trans nat_neq_iff)
  have P: "pt st' = put (a_l2_ram L) k (pte_table b)
        (for_loop 512 (\<lambda>i. put b i (pte_page (ram_page base k i) a sh OR xn)) (pt st))" by (simp add: st')
  have top: "has_top l1 L (pt st')"
    unfolding P by (intro put_keeps_top for_loop_top D(1,2) tb t(3) k d(2,5) [symmetric] order.refl)
  have l2: "pt st' (entry (a_l2_ram L) l) = (if l = k then pte_table b else pt st (entry (a_l2_ram L) l))" if "l < 512" for l
    unfolding P using that k tb t(3) by (simp add: put_entry for_loop_table)
  have l3: "pt st' (entry b i) = pte_page (ram_page base k i) a sh OR xn" if "i < 512" for i
    unfolding P using that k tb t(3) by (simp add: put_entry for_loop_table)
  have other: "pt st' (entry c i) = pt st (entry c i)" if "tbl_ok c" "c \<noteq> b" "c \<noteq> a_l2_ram L" "i < 512" for c i
    unfolding P using that k tb t(3) by (simp add: put_entry for_loop_table)
  have own: "l3_owned L (Suc ?n) c" if "l3_owned L ?n c" for c using that by (auto simp: l3_owned_def intro: less_SucI)
  have ownb: "l3_owned L (Suc ?n) b" using b by (auto simp: l3_owned_def)
  show "tables_inv base l1 L st' (T(k := Some b))"
    unfolding tables_inv_def n'
  proof (intro conjI allI impI)
    show "layout_ok L" "has_top l1 L (pt st')" using D(1) top by simp_all
    show "ttbr0_el1 st' = a_l0 L" using D(3) by (simp add: st')
    show "Suc ?n \<le> 8" using n8 by simp
  next
    fix l :: nat assume l: "l < 512"
    show "case (T(k := Some b)) l of
        None \<Rightarrow> \<exists>a sh xn. attr_ok a sh xn \<and> pt st' (entry (a_l2_ram L) l) = pte_block (ram_block base l) a sh OR xn
      | Some c \<Rightarrow> pt st' (entry (a_l2_ram L) l) = pte_table c \<and> l3_owned L (Suc ?n) c"
      using D(5) [OF l] D(6) [OF l] own ownb l2 [OF l] by (cases "T l") auto
  next
    fix l l' :: nat assume l: "l < 512" "l' < 512" "(T(k := Some b)) l = (T(k := Some b)) l'" "(T(k := Some b)) l \<noteq> None"
    have nb: "T x \<noteq> Some b" if "x < 512" for x using D(5) [OF that] fresh by blast
    show "l = l'" using l nb [of l] nb [of l'] D(7) [of l l'] by (auto split: if_splits)
  qed
  show "walk (pt st') (a_l0 L) va = walk (pt st) (a_l0 L) va" for va
  proof (cases "in_ram_at base va")
    case False
    then show ?thesis by (rule walk_not_ram [OF D(1) top D(2)])
  next
    case True
    let ?k = "va_index 2 va"
    show ?thesis
    proof (cases "?k = k")
      case kk: True
      have "pt st' (entry (a_l2_ram L) ?k) = pte_table b" unfolding kk using l2 [OF k(1)] by simp
      note w = walk_ram_table [OF D(1) top True this tb(1)]
      have "walk (pt st') (a_l0 L) va = Some \<lparr>x_page = page_of va, x_attr = a, x_sh = sh, x_xn = xn\<rparr>"
        unfolding w
        using ram_leaves(2) [OF True a] pte_fields(2) [OF a] l3 [OF va_index_lt] kk by (simp add: Let_def)
      moreover have "walk (pt st) (a_l0 L) va = Some \<lparr>x_page = page_of va, x_attr = a, x_sh = sh, x_xn = xn\<rparr>"
        using walk_ram_block [OF D(1,2) True a] e kk by simp
      ultimately show ?thesis by simp
    next
      case nk: False
      show ?thesis
      proof (cases "T ?k")
        case None
        then obtain a' sh' xn' where a': "attr_ok a' sh' xn'"
          "pt st (entry (a_l2_ram L) ?k) = pte_block (ram_block base ?k) a' sh' OR xn'" using D(6) [OF va_index_lt] by blast
        then show ?thesis
          using walk_ram_block [OF D(1,2) True a'(1)] walk_ram_block [OF D(1) top True a'(1)] l2 [OF va_index_lt] nk by simp
      next
        case (Some c)
        then have c: "pt st (entry (a_l2_ram L) ?k) = pte_table c" "l3_owned L ?n c" using D(5) [OF va_index_lt] by blast+
        have c': "tbl_ok c" "c \<noteq> b" "c \<noteq> a_l2_ram L" using l3_owned_tbl [OF D(1) c(2) D(4)] fresh [OF c(2)] by auto
        have "pt st' (entry (a_l2_ram L) ?k) = pte_table c" using l2 [OF va_index_lt] nk c(1) by simp
        then show ?thesis
          using walk_ram_table [OF D(1) top True _ c'(1)] walk_ram_table [OF D(1,2) True c(1) c'(1)]
            other [OF c' va_index_lt] by simp
      qed
    qed
  qed
qed

lemma page_of_ram:
  assumes "in_ram_at base a"
  shows "in_ram_at base (page_of a)" "page_of (page_of a) = page_of a"
  using assms by (simp_all add: in_ram_pages word_unat_eq_iff unat_page_of)

lemma page_of_eq_iff:
  assumes "in_ram_at base a"
  shows "page_of va = page_of a \<longleftrightarrow> in_ram_at base va \<and> va_index 2 va = va_index 2 a \<and> va_index 3 va = va_index 3 a"
proof
  assume e: "page_of va = page_of a"
  then have u: "unat va div 4096 = unat a div 4096" by (simp add: word_unat_eq_iff unat_page_of)
  have "va_index lvl x = unat x div 4096 div 2 ^ (27 - 9 * lvl) mod 512" if "lvl \<le> 3" for lvl x
  proof -
    have "(2 :: nat) ^ (39 - 9 * lvl) = 4096 * 2 ^ (27 - 9 * lvl)" using that by (auto simp: le_Suc_eq numeral_3_eq_3)
    then show ?thesis by (simp add: va_index_def div_mult2_eq)
  qed
  then have "va_index 2 va = va_index 2 a" "va_index 3 va = va_index 3 a" using u by simp_all
  moreover have "in_ram_at base va" using assms u by (simp add: in_ram_pages)
  ultimately show "in_ram_at base va \<and> va_index 2 va = va_index 2 a \<and> va_index 3 va = va_index 3 a" by simp
next
  assume "in_ram_at base va \<and> va_index 2 va = va_index 2 a \<and> va_index 3 va = va_index 3 a"
  then show "page_of va = page_of a" using ram_page_of [of va] ram_page_of [OF assms] by metis
qed

text \<open>The indices that guarding a page computes.\<close>

lemma guard_indices:
  assumes "in_ram_at base a"
  shows "align_down a kPageSize = page_of a" "in_ram_at base (page_of a)"
    "unat ((page_of a - base) div kL2BlockSize) = va_index 2 a"
    "unat ((page_of a - base) mod kL2BlockSize div kPageSize) = va_index 3 a"
proof -
  have "kPageSize - 1 = mask 12" by (simp add: kPageSize_def mask_eq_exp_minus_1)
  then show "align_down a kPageSize = page_of a" by (simp add: align_down_def page_of_def)
  show r: "in_ram_at base (page_of a)" using page_of_ram(1) [OF assms] .
  then have "base \<le> page_of a" by (simp add: in_ram_at_def word_le_nat_alt)
  then have u: "unat (page_of a - base) = va_index 2 a * 2097152 + va_index 3 a * 4096"
    using ram_index(6) [OF assms] by (simp add: unat_sub_nowrap unat_page_of)
  have i: "va_index 3 a * 4096 < 2097152" using va_index_lt [of 3 a] by (simp del: va_index_lt)
  show "unat ((page_of a - base) div kL2BlockSize) = va_index 2 a"
    using u i by (simp add: unat_div kL2BlockSize_def)
  show "unat ((page_of a - base) mod kL2BlockSize div kPageSize) = va_index 3 a"
    using u i by (simp add: unat_div unat_mod kL2BlockSize_def kPageSize_def)
qed

text \<open>Clearing one page entry.\<close>

lemma clear_entry_walk:
  assumes inv: "tables_inv base l1 L st T" and a: "in_ram_at base a" and T: "T (va_index 2 a) = Some b"
    and m: "m = put b (va_index 3 a) 0 (pt st)"
  shows "walk m (a_l0 L) va = (if page_of va = page_of a then None else walk (pt st) (a_l0 L) va)"
    and "tables_inv base l1 L (st\<lparr>pt := m, tlb := t\<rparr>) T"
proof -
  note D = tables_invD [OF inv]
  have o: "l3_owned L (unat (g_l3_extra_next st)) b" using D(5) [OF va_index_lt T] by blast
  note tb = l3_owned_tbl [OF D(1) o D(4)]
  have top: "has_top l1 L m" unfolding m by (intro put_keeps_top D(1,2) tb(1-3) va_index_lt)
  have l2: "m (entry (a_l2_ram L) k) = pt st (entry (a_l2_ram L) k)" if "k < 512" for k
    unfolding m using that tb layout_tbl(3) [OF D(1)] by (simp add: put_entry)
  show "tables_inv base l1 L (st\<lparr>pt := m, tlb := t\<rparr>) T"
    using inv top l2 unfolding tables_inv_def by (simp cong: option.case_cong)
  show "walk m (a_l0 L) va = (if page_of va = page_of a then None else walk (pt st) (a_l0 L) va)"
  proof (cases "in_ram_at base va")
    case False
    then show ?thesis using walk_not_ram [OF D(1) top D(2) False] page_of_eq_iff [OF a, of va] by simp
  next
    case True
    let ?k = "va_index 2 va"
    show ?thesis
    proof (cases "T ?k")
      case None
      then have "?k \<noteq> va_index 2 a" using T by auto
      then have ne: "page_of va \<noteq> page_of a" using page_of_eq_iff [OF a] by simp
      obtain x sh xn where x: "attr_ok x sh xn" "pt st (entry (a_l2_ram L) ?k) = pte_block (ram_block base ?k) x sh OR xn"
        using D(6) [OF va_index_lt None] by blast
      show ?thesis
        using walk_ram_block [OF D(1,2) True x] walk_ram_block [OF D(1) top True x(1)] l2 [OF va_index_lt] x(2) ne by simp
    next
      case (Some c)
      have c: "pt st (entry (a_l2_ram L) ?k) = pte_table c" "l3_owned L (unat (g_l3_extra_next st)) c"
        using D(5) [OF va_index_lt Some] by auto
      note tc = l3_owned_tbl [OF D(1) c(2) D(4)]
      have cb: "c = b \<longleftrightarrow> ?k = va_index 2 a" using D(7) [OF va_index_lt va_index_lt, of 2 va 2 a] Some T by auto
      have l2': "m (entry (a_l2_ram L) ?k) = pte_table c" using l2 [OF va_index_lt] c(1) by simp
      have l3: "m (entry c (va_index 3 va)) =
          (if c = b \<and> va_index 3 va = va_index 3 a then 0 else pt st (entry c (va_index 3 va)))"
        unfolding m using tb(1) tc(1) by (simp add: put_entry)
      have "page_of va = page_of a \<longleftrightarrow> c = b \<and> va_index 3 va = va_index 3 a"
        using page_of_eq_iff [OF a, of va] True cb by simp
      then show ?thesis
        using walk_ram_table [OF D(1) top True l2' tc(1)] walk_ram_table [OF D(1,2) True c(1) tc(1)] l3
        by (simp add: Let_def)
    qed
  qed
qed

end

text \<open>A sequence of guard requests.\<close>

primrec guard_run :: "(addr \<Rightarrow> mmu \<Rightarrow> int \<times> mmu) \<Rightarrow> addr list \<Rightarrow> mmu \<Rightarrow> int list \<times> mmu" where
  "guard_run g [] st = ([], st)"
| "guard_run g (a # as) st = (let (r, st) = g a st; (rs, st) = guard_run g as st in (r # rs, st))"

section \<open>What a board's code has to do\<close>

locale board = ram_tables +
  fixes boot_base :: "mmu_layout \<Rightarrow> ptmem \<Rightarrow> ptmem"
    and build :: "dma_policy \<Rightarrow> mmu_layout \<Rightarrow> mmu \<Rightarrow> mmu"
    and init :: "dma_policy \<Rightarrow> mmu_layout \<Rightarrow> u64 \<Rightarrow> bool \<Rightarrow> mmu \<Rightarrow> mmu"
    and ensure_l3 :: "mmu_layout \<Rightarrow> nat \<Rightarrow> mmu \<Rightarrow> addr \<times> mmu"
    and guard_page :: "mmu_layout \<Rightarrow> addr \<Rightarrow> mmu \<Rightarrow> int \<times> mmu"
  assumes boot_base_top: "layout_ok L \<Longrightarrow> has_top l1 L (boot_base L m)"
    and boot_base_ram: "layout_ok L \<Longrightarrow> j < 512 \<Longrightarrow> boot_base L m (entry (a_l2_ram L) j) = pte_block (ram_block base j) kAttrIdxNormal 3"
    and build_pt: "pt (build pol L st) = with_dma pol base L (boot_base L (pt st))"
    and init_off: "sctlr_el1 st AND 1 = 0 \<Longrightarrow> init pol L mmfr0 True st =
      st\<lparr>pt := pt (build pol L st), g_l3_extra_next := 0, mair_el1 := mair_value, tcr_el1 := tcr_value mmfr0,
        ttbr0_el1 := a_l0 L, tlb := (\<lambda>_. None), sctlr_el1 := sctlr_el1 st OR push_bit 0 1 OR push_bit 2 1 OR push_bit 12 1\<rparr>"
    and ensure_l3_table: "k < 512 \<Longrightarrow> pt st (entry (a_l2_ram L) k) = pte_table b \<Longrightarrow> tbl_ok b \<Longrightarrow> ensure_l3 L k st = (b, st)"
    and ensure_l3_block: "k < 512 \<Longrightarrow> attr_ok a sh xn \<Longrightarrow> pt st (entry (a_l2_ram L) k) = pte_block (ram_block base k) a sh OR xn \<Longrightarrow>
      ensure_l3 L k st =
        (if g_l3_extra_next st \<ge> 8 then (NULL, st)
         else let b = l3_extra L (unat (g_l3_extra_next st))
              in (b, st\<lparr>g_l3_extra_next := g_l3_extra_next st + 1,
                pt := put (a_l2_ram L) k (pte_table b) (for_loop 512 (\<lambda>i. put b i (pte_page (ram_page base k i) a sh OR xn)) (pt st))\<rparr>))"
    and guard_page_ram: "in_ram_at base a \<Longrightarrow> a \<noteq> NULL \<Longrightarrow> mmu_enabled st \<Longrightarrow> guard_page L a st =
      (let (b, st1) = ensure_l3 L (va_index 2 a) st
       in if b = NULL then (-1, st1) else (0, tlbi_vmalle1 (st1\<lparr>pt := put b (va_index 3 a) 0 (pt st1)\<rparr>)))"
begin

text \<open>A table of its own for a block, the translation unchanged.\<close>

lemma ensure_l3_spec:
  assumes inv: "tables_inv base l1 L st T" and k: "k < 512"
  obtains (full) "ensure_l3 L k st = (NULL, st)" "T k = None" "g_l3_extra_next st \<ge> 8"
    | (ready) b st' T' where "ensure_l3 L k st = (b, st')" "b \<noteq> NULL" "tables_inv base l1 L st' T'" "T' k = Some b"
      "\<And>va. walk (pt st') (a_l0 L) va = walk (pt st) (a_l0 L) va"
      "sctlr_el1 st' = sctlr_el1 st" "tlb st' = tlb st"
proof (cases "T k")
  case (Some b)
  then have e: "pt st (entry (a_l2_ram L) k) = pte_table b" and o: "l3_owned L (unat (g_l3_extra_next st)) b"
    using tables_invD(5) [OF inv k] by auto
  have tb: "tbl_ok b" using l3_owned_tbl(1) [OF tables_invD(1) [OF inv] o tables_invD(4) [OF inv]] .
  then have "b \<noteq> NULL" by (simp add: tbl_ok_def)
  then show thesis using ready ensure_l3_table [OF k e tb] inv Some by blast
next
  case None
  then obtain a sh xn where a: "attr_ok a sh xn" and e: "pt st (entry (a_l2_ram L) k) = pte_block (ram_block base k) a sh OR xn"
    using tables_invD(6) [OF inv k] by blast
  note r = ensure_l3_block [OF k a e]
  show thesis
  proof (cases "g_l3_extra_next st \<ge> 8")
    case True
    then show thesis using full None r by simp
  next
    case False
    let ?b = "l3_extra L (unat (g_l3_extra_next st))"
    have n: "g_l3_extra_next st < 8" using False by simp
    have "tbl_ok ?b" using layout_tbl(6) [OF tables_invD(1) [OF inv]] n by (simp add: word_less_nat_alt)
    then have "?b \<noteq> NULL" by (simp add: tbl_ok_def)
    then show thesis
      using ready [of ?b _ "T(k := Some ?b)"] r False split_block [OF inv k None n a e refl refl] by (simp add: Let_def)
  qed
qed

text \<open>Guarding a page removes that page from the translation, and nothing else.\<close>

lemma guard_page_correct:
  assumes inv: "tables_inv base l1 L st T" and en: "mmu_enabled st" and a: "in_ram_at base a" "a \<noteq> NULL"
    and r: "guard_page L a st = (r, st')"
  shows "(r = 0 \<and> (\<exists>T'. tables_inv base l1 L st' T') \<and> mmu_enabled st' \<and>
      (\<forall>va. translate st' va = (if page_of va = page_of a then None else walk (pt st) (ttbr0_el1 st) va))) \<or>
    (r = -1 \<and> st' = st \<and> T (va_index 2 a) = None \<and> g_l3_extra_next st \<ge> 8)"
proof (rule ensure_l3_spec [OF inv va_index_lt, of 2 a])
  assume "ensure_l3 L (va_index 2 a) st = (NULL, st)" "T (va_index 2 a) = None" "8 \<le> g_l3_extra_next st"
  then show ?thesis using r unfolding guard_page_ram [OF a en] by simp
next
  fix b st1 T1
  assume e: "ensure_l3 L (va_index 2 a) st = (b, st1)" "b \<noteq> NULL" "tables_inv base l1 L st1 T1"
    "T1 (va_index 2 a) = Some b" "\<And>va. walk (pt st1) (a_l0 L) va = walk (pt st) (a_l0 L) va" "sctlr_el1 st1 = sctlr_el1 st"
  have st': "r = 0" "st' = st1\<lparr>pt := put b (va_index 3 a) 0 (pt st1), tlb := (\<lambda>_. None)\<rparr>"
    using r e(1,2) unfolding guard_page_ram [OF a en] by (simp_all add: tlbi_vmalle1_def)
  note c = clear_entry_walk [OF e(3) a(1) e(4) refl]
  have "tables_inv base l1 L st' T1" using c(2) by (simp add: st')
  moreover have "mmu_enabled st'" using en e(6) by (simp add: st' mmu_enabled_def)
  moreover have "ttbr0_el1 st' = a_l0 L" "ttbr0_el1 st = a_l0 L" "tlb st' = (\<lambda>_. None)"
    using tables_invD(3) [OF calculation(1)] tables_invD(3) [OF inv] by (simp_all add: st')
  moreover have "walk (pt st') (a_l0 L) va = (if page_of va = page_of a then None else walk (pt st) (a_l0 L) va)" for va
    using c(1) [of va] e(5) by (simp add: st')
  ultimately show ?thesis using st'(1) by (auto simp: translate_def)
qed

text \<open>The tables after boot.\<close>

lemma boot_entries:
  assumes L: "layout_ok L" and j: "j < 512" and m: "m = pt (build pol L st)"
  shows "m (entry (a_l0 L) j) = (if j = 0 then pte_table (a_l1 L) else 0)" "m (entry (a_l1 L) j) = l1 L j"
    "m (entry (a_l2_ram L) j) = boot_l2 base L j"
    "dma_ok_at base L \<Longrightarrow> m (entry (a_l3_dma0 L) j) = dma_pte pol base L (dma_first_at base L) j"
    "dma_ok_at base L \<Longrightarrow> dma_first_at base L \<noteq> dma_last_at base L \<Longrightarrow>
      m (entry (a_l3_dma1 L) j) = dma_pte pol base L (dma_last_at base L) j"
proof -
  note t = layout_tbl [OF L] and d = layout_distinct [OF L] layout_distinct [OF L, symmetric]
  note b = boot_base_top [OF L, of "pt st", unfolded has_top_def] boot_base_ram [OF L, of _ "pt st"]
  note simps = m build_pt with_dma_def Let_def boot_l2_def
  show "m (entry (a_l0 L) j) = (if j = 0 then pte_table (a_l1 L) else 0)" "m (entry (a_l1 L) j) = l1 L j"
    "m (entry (a_l2_ram L) j) = boot_l2 base L j"
    unfolding simps using t d j b dma_blocks [of L] by (simp_all add: for_loop_table put_entry)
  show "m (entry (a_l3_dma0 L) j) = dma_pte pol base L (dma_first_at base L) j" if "dma_ok_at base L"
    unfolding simps using t d j dma_blocks [of L] that by (simp add: for_loop_table put_entry)
  show "m (entry (a_l3_dma1 L) j) = dma_pte pol base L (dma_last_at base L) j" if "dma_ok_at base L" "dma_first_at base L \<noteq> dma_last_at base L"
    unfolding simps using t d j dma_blocks [of L] that by (simp add: for_loop_table put_entry)
qed

lemma boot_top: "layout_ok L \<Longrightarrow> has_top l1 L (pt (build pol L st))"
  unfolding has_top_def using boot_entries(1,2) [of L _ _ pol st] by simp

lemma build_inv:
  assumes L: "layout_ok L" and "ttbr0_el1 st' = a_l0 L" "pt st' = pt (build pol L st)" "g_l3_extra_next st' = 0"
  shows "tables_inv base l1 L st' (boot_tables_at base L)"
proof -
  have "case boot_tables_at base L k of
        None \<Rightarrow> \<exists>a sh xn. attr_ok a sh xn \<and> pt st' (entry (a_l2_ram L) k) = pte_block (ram_block base k) a sh OR xn
      | Some b \<Rightarrow> pt st' (entry (a_l2_ram L) k) = pte_table b \<and> l3_owned L (unat (g_l3_extra_next st')) b"
    if k: "k < 512" for k
  proof (cases "boot_tables_at base L k")
    case None
    then have "pt st' (entry (a_l2_ram L) k) = pte_block (ram_block base k) kAttrIdxNormal 3 OR 0"
      using boot_entries(3) [OF L k assms(3)] by (auto simp: boot_l2_def boot_tables_at_def split: if_splits)
    then have "\<exists>a sh xn. attr_ok a sh xn \<and> pt st' (entry (a_l2_ram L) k) = pte_block (ram_block base k) a sh OR xn"
      using attr_ok_consts(3) by blast
    then show ?thesis unfolding None option.case .
  next
    case (Some b)
    then show ?thesis
      using boot_entries(3) [OF L k assms(3)]
      by (auto simp: boot_l2_def boot_tables_at_def l3_owned_def split: if_splits)
  qed
  moreover have "k = l" if "boot_tables_at base L k = boot_tables_at base L l" "boot_tables_at base L k \<noteq> None" for k l
    using that layout_distinct(10) [OF L] by (auto simp: boot_tables_at_def split: if_splits)
  ultimately show ?thesis
    using L assms(2,4) boot_top [OF L, of pol st] unfolding tables_inv_def assms(3) by simp
qed

lemma walk_boot_ram:
  assumes L: "layout_ok L" and m: "m = pt (build pol L st)" and va: "in_ram_at base va"
  shows "walk m (a_l0 L) va = Some (ram_xlat pol base L va)"
proof -
  have top: "has_top l1 L m" using boot_top [OF L] m by simp
  let ?k = "va_index 2 va"
  have l2: "m (entry (a_l2_ram L) ?k) = boot_l2 base L ?k" using boot_entries(3) [OF L va_index_lt m] .
  have dp: "dma_page_at base L va \<longleftrightarrow> dma_ok_at base L \<and> in_dma L (page_of va) \<and>
      (?k = dma_first_at base L \<or> ?k = dma_last_at base L)"
    using ram_index(1) [OF va] by (simp add: dma_page_at_def)
  have tab: "walk m (a_l0 L) va = Some (ram_xlat pol base L va)"
    if b: "tbl_ok b" "m (entry (a_l2_ram L) ?k) = pte_table b" "m (entry b (va_index 3 va)) = dma_pte pol base L ?k (va_index 3 va)"
      and d: "dma_page_at base L va \<longleftrightarrow> in_dma L (page_of va)" for b
  proof -
    have "m (entry b (va_index 3 va)) =
        pte_page (ram_page base ?k (va_index 3 va)) (dma_attr pol (dma_page_at base L va)) 3 OR dma_xn (dma_page_at base L va)"
      unfolding b(3) dma_pte_def ram_page_of [OF va] d ..
    then show ?thesis
      unfolding walk_ram_table [OF L top va b(2,1)] ram_xlat_def
      using ram_leaves(2) [OF va attr_ok_consts(4)] pte_fields(2) [OF attr_ok_consts(4)] by (simp add: Let_def)
  qed
  show ?thesis
  proof (cases "dma_ok_at base L \<and> (?k = dma_first_at base L \<or> ?k = dma_last_at base L)")
    case False
    then have "m (entry (a_l2_ram L) ?k) = pte_block (ram_block base ?k) kAttrIdxNormal 3 OR 0"
      using l2 by (auto simp: boot_l2_def)
    from walk_ram_block [OF L top va attr_ok_consts(3) this] show ?thesis
      using False dp by (auto simp: ram_xlat_def dma_attr_def dma_xn_def)
  next
    case dk: True
    then have d: "dma_page_at base L va \<longleftrightarrow> in_dma L (page_of va)" using dp by blast
    show ?thesis
    proof (cases "?k = dma_last_at base L \<and> dma_first_at base L \<noteq> dma_last_at base L")
      case l: True
      show ?thesis
        by (rule tab [OF layout_tbl(5) [OF L] _ _ d])
          (use l dk l2 boot_entries(5) [OF L va_index_lt m, of 3 va] in \<open>simp_all add: boot_l2_def\<close>)
    next
      case f: False
      then have kf: "?k = dma_first_at base L" using dk by metis
      show ?thesis
        by (rule tab [OF layout_tbl(4) [OF L] _ _ d])
          (use f kf dk l2 boot_entries(4) [OF L va_index_lt m, of 3 va] in \<open>auto simp: boot_l2_def\<close>)
    qed
  qed
qed

lemma init_correct:
  assumes "layout_ok L" "sctlr_el1 st AND 1 = 0"
  shows "tables_inv base l1 L (init pol L mmfr0 True st) (boot_tables_at base L)" "mmu_enabled (init pol L mmfr0 True st)"
    "translate (init pol L mmfr0 True st) va =
      (if in_ram_at base va then Some (ram_xlat pol base L va)
       else if unat va < 549755813888 \<and> l1 L (unat va div 1073741824) AND 3 = 1
         then leaf (l1 L (unat va div 1073741824)) 30 va else None)"
proof -
  let ?st = "init pol L mmfr0 True st"
  note i = init_off [OF assms(2), of pol L mmfr0]
  have f: "pt ?st = pt (build pol L st)" "ttbr0_el1 ?st = a_l0 L" "g_l3_extra_next ?st = 0" "tlb ?st = (\<lambda>_. None)"
    unfolding i by simp_all
  show "tables_inv base l1 L ?st (boot_tables_at base L)" by (rule build_inv [OF assms(1) f(2,1,3)])
  show "mmu_enabled ?st"
  proof -
    have "bit ((sctlr_el1 st OR push_bit 0 1 OR push_bit 2 1 OR push_bit 12 1) AND 1) 0"
      by (simp only: bit_and_iff bit_or_iff bit_push_bit_iff bit_1_iff possible_bit_word) simp
    then show ?thesis unfolding i mmu_enabled_def by auto
  qed
  show "translate ?st va =
      (if in_ram_at base va then Some (ram_xlat pol base L va)
       else if unat va < 549755813888 \<and> l1 L (unat va div 1073741824) AND 3 = 1
         then leaf (l1 L (unat va div 1073741824)) 30 va else None)"
    using walk_boot_ram [OF assms(1) refl, of va pol st] walk_not_ram_eq [OF assms(1) boot_top [OF assms(1), of pol st], of va] f
    by (simp add: translate_def)
qed

text \<open>Every successful request takes its page out of the map; the others change nothing.\<close>

lemma guard_run_correct:
  assumes "tables_inv base l1 L st T" "mmu_enabled st" "tlb st = (\<lambda>_. None)" "\<forall>a \<in> set as. in_ram_at base a \<and> a \<noteq> NULL"
    and "guard_run (guard_page L) as st = (rs, st')"
  shows "length rs = length as \<and> set rs \<subseteq> {0, -1} \<and>
    (\<forall>va. translate st' va = (if \<exists>(a, r) \<in> set (zip as rs). r = 0 \<and> page_of va = page_of a then None else translate st va))"
  using assms
proof (induction as arbitrary: st T rs st')
  case Nil
  then show ?case by simp
next
  case (Cons a as)
  obtain r st1 where r: "guard_page L a st = (r, st1)" by (cases "guard_page L a st")
  obtain rs1 where rs: "guard_run (guard_page L) as st1 = (rs1, st')" "rs = r # rs1"
    using Cons.prems(5) r by (auto split: prod.splits)
  have a: "in_ram_at base a" "a \<noteq> NULL" "\<forall>a \<in> set as. in_ram_at base a \<and> a \<noteq> NULL" using Cons.prems(4) by simp_all
  have tr: "translate st = walk (pt st) (ttbr0_el1 st)" using Cons.prems(3) by (simp add: translate_def fun_eq_iff)
  have "tlb st1 = (\<lambda>_. None)"
    using r Cons.prems(3) unfolding guard_page_ram [OF a(1,2) Cons.prems(2)]
    by (rule_tac ensure_l3_spec [OF Cons.prems(1) va_index_lt, of 2 a]) (auto simp: tlbi_vmalle1_def split: if_splits)
  from guard_page_correct [OF Cons.prems(1,2) a(1,2) r] show ?case
  proof (elim disjE conjE exE)
    fix T1 assume g: "r = 0" "tables_inv base l1 L st1 T1" "mmu_enabled st1"
      "\<forall>va. translate st1 va = (if page_of va = page_of a then None else walk (pt st) (ttbr0_el1 st) va)"
    from Cons.IH [OF g(2,3) \<open>tlb st1 = (\<lambda>_. None)\<close> a(3) rs(1)] show ?thesis
      unfolding rs(2) tr using g(1,4) by auto
  next
    assume g: "r = -1" "st1 = st"
    from Cons.IH [OF Cons.prems(1-3) a(3)] rs(1) show ?thesis unfolding rs(2) using g by auto
  qed
qed

end

end
