(* ===== verification/Mmu.thy ===== *)
theory Mmu
  imports PageTable Uart
begin

text \<open>
  The MMU set-up of \<^verbatim>\<open>src/arch/aarch64/mmu.cc\<close> (QEMU \<^verbatim>\<open>virt\<close>, RAM at 1 GB): \<^verbatim>\<open>build_identity_map\<close>,
  \<^verbatim>\<open>ensure_l3_for_ram_block\<close>, \<^verbatim>\<open>mmu_init\<close>, \<^verbatim>\<open>mmu_guard_page\<close> and \<^verbatim>\<open>mmu_dump_state\<close>, on the tables of \<open>PageTable\<close>.
  Locale \<open>board\<close> is interpreted on them.
\<close>

section \<open>The code\<close>

definition kRamBase :: u64 where "kRamBase = 0x40000000"
definition kRamLimit :: u64 where "kRamLimit = 0x80000000"

definition build_identity_map :: "dma_policy \<Rightarrow> mmu_layout \<Rightarrow> mmu \<Rightarrow> mmu" where
  "build_identity_map pol L st =
     (let m = clear_tables L (pt st);
          m = put (a_l0 L) 0 (pte_table (a_l1 L)) m;
          m = put (a_l1 L) 0 (pte_block 0 kAttrIdxDevice 0 OR kPtePxN OR kPteUxN) m;
          m = put (a_l1 L) 1 (pte_table (a_l2_ram L)) m;
          m = put (a_l1 L) 2 (pte_block kRamBase kAttrIdxNormalNc 3 OR kPtePxN OR kPteUxN) m;
          dma_start = dma_nc_start L;
          dma_end = dma_nc_end L;
          m = for_loop 512 (\<lambda>i m.
                let va = kRamBase + of_nat i * kL2BlockSize
                in put (a_l2_ram L) i (pte_block va kAttrIdxNormal 3) m) m;
          m = (if dma_start \<ge> kRamBase \<and> dma_end > dma_start \<and> dma_end \<le> kRamLimit then
                 let dma_first_block = dma_start AND NOT (kL2BlockSize - 1);
                     dma_last_block = (dma_end - 1) AND NOT (kL2BlockSize - 1);
                     blocks = [dma_first_block, dma_last_block];
                     l3_tables = [a_l3_dma0 L, a_l3_dma1 L];
                     table_count = (if dma_first_block = dma_last_block then 1 else 2)
                 in for_loop table_count (\<lambda>t m.
                      let block_base = blocks ! t;
                          l2_index = unat ((block_base - kRamBase) div kL2BlockSize);
                          l3 = l3_tables ! t;
                          m = dma_table pol dma_start dma_end block_base l3 m
                      in put (a_l2_ram L) l2_index (pte_table l3) m) m
               else m)
      in st\<lparr>pt := m, g_l3_extra_next := 0\<rparr>)"

text \<open>The result is the table (0 for a null pointer) and the new state.\<close>

definition ensure_l3_for_ram_block :: "mmu_layout \<Rightarrow> nat \<Rightarrow> mmu \<Rightarrow> addr \<times> mmu" where
  "ensure_l3_for_ram_block L l2_index st =
     (if l2_index \<ge> 512 then (NULL, st)
      else let e = pt st (entry (a_l2_ram L) l2_index);
               type = e AND 3
           in if type = 3 then (e AND 0x0000FFFFFFFFF000, st)
              else if type \<noteq> 1 then (NULL, st)
              else if g_l3_extra_next st \<ge> 8 then (NULL, st)
              else let l3 = l3_extra L (unat (g_l3_extra_next st));
                       st = st\<lparr>g_l3_extra_next := g_l3_extra_next st + 1\<rparr>;
                       attr_index = drop_bit 2 e AND 7;
                       sh = drop_bit 8 e AND 3;
                       xn = e AND (kPtePxN OR kPteUxN);
                       block_base = kRamBase + of_nat l2_index * kL2BlockSize;
                       m = for_loop 512 (\<lambda>i m.
                             let va = block_base + of_nat i * kPageSize
                             in put l3 i (pte_page va attr_index sh OR xn) m) (pt st);
                       m = put (a_l2_ram L) l2_index (pte_table l3) m
                   in (l3, st\<lparr>pt := m\<rparr>))"

definition mmu_init :: "dma_policy \<Rightarrow> mmu_layout \<Rightarrow> u64 \<Rightarrow> bool \<Rightarrow> mmu \<Rightarrow> mmu" where
  "mmu_init pol L mmfr0 enable st =
     (if \<not> enable then st
      else let before = sctlr_el1 st
           in if before AND 1 \<noteq> 0 then st
              else let st = build_identity_map pol L st;
                       st = st\<lparr>mair_el1 := mair_value\<rparr>;
                       st = st\<lparr>tcr_el1 := tcr_value mmfr0\<rparr>;
                       st = st\<lparr>ttbr0_el1 := a_l0 L\<rparr>;
                       st = tlbi_vmalle1 st;
                       sctlr = before OR push_bit 0 1 OR push_bit 2 1 OR push_bit 12 1
                   in st\<lparr>sctlr_el1 := sctlr\<rparr>)"

definition mmu_guard_page :: "mmu_layout \<Rightarrow> addr \<Rightarrow> mmu \<Rightarrow> int \<times> mmu" where
  "mmu_guard_page L addr st =
     (if addr = NULL then (-1, st)
      else if \<not> mmu_enabled st then (-1, st)
      else let va = align_down addr kPageSize
           in if va < kRamBase \<or> va \<ge> kRamLimit then (-1, st)
              else let off = va - kRamBase;
                       l2_index = unat (off div kL2BlockSize);
                       l3_index = unat (off mod kL2BlockSize div kPageSize);
                       (l3, st) = ensure_l3_for_ram_block L l2_index st
                   in if l3 = NULL then (-1, st)
                      else (0, tlbi_vmalle1 (st\<lparr>pt := put l3 l3_index 0 (pt st)\<rparr>)))"

text \<open>The lines the console shows.\<close>

definition mmu_dump_state :: "mmu \<Rightarrow> string" where
  "mmu_dump_state st =
     ''[mmu] mair_el1=0x'' @ puthex64 (mair_el1 st) @ [newline] @
     ''[mmu] tcr_el1 =0x'' @ puthex64 (tcr_el1 st) @ [newline] @
     ''[mmu] ttbr0_el1=0x'' @ puthex64 (ttbr0_el1 st) @ [newline] @
     ''[mmu] sctlr=0x'' @ puthex64 (sctlr_el1 st) @
     '' (C='' @ (if sctlr_el1 st AND push_bit 2 1 \<noteq> 0 then ''1'' else ''0'') @
     '', I='' @ (if sctlr_el1 st AND push_bit 12 1 \<noteq> 0 then ''1'' else ''0'') @
     '', M='' @ (if sctlr_el1 st AND push_bit 0 1 \<noteq> 0 then ''1'' else ''0'') @ '')'' @ [newline]"

section \<open>The code satisfies the board's contract\<close>

abbreviation in_ram :: "addr \<Rightarrow> bool" where "in_ram \<equiv> in_ram_at kRamBase"
abbreviation dma_page :: "mmu_layout \<Rightarrow> addr \<Rightarrow> bool" where "dma_page \<equiv> dma_page_at kRamBase"
abbreviation boot_tables :: "mmu_layout \<Rightarrow> nat \<Rightarrow> addr option" where "boot_tables \<equiv> boot_tables_at kRamBase"

definition virt_l1 :: "mmu_layout \<Rightarrow> nat \<Rightarrow> u64" where
  "virt_l1 L j = (if j = 0 then pte_block 0 kAttrIdxDevice 0 OR kPtePxN OR kPteUxN
     else if j = 1 then pte_table (a_l2_ram L)
     else if j = 2 then pte_block kRamBase kAttrIdxNormalNc 3 OR kPtePxN OR kPteUxN else 0)"

abbreviation mmu_inv :: "mmu_layout \<Rightarrow> mmu \<Rightarrow> (nat \<Rightarrow> addr option) \<Rightarrow> bool" where "mmu_inv \<equiv> tables_inv kRamBase virt_l1"

definition boot_base :: "mmu_layout \<Rightarrow> ptmem \<Rightarrow> ptmem" where
  "boot_base L m = for_loop 512 (\<lambda>i. put (a_l2_ram L) i (pte_block (ram_block kRamBase i) kAttrIdxNormal 3))
     (put (a_l1 L) 2 (pte_block kRamBase kAttrIdxNormalNc 3 OR kPtePxN OR kPteUxN)
     (put (a_l1 L) 1 (pte_table (a_l2_ram L))
     (put (a_l1 L) 0 (pte_block 0 kAttrIdxDevice 0 OR kPtePxN OR kPteUxN)
     (put (a_l0 L) 0 (pte_table (a_l1 L)) (clear_tables L m)))))"

lemma unat_kRam: "unat kRamBase = 1073741824" "unat kRamLimit = 2147483648"
  by (simp_all add: kRamBase_def kRamLimit_def)

lemma in_ram_unat: "in_ram va \<longleftrightarrow> 1073741824 \<le> unat va \<and> unat va < 2147483648"
  by (simp add: in_ram_at_def unat_kRam)

lemma in_ram_iff: "in_ram va \<longleftrightarrow> kRamBase \<le> va \<and> va < kRamLimit"
  by (simp add: in_ram_unat word_le_nat_alt word_less_nat_alt unat_kRam)

interpretation virt_tables: ram_tables kRamBase virt_l1
  by unfold_locales
    (auto simp: unat_kRam virt_l1_def pte_fields(8) [OF attr_ok_consts(1)] pte_fields(8) [OF attr_ok_consts(2)] or.assoc)

lemma boot_base_entries:
  assumes L: "layout_ok L" and j: "j < 512"
  shows "boot_base L m (entry (a_l0 L) j) = (if j = 0 then pte_table (a_l1 L) else 0)"
    "boot_base L m (entry (a_l1 L) j) = virt_l1 L j"
    "boot_base L m (entry (a_l2_ram L) j) = pte_block (ram_block kRamBase j) kAttrIdxNormal 3"
proof -
  note t = layout_tbl [OF L] and d = layout_distinct [OF L] layout_distinct [OF L, symmetric]
  have z: "clear_tables L m (entry (a_l0 L) j) = 0" "clear_tables L m (entry (a_l1 L) j) = 0"
    by (rule clear_tables_0 [OF L _ j], simp add: tables_def)+
  show "boot_base L m (entry (a_l0 L) j) = (if j = 0 then pte_table (a_l1 L) else 0)"
    "boot_base L m (entry (a_l1 L) j) = virt_l1 L j"
    "boot_base L m (entry (a_l2_ram L) j) = pte_block (ram_block kRamBase j) kAttrIdxNormal 3"
    unfolding boot_base_def virt_l1_def using t d j z by (simp_all add: for_loop_table put_entry)
qed

lemma build_identity_map_pt: "pt (build_identity_map pol L st) = with_dma pol kRamBase L (boot_base L (pt st))"
proof -
  have ok: "(kRamBase \<le> dma_nc_start L \<and> dma_nc_start L < dma_nc_end L \<and> dma_nc_end L \<le> kRamLimit) = dma_ok_at kRamBase L"
    by (simp add: dma_ok_at_def word_le_nat_alt word_less_nat_alt unat_kRam)
  show ?thesis
  proof (cases "dma_ok_at kRamBase L")
    case False
    then show ?thesis
      unfolding build_identity_map_def Let_def boot_base_def ram_block_def ok with_dma_def by simp
  next
    case True
    note d = virt_tables.dma_blocks [OF True]
    show ?thesis
      unfolding build_identity_map_def Let_def d(1,2) boot_base_def [unfolded ram_block_def, symmetric] ok with_dma_def
      using True d(3,4) virt_tables.ram_block_inj virt_tables.ram_block_index
      by (simp add: dma_table_eq for_loop_Suc numeral_2_eq_2 One_nat_def)
  qed
qed

interpretation virt: board kRamBase virt_l1 boot_base build_identity_map mmu_init ensure_l3_for_ram_block mmu_guard_page
proof unfold_locales
  fix pol L st m mmfr0 k b a sh xn j
  show "layout_ok L \<Longrightarrow> has_top virt_l1 L (boot_base L m)" using boot_base_entries(1,2) by (simp add: has_top_def)
  show "layout_ok L \<Longrightarrow> j < 512 \<Longrightarrow> boot_base L m (entry (a_l2_ram L) j) = pte_block (ram_block kRamBase j) kAttrIdxNormal 3"
    by (rule boot_base_entries(3))
  show "pt (build_identity_map pol L st) = with_dma pol kRamBase L (boot_base L (pt st))" by (rule build_identity_map_pt)
  show "sctlr_el1 st AND 1 = 0 \<Longrightarrow> mmu_init pol L mmfr0 True st =
      st\<lparr>pt := pt (build_identity_map pol L st), g_l3_extra_next := 0, mair_el1 := mair_value, tcr_el1 := tcr_value mmfr0,
        ttbr0_el1 := a_l0 L, tlb := (\<lambda>_. None), sctlr_el1 := sctlr_el1 st OR push_bit 0 1 OR push_bit 2 1 OR push_bit 12 1\<rparr>"
    by (simp add: mmu_init_def Let_def tlbi_vmalle1_def build_identity_map_def)
  show "k < 512 \<Longrightarrow> pt st (entry (a_l2_ram L) k) = pte_table b \<Longrightarrow> tbl_ok b \<Longrightarrow> ensure_l3_for_ram_block L k st = (b, st)"
    using pte_table_fields [of b] desc_addr_tbl [of b] by (simp add: ensure_l3_for_ram_block_def Let_def desc_addr_def)
  show "ensure_l3_for_ram_block L k st =
        (if g_l3_extra_next st \<ge> 8 then (NULL, st)
         else let b = l3_extra L (unat (g_l3_extra_next st))
              in (b, st\<lparr>g_l3_extra_next := g_l3_extra_next st + 1,
                pt := put (a_l2_ram L) k (pte_table b) (for_loop 512 (\<lambda>i. put b i (pte_page (ram_page kRamBase k i) a sh OR xn)) (pt st))\<rparr>))"
    if "k < 512" and a: "attr_ok a sh xn" and e: "pt st (entry (a_l2_ram L) k) = pte_block (ram_block kRamBase k) a sh OR xn"
    unfolding ensure_l3_for_ram_block_def Let_def e pte_fields [OF a] using that by (simp add: ram_page_def ram_block_def)
  show "mmu_guard_page L a st =
      (let (b, st1) = ensure_l3_for_ram_block L (va_index 2 a) st
       in if b = NULL then (-1, st1) else (0, tlbi_vmalle1 (st1\<lparr>pt := put b (va_index 3 a) 0 (pt st1)\<rparr>)))"
    if a: "in_ram a" "a \<noteq> NULL" and en: "mmu_enabled st"
  proof -
    note g = virt_tables.guard_indices [OF a(1)]
    have "\<not> (page_of a < kRamBase \<or> page_of a \<ge> kRamLimit)" using g(2) unfolding in_ram_iff by (simp add: not_less not_le)
    then show ?thesis
      using a(2) en by (simp only: mmu_guard_page_def Let_def g(1,3,4) if_False simp_thms)
  qed
qed

section \<open>The translation of the boot map\<close>

text \<open>
  What the map is meant to be. The window of the DMA section is treated page by page in the first and
  the last 2 MB block it touches.
\<close>

definition boot_map :: "dma_policy \<Rightarrow> mmu_layout \<Rightarrow> addr \<Rightarrow> xlat option" where
  "boot_map pol L va =
     (if va < kRamBase then
        Some \<lparr>x_page = page_of va, x_attr = kAttrIdxDevice, x_sh = 0, x_xn = kPtePxN OR kPteUxN\<rparr>
      else if va < kRamLimit then
        Some \<lparr>x_page = page_of va, x_attr = dma_attr pol (dma_page L va), x_sh = 3, x_xn = dma_xn (dma_page L va)\<rparr>
      else if va < 0xC0000000 then
        Some \<lparr>x_page = page_of va - kRamBase, x_attr = kAttrIdxNormalNc, x_sh = 3, x_xn = kPtePxN OR kPteUxN\<rparr>
      else None)"

lemma virt_other:
  assumes "\<not> in_ram va"
  shows "(if unat va < 549755813888 \<and> virt_l1 L (unat va div 1073741824) AND 3 = 1
      then leaf (virt_l1 L (unat va div 1073741824)) 30 va else None) = boot_map pol L va"
proof -
  consider "unat va < 1073741824" | "2147483648 \<le> unat va" "unat va < 3221225472" | "3221225472 \<le> unat va"
    using assms unfolding in_ram_unat by linarith
  then show ?thesis
  proof cases
    case 1
    then have "unat va div 1073741824 = 0" "va < kRamBase" by (simp_all add: word_less_nat_alt unat_kRam)
    then show ?thesis
      using 1 leaf_gb [OF attr_ok_consts(1), of 0 0 va] pte_fields(8) [OF attr_ok_consts(1)]
      by (simp add: virt_l1_def boot_map_def or.assoc)
  next
    case 2
    then have d: "unat va div 1073741824 = 2" "\<not> va < kRamBase" "\<not> va < kRamLimit" "va < 0xC0000000"
      by (simp_all add: word_less_nat_alt unat_kRam)
    then show ?thesis
      using 2 leaf_gb [OF attr_ok_consts(2), of kRamBase kRamBase va] pte_fields(8) [OF attr_ok_consts(2)]
      by (simp add: virt_l1_def boot_map_def or.assoc unat_kRam kRamBase_def)
  next
    case 3
    then have "\<not> va < kRamBase" "\<not> va < kRamLimit" "\<not> va < 0xC0000000" by (simp_all add: word_less_nat_alt unat_kRam)
    moreover have "3 \<le> unat va div 1073741824" using 3 by simp
    ultimately show ?thesis by (simp add: virt_l1_def boot_map_def)
  qed
qed

section \<open>Properties\<close>

text \<open>
  C16: \<^verbatim>\<open>mmu_init\<close> on a CPU with the MMU off enables it with exactly the intended map, for every
  virtual address: device memory, execute-never and identity-mapped below 1 GB; RAM identity-mapped
  as normal memory, the pages of the DMA window execute-never (and non-cacheable under that policy);
  the third gigabyte a non-cacheable, execute-never alias of RAM; everything above faults.
\<close>
theorem mmu_init_maps:
  assumes "layout_ok L" "sctlr_el1 st AND 1 = 0"
  shows "translate (mmu_init pol L mmfr0 True st) va = boot_map pol L va \<and>
    mmu_inv L (mmu_init pol L mmfr0 True st) (boot_tables L) \<and> mmu_enabled (mmu_init pol L mmfr0 True st)"
proof -
  have "in_ram va \<Longrightarrow> Some (ram_xlat pol kRamBase L va) = boot_map pol L va"
    by (auto simp: in_ram_iff boot_map_def ram_xlat_def)
  then show ?thesis
    using virt.init_correct [OF assms, of pol mmfr0] virt_other [of va L pol] by simp
qed

text \<open>A layout with the tables at 0x40100000 and one DMA page at 0x40200000.\<close>

definition layout_example :: mmu_layout where
  "layout_example = \<lparr>a_l0 = 0x40100000, a_l1 = 0x40101000, a_l2_ram = 0x40102000, a_l3_dma0 = 0x40103000,
     a_l3_dma1 = 0x40104000, a_l3_extra = 0x40105000, dma_nc_start = 0x40200000, dma_nc_end = 0x40201000\<rparr>"

definition mmu_example :: mmu where
  "mmu_example = \<lparr>pt = (\<lambda>_. 7), g_l3_extra_next = 5, mair_el1 = 0, tcr_el1 = 0, ttbr0_el1 = 0, sctlr_el1 = 0x30C50830,
     tlb = (\<lambda>_. None)\<rparr>"

lemma layout_example_ok: "layout_ok layout_example"
  by (simp add: layout_ok_def tables_def l3_extra_def tbl_ok_def layout_example_def upt_rec)

theorem mmu_init_maps_witness:
  "translate (mmu_init NonCacheable layout_example 0 True mmu_example) 0x80000010 =
     Some \<lparr>x_page = 0x40000000, x_attr = kAttrIdxNormalNc, x_sh = 3, x_xn = kPtePxN OR kPteUxN\<rparr>"
proof -
  have "sctlr_el1 mmu_example AND 1 = 0" by (simp add: mmu_example_def)
  from mmu_init_maps [OF layout_example_ok this, of NonCacheable 0 "0x80000010"]
  have t: "translate (mmu_init NonCacheable layout_example 0 True mmu_example) 0x80000010 =
      boot_map NonCacheable layout_example 0x80000010" by blast
  have "unat (page_of 0x80000010 - kRamBase) = unat (0x40000000 :: addr)"
    by (subst unat_sub_nowrap) (simp_all add: unat_page_of kRamBase_def word_le_nat_alt)
  then have "page_of 0x80000010 - kRamBase = 0x40000000" by (rule word_unat_eq_iff [THEN iffD2])
  then show ?thesis unfolding t by (simp add: boot_map_def kRamBase_def kRamLimit_def)
qed

text \<open>
  C17: \<^verbatim>\<open>mmu_guard_page\<close> on a RAM address with the MMU on either installs the guard, or refuses and
  changes nothing, and it refuses only when the block is not split yet and all eight spare tables are
  in use. After an installation the page of the address faults on every access, no cached translation
  survives, and every other address translates exactly as before.
\<close>
theorem mmu_guard_page_correct:
  assumes inv: "mmu_inv L st T" and en: "mmu_enabled st" and a: "in_ram a" "a \<noteq> NULL"
    and r: "mmu_guard_page L a st = (r, st')"
  shows "(r = 0 \<and> (\<exists>T'. mmu_inv L st' T') \<and>
      (\<forall>va. translate st' va = (if page_of va = page_of a then None else walk (pt st) (ttbr0_el1 st) va))) \<or>
    (r = -1 \<and> st' = st \<and> T (va_index 2 a) = None \<and> g_l3_extra_next st \<ge> 8)"
  using virt.guard_page_correct [OF assms] by blast

theorem mmu_guard_page_correct_witness:
  "fst (mmu_guard_page layout_example 0x40300000 (mmu_init NonCacheable layout_example 0 True mmu_example)) = 0 \<and>
   translate (snd (mmu_guard_page layout_example 0x40300000 (mmu_init NonCacheable layout_example 0 True mmu_example)))
     0x40300008 = None"
proof -
  let ?st = "mmu_init NonCacheable layout_example 0 True mmu_example"
  have s0: "sctlr_el1 mmu_example AND 1 = 0" by (simp add: mmu_example_def)
  note i = virt.init_correct [OF layout_example_ok s0, of NonCacheable 0]
  have f: "g_l3_extra_next ?st = 0" using s0 by (simp add: virt.init_off)
  have r: "in_ram 0x40300000" "(0x40300000 :: addr) \<noteq> NULL" by (simp_all add: in_ram_unat)
  have p: "page_of 0x40300008 = page_of 0x40300000" by (simp add: word_unat_eq_iff unat_page_of)
  obtain x st' where m: "mmu_guard_page layout_example 0x40300000 ?st = (x, st')" by (cases "mmu_guard_page layout_example 0x40300000 ?st")
  from mmu_guard_page_correct [OF i(1,2) r m] show ?thesis using m p f by simp
qed

end
