(* ===== verification/ThreadCreate.thy ===== *)
theory ThreadCreate
  imports Sched Mmu
begin

text \<open>
  Thread creation (\<^verbatim>\<open>thread_create\<close>, \<^verbatim>\<open>thread_create_prio\<close> in \<^verbatim>\<open>src/thread.cc\<close>), which uses the
  thread pool, the boot heap, the MMU guard page, the stack diagnostics and the frame layout of
  \<^verbatim>\<open>arch_switch\<close>. The state is the kernel state together with the MMU state. A \<^verbatim>\<open>Thread\<close> object is in
  the byte memory while it is a free pool block and in the store \<open>threads\<close> while it is in use; the
  loop that clears its bytes clears both.
\<close>

section \<open>Model\<close>

record kenv =
  ks :: kstate
  ms :: mmu

text \<open>\<^verbatim>\<open>for (i = 0; i < sizeof(Thread); ++i) t_bytes[i] = 0;\<close>\<close>

primrec zero_bytes :: "addr \<Rightarrow> nat \<Rightarrow> mem \<Rightarrow> mem" where
  "zero_bytes p 0 m = m"
| "zero_bytes p (Suc n) m = (zero_bytes p n m)(p + of_nat n := 0)"

definition alloc_thread_struct :: "kstate \<Rightarrow> addr \<times> kstate" where
  "alloc_thread_struct s =
     (let (t, s) = (if g_thread_pool_inited s \<noteq> 0
                    then let (t, m, pool) = mem_pool_alloc (bytes s) (g_thread_pool s)
                         in (t, s\<lparr>bytes := m, g_thread_pool := pool\<rparr>)
                    else (NULL, s))
      in if t = NULL
         then let (t, h) = kmem_alloc_aligned (heap s) kSizeofThread 16 in (t, s\<lparr>heap := h\<rparr>)
         else (t, s))"

definition release_thread_struct :: "addr \<Rightarrow> kstate \<Rightarrow> kstate option" where
  "release_thread_struct t s =
     (if g_thread_pool_inited s \<noteq> 0 \<and> mem_pool_owns (g_thread_pool s) t
      then do {
        (r, m, pool) \<leftarrow> mem_pool_free False (bytes s) (g_thread_pool s) t;
        Some (s\<lparr>bytes := m, g_thread_pool := pool\<rparr>)
      } else Some s)"

text \<open>The lambda \<^verbatim>\<open>push_pair\<close> of the initial frame: pointer and memory.\<close>

definition push_words :: "u64 \<Rightarrow> u64 \<Rightarrow> addr \<times> mem \<Rightarrow> addr \<times> mem" where
  "push_words first second = (\<lambda>(sp, m). (sp - 16, store64 (store64 m (sp - 16) first) (sp - 16 + 8) second))"

definition thread_create_prio ::
  "mmu_layout \<Rightarrow> addr \<Rightarrow> addr \<Rightarrow> addr \<Rightarrow> u64 \<Rightarrow> int \<Rightarrow> kenv \<Rightarrow> (addr \<times> kenv) option" where
  "thread_create_prio L thread_trampoline entryp arg stack_size base_priority e =
     (let s = kputs (''[diag] thread_create enter'' @ [newline]) (ks e) in
      if entryp = NULL \<or> stack_size = 0 then
        Some (NULL, e\<lparr>ks := kputs (''[sched][err] invalid thread params'' @ [newline]) s\<rparr>)
      else let (t, s) = alloc_thread_struct s in
      if t = NULL then
        Some (NULL, e\<lparr>ks := kputs (''[sched][err] no memory for Thread struct'' @ [newline]) s\<rparr>)
      else let s = upd_thread t (\<lambda>_. zero_thread) (s\<lparr>bytes := zero_bytes t (unat kSizeofThread) (bytes s)\<rparr>) in
      if stack_size > (- 1) - kStackGuardPageBytes then do {
        let s = kputs (''[sched][err] stack too large'' @ [newline]) s;
        s \<leftarrow> release_thread_struct t s;
        Some (NULL, e\<lparr>ks := s\<rparr>)
      }
      else let (stack_alloc, h) = kmem_alloc_aligned (heap s) (stack_size + kStackGuardPageBytes) kStackGuardPageBytes;
               s = s\<lparr>heap := h\<rparr> in
      if stack_alloc = NULL then do {
        let s = kputs (''[sched][err] no memory for thread stack'' @ [newline]) s;
        s \<leftarrow> release_thread_struct t s;
        Some (NULL, e\<lparr>ks := s\<rparr>)
      }
      else let (_, mst) = mmu_guard_page L stack_alloc (ms e);
               stack = stack_alloc + kStackGuardPageBytes;
               m = stack_init_guard_and_watermark stack stack_size (bytes s);
               stack_top = (stack + stack_size) AND NOT 0xF;
               fr = (stack_top, m);
               fr = push_words 0 0 fr;
               fr = push_words 0 0 fr;
               fr = push_words 0 0 fr;
               fr = push_words 0 0 fr;
               fr = push_words 0 0 fr;
               fr = push_words 0 thread_trampoline fr;
               s = s\<lparr>bytes := snd fr\<rparr>;
               id = next_thread_id s;
               prio = clamp_priority base_priority;
               s = upd_thread t (\<lambda>r. r\<lparr>t_sp := fst fr, t_entry := entryp, t_arg := arg, t_next := NULL,
                     t_id := id, t_stack_base := stack, t_stack_size := stack_size, t_budget := kQuantumTicks,
                     t_base_priority := prio, t_effective_priority := prio, t_state := kThreadReady,
                     t_wait_next := NULL, t_waiting_on := NULL, t_owned_mutexes := NULL\<rparr>) s;
               s = s\<lparr>next_thread_id := id + 1\<rparr>;
               s = kputs (''[sched][diag] thread created id='' @ uart_print_u64 (of_int id) @
                          '' sp='' @ uart_print_u64 (fst fr) @ '' stack='' @ uart_print_u64 stack @ [newline]) s;
               s = kputs (''[diag] thread_create exit'' @ [newline]) s
           in Some (t, e\<lparr>ks := set_kont t KStart s, ms := mst\<rparr>))"

definition thread_create ::
  "mmu_layout \<Rightarrow> addr \<Rightarrow> addr \<Rightarrow> addr \<Rightarrow> u64 \<Rightarrow> kenv \<Rightarrow> (addr \<times> kenv) option" where
  "thread_create L thread_trampoline entryp arg stack_size e =
     thread_create_prio L thread_trampoline entryp arg stack_size kDefaultPriority e"

section \<open>The initial frame\<close>

text \<open>The registers the first switch to a new thread loads.\<close>

definition initial_regs :: "addr \<Rightarrow> nat \<Rightarrow> u64" where
  "initial_regs thread_trampoline = (\<lambda>i. if i = 30 then thread_trampoline else 0)"

lemma initial_frame:
  "push_words 0 tr (push_words 0 0 (push_words 0 0 (push_words 0 0 (push_words 0 0 (push_words 0 0 (f + 96, m)))))) =
    (f, save_frame m f (initial_regs tr))"
  by (simp add: push_words_def save_frame_def initial_regs_def add.commute)

lemma stack_guard_survives:
  assumes b: "base \<noteq> NULL" "unat base + unat sz < 2 ^ 64" and sz: "176 \<le> unat sz"
    and f: "f + 96 = (base + sz) AND NOT 0xF"
    and s: "t_stack_base (thr s t) = base" "t_stack_size (thr s t) = sz"
      "bytes s = save_frame (stack_init_guard_and_watermark base sz m) f x"
  shows "stack_guard_ok s t" and "unat base + 64 \<le> unat f" and "unat f + 96 \<le> unat base + unat sz"
    and "16 dvd unat f"
proof -
  have m15: "(0xF :: u64) = mask 4" by (simp add: mask_eq_exp_minus_1)
  have top: "unat ((base + sz) AND NOT 0xF) = (unat base + unat sz) div 16 * 16"
    unfolding m15 unat_and_not_mask using unat_add_nowrap [OF b(2)] by simp
  have "unat f = unat ((f + 96) - 96)" by simp
  also have "\<dots> = (unat base + unat sz) div 16 * 16 - 96"
    unfolding f by (subst unat_sub_nowrap) (use top sz in \<open>simp_all add: word_le_nat_alt\<close>)
  finally have uf: "unat f = (unat base + unat sz) div 16 * 16 - 96" .
  show lo: "unat base + 64 \<le> unat f" unfolding uf using sz by linarith
  show "unat f + 96 \<le> unat base + unat sz" unfolding uf using sz by linarith
  have "16 dvd (unat base + unat sz) div 16 * 16 - 16 * 6" by (intro dvd_diff_nat dvd_triv_right dvd_triv_left)
  then show "16 dvd unat f" unfolding uf by simp
  have szn: "sz \<noteq> 0" using sz by auto
  have g: "unat (guard_size sz) \<le> 64" "unat (guard_size sz) \<le> unat sz" using guard_size_le [of sz] by auto
  have "bytes s (base + of_nat j) = guard_byte j" if j: "j < unat (guard_size sz)" for j
  proof -
    have ub: "unat (base + of_nat j) = unat base + j"
      using j g b(2) by (subst unat_add_nowrap) (auto simp: unat_of_nat)
    have "base + of_nat j \<notin> span f 96"
    proof
      assume "base + of_nat j \<in> span f 96"
      then obtain i where i: "base + of_nat j = f + of_nat i" "i < 96" by (auto simp: span_def)
      have "unat (f + of_nat i) = unat f + i"
        using i(2) b(2) uf by (subst unat_add_nowrap) (auto simp: unat_of_nat)
      then show False using i(1) ub lo j g by simp
    qed
    then have "bytes s (base + of_nat j) = stack_init_guard_and_watermark base sz m (base + of_nat j)"
      by (simp add: s(3) save_frame_other)
    also have "\<dots> = guard_byte j"
      by (subst stack_init_nth [OF b(1) szn]) (use j g in auto)
    finally show ?thesis .
  qed
  then show "stack_guard_ok s t"
    by (simp add: stack_guard_ok_def s(1,2) check_loop_iff)
qed

section \<open>Allocation\<close>

text \<open>The requests creation makes of the boot heap: the structure (when the pool is empty) and the stack.\<close>

definition create_admissible :: "kstate \<Rightarrow> u64 \<Rightarrow> bool" where
  "create_admissible s stack_size \<longleftrightarrow> kmem_inv (heap s) \<and> kmem_admissible (heap s) kSizeofThread 16 \<and>
     kmem_admissible (heap s) (stack_size + kStackGuardPageBytes) kStackGuardPageBytes"

lemma alloc_thread_struct_spec:
  assumes "alloc_thread_struct s = (t, s')"
  shows "s' = s\<lparr>bytes := bytes s', g_thread_pool := g_thread_pool s', heap := heap s'\<rparr>"
    and "create_admissible s sz \<Longrightarrow> create_admissible s' sz"
proof -
  show "s' = s\<lparr>bytes := bytes s', g_thread_pool := g_thread_pool s', heap := heap s'\<rparr>"
    using assms by (auto simp: alloc_thread_struct_def split: prod.splits if_splits)
  assume a: "create_admissible s sz"
  have h: "heap s' = heap s \<or> (\<exists>p. kmem_alloc_aligned (heap s) kSizeofThread 16 = (p, heap s'))"
    using assms by (auto simp: alloc_thread_struct_def split: prod.splits if_splits)
  show "create_admissible s' sz"
  proof (cases "heap s' = heap s")
    case True
    then show ?thesis using a by (simp add: create_admissible_def)
  next
    case False
    then obtain p where p: "kmem_alloc_aligned (heap s) kSizeofThread 16 = (p, heap s')" using h by blast
    have "unat (kend (heap s')) = unat (kend (heap s))" using kmem_heap.alloc_limit [OF p] .
    then show ?thesis
      using a p kmem_heap.alloc_invar [OF p]
      by (auto simp: create_admissible_def kmem_admissible_def)
  qed
qed

text \<open>The state a successful creation of thread \<open>t\<close> with stack allocation \<open>p\<close> leads to.\<close>

definition created :: "addr \<Rightarrow> addr \<Rightarrow> addr \<Rightarrow> u64 \<Rightarrow> int \<Rightarrow> addr \<Rightarrow> addr \<Rightarrow> kstate \<Rightarrow> kstate \<Rightarrow> bool" where
  "created tr en arg sz prio t p s s' \<longleftrightarrow>
     (let stack = p + kStackGuardPageBytes; f = ((stack + sz) AND NOT 0xF) - 96 in
      threads s' = (threads s)(t := zero_thread\<lparr>t_sp := f, t_entry := en, t_arg := arg,
         t_id := next_thread_id s, t_stack_base := stack, t_stack_size := sz,
         t_budget := kQuantumTicks, t_base_priority := clamp_priority prio,
         t_effective_priority := clamp_priority prio\<rparr>) \<and>
      next_thread_id s' = next_thread_id s + 1 \<and>
      bytes s' = save_frame (stack_init_guard_and_watermark stack sz (zero_bytes t (unat kSizeofThread) (bytes s)))
        f (initial_regs tr) \<and>
      rq_head s' = rq_head s \<and> rq_tail s' = rq_tail s \<and> cpu s' = cpu s \<and> regs s' = regs s \<and>
      mutexes s' = mutexes s \<and> sems s' = sems s \<and> kont s' = (kont s)(t := KStart))"

text \<open>What a successful creation went through.\<close>

lemma alloc_thread_struct_mark:
  assumes "alloc_thread_struct s = (t, s')" "create_admissible s sz"
  shows "unat (kcur (heap s)) \<le> unat (kcur (heap s'))"
proof -
  have "heap s' = heap s \<or> (\<exists>p. kmem_alloc_aligned (heap s) kSizeofThread 16 = (p, heap s'))"
    using assms(1) by (auto simp: alloc_thread_struct_def split: prod.splits if_splits)
  then show ?thesis
    using kmem_heap.alloc_mark assms(2) by (auto simp: create_admissible_def)
qed

lemma thread_create_inv:
  assumes "thread_create_prio L tr en arg sz prio e = Some (t, e')" "t \<noteq> NULL"
  obtains s1 p h where
    "alloc_thread_struct (kputs (''[diag] thread_create enter'' @ [newline]) (ks e)) = (t, s1)"
    "\<not> (- 1) - kStackGuardPageBytes < sz" "en \<noteq> NULL" "sz \<noteq> 0"
    "kmem_alloc_aligned (heap s1) (sz + kStackGuardPageBytes) kStackGuardPageBytes = (p, h)" "p \<noteq> NULL"
    "ms e' = snd (mmu_guard_page L p (ms e))" "heap (ks e') = h" "created tr en arg sz prio t p s1 (ks e')"
proof -
  obtain t1 s1 where a: "alloc_thread_struct (kputs (''[diag] thread_create enter'' @ [newline]) (ks e)) = (t1, s1)"
    by force
  obtain p h where k: "kmem_alloc_aligned (heap s1) (sz + kStackGuardPageBytes) kStackGuardPageBytes = (p, h)" by force
  have fr: "push_words 0 tr (push_words 0 0 (push_words 0 0 (push_words 0 0 (push_words 0 0 (push_words 0 0 (q, m)))))) =
    (q - 96, save_frame m (q - 96) (initial_regs tr))" for q m
    using initial_frame [of tr "q - 96" m] by simp
  have en: "en \<noteq> NULL" "sz \<noteq> 0" "t1 \<noteq> NULL"
    using assms a by (auto simp: thread_create_prio_def Let_def split: if_splits)
  have big: "\<not> (- 1) - kStackGuardPageBytes < sz"
    using assms a en by (auto simp: thread_create_prio_def Let_def split: if_splits bind_splits)
  have p: "p \<noteq> NULL"
    using assms a en big k by (auto simp: thread_create_prio_def Let_def split: if_splits bind_splits)
  have r: "t1 = t \<and> ms e' = snd (mmu_guard_page L p (ms e)) \<and> heap (ks e') = h \<and> created tr en arg sz prio t p s1 (ks e')"
    using assms a en big k p
    by (auto simp: thread_create_prio_def Let_def fr created_def zero_thread_def kThreadReady_def split: prod.splits)
  show thesis using that [of s1 p h] a en big k p r by blast
qed

lemma alloc_thread_struct_limit:
  assumes "alloc_thread_struct s = (t, s')"
  shows "kend (heap s') = kend (heap s)"
proof -
  have "heap s' = heap s \<or> (\<exists>p. kmem_alloc_aligned (heap s) kSizeofThread 16 = (p, heap s'))"
    using assms by (auto simp: alloc_thread_struct_def split: prod.splits if_splits)
  then show ?thesis using kmem_heap.alloc_limit by (auto simp: word_unat_eq_iff)
qed

text \<open>Where the stack of a created thread lies, and which page guards it.\<close>

lemma created_region:
  assumes r: "thread_create_prio L tr en arg sz prio e = Some (t, e')" "t \<noteq> NULL" and adm: "create_admissible (ks e) sz"
  obtains s1 p where
    "created tr en arg sz prio t p s1 (ks e')" "ms e' = snd (mmu_guard_page L p (ms e))"
    "next_thread_id s1 = next_thread_id (ks e)" "rq_head s1 = rq_head (ks e)" "rq_tail s1 = rq_tail (ks e)"
    "cpu s1 = cpu (ks e)" "p \<noteq> NULL" "unat (p + kStackGuardPageBytes) = unat p + 4096"
    "unat (kcur (heap (ks e))) \<le> unat p" "unat p + 4096 + unat sz \<le> unat (kend (heap (ks e')))"
    "kend (heap (ks e')) = kend (heap (ks e))"
proof -
  obtain s1 p h where d: "alloc_thread_struct (kputs (''[diag] thread_create enter'' @ [newline]) (ks e)) = (t, s1)"
    "\<not> (- 1) - kStackGuardPageBytes < sz"
    "kmem_alloc_aligned (heap s1) (sz + kStackGuardPageBytes) kStackGuardPageBytes = (p, h)" "p \<noteq> NULL"
    "ms e' = snd (mmu_guard_page L p (ms e))" "heap (ks e') = h" "created tr en arg sz prio t p s1 (ks e')"
    using thread_create_inv [OF r] by metis
  have eq: "s1 = (kputs (''[diag] thread_create enter'' @ [newline]) (ks e))
      \<lparr>bytes := bytes s1, g_thread_pool := g_thread_pool s1, heap := heap s1\<rparr>"
    using alloc_thread_struct_spec(1) [OF d(1)] .
  have same: "next_thread_id s1 = next_thread_id (ks e)" "rq_head s1 = rq_head (ks e)" "rq_tail s1 = rq_tail (ks e)"
    "cpu s1 = cpu (ks e)" by (subst eq, simp)+
  have adm0: "create_admissible (kputs (''[diag] thread_create enter'' @ [newline]) (ks e)) sz"
    using adm by (simp add: create_admissible_def)
  then have adm1: "create_admissible s1 sz" using alloc_thread_struct_spec(2) [OF d(1)] by blast
  have "unat ((- 1) - kStackGuardPageBytes :: u64) = 2 ^ 64 - 4097" by (simp add: kStackGuardPageBytes_def)
  then have "unat sz \<le> 2 ^ 64 - 4097" using d(2) by (simp add: word_less_nat_alt)
  then have big: "unat (sz + kStackGuardPageBytes) = unat sz + 4096"
    by (subst unat_add_nowrap) (simp_all add: kStackGuardPageBytes_def)
  have ka: "kmem_inv (heap s1)" "kmem_admissible (heap s1) (sz + kStackGuardPageBytes) kStackGuardPageBytes"
    using adm1 by (simp_all add: create_admissible_def)
  have blk: "unat (kcur (heap s1)) \<le> unat p" "unat p + (unat sz + 4096) = unat (kcur h)"
    using kmem_heap.alloc_block [OF d(3) ka d(4)] big by simp_all
  have lim: "unat (kcur h) \<le> unat (kend h)" using kmem_heap.invar_mark [OF kmem_heap.alloc_invar [OF d(3) ka]] .
  have "unat p + 4096 < 18446744073709551616" using blk(2) unat_lt_2p64 [of "kcur h"] by linarith
  then have ub: "unat (p + kStackGuardPageBytes) = unat p + 4096"
    by (subst unat_add_nowrap) (simp_all add: kStackGuardPageBytes_def)
  have m0: "unat (kcur (heap (ks e))) \<le> unat (kcur (heap s1))"
    using alloc_thread_struct_mark [OF d(1) adm0] by simp
  have "unat (kend h) = unat (kend (heap s1))" using kmem_heap.alloc_limit [OF d(3)] .
  moreover have "kend (heap s1) = kend (heap (ks e))" using alloc_thread_struct_limit [OF d(1)] by simp
  ultimately have "kend h = kend (heap (ks e))" by (simp add: word_unat_eq_iff)
  with d(4-7) same ub blk lim m0 show thesis by (intro that [of p s1]) simp_all
qed


definition create_example :: kenv where
  "create_example = \<lparr>ks = boot_state\<lparr>heap := kmem_init 0x40090000 0x40190000\<rparr>, ms = mmu_example\<rparr>"

lemma create_example_result:
  "\<exists>e'. thread_create_prio layout_example 0x40080000 0x40081000 7 4096 99 create_example = Some (0x40090000, e') \<and>
     t_sp (threads (ks e') 0x40090000) = 0x40092FA0"
proof -
  have k1: "kmem_alloc_aligned (kmem_init 0x40090000 0x40190000) kSizeofThread 16 =
      (0x40090000, \<lparr>kcur = 0x40090280, kend = 0x40190000\<rparr>)"
    by (simp add: kmem_alloc_aligned_def kmem_init_def align_up_def kSizeofThread_def)
  have k2: "kmem_alloc_aligned \<lparr>kcur = 0x40090280, kend = 0x40190000\<rparr> 8192 4096 =
      (0x40091000, \<lparr>kcur = 0x40093000, kend = 0x40190000\<rparr>)"
    by (simp add: kmem_alloc_aligned_def align_up_def)
  have b: "g_thread_pool_inited boot_state = 0" by (simp add: boot_state_def)
  have fr: "push_words 0 tr (push_words 0 0 (push_words 0 0 (push_words 0 0 (push_words 0 0 (push_words 0 0 (q, m)))))) =
    (q - 96, save_frame m (q - 96) (initial_regs tr))" for q m tr
    using initial_frame [of tr "q - 96" m] by simp
  show ?thesis
    by (simp add: thread_create_prio_def create_example_def alloc_thread_struct_def b k1 kStackGuardPageBytes_def
        k2 fr case_prod_beta Let_def)
qed


end
