(* ===== verification/Cache.thy ===== *)
theory Cache imports Mmu ByteMem begin

text \<open>
  Data-cache maintenance (\<^verbatim>\<open>src/arch/aarch64/barrier.cc\<close>) and the memory it acts on. The memory is the
  hardware's: RAM bytes, and cache lines that hold a copy of a line of RAM, valid or not, dirty or
  not. An access through a cacheable mapping goes to the cache, one through another mapping straight
  to RAM. Before every access the cache may do what it likes within its own rules, fill a line,
  write one back, or evict one: the parameter \<open>hw_act\<close>, of which \<open>hw_ok\<close> says that it is a sequence of such
  steps. A property that holds for every such parameter holds for every replacement policy.

  \<open>None\<close> is a translation fault or a loop that does not end.
\<close>

section \<open>The hardware\<close>

record cmem =
  ram :: mem
  line_data :: mem
  line_valid :: "addr \<Rightarrow> bool"
  line_dirty :: "addr \<Rightarrow> bool"
  hw_time :: nat

record hw =
  hw_ctr :: u64
  hw_sctlr :: u64
  hw_xlat :: "addr \<Rightarrow> xlat option"
  hw_act :: "nat \<Rightarrow> cmem \<Rightarrow> cmem"

definition dcache_line_size :: "hw \<Rightarrow> u64" where
  "dcache_line_size H =
     (let dminline = drop_bit 16 (hw_ctr H) AND 0xF;
          line_size = ucast (push_bit (unat dminline) (4 :: u32)) :: u64
      in if line_size = 0 then 64 else line_size)"

definition line_of :: "hw \<Rightarrow> addr \<Rightarrow> addr" where
  "line_of H a = align_down a (dcache_line_size H)"

definition fill_line :: "hw \<Rightarrow> addr \<Rightarrow> cmem \<Rightarrow> cmem" where
  "fill_line H l c = (if line_valid c l then c
     else c\<lparr>line_data := (\<lambda>a. if line_of H a = l then ram c a else line_data c a),
       line_valid := (line_valid c)(l := True), line_dirty := (line_dirty c)(l := False)\<rparr>)"

definition clean_line :: "hw \<Rightarrow> addr \<Rightarrow> cmem \<Rightarrow> cmem" where
  "clean_line H l c = (if line_valid c l \<and> line_dirty c l
     then c\<lparr>ram := (\<lambda>a. if line_of H a = l then line_data c a else ram c a),
       line_dirty := (line_dirty c)(l := False)\<rparr>
     else c)"

definition drop_line :: "addr \<Rightarrow> cmem \<Rightarrow> cmem" where
  "drop_line l c = c\<lparr>line_valid := (line_valid c)(l := False)\<rparr>"

text \<open>What a cache does on its own accord.\<close>

inductive hw_step :: "hw \<Rightarrow> cmem \<Rightarrow> cmem \<Rightarrow> bool" for H where
  hw_fill: "hw_step H c (fill_line H l c)"
| hw_clean: "hw_step H c (clean_line H l c)"
| hw_evict: "hw_step H c (drop_line l (clean_line H l c))"

definition hw_ok :: "hw \<Rightarrow> bool" where
  "hw_ok H \<longleftrightarrow> (\<forall>n c. (hw_step H)\<^sup>*\<^sup>* c (hw_act H n c))"

definition advance :: "hw \<Rightarrow> cmem \<Rightarrow> cmem" where
  "advance H c = (hw_act H (hw_time c) c)\<lparr>hw_time := Suc (hw_time c)\<rparr>"

definition dcache_enabled :: "hw \<Rightarrow> bool" where
  "dcache_enabled H \<longleftrightarrow> hw_sctlr H AND push_bit 2 1 \<noteq> 0"

definition mmu_on :: "hw \<Rightarrow> bool" where
  "mmu_on H \<longleftrightarrow> hw_sctlr H AND 1 \<noteq> 0"

text \<open>The physical address of a virtual one, and whether the access is cached.\<close>

definition phys :: "hw \<Rightarrow> addr \<Rightarrow> (addr \<times> bool) option" where
  "phys H va = (if \<not> mmu_on H then Some (va, False)
     else case hw_xlat H va of None \<Rightarrow> None
       | Some x \<Rightarrow> Some (x_page x + (va AND mask 12), dcache_enabled H \<and> x_attr x = kAttrIdxNormal))"

definition cpu_load :: "hw \<Rightarrow> addr \<Rightarrow> cmem \<Rightarrow> (u8 \<times> cmem) option" where
  "cpu_load H va c = (let c = advance H c in case phys H va of None \<Rightarrow> None
     | Some (p, cached) \<Rightarrow>
         if cached then let c = fill_line H (line_of H p) c in Some (line_data c p, c)
         else Some (ram c p, c))"

definition cpu_store :: "hw \<Rightarrow> addr \<Rightarrow> u8 \<Rightarrow> cmem \<Rightarrow> cmem option" where
  "cpu_store H va v c = (let c = advance H c in case phys H va of None \<Rightarrow> None
     | Some (p, cached) \<Rightarrow>
         if cached then let c = fill_line H (line_of H p) c
           in Some (c\<lparr>line_data := (line_data c)(p := v), line_dirty := (line_dirty c)(line_of H p := True)\<rparr>)
         else Some (c\<lparr>ram := (ram c)(p := v)\<rparr>))"

section \<open>Maintenance by address\<close>

definition dc_cvac_line :: "hw \<Rightarrow> addr \<Rightarrow> cmem \<Rightarrow> cmem option" where
  "dc_cvac_line H va c = (let c = advance H c in case phys H va of None \<Rightarrow> None
     | Some (p, _) \<Rightarrow> Some (clean_line H (line_of H p) c))"

definition dc_civac_line :: "hw \<Rightarrow> addr \<Rightarrow> cmem \<Rightarrow> cmem option" where
  "dc_civac_line H va c = (let c = advance H c in case phys H va of None \<Rightarrow> None
     | Some (p, _) \<Rightarrow> Some (drop_line (line_of H p) (clean_line H (line_of H p) c)))"

definition dc_ivac_line :: "hw \<Rightarrow> addr \<Rightarrow> cmem \<Rightarrow> cmem option" where
  "dc_ivac_line H va c = (let c = advance H c in case phys H va of None \<Rightarrow> None
     | Some (p, _) \<Rightarrow> Some (drop_line (line_of H p) c))"

text \<open>\<^verbatim>\<open>for (addr = start; addr < end; addr += line) op(addr);\<close>\<close>

partial_function (option) dc_loop ::
  "(addr \<Rightarrow> cmem \<Rightarrow> cmem option) \<Rightarrow> u64 \<Rightarrow> addr \<Rightarrow> addr \<Rightarrow> cmem \<Rightarrow> cmem option" where
  "dc_loop f line end a c =
     (if a < end then Option.bind (f a c) (dc_loop f line end (a + line)) else Some c)"

definition dc_range_common ::
  "hw \<Rightarrow> addr \<Rightarrow> u64 \<Rightarrow> (addr \<Rightarrow> cmem \<Rightarrow> cmem option) \<Rightarrow> cmem \<Rightarrow> cmem option" where
  "dc_range_common H p len f c =
     (if len = 0 \<or> \<not> dcache_enabled H then Some c
      else let line = dcache_line_size H;
               line = (if line = 0 then 64 else line);
               start = align_down p line;
               end = align_up (p + len) line
           in dc_loop f line end start c)"

definition dc_cvac_range :: "hw \<Rightarrow> addr \<Rightarrow> u64 \<Rightarrow> cmem \<Rightarrow> cmem option" where
  "dc_cvac_range H p len c = dc_range_common H p len (dc_cvac_line H) c"

definition dc_civac_range :: "hw \<Rightarrow> addr \<Rightarrow> u64 \<Rightarrow> cmem \<Rightarrow> cmem option" where
  "dc_civac_range H p len c = dc_range_common H p len (dc_civac_line H) c"

definition dc_ivac_range :: "hw \<Rightarrow> addr \<Rightarrow> u64 \<Rightarrow> cmem \<Rightarrow> cmem option" where
  "dc_ivac_range H p len c = dc_range_common H p len (dc_ivac_line H) c"

section \<open>Lines\<close>

lemma dcache_line_size_2p:
  obtains k where "2 \<le> k" "k < 18" "dcache_line_size H = 2 ^ k"
proof -
  define d where "d = unat (drop_bit 16 (hw_ctr H) AND 0xF)"
  have "(0xF :: u64) = mask 4" by (simp add: mask_eq_exp_minus_1)
  then have "d = unat (take_bit 4 (drop_bit 16 (hw_ctr H)))" unfolding d_def by (simp only: take_bit_eq_mask)
  also have "\<dots> = unat (drop_bit 16 (hw_ctr H)) mod 2 ^ 4" unfolding unsigned_take_bit_eq by (rule take_bit_eq_mod)
  finally have d: "d < 16" by simp
  have u: "unat (push_bit d (4 :: u32)) = 2 ^ (d + 2)"
  proof -
    have "(2 :: nat) ^ (d + 2) < 2 ^ 32" by (rule power_strict_increasing) (use d in simp_all)
    have "unat (push_bit d (4 :: u32)) = take_bit 32 (push_bit d (4 :: nat))"
      by (subst unsigned_push_bit_eq) simp
    also have "\<dots> = (4 * 2 ^ d) mod 2 ^ 32" by (simp only: take_bit_eq_mod push_bit_eq_mult)
    also have "\<dots> = 4 * 2 ^ d" using \<open>(2 :: nat) ^ (d + 2) < 2 ^ 32\<close> by (simp add: power_add)
    finally show ?thesis by (simp add: power_add)
  qed
  have s: "(2 :: nat) ^ (d + 2) < 2 ^ 64" by (rule power_strict_increasing) (use d in simp_all)
  have v: "ucast (push_bit d (4 :: u32)) = (2 :: u64) ^ (d + 2)"
  proof (rule word_unat_eq_iff [THEN iffD2])
    show "unat (ucast (push_bit d (4 :: u32)) :: u64) = unat ((2 :: u64) ^ (d + 2))"
      using unat_2p [of "d + 2"] d u s by (simp add: unsigned_ucast_eq take_bit_eq_mod power_add)
  qed
  have "(2 :: u64) ^ (d + 2) \<noteq> 0" using unat_2p [of "d + 2"] d by (auto simp: word_unat_eq_iff)
  then have "dcache_line_size H = 2 ^ (d + 2)"
    unfolding dcache_line_size_def Let_def d_def [symmetric] v by simp
  then show thesis using that [of "d + 2"] d by simp
qed


lemma line_of_eq_iff:
  assumes "dcache_line_size H = 2 ^ k" "k < 64"
  shows "line_of H a = line_of H b \<longleftrightarrow> unat a div 2 ^ k = unat b div 2 ^ k"
proof -
  have "line_of H a = line_of H b \<longleftrightarrow> unat a div 2 ^ k * 2 ^ k = unat b div 2 ^ k * 2 ^ k"
    using unat_align_down_2p [OF assms(2)] unfolding line_of_def assms(1) word_unat_eq_iff by simp
  then show ?thesis by simp
qed

section \<open>What a byte is worth\<close>

text \<open>
  \<open>cpu_sees\<close>: the CPU reads \<open>v\<close> at the physical address \<open>a\<close>, whatever the cache does. \<open>settled\<close>: RAM holds
  \<open>v\<close> too, so that a device reads it. \<open>undirty\<close>: no write-back can overwrite what a device puts there.
\<close>

definition cpu_sees :: "hw \<Rightarrow> cmem \<Rightarrow> addr \<Rightarrow> u8 \<Rightarrow> bool" where
  "cpu_sees H c a v \<longleftrightarrow> (if line_valid c (line_of H a)
     then line_data c a = v \<and> (line_dirty c (line_of H a) \<or> ram c a = v) else ram c a = v)"

definition settled :: "hw \<Rightarrow> cmem \<Rightarrow> addr \<Rightarrow> u8 \<Rightarrow> bool" where
  "settled H c a v \<longleftrightarrow> ram c a = v \<and> (line_valid c (line_of H a) \<longrightarrow> line_data c a = v)"

definition undirty :: "hw \<Rightarrow> cmem \<Rightarrow> addr \<Rightarrow> bool" where
  "undirty H c a \<longleftrightarrow> \<not> (line_valid c (line_of H a) \<and> line_dirty c (line_of H a))"

definition dev_wrote :: "hw \<Rightarrow> cmem \<Rightarrow> addr \<Rightarrow> u8 \<Rightarrow> bool" where
  "dev_wrote H c a v \<longleftrightarrow> ram c a = v \<and> undirty H c a"

lemma settled_cpu_sees: "settled H c a v \<Longrightarrow> cpu_sees H c a v"
  by (auto simp: settled_def cpu_sees_def)

named_theorems cache_defs
lemmas cache_value_defs [cache_defs] = cpu_sees_def settled_def undirty_def dev_wrote_def
lemmas cache_line_defs [cache_defs] = fill_line_def clean_line_def drop_line_def

text \<open>
  \<open>keeps\<close>: a step after which every settled byte is settled, no line has become dirty, and what a device
  wrote is still there. \<open>keeps_cpu\<close>: moreover the CPU sees no byte differently.
\<close>

definition keeps :: "hw \<Rightarrow> cmem \<Rightarrow> cmem \<Rightarrow> bool" where
  "keeps H c c' \<longleftrightarrow> (\<forall>a v. settled H c a v \<longrightarrow> settled H c' a v) \<and> (\<forall>a. undirty H c a \<longrightarrow> undirty H c' a) \<and>
     (\<forall>a v. dev_wrote H c a v \<longrightarrow> dev_wrote H c' a v)"

definition keeps_cpu :: "hw \<Rightarrow> cmem \<Rightarrow> cmem \<Rightarrow> bool" where
  "keeps_cpu H c c' \<longleftrightarrow> keeps H c c' \<and> (\<forall>a v. cpu_sees H c a v \<longrightarrow> cpu_sees H c' a v)"

lemma keeps_refl [simp]: "keeps H c c" "keeps_cpu H c c"
  by (simp_all add: keeps_def keeps_cpu_def)

lemma keeps_trans: "keeps H c c' \<Longrightarrow> keeps H c' c'' \<Longrightarrow> keeps H c c''"
  by (simp add: keeps_def)

lemma keeps_cpu_trans: "keeps_cpu H c c' \<Longrightarrow> keeps_cpu H c' c'' \<Longrightarrow> keeps_cpu H c c''"
  unfolding keeps_cpu_def using keeps_trans by blast

lemma keeps_cpuD: "keeps_cpu H c c' \<Longrightarrow> keeps H c c'"
  by (simp add: keeps_cpu_def)

lemma clean_keeps: "keeps_cpu H c (clean_line H l c)"
  by (auto simp: keeps_cpu_def keeps_def cache_defs)

lemma fill_keeps: "keeps_cpu H c (fill_line H l c)"
  by (auto simp: keeps_cpu_def keeps_def cache_defs)

lemma drop_keeps: "keeps H c (drop_line l c)"
  by (auto simp: keeps_def cache_defs)

lemma evict_keeps: "keeps_cpu H c (drop_line l (clean_line H l c))"
proof -
  have "cpu_sees H (drop_line l (clean_line H l c)) a v" if "cpu_sees H c a v" for a v
    using that by (auto simp: cache_defs split: if_splits)
  then show ?thesis using keeps_trans [OF keeps_cpuD [OF clean_keeps] drop_keeps] by (simp add: keeps_cpu_def)
qed

lemma hw_step_keeps: "hw_step H c c' \<Longrightarrow> keeps_cpu H c c'"
  by (erule hw_step.cases) (simp_all add: fill_keeps clean_keeps evict_keeps)

lemma hw_steps_keep: "(hw_step H)\<^sup>*\<^sup>* c c' \<Longrightarrow> keeps_cpu H c c'"
proof (induction rule: rtranclp_induct)
  case base
  show ?case by simp
next
  case (step y z)
  show ?case by (rule keeps_cpu_trans [OF step.IH hw_step_keeps [OF step(2)]])
qed

lemma advance_keeps: "hw_ok H \<Longrightarrow> keeps_cpu H c (advance H c)"
  using hw_steps_keep [of H c "hw_act H (hw_time c) c"]
  by (simp add: hw_ok_def advance_def keeps_cpu_def keeps_def cache_value_defs)

lemma cvac_keeps:
  assumes "hw_ok H" "dc_cvac_line H va c = Some c'"
  shows "keeps_cpu H c c'"
proof -
  obtain p where "c' = clean_line H (line_of H p) (advance H c)"
    using assms(2) by (auto simp: dc_cvac_line_def Let_def split: option.splits prod.splits)
  then show ?thesis using keeps_cpu_trans [OF advance_keeps [OF assms(1)] clean_keeps] by simp
qed

lemma ivac_keeps:
  assumes "hw_ok H" "dc_ivac_line H va c = Some c'"
  shows "keeps H c c'"
proof -
  obtain p where "c' = drop_line (line_of H p) (advance H c)"
    using assms(2) by (auto simp: dc_ivac_line_def Let_def split: option.splits prod.splits)
  then show ?thesis using keeps_trans [OF keeps_cpuD [OF advance_keeps [OF assms(1)]] drop_keeps] by simp
qed

lemma cpu_load_keeps: "hw_ok H \<Longrightarrow> cpu_load H va c = Some (v, c') \<Longrightarrow> keeps_cpu H c c'"
  using advance_keeps keeps_cpu_trans [OF _ fill_keeps]
  by (auto simp: cpu_load_def Let_def split: option.splits prod.splits if_splits)

text \<open>The effect at the line itself.\<close>

lemma clean_settles: "cpu_sees H c a v \<Longrightarrow> settled H (clean_line H (line_of H a) c) a v"
  by (auto simp: cache_defs split: if_splits)

lemma drop_settles: "dev_wrote H c a v \<Longrightarrow> settled H (drop_line (line_of H a) c) a v"
  by (auto simp: cache_defs)

section \<open>Ranges\<close>

lemma dc_loop_run:
  assumes "line = 2 ^ k" "k < 64" "unat end = unat a + n * 2 ^ k" "P 0 c"
    and "\<And>i c. i < n \<Longrightarrow> P i c \<Longrightarrow> \<exists>c'. f (a + of_nat i * line) c = Some c' \<and> P (Suc i) c'"
  shows "\<exists>c'. dc_loop f line end a c = Some c' \<and> P n c'"
  using assms(3-)
proof (induction n arbitrary: a c P)
  case 0
  then show ?case by (subst dc_loop.simps) (simp add: word_less_nat_alt)
next
  case (Suc n)
  have pk: "0 < (2 :: nat) ^ k" by simp
  then have lt: "a < end" using Suc.prems(1) by (simp add: word_less_nat_alt)
  obtain c1 where c1: "f a c = Some c1" "P (Suc 0) c1" using Suc.prems(3) [of 0 c] Suc.prems(2) by auto
  have u: "unat (a + line) = unat a + 2 ^ k"
  proof -
    have "unat a + 2 ^ k \<le> unat end" using Suc.prems(1) by simp
    also have "\<dots> < 2 ^ 64" using unat_lt_2p64 [of "end"] by simp
    finally show ?thesis using unat_2p [OF assms(2)] assms(1) by (subst unat_add_nowrap) simp_all
  qed
  have "\<exists>c'. dc_loop f line end (a + line) c1 = Some c' \<and> P (Suc n) c'"
  proof (rule Suc.IH [where P = "\<lambda>i. P (Suc i)"])
    show "unat end = unat (a + line) + n * 2 ^ k" using Suc.prems(1) u by simp
    show "P (Suc 0) c1" by (rule c1(2))
    fix i c assume "i < n" "P (Suc i) c"
    then show "\<exists>c'. f (a + line + of_nat i * line) c = Some c' \<and> P (Suc (Suc i)) c'"
      using Suc.prems(3) [of "Suc i" c] by (simp add: algebra_simps)
  qed
  then show ?case using lt c1(1) by (subst dc_loop.simps) simp
qed

text \<open>The memory map of \<^verbatim>\<open>mmu_init\<close>, with the MMU and the data cache on.\<close>

definition virt_map :: "dma_policy \<Rightarrow> mmu_layout \<Rightarrow> hw \<Rightarrow> bool" where
  "virt_map pol L H \<longleftrightarrow> hw_xlat H = boot_map pol L \<and> mmu_on H \<and> dcache_enabled H"

lemma page_offset: "page_of va + (va AND mask 12) = va"
proof -
  have "page_of va + (va AND mask 12) = page_of va OR (va AND mask 12)"
    by (rule word_plus_and_or [THEN trans, THEN sym] disjunctive_add) (auto simp: page_of_def bit_simps)
  then show ?thesis by (auto intro!: bit_eqI simp: page_of_def bit_simps)
qed

lemma phys_ram:
  assumes "virt_map pol L H" "kRamBase \<le> va" "va < kRamLimit"
  shows "phys H va = Some (va, \<not> (pol = NonCacheable \<and> dma_page L va))"
proof -
  have "\<not> va < kRamBase" using assms(2) by simp
  then show ?thesis using assms page_offset [of va]
    by (auto simp: phys_def virt_map_def boot_map_def dma_attr_def kAttrIdxNormalNc_def kAttrIdxNormal_def)
qed

lemma phys_alias:
  assumes "virt_map pol L H" "kRamLimit \<le> va" "va < 0xC0000000"
  shows "phys H va = Some (va - kRamBase, False)"
proof -
  have "\<not> va < kRamBase" "\<not> va < kRamLimit"
    using assms(2) by (simp_all add: word_le_nat_alt word_less_nat_alt kRamBase_def kRamLimit_def)
  moreover have "page_of va - kRamBase + (va AND mask 12) = va - kRamBase"
    using page_offset [of va] by (simp add: algebra_simps)
  ultimately show ?thesis using assms
    by (simp add: phys_def virt_map_def boot_map_def kAttrIdxNormalNc_def kAttrIdxNormal_def)
qed

definition lines_of :: "hw \<Rightarrow> addr \<Rightarrow> nat \<Rightarrow> addr set" where
  "lines_of H p n = line_of H ` {a. unat p \<le> unat a \<and> unat a < unat p + n}"

text \<open>A step that loses what the CPU wrote at most in the lines \<open>X\<close>.\<close>

definition keeps_off :: "addr set \<Rightarrow> hw \<Rightarrow> cmem \<Rightarrow> cmem \<Rightarrow> bool" where
  "keeps_off X H c c' \<longleftrightarrow> keeps H c c' \<and> (\<forall>a v. line_of H a \<notin> X \<longrightarrow> cpu_sees H c a v \<longrightarrow> cpu_sees H c' a v)"

text \<open>
  The contract of a maintenance operation by address: it maintains the line of its address, turning
  every byte that satisfies \<open>A\<close> into a settled one and leaving the line clean or invalid, and otherwise changes
  nothing that matters: \<open>K X\<close> is a step that maintains at most the lines in \<open>X\<close>.
\<close>

locale line_op =
  fixes f :: "hw \<Rightarrow> addr \<Rightarrow> cmem \<Rightarrow> cmem option" and K :: "addr set \<Rightarrow> hw \<Rightarrow> cmem \<Rightarrow> cmem \<Rightarrow> bool"
    and A :: "hw \<Rightarrow> cmem \<Rightarrow> addr \<Rightarrow> u8 \<Rightarrow> bool"
  assumes K_refl: "K X H c c" and K_trans: "K X H c c' \<Longrightarrow> K X H c' c'' \<Longrightarrow> K X H c c''"
    and K_mono: "X \<subseteq> Y \<Longrightarrow> K X H c c' \<Longrightarrow> K Y H c c'"
    and K_A: "K X H c c' \<Longrightarrow> A H c a v \<Longrightarrow> A H c' a v" and K_settled: "K X H c c' \<Longrightarrow> settled H c a v \<Longrightarrow> settled H c' a v"
    and K_undirty: "K X H c c' \<Longrightarrow> undirty H c a \<Longrightarrow> undirty H c' a"
    and op_ok: "hw_ok H \<Longrightarrow> phys H va = Some (p, b) \<Longrightarrow>
      \<exists>c'. f H va c = Some c' \<and> K {line_of H p} H c c' \<and>
        (\<forall>a v. line_of H a = line_of H p \<longrightarrow> undirty H c' a \<and> (A H c a v \<longrightarrow> settled H c' a v))"
begin

text \<open>A range operation on RAM maintains every line that the range touches.\<close>

lemma range_ok:
  assumes hw: "hw_ok H" and vm: "virt_map pol L H" and r: "kRamBase \<le> p" "unat p + unat len \<le> 2147483648" "len \<noteq> 0"
  shows "\<exists>c'. dc_range_common H p len (f H) c = Some c' \<and> K (lines_of H p (unat len)) H c c' \<and>
    (\<forall>a v. unat p \<le> unat a \<longrightarrow> unat a < unat p + unat len \<longrightarrow> A H c a v \<longrightarrow> settled H c' a v) \<and>
    (\<forall>a. unat p \<le> unat a \<longrightarrow> unat a < unat p + unat len \<longrightarrow> undirty H c' a)"
proof -
  obtain k where k: "2 \<le> k" "k < 18" and ls: "dcache_line_size H = 2 ^ k" by (rule dcache_line_size_2p)
  let ?z = "(2 :: nat) ^ k"
  have zb: "?z dvd 1073741824" "0 < ?z" "?z \<le> 131072"
  proof -
    have "(1073741824 :: nat) = 2 ^ 30" by simp
    then show "?z dvd 1073741824" using k by (simp only: le_imp_power_dvd)
    have "?z \<le> 2 ^ 17" by (rule power_increasing) (use k in simp_all)
    then show "?z \<le> 131072" by simp
  qed simp
  have pr: "1073741824 \<le> unat p" using r(1) by (simp add: word_le_nat_alt kRamBase_def)
  have upl: "unat (p + len) = unat p + unat len" by (rule unat_add_nowrap) (use r(2) in simp)
  define s where "s = unat p div ?z"
  define e where "e = (unat p + unat len + ?z - 1) div ?z"
  have start: "unat (align_down p (2 ^ k)) = s * ?z" using unat_align_down_2p [of k p] k by (simp add: s_def)
  have "unat (align_up (p + len) (2 ^ k)) = (unat (p + len) + ?z - 1) div ?z * ?z"
    by (rule unat_align_up_2p) (use k upl r(2) zb(3) in simp_all)
  then have "end": "unat (align_up (p + len) (2 ^ k)) = e * ?z" unfolding upl e_def .
  have se: "s \<le> e" unfolding s_def e_def by (rule div_le_mono) (use zb(2) in linarith)
  have bot: "1073741824 \<le> s * ?z"
  proof -
    obtain q where q: "1073741824 = ?z * q" using zb(1) by (auto simp: dvd_def)
    have "q = 1073741824 div ?z" using q zb(2) by (metis nonzero_mult_div_cancel_left less_numeral_extra(3))
    also have "\<dots> \<le> s" unfolding s_def by (rule div_le_mono [OF pr])
    finally have "q * ?z \<le> s * ?z" by (rule mult_le_mono1)
    moreover have "q * ?z = 1073741824" using q by (simp only: mult.commute)
    ultimately show ?thesis by (simp only:)
  qed
  have top: "e * ?z \<le> 2147483648"
  proof -
    have "?z dvd 2 * 1073741824" using zb(1) by (rule dvd_mult)
    then obtain q where q': "2 * 1073741824 = ?z * q" by (elim dvdE)
    have q: "2147483648 = q * ?z" using q' by (simp add: mult.commute)
    have "e * ?z < 2147483648 + ?z" using round_up_div_bounds(2) [OF zb(2), of "unat p + unat len"] r(2) unfolding e_def by linarith
    then have "e < q + 1" unfolding q using zb(2) by (metis add.commute mult_Suc mult_less_cancel2 Suc_eq_plus1)
    then show ?thesis unfolding q by simp
  qed
  define n where "n = e - s"
  let ?a = "align_down p (2 ^ k)"
  let ?X = "lines_of H p (unat len)"
  let ?P = "\<lambda>i d. K ?X H c d \<and> (\<forall>a v. s \<le> unat a div ?z \<longrightarrow> unat a div ?z < s + i \<longrightarrow>
    undirty H d a \<and> (A H c a v \<longrightarrow> settled H d a v))"
  have "\<exists>c'. dc_loop (f H) (2 ^ k) (align_up (p + len) (2 ^ k)) ?a c = Some c' \<and> ?P n c'"
  proof (rule dc_loop_run [where P = ?P and n = n, OF refl])
    show "unat (align_up (p + len) (2 ^ k)) = unat ?a + n * ?z"
      using start "end" se by (simp add: n_def diff_mult_distrib)
    show "?P 0 c" using K_refl by auto
    fix i d assume i: "i < n" and d: "?P i d"
    let ?va = "?a + of_nat i * 2 ^ k"
    have le: "(s + i) * ?z + ?z \<le> e * ?z"
    proof -
      have "s + i + 1 \<le> e" using i by (simp add: n_def)
      then have "(s + i + 1) * ?z \<le> e * ?z" by (rule mult_le_mono1)
      then show ?thesis by simp
    qed
    have uva: "unat ?va = (s + i) * ?z"
    proof -
      have "of_nat i * (2 :: addr) ^ k = of_nat (i * ?z)" by simp
      moreover have "i * ?z < 2 ^ 64" using le top by (simp add: algebra_simps)
      ultimately have "unat (of_nat i * (2 :: addr) ^ k) = i * ?z" by (simp only: unat_of_nat len64 mod_less)
      then show ?thesis using start le top by (subst unat_add_nowrap) (simp_all add: algebra_simps)
    qed
    have kb: "unat kRamBase = 1073741824" and kl: "unat kRamLimit = 2147483648" by (simp_all add: kRamBase_def kRamLimit_def)
    have "s * ?z \<le> (s + i) * ?z" by (rule mult_le_mono1) simp
    then have "kRamBase \<le> ?va" "?va < kRamLimit"
      unfolding word_le_nat_alt word_less_nat_alt uva kb kl using bot le top zb(2) by linarith+
    from phys_ram [OF vm this] obtain b where ph: "phys H ?va = Some (?va, b)" by blast
    have le_iff: "line_of H a = line_of H b \<longleftrightarrow> unat a div ?z = unat b div ?z" for a b
      by (rule line_of_eq_iff [OF ls]) (use k in simp)
    have "line_of H ?va \<in> ?X"
    proof (cases "unat p \<le> unat ?va")
      case True
      have "s + i + 1 \<le> e" using i by (simp add: n_def)
      then have "?z * (s + i + 1) \<le> ?z * e" by (rule mult_le_mono2)
      moreover have "e * ?z < unat p + unat len + ?z"
        using round_up_div_bounds(2) [OF zb(2), of "unat p + unat len"] unfolding e_def .
      ultimately have "unat ?va < unat p + unat len" unfolding uva by (simp add: algebra_simps)
      then show ?thesis using True by (auto simp: lines_of_def)
    next
      case False
      then have "(s + i) * ?z < unat p" by (simp only: uva not_le)
      then have "s + i \<le> s" unfolding s_def using zb(2) by (meson less_eq_div_iff_mult_less_eq less_imp_le)
      then have "line_of H ?va = line_of H p" unfolding le_iff uva by (simp add: s_def)
      moreover have "line_of H p \<in> ?X" using r(3) by (auto simp: lines_of_def unat_gt_0)
      ultimately show ?thesis by simp
    qed
    then obtain d' where d': "f H ?va d = Some d'" "K ?X H d d'"
      "\<forall>a v. line_of H a = line_of H ?va \<longrightarrow> undirty H d' a \<and> (A H d a v \<longrightarrow> settled H d' a v)"
      using op_ok [OF hw ph, of d] K_mono [of "{line_of H ?va}" ?X] by blast
    have "undirty H d' a \<and> (A H c a v \<longrightarrow> settled H d' a v)"
      if a: "s \<le> unat a div ?z" "unat a div ?z < s + Suc i" for a v
    proof (cases "unat a div ?z = s + i")
      case True
      then have "line_of H a = line_of H ?va" unfolding le_iff using uva zb(2) by simp
      then show ?thesis using d' d K_A by blast
    next
      case False
      then have "undirty H d a \<and> (A H c a v \<longrightarrow> settled H d a v)" using d a by simp
      then show ?thesis using K_settled [OF d'(2)] K_undirty [OF d'(2)] by blast
    qed
    then show "\<exists>d'. f H ?va d = Some d' \<and> ?P (Suc i) d'" using d'(1,2) d K_trans by blast
  qed (use k in simp)
  then obtain c' where c': "dc_loop (f H) (2 ^ k) (align_up (p + len) (2 ^ k)) ?a c = Some c'" "?P n c'" by blast
  have nz: "(2 :: u64) ^ k \<noteq> 0" using unat_2p [of k] k by (auto simp: word_unat_eq_iff)
  have "dc_range_common H p len (f H) c = Some c'"
    using c'(1) r(3) vm nz unfolding dc_range_common_def Let_def ls by (simp add: virt_map_def)
  moreover have "undirty H c' a \<and> (A H c a v \<longrightarrow> settled H c' a v)"
    if a: "unat p \<le> unat a" "unat a < unat p + unat len" for a v
  proof -
    have "s \<le> unat a div ?z" unfolding s_def by (rule div_le_mono [OF a(1)])
    moreover have "unat a div ?z < e"
    proof -
      have "unat a div ?z * ?z \<le> unat a" by simp
      also have "\<dots> < e * ?z" using a(2) round_up_div_bounds(1) [OF zb(2), of "unat p + unat len"] unfolding e_def by linarith
      finally show ?thesis by simp
    qed
    ultimately show ?thesis using c'(2) se by (simp add: n_def)
  qed
  ultimately show ?thesis using c'(2) by blast
qed

end

lemma line_of_congD: "line_of H a = line_of H p \<Longrightarrow> clean_line H (line_of H p) c = clean_line H (line_of H a) c \<and>
  drop_line (line_of H p) c = drop_line (line_of H a) c"
  by simp

interpretation cvac: line_op dc_cvac_line "\<lambda>_. keeps_cpu" cpu_sees
proof unfold_locales
  show "\<exists>c'. dc_cvac_line H va c = Some c' \<and> keeps_cpu H c c' \<and>
      (\<forall>a v. line_of H a = line_of H p \<longrightarrow> undirty H c' a \<and> (cpu_sees H c a v \<longrightarrow> settled H c' a v))"
    if "hw_ok H" "phys H va = Some (p, b)" for H va p b c
  proof -
    let ?c = "clean_line H (line_of H p) (advance H c)"
    have r: "dc_cvac_line H va c = Some ?c" using that(2) by (simp add: dc_cvac_line_def Let_def)
    have "settled H ?c a v" if l: "line_of H a = line_of H p" "cpu_sees H c a v" for a v
      using clean_settles [of H "advance H c" a v] l advance_keeps [OF \<open>hw_ok H\<close>] by (simp add: keeps_cpu_def)
    moreover have "undirty H ?c a" if "line_of H a = line_of H p" for a
      using that by (simp add: undirty_def clean_line_def)
    ultimately show ?thesis using r cvac_keeps [OF that(1) r] by blast
  qed
qed (auto simp: keeps_cpu_def intro: keeps_trans, auto simp: keeps_def)

interpretation ivac: line_op dc_ivac_line keeps_off dev_wrote
proof unfold_locales
  show "\<exists>c'. dc_ivac_line H va c = Some c' \<and> keeps_off {line_of H p} H c c' \<and>
      (\<forall>a v. line_of H a = line_of H p \<longrightarrow> undirty H c' a \<and> (dev_wrote H c a v \<longrightarrow> settled H c' a v))"
    if "hw_ok H" "phys H va = Some (p, b)" for H va p b c
  proof -
    let ?c = "drop_line (line_of H p) (advance H c)"
    have r: "dc_ivac_line H va c = Some ?c" using that(2) by (simp add: dc_ivac_line_def Let_def)
    have "settled H ?c a v" if l: "line_of H a = line_of H p" "dev_wrote H c a v" for a v
      using drop_settles [of H "advance H c" a v] l advance_keeps [OF \<open>hw_ok H\<close>] by (simp add: keeps_cpu_def keeps_def)
    moreover have "undirty H ?c a" if "line_of H a = line_of H p" for a
      using that by (simp add: undirty_def drop_line_def)
    moreover have "cpu_sees H ?c a v" if "line_of H a \<noteq> line_of H p" "cpu_sees H c a v" for a v
      using advance_keeps [OF \<open>hw_ok H\<close>, of c] that by (simp add: keeps_cpu_def cpu_sees_def drop_line_def)
    ultimately show ?thesis using r ivac_keeps [OF that(1) r] by (auto simp: keeps_off_def)
  qed
qed (auto simp: keeps_off_def keeps_def)

interpretation civac: line_op dc_civac_line "\<lambda>_. keeps_cpu" cpu_sees
proof unfold_locales
  show "\<exists>c'. dc_civac_line H va c = Some c' \<and> keeps_cpu H c c' \<and>
      (\<forall>a v. line_of H a = line_of H p \<longrightarrow> undirty H c' a \<and> (cpu_sees H c a v \<longrightarrow> settled H c' a v))"
    if "hw_ok H" "phys H va = Some (p, b)" for H va p b c
  proof -
    let ?d = "clean_line H (line_of H p) (advance H c)"
    let ?c = "drop_line (line_of H p) ?d"
    have r: "dc_civac_line H va c = Some ?c" using that(2) by (simp add: dc_civac_line_def Let_def)
    have "settled H ?c a v" if l: "line_of H a = line_of H p" "cpu_sees H c a v" for a v
    proof -
      have "settled H ?d a v"
        using clean_settles [of H "advance H c" a v] l advance_keeps [OF \<open>hw_ok H\<close>] by (simp add: keeps_cpu_def)
      then show ?thesis using drop_keeps by (simp add: keeps_def)
    qed
    moreover have "keeps_cpu H c ?c" using keeps_cpu_trans [OF advance_keeps [OF that(1)] evict_keeps] .
    moreover have "undirty H ?c a" if "line_of H a = line_of H p" for a
      using that by (simp add: undirty_def drop_line_def)
    ultimately show ?thesis using r by blast
  qed
qed (auto simp: keeps_cpu_def intro: keeps_trans, auto simp: keeps_def)

text \<open>
  C32: cleaning a range to the point of coherency. On RAM \<^verbatim>\<open>dc_cvac_range\<close> ends, and afterwards RAM holds
  every byte of the range as the CPU sees it, so that a device reads what the CPU wrote; no byte of
  memory has changed its value for the CPU. This holds for every line size the CPU reports, for ranges
  that start and end inside a line, and whatever the cache does meanwhile.
\<close>
theorem dc_cvac_range_settles:
  assumes "hw_ok H" "virt_map pol L H" "kRamBase \<le> p" "unat p + unat len \<le> 2147483648" "len \<noteq> 0"
  shows "\<exists>c'. dc_cvac_range H p len c = Some c' \<and>
    (\<forall>a v. unat p \<le> unat a \<longrightarrow> unat a < unat p + unat len \<longrightarrow> cpu_sees H c a v \<longrightarrow> settled H c' a v) \<and>
    (\<forall>a v. cpu_sees H c a v \<longrightarrow> cpu_sees H c' a v)"
  using cvac.range_ok [OF assms, of c] unfolding dc_cvac_range_def keeps_cpu_def by blast

text \<open>A machine whose cache never acts on its own, with 64-byte lines.\<close>

definition hw_example :: hw where
  "hw_example = \<lparr>hw_ctr = 0x40000, hw_sctlr = 5, hw_xlat = boot_map Cacheable layout_example, hw_act = (\<lambda>_ c. c)\<rparr>"

definition cmem_example :: cmem where
  "cmem_example = \<lparr>ram = (\<lambda>_. 0), line_data = (\<lambda>_. 7), line_valid = (\<lambda>_. True), line_dirty = (\<lambda>_. True), hw_time = 0\<rparr>"

lemma hw_example_ok: "hw_ok hw_example"
  by (simp add: hw_ok_def hw_example_def)

lemma hw_example_map: "virt_map Cacheable layout_example hw_example"
  by (simp add: virt_map_def hw_example_def mmu_on_def dcache_enabled_def)

theorem dc_cvac_range_settles_witness:
  "\<exists>c'. dc_cvac_range hw_example 0x40080010 100 cmem_example = Some c' \<and> ram c' 0x40080020 = 7"
proof -
  obtain c' where c': "dc_cvac_range hw_example 0x40080010 100 cmem_example = Some c'"
    "\<forall>a v. 1074266128 \<le> unat a \<longrightarrow> unat a < 1074266228 \<longrightarrow> cpu_sees hw_example cmem_example a v \<longrightarrow>
      settled hw_example c' a v"
    using dc_cvac_range_settles [OF hw_example_ok hw_example_map, where p = "0x40080010" and len = 100 and c = cmem_example]
    by (auto simp: kRamBase_def)
  have "cpu_sees hw_example cmem_example 0x40080020 7" by (simp add: cpu_sees_def cmem_example_def)
  with c' show ?thesis by (auto simp: settled_def)
qed

end
