(* ===== verification/Dma.thy ===== *)
theory Dma
  imports Cache
begin

text \<open>
  The DMA engine of \<^verbatim>\<open>src/dma.cc\<close> and the window helpers of \<^verbatim>\<open>include/dma.h\<close>, over the memory and cache of
  \<open>Cache\<close>. Descriptors are carved upwards from the DMA window and buffers downwards; descriptors wait
  in a FIFO queue linked by \<^verbatim>\<open>next\<close>; \<^verbatim>\<open>dma_poll_complete\<close> plays the device.

  The bytes of buffers live in \<open>cm\<close>, the fields of descriptors in the typed store \<open>descs\<close> (so a transfer
  into a descriptor is outside the model). Callbacks, which are function pointers, are the parameter
  \<open>call\<close>. Console output is the list \<open>dlog\<close> (\<open>Said\<close>: text that a callback prints). \<open>None\<close> is a translation fault or a loop that does not end.
\<close>

section \<open>State\<close>

record dma_desc =
  d_src :: u64
  d_dst :: u64
  d_len :: u64
  d_status :: u64
  d_cb :: addr
  d_user :: addr
  d_next :: addr

datatype dma_event =
    Prepare u64
  | Complete u64
  | Queued addr addr u64 u64 u64
  | Poll addr u64 u64 u64
  | Done
  | Said string

record dmast =
  cm :: cmem
  descs :: "addr \<Rightarrow> dma_desc"
  g_dma_desc_next :: addr
  g_dma_buf_end :: addr
  g_pending_head :: addr
  g_pending_tail :: addr
  prep_budget :: u32
  comp_budget :: u32
  daif :: u64
  dlog :: "dma_event list"

definition kSizeofDesc :: u64 where "kSizeofDesc = 56"
definition kAlignofDesc :: u64 where "kAlignofDesc = 8"

section \<open>The window\<close>

definition dma_window_start :: "mmu_layout \<Rightarrow> addr" where
  "dma_window_start L = dma_nc_start L"

definition dma_window_end :: "mmu_layout \<Rightarrow> addr" where
  "dma_window_end L = dma_nc_end L"

definition dma_window_contains_range :: "mmu_layout \<Rightarrow> addr \<Rightarrow> u64 \<Rightarrow> bool" where
  "dma_window_contains_range L p len =
     (if p = NULL \<or> len = 0 then False
      else let end = p + (len - 1)
           in if end < p then False else dma_window_start L \<le> p \<and> end < dma_window_end L)"

definition dma_window_to_nocache_alias :: "mmu_layout \<Rightarrow> addr \<Rightarrow> u64 \<Rightarrow> addr" where
  "dma_window_to_nocache_alias L p len =
     (if \<not> dma_window_contains_range L p len then NULL else p + 0x40000000)"

definition dma_window_from_nocache_alias :: "mmu_layout \<Rightarrow> addr \<Rightarrow> u64 \<Rightarrow> addr" where
  "dma_window_from_nocache_alias L p len =
     (if p = NULL \<or> len = 0 then NULL
      else let base = p - 0x40000000
           in if p < base then NULL
              else if dma_window_contains_range L base len then base else NULL)"

text \<open>The two views of the window convert into each other.\<close>

lemma dma_window_alias_roundtrip:
  assumes "dma_window_contains_range L p len" "unat p < 2147483648"
  shows "dma_window_from_nocache_alias L (dma_window_to_nocache_alias L p len) len = p"
proof -
  have nz: "p \<noteq> NULL" "len \<noteq> 0" using assms(1) by (auto simp: dma_window_contains_range_def)
  have "unat (p + 0x40000000) = unat p + 1073741824" using assms(2) by (subst unat_add_nowrap) simp_all
  then have "p + 0x40000000 \<noteq> NULL" "\<not> p + 0x40000000 < p" by (auto simp: word_less_nat_alt)
  then show ?thesis
    using assms(1) nz by (simp add: dma_window_from_nocache_alias_def dma_window_to_nocache_alias_def Let_def)
qed

section \<open>Views and maintenance\<close>

definition dma_cache_maint_allowed :: "dma_policy \<Rightarrow> mmu_layout \<Rightarrow> addr \<Rightarrow> u64 \<Rightarrow> bool" where
  "dma_cache_maint_allowed pol L buf len =
     (if buf = NULL \<or> len = 0 then False
      else let end = buf + (len - 1)
           in if end < buf then False
              else if 0x80000000 \<le> buf \<and> end < 0xC0000000 then False
              else if \<not> (0x40000000 \<le> buf \<and> end < 0x80000000) then False
              else if pol = NonCacheable \<and> dma_nc_start L \<le> end \<and> buf < dma_nc_end L then False
              else True)"

definition dma_device_view :: "hw \<Rightarrow> addr \<Rightarrow> u64 \<Rightarrow> addr" where
  "dma_device_view H buf len =
     (if buf = NULL \<or> len = 0 then buf
      else if \<not> mmu_on H then buf
      else let end = buf + (len - 1)
           in if end < buf then buf
              else if 0x80000000 \<le> buf \<and> end < 0xC0000000 then buf
              else if 0x40000000 \<le> buf \<and> end < 0x80000000 then buf + 0x40000000
              else buf)"

definition on_cm :: "(cmem \<Rightarrow> cmem option) \<Rightarrow> dmast \<Rightarrow> dmast option" where
  "on_cm f s = map_option (\<lambda>c. s\<lparr>cm := c\<rparr>) (f (cm s))"

definition dma_prepare_to_device ::
  "dma_policy \<Rightarrow> mmu_layout \<Rightarrow> hw \<Rightarrow> addr \<Rightarrow> u64 \<Rightarrow> dmast \<Rightarrow> dmast option" where
  "dma_prepare_to_device pol L H buf len s =
     (let s = (if prep_budget s \<noteq> 0 \<and> 64 \<le> len
               then s\<lparr>prep_budget := prep_budget s - 1, dlog := dlog s @ [Prepare len]\<rparr> else s)
      in if dma_cache_maint_allowed pol L buf len then on_cm (dc_cvac_range H buf len) s else Some s)"

definition dma_complete_from_device ::
  "dma_policy \<Rightarrow> mmu_layout \<Rightarrow> hw \<Rightarrow> addr \<Rightarrow> u64 \<Rightarrow> dmast \<Rightarrow> dmast option" where
  "dma_complete_from_device pol L H buf len s =
     (let s = (if comp_budget s \<noteq> 0 \<and> 64 \<le> len
               then s\<lparr>comp_budget := comp_budget s - 1, dlog := dlog s @ [Complete len]\<rparr> else s)
      in if dma_cache_maint_allowed pol L buf len then on_cm (dc_ivac_range H buf len) s else Some s)"

text \<open>\<^verbatim>\<open>dma_memcpy\<close>: the loop over \<^verbatim>\<open>i\<close> walks both pointers upwards one byte at a time.\<close>

primrec dma_memcpy :: "hw \<Rightarrow> addr \<Rightarrow> addr \<Rightarrow> nat \<Rightarrow> cmem \<Rightarrow> cmem option" where
  "dma_memcpy H dst src 0 c = Some c"
| "dma_memcpy H dst src (Suc n) c =
     do { (v, c) \<leftarrow> cpu_load H src c; c \<leftarrow> cpu_store H dst v c; dma_memcpy H (dst + 1) (src + 1) n c }"

section \<open>Allocation\<close>

definition dma_alloc_desc :: "dmast \<Rightarrow> addr \<times> dmast" where
  "dma_alloc_desc s =
     (let raw = g_dma_desc_next s;
          raw = (raw + kAlignofDesc - 1) AND NOT (kAlignofDesc - 1)
      in if g_dma_buf_end s < raw + kSizeofDesc then (NULL, s)
         else (raw, s\<lparr>g_dma_desc_next := raw + kSizeofDesc\<rparr>))"

definition dma_alloc_buffer :: "u64 \<Rightarrow> u64 \<Rightarrow> dmast \<Rightarrow> addr \<times> dmast" where
  "dma_alloc_buffer len align s =
     (if len = 0 then (NULL, s)
      else let align = (if align = 0 then 1 else align)
           in if align AND (align - 1) \<noteq> 0 then (NULL, s)
              else let end = g_dma_buf_end s
                   in if end < len then (NULL, s)
                      else let start = (end - len) AND NOT (align - 1)
                           in if start < g_dma_desc_next s then (NULL, s)
                              else (start, s\<lparr>g_dma_buf_end := start\<rparr>))"

section \<open>Submission and completion\<close>

definition local_irq_save :: "dmast \<Rightarrow> u64 \<times> dmast" where
  "local_irq_save s = (daif s, s\<lparr>daif := daif s OR 0x80\<rparr>)"

definition local_irq_restore :: "u64 \<Rightarrow> dmast \<Rightarrow> dmast" where
  "local_irq_restore flags s = s\<lparr>daif := flags\<rparr>"

definition upd_desc :: "addr \<Rightarrow> (dma_desc \<Rightarrow> dma_desc) \<Rightarrow> dmast \<Rightarrow> dmast" where
  "upd_desc d f s = s\<lparr>descs := (descs s)(d := f (descs s d))\<rparr>"

definition dma_enqueue :: "addr \<Rightarrow> dmast \<Rightarrow> dmast" where
  "dma_enqueue desc s =
     (let (flags, s) = local_irq_save s;
          prev_tail = g_pending_tail s;
          s = (if prev_tail \<noteq> NULL then upd_desc prev_tail (d_next_update (\<lambda>_. desc)) s
               else s\<lparr>g_pending_head := desc\<rparr>);
          s = s\<lparr>g_pending_tail := desc\<rparr>
      in local_irq_restore flags s)"

definition dma_submit_memcpy :: "dma_policy \<Rightarrow> mmu_layout \<Rightarrow> hw \<Rightarrow>
    addr \<Rightarrow> addr \<Rightarrow> u64 \<Rightarrow> addr \<Rightarrow> addr \<Rightarrow> dmast \<Rightarrow> (int \<times> dmast) option" where
  "dma_submit_memcpy pol L H dst src len cb user s =
     (if dst = NULL \<or> src = NULL \<or> len = 0 then Some (-1, s)
      else let (desc, s) = dma_alloc_desc s
           in if desc = NULL then Some (-2, s)
              else let s = upd_desc desc (\<lambda>_. \<lparr>d_src = src, d_dst = dst, d_len = len, d_status = 1,
                             d_cb = cb, d_user = user, d_next = NULL\<rparr>) s
                   in do {
                     s \<leftarrow> dma_prepare_to_device pol L H src len s;
                     s \<leftarrow> dma_prepare_to_device pol L H desc kSizeofDesc s;
                     let prev_tail = g_pending_tail s;
                     let s = dma_enqueue desc s;
                     s \<leftarrow> (if prev_tail \<noteq> NULL then dma_prepare_to_device pol L H prev_tail kSizeofDesc s
                          else Some s);
                     let d = descs s desc;
                     Some (0, s\<lparr>dlog := dlog s @ [Queued desc (d_next d) (d_src d) (d_dst d) len]\<rparr>)
                   })"

text \<open>The transfer of one descriptor, as the device makes it.\<close>

definition dma_transfer :: "dma_policy \<Rightarrow> mmu_layout \<Rightarrow> hw \<Rightarrow> addr \<Rightarrow> addr \<Rightarrow> u64 \<Rightarrow> dmast \<Rightarrow> dmast option" where
  "dma_transfer pol L H dst src len s =
     (let dev_dst = dma_device_view H dst len;
          dev_src = dma_device_view H src len
      in do {
        s \<leftarrow> on_cm (dma_memcpy H dev_dst dev_src (unat len)) s;
        s \<leftarrow> (if dev_dst = dst \<and> dma_cache_maint_allowed pol L dst len
             then on_cm (dc_cvac_range H dst len) s else Some s);
        dma_complete_from_device pol L H dst len s
      })"

definition dma_complete_one :: "dma_policy \<Rightarrow> mmu_layout \<Rightarrow> hw \<Rightarrow> (addr \<Rightarrow> addr \<Rightarrow> dmast \<Rightarrow> dmast option) \<Rightarrow>
    dmast \<Rightarrow> dmast option" where
  "dma_complete_one pol L H call s =
     (let desc = g_pending_head s;
          s = s\<lparr>g_pending_head := d_next (descs s desc)\<rparr>;
          s = (if g_pending_head s = NULL then s\<lparr>g_pending_tail := NULL\<rparr> else s);
          s = upd_desc desc (d_next_update (\<lambda>_. NULL)) s;
          dst = d_dst (descs s desc);
          src = d_src (descs s desc);
          len = d_len (descs s desc);
          s = s\<lparr>dlog := dlog s @ [Poll desc src dst len]\<rparr>
      in do {
        s \<leftarrow> (if len \<noteq> 0 then dma_transfer pol L H dst src len s else Some s);
        let s = upd_desc desc (d_status_update (\<lambda>_. 0)) s;
        s \<leftarrow> dma_prepare_to_device pol L H desc kSizeofDesc s;
        let s = s\<lparr>dlog := dlog s @ [Done]\<rparr>;
        (if d_cb (descs s desc) \<noteq> NULL then call (d_cb (descs s desc)) (d_user (descs s desc)) s else Some s)
      })"

partial_function (option) dma_poll_complete :: "dma_policy \<Rightarrow> mmu_layout \<Rightarrow> hw \<Rightarrow>
    (addr \<Rightarrow> addr \<Rightarrow> dmast \<Rightarrow> dmast option) \<Rightarrow> dmast \<Rightarrow> dmast option" where
  "dma_poll_complete pol L H call s =
     (if g_pending_head s \<noteq> NULL
      then Option.bind (dma_complete_one pol L H call s) (dma_poll_complete pol L H call)
      else Some s)"

section \<open>Allocation\<close>

definition win_ok :: "mmu_layout \<Rightarrow> dmast \<Rightarrow> bool" where
  "win_ok L s \<longleftrightarrow> 1073741824 \<le> unat (dma_nc_start L) \<and> unat (dma_nc_start L) \<le> unat (g_dma_desc_next s) \<and>
     unat (g_dma_desc_next s) \<le> unat (g_dma_buf_end s) \<and> unat (g_dma_buf_end s) \<le> unat (dma_nc_end L) \<and>
     unat (dma_nc_end L) \<le> 2147483648"

text \<open>A block that leaves the gap between the two ends of the window, and the gap that remains.\<close>

definition carved :: "dmast \<Rightarrow> addr \<Rightarrow> nat \<Rightarrow> dmast \<Rightarrow> bool" where
  "carved s p n s' \<longleftrightarrow> unat (g_dma_desc_next s) \<le> unat p \<and> unat p + n \<le> unat (g_dma_buf_end s) \<and>
     (unat p + n = unat (g_dma_desc_next s') \<and> g_dma_buf_end s' = g_dma_buf_end s \<or>
      g_dma_buf_end s' = p \<and> g_dma_desc_next s' = g_dma_desc_next s)"

lemma dma_alloc_desc_cases:
  assumes "win_ok L s" "dma_alloc_desc s = (p, s')"
  obtains (none) "p = NULL" "s' = s"
  | (some) "p \<noteq> NULL" "carved s p 56 s'" "8 dvd unat p" "s' = s\<lparr>g_dma_desc_next := p + 56\<rparr>"
proof (cases "p = NULL")
  case True
  let ?p = "align_up (g_dma_desc_next s) (2 ^ 3)"
  have n: "unat (g_dma_desc_next s) \<le> 2147483648" "1073741824 \<le> unat (g_dma_desc_next s)" using assms(1) by (auto simp: win_ok_def)
  have "unat (g_dma_desc_next s) + 2 ^ 3 \<le> 2 ^ 64" using n by simp
  from align_up_2p_bounds(1) [OF _ this] n have "?p \<noteq> NULL" by (auto simp: word_unat_eq_iff)
  then have "s' = s" using assms(2) True
    by (auto simp: dma_alloc_desc_def Let_def kSizeofDesc_def kAlignofDesc_def align_up_def split: if_splits)
  then show thesis using none True by blast
next
  case False
  let ?p = "align_up (g_dma_desc_next s) (2 ^ 3)"
  have n: "unat (g_dma_desc_next s) \<le> 2147483648" "unat (g_dma_buf_end s) \<le> 2147483648" using assms(1) by (auto simp: win_ok_def)
  have small: "unat (g_dma_desc_next s) + 2 ^ 3 \<le> 2 ^ 64" using n by simp
  note b = align_up_2p_bounds [OF _ small]
  have p: "p = ?p" "\<not> g_dma_buf_end s < p + 56" "s' = s\<lparr>g_dma_desc_next := p + 56\<rparr>"
    using assms(2) False
    by (auto simp: dma_alloc_desc_def Let_def kSizeofDesc_def kAlignofDesc_def align_up_def split: if_splits)
  have "unat p < 2147483656" using b(2) n p(1) by simp
  then have "unat (p + 56) = unat p + 56" by (subst unat_add_nowrap) simp_all
  then have "carved s p 56 s'" using p b(1) by (auto simp: carved_def word_less_nat_alt)
  then show thesis using some False b(3) p(1,3) by simp
qed

lemma dma_alloc_buffer_cases:
  assumes "win_ok L s" "dma_alloc_buffer len al s = (p, s')"
  obtains (none) "p = NULL" "s' = s"
  | (some) "p \<noteq> NULL" "carved s p (unat len) s'" "al = 0 \<or> unat al dvd unat p" "len \<noteq> 0" "s' = s\<lparr>g_dma_buf_end := p\<rparr>"
proof (cases "p = NULL")
  case True
  have n: "1073741824 \<le> unat (g_dma_desc_next s)" using assms(1) by (auto simp: win_ok_def)
  then have "NULL < g_dma_desc_next s" by (auto simp: word_less_nat_alt)
  then have "s' = s" using assms(2) True by (auto simp: dma_alloc_buffer_def Let_def split: if_splits)
  then show thesis using none True by blast
next
  case False
  let ?al = "if al = 0 then 1 else al"
  have p: "len \<noteq> 0" "?al AND (?al - 1) = 0" "len \<le> g_dma_buf_end s" "p = align_down (g_dma_buf_end s - len) ?al"
    "g_dma_desc_next s \<le> p" "s' = s\<lparr>g_dma_buf_end := p\<rparr>"
    using assms(2) False by (auto simp: dma_alloc_buffer_def Let_def align_down_def split: if_splits)
  have "is_pow2 ?al" using p(2) by (simp add: is_pow2_def)
  then obtain k where k: "k < 64" "?al = 2 ^ k" by (rule is_pow2E)
  have up: "unat p = unat (g_dma_buf_end s - len) div 2 ^ k * 2 ^ k"
    using unat_align_down_2p [OF k(1)] p(4) k(2) by simp
  also have "\<dots> \<le> unat (g_dma_buf_end s - len)" by (rule div_times_less_eq_dividend)
  finally have "unat p + unat len \<le> unat (g_dma_buf_end s)" using p(3) by (simp add: unat_sub word_le_nat_alt)
  moreover have "al = 0 \<or> unat al dvd unat p" using k up unat_2p [OF k(1)] by (cases "al = 0") simp_all
  ultimately show thesis using some False p by (simp add: carved_def word_le_nat_alt)
qed

text \<open>Any sequence of requests for descriptors and buffers; the blocks they got, in the order of the requests.\<close>

datatype dma_req = ReqDesc | ReqBuf u64 u64

primrec req_size :: "dma_req \<Rightarrow> nat" where
  "req_size ReqDesc = 56"
| "req_size (ReqBuf len al) = unat len"

primrec req_align :: "dma_req \<Rightarrow> nat" where
  "req_align ReqDesc = 8"
| "req_align (ReqBuf len al) = (if al = 0 then 1 else unat al)"

primrec serve :: "dma_req \<Rightarrow> dmast \<Rightarrow> addr \<times> dmast" where
  "serve ReqDesc s = dma_alloc_desc s"
| "serve (ReqBuf len al) s = dma_alloc_buffer len al s"

primrec serve_all :: "dma_req list \<Rightarrow> dmast \<Rightarrow> addr list \<times> dmast" where
  "serve_all [] s = ([], s)"
| "serve_all (r # rs) s = (let (p, s) = serve r s; (ps, s) = serve_all rs s in (p # ps, s))"

lemma serve_cases:
  assumes "win_ok L s" "serve r s = (p, s')"
  obtains (none) "p = NULL" "s' = s" | (some) "p \<noteq> NULL" "carved s p (req_size r) s'" "req_align r dvd unat p" "win_ok L s'"
proof -
  have w: "win_ok L s'" if "carved s p (req_size r) s'"
    using assms(1) that by (auto simp: win_ok_def carved_def)
  show thesis
  proof (cases r)
    case ReqDesc
    with assms(2) have "dma_alloc_desc s = (p, s')" by simp
    from dma_alloc_desc_cases [OF assms(1) this] show thesis
      by (cases, use none some w ReqDesc in \<open>simp_all\<close>)
  next
    case (ReqBuf len al)
    with assms(2) have "dma_alloc_buffer len al s = (p, s')" by simp
    from dma_alloc_buffer_cases [OF assms(1) this] show thesis
      by (cases, use none some w ReqBuf in \<open>auto\<close>)
  qed
qed

lemma serve_all_spec:
  assumes "win_ok L s" "serve_all rs s = (ps, s')"
  shows "length ps = length rs \<and>
    (\<forall>i < length rs. ps ! i \<noteq> NULL \<longrightarrow> req_align (rs ! i) dvd unat (ps ! i) \<and>
       unat (g_dma_desc_next s) \<le> unat (ps ! i) \<and> unat (ps ! i) + req_size (rs ! i) \<le> unat (g_dma_buf_end s)) \<and>
    (\<forall>j < length rs. \<forall>i < j. ps ! i \<noteq> NULL \<longrightarrow> ps ! j \<noteq> NULL \<longrightarrow>
       region (ps ! i) (req_size (rs ! i)) \<inter> region (ps ! j) (req_size (rs ! j)) = {})"
  using assms
proof (induction rs arbitrary: s ps)
  case Nil
  then show ?case by simp
next
  case (Cons r rs)
  obtain p s1 where s1: "serve r s = (p, s1)" by (cases "serve r s")
  obtain qs where qs: "serve_all rs s1 = (qs, s')" "ps = p # qs"
    using Cons.prems(2) s1 by (auto split: prod.splits)
  show ?case
  proof (cases rule: serve_cases [OF Cons.prems(1) s1])
    case 1
    note ih = Cons.IH [OF Cons.prems(1) qs(1) [unfolded 1(2)]]
    then show ?thesis using qs(2) 1 by (fastforce simp: less_Suc_eq_0_disj)
  next
    case 2
    note ih = Cons.IH [OF 2(4) qs(1)]
    have "region p (req_size r) \<inter> region (qs ! j) (req_size (rs ! j)) = {}" if "j < length rs" "qs ! j \<noteq> NULL" for j
      using ih that 2(2) by (auto simp: carved_def region_def)
    then show ?thesis using ih qs(2) 2 by (fastforce simp: less_Suc_eq_0_disj carved_def)
  qed
qed

text \<open>
  C35: whatever sequence of descriptor and buffer requests is made of the DMA window, every block that is
  returned lies inside the window, is aligned as requested (descriptors to 8 bytes), and no two of them
  overlap, although descriptors grow up and buffers grow down towards each other.
\<close>
theorem dma_blocks_disjoint:
  assumes "win_ok L s" "serve_all rs s = (ps, s')" "i < length rs" "ps ! i \<noteq> NULL"
  shows "req_align (rs ! i) dvd unat (ps ! i) \<and>
    region (ps ! i) (req_size (rs ! i)) \<subseteq> {unat (dma_nc_start L) ..< unat (dma_nc_end L)} \<and>
    (\<forall>j < length rs. j \<noteq> i \<longrightarrow> ps ! j \<noteq> NULL \<longrightarrow>
       region (ps ! i) (req_size (rs ! i)) \<inter> region (ps ! j) (req_size (rs ! j)) = {})"
proof -
  note spec = serve_all_spec [OF assms(1,2)]
  have "region (ps ! i) (req_size (rs ! i)) \<inter> region (ps ! j) (req_size (rs ! j)) = {}"
    if "j < length rs" "j \<noteq> i" "ps ! j \<noteq> NULL" for j
    using spec assms(3,4) that by (cases "i < j") (auto simp: Int_commute)
  moreover have "region (ps ! i) (req_size (rs ! i)) \<subseteq> {unat (dma_nc_start L) ..< unat (dma_nc_end L)}"
    using spec assms by (fastforce simp: region_def win_ok_def)
  ultimately show ?thesis using spec assms(3,4) by blast
qed

section \<open>The device's copy\<close>

text \<open>An access through the non-cacheable alias reaches RAM and leaves the cache alone.\<close>

lemma phys_dev: "virt_map pol L H \<Longrightarrow> in_ram a \<Longrightarrow> phys H (a + 0x40000000) = Some (a, False)"
proof -
  assume v: "virt_map pol L H" and a: "in_ram a"
  have "unat (a + 0x40000000) = unat a + 1073741824"
    using a by (subst unat_add_nowrap) (simp_all add: in_ram_unat)
  then have "kRamLimit \<le> a + 0x40000000" "a + 0x40000000 < 0xC0000000"
    using a by (simp_all add: word_le_nat_alt word_less_nat_alt kRamLimit_def in_ram_unat)
  from phys_alias [OF v this] show ?thesis by (simp add: kRamBase_def)
qed

lemma dev_load:
  assumes "hw_ok H" "virt_map pol L H" "in_ram a"
  obtains v c' where "cpu_load H (a + 0x40000000) c = Some (v, c')" "keeps_cpu H c c'" "\<And>w. settled H c a w \<Longrightarrow> v = w"
proof
  show "cpu_load H (a + 0x40000000) c = Some (ram (advance H c) a, advance H c)"
    using phys_dev [OF assms(2,3)] by (simp add: cpu_load_def Let_def)
  show k: "keeps_cpu H c (advance H c)" by (rule advance_keeps [OF assms(1)])
  show "ram (advance H c) a = w" if "settled H c a w" for w
    using k that by (simp add: keeps_cpu_def keeps_def settled_def)
qed

lemma dev_store:
  assumes "hw_ok H" "virt_map pol L H" "in_ram a"
  obtains c' where "cpu_store H (a + 0x40000000) v c = Some c'" "undirty H c a \<Longrightarrow> dev_wrote H c' a v"
    "\<And>b w. b \<noteq> a \<Longrightarrow> settled H c b w \<Longrightarrow> settled H c' b w" "\<And>b w. b \<noteq> a \<Longrightarrow> dev_wrote H c b w \<Longrightarrow> dev_wrote H c' b w"
    "\<And>b. undirty H c b \<Longrightarrow> undirty H c' b"
proof -
  let ?c = "advance H c"
  let ?d = "?c\<lparr>ram := (ram ?c)(a := v)\<rparr>"
  have k: "keeps H c ?c" using advance_keeps [OF assms(1)] by (rule keeps_cpuD)
  have kd: "\<And>b w. settled H c b w \<Longrightarrow> settled H ?c b w" "\<And>b w. dev_wrote H c b w \<Longrightarrow> dev_wrote H ?c b w"
    "\<And>b. undirty H c b \<Longrightarrow> undirty H ?c b"
    using k by (simp_all add: keeps_def)
  show thesis
  proof (rule that [of ?d])
    show "cpu_store H (a + 0x40000000) v c = Some ?d"
      using phys_dev [OF assms(2,3)] by (simp add: cpu_store_def Let_def)
    show "undirty H c a \<Longrightarrow> dev_wrote H ?d a v" using kd(3) [of a] by (simp add: dev_wrote_def undirty_def)
    show "settled H ?d b w" if "b \<noteq> a" "settled H c b w" for b w
      using kd(1) [OF that(2)] that(1) by (simp add: settled_def)
    show "dev_wrote H ?d b w" if "b \<noteq> a" "dev_wrote H c b w" for b w
      using kd(2) [OF that(2)] that(1) by (simp add: dev_wrote_def undirty_def)
    show "undirty H c b \<Longrightarrow> undirty H ?d b" for b using kd(3) [of b] by (simp add: undirty_def)
  qed
qed

definition in_range :: "addr \<Rightarrow> addr \<Rightarrow> nat \<Rightarrow> bool" where
  "in_range a p n \<longleftrightarrow> unat p \<le> unat a \<and> unat a < unat p + n"

definition ram_range :: "addr \<Rightarrow> nat \<Rightarrow> bool" where
  "ram_range p n \<longleftrightarrow> 1073741824 \<le> unat p \<and> unat p + n \<le> 2147483648"

definition apart :: "addr \<Rightarrow> nat \<Rightarrow> addr \<Rightarrow> nat \<Rightarrow> bool" where
  "apart p n q m \<longleftrightarrow> unat p + n \<le> unat q \<or> unat q + m \<le> unat p"

lemma ram_range_Suc:
  assumes "ram_range p (Suc n)"
  shows "in_ram p" "unat (p + 1) = Suc (unat p)" "ram_range (p + 1) n"
proof -
  show "in_ram p" using assms by (simp add: ram_range_def in_ram_unat)
  show u: "unat (p + 1) = Suc (unat p)"
    using assms by (subst unat_add_nowrap) (simp_all add: ram_range_def)
  show "ram_range (p + 1) n" using assms by (simp add: ram_range_def u)
qed

lemma unat_ram_range: "ram_range p n \<Longrightarrow> i < n \<Longrightarrow> unat (p + of_nat i) = unat p + i"
  by (subst unat_add_nowrap) (auto simp: ram_range_def unat_of_nat)

lemma device_copy:
  assumes hw: "hw_ok H" "virt_map pol L H"
    and "ram_range src n" "ram_range dst n" "apart src n dst n"
  shows "\<exists>c'. dma_memcpy H (dst + 0x40000000) (src + 0x40000000) n c = Some c' \<and>
    (\<forall>a v. \<not> in_range a dst n \<longrightarrow> (settled H c a v \<longrightarrow> settled H c' a v) \<and> (dev_wrote H c a v \<longrightarrow> dev_wrote H c' a v)) \<and>
    (\<forall>a. undirty H c a \<longrightarrow> undirty H c' a) \<and>
    (\<forall>i < n. \<forall>v. settled H c (src + of_nat i) v \<longrightarrow> undirty H c (dst + of_nat i) \<longrightarrow> dev_wrote H c' (dst + of_nat i) v)"
  using assms(3-)
proof (induction n arbitrary: src dst c)
  case 0
  then show ?case by simp
next
  case (Suc n)
  note rs = ram_range_Suc [OF Suc.prems(1)] and rd = ram_range_Suc [OF Suc.prems(2)]
  obtain v c1 where c1: "cpu_load H (src + 0x40000000) c = Some (v, c1)" "keeps_cpu H c c1" "\<And>w. settled H c src w \<Longrightarrow> v = w"
    using dev_load [OF hw rs(1), of c] by blast
  obtain c2 where c2: "cpu_store H (dst + 0x40000000) v c1 = Some c2" "undirty H c1 dst \<Longrightarrow> dev_wrote H c2 dst v"
    "\<And>b w. b \<noteq> dst \<Longrightarrow> settled H c1 b w \<Longrightarrow> settled H c2 b w" "\<And>b w. b \<noteq> dst \<Longrightarrow> dev_wrote H c1 b w \<Longrightarrow> dev_wrote H c2 b w"
    "\<And>b. undirty H c1 b \<Longrightarrow> undirty H c2 b"
    using dev_store [OF hw rd(1), of v c1] by blast
  have "apart (src + 1) n (dst + 1) n" using Suc.prems(3) rs(2) rd(2) by (auto simp: apart_def)
  from Suc.IH [OF rs(3) rd(3) this, of c2] obtain c' where
    c': "dma_memcpy H (dst + 1 + 0x40000000) (src + 1 + 0x40000000) n c2 = Some c'"
    "\<And>a v. \<not> in_range a (dst + 1) n \<Longrightarrow> (settled H c2 a v \<longrightarrow> settled H c' a v) \<and> (dev_wrote H c2 a v \<longrightarrow> dev_wrote H c' a v)"
    "\<And>a. undirty H c2 a \<Longrightarrow> undirty H c' a"
    "\<And>i v. i < n \<Longrightarrow> settled H c2 (src + 1 + of_nat i) v \<Longrightarrow> undirty H c2 (dst + 1 + of_nat i) \<Longrightarrow>
      dev_wrote H c' (dst + 1 + of_nat i) v"
    by blast
  have k: "\<And>a v. settled H c a v \<Longrightarrow> settled H c1 a v" "\<And>a. undirty H c a \<Longrightarrow> undirty H c1 a"
    "\<And>a v. dev_wrote H c a v \<Longrightarrow> dev_wrote H c1 a v"
    using c1(2) by (simp_all add: keeps_cpu_def keeps_def)
  have "dma_memcpy H (dst + 0x40000000) (src + 0x40000000) (Suc n) c = Some c'"
    using c1(1) c2(1) c'(1) by (simp add: algebra_simps)
  moreover have "(settled H c a v \<longrightarrow> settled H c' a v) \<and> (dev_wrote H c a v \<longrightarrow> dev_wrote H c' a v)"
    if "\<not> in_range a dst (Suc n)" for a v
  proof -
    have "\<not> in_range a (dst + 1) n" "a \<noteq> dst" using that rd(2) by (auto simp: in_range_def)
    then show ?thesis using k c2(3,4) c'(2) by blast
  qed
  moreover have "dev_wrote H c' (dst + of_nat i) w"
    if i: "i < Suc n" and a: "settled H c (src + of_nat i) w" "undirty H c (dst + of_nat i)" for i w
  proof (cases i)
    case 0
    have "\<not> in_range dst (dst + 1) n" using rd(2) by (simp add: in_range_def)
    then show ?thesis using a c1(3) [of w] c2(2) c'(2) k(2) 0 by auto
  next
    case (Suc j)
    have "unat (src + of_nat i) = unat src + i" by (rule unat_ram_range [OF Suc.prems(1) i])
    then have "src + of_nat i \<noteq> dst" using Suc.prems(3) i by (auto simp: apart_def)
    then have "settled H c2 (src + of_nat i) w" using c2(3) k(1) a(1) by blast
    moreover have "undirty H c2 (dst + of_nat i)" using c2(5) k(2) a(2) by blast
    ultimately show ?thesis using c'(4) [of j w] i Suc by (simp add: algebra_simps)
  qed
  ultimately show ?case using k(2) c2(5) c'(3) by blast
qed

section \<open>Handing buffers over\<close>

text \<open>
  What the maintenance and the transfer leave alone: descriptors, allocator, queue, and the sequence of
  descriptors that the device has taken.
\<close>

definition polls :: "dma_event list \<Rightarrow> addr list" where
  "polls es = concat (map (\<lambda>e. case e of Poll d src dst len \<Rightarrow> [d] | _ \<Rightarrow> []) es)"

lemma polls_append [simp]: "polls (xs @ ys) = polls xs @ polls ys"
  by (simp add: polls_def)

lemma polls_single [simp]: "polls [e] = (case e of Poll d src dst len \<Rightarrow> [d] | _ \<Rightarrow> [])"
  by (simp add: polls_def)

record dma_core =
  k_descs :: "addr \<Rightarrow> dma_desc"
  k_next :: addr
  k_end :: addr
  k_head :: addr
  k_tail :: addr
  k_daif :: u64
  k_polls :: "addr list"

definition core :: "dmast \<Rightarrow> dma_core" where
  "core s = \<lparr>k_descs = descs s, k_next = g_dma_desc_next s, k_end = g_dma_buf_end s, k_head = g_pending_head s,
     k_tail = g_pending_tail s, k_daif = daif s, k_polls = polls (dlog s)\<rparr>"

lemma core_eqD:
  assumes "core s = core t"
  shows "descs s = descs t" "g_dma_desc_next s = g_dma_desc_next t" "g_dma_buf_end s = g_dma_buf_end t"
    "g_pending_head s = g_pending_head t" "g_pending_tail s = g_pending_tail t" "daif s = daif t" "polls (dlog s) = polls (dlog t)"
  using assms by (simp_all add: core_def)

lemma dma_prepare_ok:
  assumes "hw_ok H" "virt_map pol L H" "ram_range p (unat len)" "len \<noteq> 0"
  shows "\<exists>s'. dma_prepare_to_device pol L H p len s = Some s' \<and> core s' = core s \<and> keeps_cpu H (cm s) (cm s') \<and>
    (\<forall>a v. dma_cache_maint_allowed pol L p len \<longrightarrow> in_range a p (unat len) \<longrightarrow> cpu_sees H (cm s) a v \<longrightarrow>
       settled H (cm s') a v)"
proof -
  have r: "kRamBase \<le> p" "unat p + unat len \<le> 2147483648"
    using assms(3) by (simp_all add: ram_range_def kRamBase_def word_le_nat_alt)
  obtain c' where "dc_cvac_range H p len (cm s) = Some c'" "keeps_cpu H (cm s) c'"
    "\<forall>a v. unat p \<le> unat a \<longrightarrow> unat a < unat p + unat len \<longrightarrow> cpu_sees H (cm s) a v \<longrightarrow> settled H c' a v"
    using cvac.range_ok [OF assms(1,2) r assms(4), of "cm s"] unfolding dc_cvac_range_def by blast
  note c' = this
  define t where "t = (if prep_budget s \<noteq> 0 \<and> 64 \<le> len
    then s\<lparr>prep_budget := prep_budget s - 1, dlog := dlog s @ [Prepare len]\<rparr> else s)"
  have t: "cm t = cm s" "core t = core s" "core (t\<lparr>cm := c'\<rparr>) = core s" by (simp_all add: t_def core_def)
  have run: "dma_prepare_to_device pol L H p len s =
      (if dma_cache_maint_allowed pol L p len then Some (t\<lparr>cm := c'\<rparr>) else Some t)"
    using c'(1) t(1) unfolding dma_prepare_to_device_def t_def [symmetric] by (simp add: on_cm_def)
  show ?thesis
  proof (cases "dma_cache_maint_allowed pol L p len")
    case True
    show ?thesis by (rule exI [of _ "t\<lparr>cm := c'\<rparr>"]) (use True run t c' in \<open>simp add: in_range_def\<close>)
  next
    case False
    show ?thesis by (rule exI [of _ t]) (use False run t in simp)
  qed
qed

lemma dma_complete_ok:
  assumes "hw_ok H" "virt_map pol L H" "ram_range p (unat len)" "dma_cache_maint_allowed pol L p len"
  shows "\<exists>s'. dma_complete_from_device pol L H p len s = Some s' \<and> core s' = core s \<and> keeps H (cm s) (cm s') \<and>
    (\<forall>a v. in_range a p (unat len) \<longrightarrow> dev_wrote H (cm s) a v \<longrightarrow> settled H (cm s') a v)"
proof -
  have r: "kRamBase \<le> p" "unat p + unat len \<le> 2147483648"
    using assms(3) by (simp_all add: ram_range_def kRamBase_def word_le_nat_alt)
  have nz: "len \<noteq> 0" using assms(4) by (auto simp: dma_cache_maint_allowed_def)
  obtain c' where "dc_ivac_range H p len (cm s) = Some c'" "keeps H (cm s) c'"
    "\<forall>a v. unat p \<le> unat a \<longrightarrow> unat a < unat p + unat len \<longrightarrow> dev_wrote H (cm s) a v \<longrightarrow> settled H c' a v"
    using ivac.range_ok [OF assms(1,2) r nz, of "cm s"] unfolding dc_ivac_range_def keeps_off_def by blast
  note c' = this
  define t where "t = (if comp_budget s \<noteq> 0 \<and> 64 \<le> len
    then s\<lparr>comp_budget := comp_budget s - 1, dlog := dlog s @ [Complete len]\<rparr> else s)"
  have t: "cm t = cm s" "core (t\<lparr>cm := c'\<rparr>) = core s" by (simp_all add: t_def core_def)
  have run: "dma_complete_from_device pol L H p len s = Some (t\<lparr>cm := c'\<rparr>)"
    using c'(1) t(1) assms(4) unfolding dma_complete_from_device_def t_def [symmetric] by (simp add: on_cm_def)
  show ?thesis by (rule exI [of _ "t\<lparr>cm := c'\<rparr>"]) (use run t c' in \<open>simp add: in_range_def\<close>)
qed

lemma dma_device_view_ram:
  assumes "virt_map pol L H" "ram_range p (unat len)" "len \<noteq> 0"
  shows "dma_device_view H p len = p + 0x40000000"
proof -
  have p: "1073741824 \<le> unat p" "unat p + unat len \<le> 2147483648" using assms(2) by (auto simp: ram_range_def)
  have ul: "0 < unat len" using assms(3) by (simp add: unat_gt_0)
  have "unat (len - 1) = unat len - 1" using assms(3) by (rule unat_minus_one)
  then have e: "unat (p + (len - 1)) = unat p + (unat len - 1)"
    using p ul by (subst unat_add_nowrap) simp_all
  have "p \<noteq> NULL" using p by auto
  moreover have "\<not> p + (len - 1) < p" using e by (simp add: word_less_nat_alt)
  moreover have "\<not> 0x80000000 \<le> p" using p ul by (simp add: word_le_nat_alt)
  moreover have "0x40000000 \<le> p \<and> p + (len - 1) < 0x80000000"
    using p ul e by (simp add: word_le_nat_alt word_less_nat_alt)
  ultimately show ?thesis using assms(1,3) by (simp add: dma_device_view_def virt_map_def Let_def)
qed

lemma dma_transfer_ok:
  assumes hw: "hw_ok H" "virt_map pol L H"
    and r: "ram_range src (unat len)" "ram_range dst (unat len)" "apart src (unat len) dst (unat len)"
    and ok: "dma_cache_maint_allowed pol L dst len"
  shows "\<exists>s'. dma_transfer pol L H dst src len s = Some s' \<and> core s' = core s \<and>
    (\<forall>i < unat len. \<forall>v. settled H (cm s) (src + of_nat i) v \<longrightarrow> undirty H (cm s) (dst + of_nat i) \<longrightarrow>
      settled H (cm s') (dst + of_nat i) v)"
proof -
  have nz: "len \<noteq> 0" using ok by (auto simp: dma_cache_maint_allowed_def)
  obtain c1 where c1: "dma_memcpy H (dst + 0x40000000) (src + 0x40000000) (unat len) (cm s) = Some c1"
    "\<And>i v. i < unat len \<Longrightarrow> settled H (cm s) (src + of_nat i) v \<Longrightarrow> undirty H (cm s) (dst + of_nat i) \<Longrightarrow>
      dev_wrote H c1 (dst + of_nat i) v"
    using device_copy [OF hw r, of "cm s"] by blast
  define t where "t = s\<lparr>cm := c1\<rparr>"
  have t: "cm t = c1" "core t = core s" by (simp_all add: t_def core_def)
  obtain s' where s': "dma_complete_from_device pol L H dst len t = Some s'" "core s' = core t"
    "\<forall>a v. in_range a dst (unat len) \<longrightarrow> dev_wrote H (cm t) a v \<longrightarrow> settled H (cm s') a v"
    using dma_complete_ok [OF hw r(2) ok, of t] by (elim exE conjE)
  have "dma_transfer pol L H dst src len s = Some s'"
    using c1(1) s'(1) dma_device_view_ram [OF hw(2) r(1) nz] dma_device_view_ram [OF hw(2) r(2) nz]
    by (simp add: dma_transfer_def on_cm_def t_def)
  moreover have "in_range (dst + of_nat i) dst (unat len)" if "i < unat len" for i
    using unat_ram_range [OF r(2) that] that by (simp add: in_range_def)
  ultimately show ?thesis using c1(2) s'(2,3) unfolding t by blast
qed

section \<open>The queue\<close>

definition pending :: "dmast \<Rightarrow> addr list \<Rightarrow> bool" where
  "pending s ds \<longleftrightarrow> llist (\<lambda>d. d_next (descs s d)) (g_pending_head s) ds \<and>
     g_pending_tail s = (if ds = [] then NULL else last ds)"

text \<open>The descriptors in the queue were carved from the window.\<close>

definition dma_inv :: "mmu_layout \<Rightarrow> dmast \<Rightarrow> addr list \<Rightarrow> bool" where
  "dma_inv L s ds \<longleftrightarrow> win_ok L s \<and> pending s ds \<and>
     (\<forall>d \<in> set ds. unat (dma_nc_start L) \<le> unat d \<and> unat d + 56 \<le> unat (g_dma_desc_next s))"

lemma dma_inv_core: "core s = core t \<Longrightarrow> dma_inv L s ds = dma_inv L t ds"
  by (simp add: dma_inv_def pending_def win_ok_def core_eqD [of s t])

lemma dma_inv_desc: "dma_inv L s ds \<Longrightarrow> d \<in> set ds \<Longrightarrow> ram_range d 56"
  by (auto simp: dma_inv_def win_ok_def ram_range_def)

lemma pending_distinct: "pending s ds \<Longrightarrow> distinct ds \<and> NULL \<notin> set ds"
  using llist_distinct lpath_not_NULL by (auto simp: pending_def)

lemma dma_enqueue_pending:
  assumes "pending s ds" "d \<noteq> NULL" "d \<notin> set ds" "d_next (descs s d) = NULL"
  shows "pending (dma_enqueue d s) (ds @ [d])"
proof (cases "ds = []")
  case True
  then show ?thesis
    using assms by (simp add: pending_def dma_enqueue_def Let_def local_irq_save_def local_irq_restore_def)
next
  case False
  then obtain us t where ds: "ds = us @ [t]" by (cases ds rule: rev_cases) simp
  from assms(1) have t: "g_pending_tail s = t" "t \<noteq> NULL" "t \<notin> set us"
    using pending_distinct [OF assms(1)] by (auto simp: ds pending_def)
  let ?nx = "\<lambda>d. d_next (descs s d)"
  have "llist ?nx (g_pending_head s) (us @ [t])" using assms(1) by (simp add: pending_def ds)
  then have "lpath ?nx (g_pending_head s) us t" by auto
  then have "lpath (\<lambda>e. d_next (descs (dma_enqueue d s) e)) (g_pending_head s) us t"
    by (rule lpath_cong [THEN iffD1, rotated])
      (use t in \<open>auto simp: dma_enqueue_def Let_def local_irq_save_def local_irq_restore_def upd_desc_def\<close>)
  moreover have "g_pending_head (dma_enqueue d s) = g_pending_head s" "g_pending_tail (dma_enqueue d s) = d"
    "d_next (descs (dma_enqueue d s) t) = d" "d_next (descs (dma_enqueue d s) d) = NULL"
    using t assms(3,4)
    by (auto simp: ds dma_enqueue_def Let_def local_irq_save_def local_irq_restore_def upd_desc_def)
  ultimately show ?thesis using t(2) assms(2) by (auto simp: pending_def ds)
qed

lemma dma_enqueue_frame:
  "cm (dma_enqueue d s) = cm s" "g_dma_desc_next (dma_enqueue d s) = g_dma_desc_next s"
  "g_dma_buf_end (dma_enqueue d s) = g_dma_buf_end s" "daif (dma_enqueue d s) = daif s" "dlog (dma_enqueue d s) = dlog s"
  "e \<noteq> g_pending_tail s \<Longrightarrow> descs (dma_enqueue d s) e = descs s e"
  "descs (dma_enqueue d s) e = (descs s e)\<lparr>d_next := d_next (descs (dma_enqueue d s) e)\<rparr>"
  by (auto simp: dma_enqueue_def Let_def local_irq_save_def local_irq_restore_def upd_desc_def)

definition new_desc :: "addr \<Rightarrow> addr \<Rightarrow> u64 \<Rightarrow> addr \<Rightarrow> addr \<Rightarrow> dma_desc" where
  "new_desc dst src len cb user = \<lparr>d_src = src, d_dst = dst, d_len = len, d_status = 1, d_cb = cb, d_user = user, d_next = NULL\<rparr>"

lemma dma_prepare_desc:
  assumes "hw_ok H" "virt_map pol L H" "ram_range d 56"
  shows "\<exists>s'. dma_prepare_to_device pol L H d kSizeofDesc s = Some s' \<and> core s' = core s \<and> keeps_cpu H (cm s) (cm s')"
  using dma_prepare_ok [OF assms(1,2), of d kSizeofDesc s] assms(3) by (auto simp: kSizeofDesc_def)

lemma pending_core: "core s = core t \<Longrightarrow> pending s ds = pending t ds"
  by (simp add: pending_def core_eqD [of s t])

lemma dma_submit_ok:
  assumes hw: "hw_ok H" "virt_map pol L H" and inv: "dma_inv L s ds"
    and a: "dst \<noteq> NULL" "src \<noteq> NULL" "len \<noteq> 0" "ram_range src (unat len)"
    and al: "dma_alloc_desc s = (p, s0)" "p \<noteq> NULL"
  shows "\<exists>s'. dma_submit_memcpy pol L H dst src len cb user s = Some (0, s') \<and> dma_inv L s' (ds @ [p]) \<and>
    descs s' p = new_desc dst src len cb user \<and>
    (\<forall>e \<in> set ds. descs s' e = (descs s e)\<lparr>d_next := d_next (descs s' e)\<rparr>) \<and>
    keeps_cpu H (cm s) (cm s') \<and> polls (dlog s') = polls (dlog s) \<and>
    (dma_cache_maint_allowed pol L src len \<longrightarrow>
      (\<forall>a v. in_range a src (unat len) \<longrightarrow> cpu_sees H (cm s) a v \<longrightarrow> settled H (cm s') a v))"
proof -
  have w: "win_ok L s" using inv by (simp add: dma_inv_def)
  from w al have p: "carved s p 56 s0" "s0 = s\<lparr>g_dma_desc_next := p + 56\<rparr>"
    using dma_alloc_desc_cases by metis+
  have w0: "win_ok L s0" using w p(1) by (auto simp: win_ok_def carved_def)
  have rp: "ram_range p 56" using w p(1) by (auto simp: win_ok_def carved_def ram_range_def)
  have fresh: "p \<notin> set ds" using inv p(1) by (auto simp: dma_inv_def carved_def)
  define s1 where "s1 = upd_desc p (\<lambda>_. new_desc dst src len cb user) s0"
  have s1: "descs s1 = (descs s)(p := new_desc dst src len cb user)" "g_dma_desc_next s1 = g_dma_desc_next s0"
    "g_dma_buf_end s1 = g_dma_buf_end s0" "g_pending_head s1 = g_pending_head s" "g_pending_tail s1 = g_pending_tail s"
    "cm s1 = cm s" "dlog s1 = dlog s"
    by (simp_all add: s1_def upd_desc_def p(2))
  obtain s2 where s2: "dma_prepare_to_device pol L H src len s1 = Some s2" "core s2 = core s1" "keeps_cpu H (cm s1) (cm s2)"
    "\<forall>a v. dma_cache_maint_allowed pol L src len \<longrightarrow> in_range a src (unat len) \<longrightarrow> cpu_sees H (cm s1) a v \<longrightarrow>
       settled H (cm s2) a v"
    using dma_prepare_ok [OF hw a(4,3), of s1] by (elim exE conjE)
  obtain s3 where s3: "dma_prepare_to_device pol L H p kSizeofDesc s2 = Some s3" "core s3 = core s2" "keeps_cpu H (cm s2) (cm s3)"
    using dma_prepare_desc [OF hw rp, of s2] by (elim exE conjE)
  note c31 = core_eqD [OF trans [OF s3(2) s2(2)]]
  have pend1: "pending s1 ds"
  proof -
    have "llist (\<lambda>d. d_next (descs s1 d)) (g_pending_head s) ds"
      by (subst lpath_cong [of ds _ "\<lambda>d. d_next (descs s d)"]) (use inv fresh s1(1) in \<open>auto simp: dma_inv_def pending_def\<close>)
    then show ?thesis using inv s1(4,5) by (simp add: dma_inv_def pending_def)
  qed
  then have pend3: "pending s3 ds" using pending_core [OF trans [OF s3(2) s2(2)]] by simp
  have np3: "descs s3 p = new_desc dst src len cb user" using c31(1) s1(1) by simp
  define s4 where "s4 = dma_enqueue p s3"
  have pend4: "pending s4 (ds @ [p])"
    unfolding s4_def by (rule dma_enqueue_pending [OF pend3 al(2) fresh]) (simp add: np3 new_desc_def)
  note fr = dma_enqueue_frame [of p s3, folded s4_def]
  have prev: "g_pending_tail s3 \<noteq> NULL \<Longrightarrow> g_pending_tail s3 \<in> set ds"
    using pend3 by (auto simp: pending_def split: if_splits)
  have "\<exists>s5. (if g_pending_tail s3 \<noteq> NULL then dma_prepare_to_device pol L H (g_pending_tail s3) kSizeofDesc s4 else Some s4) = Some s5 \<and>
      core s5 = core s4 \<and> keeps_cpu H (cm s4) (cm s5)"
  proof (cases "g_pending_tail s3 = NULL")
    case False
    with dma_inv_desc [OF inv prev] have "ram_range (g_pending_tail s3) 56" by simp
    from dma_prepare_desc [OF hw this, of s4] False show ?thesis by simp
  qed simp
  then obtain s5 where s5: "(if g_pending_tail s3 \<noteq> NULL then dma_prepare_to_device pol L H (g_pending_tail s3) kSizeofDesc s4
      else Some s4) = Some s5" "core s5 = core s4" "keeps_cpu H (cm s4) (cm s5)"
    by (elim exE conjE)
  note c54 = core_eqD [OF s5(2)]
  define s' where "s' = s5\<lparr>dlog := dlog s5 @ [Queued p (d_next (descs s5 p)) (d_src (descs s5 p)) (d_dst (descs s5 p)) len]\<rparr>"
  have s': "core s' = core s4" "cm s' = cm s5" "descs s' = descs s4" using s5(2) c54(1) by (simp_all add: s'_def core_def)
  have run: "dma_submit_memcpy pol L H dst src len cb user s = Some (0, s')"
    using a al s2(1) s3(1) s5(1)
    unfolding dma_submit_memcpy_def s4_def s'_def s1_def new_desc_def [symmetric] by (simp add: Let_def)
  have ptail: "p \<noteq> g_pending_tail s3"
    using prev fresh al(2) by auto
  have "descs s' p = new_desc dst src len cb user" using s'(3) dma_enqueue_frame(6) [OF ptail, of p] np3 by (simp add: s4_def)
  moreover have "descs s' e = (descs s e)\<lparr>d_next := d_next (descs s' e)\<rparr>" if "e \<in> set ds" for e
  proof -
    have "e \<noteq> p" using that fresh by blast
    then show ?thesis using fr(7) [of e] unfolding s'(3) c31(1) s1(1) by (simp only: fun_upd_other not_False_eq_True)
  qed
  moreover have "dma_inv L s' (ds @ [p])"
  proof -
    have n4: "g_dma_desc_next s4 = p + 56" "g_dma_buf_end s4 = g_dma_buf_end s0"
      using fr(2,3) c31(2,3) s1(2,3) p(2) by simp_all
    have nn: "g_dma_desc_next s0 = p + 56" using p(2) by simp
    have up: "unat (p + 56) = unat p + 56" using rp by (subst unat_add_nowrap) (simp_all add: ram_range_def)
    have "win_ok L s4" using w0 n4 nn by (simp add: win_ok_def)
    moreover have "unat (dma_nc_start L) \<le> unat d \<and> unat d + 56 \<le> unat (g_dma_desc_next s4)" if "d \<in> set (ds @ [p])" for d
      using that inv p(1) w n4 up by (auto simp: dma_inv_def carved_def win_ok_def)
    ultimately have "dma_inv L s4 (ds @ [p])" using pend4 by (simp add: dma_inv_def)
    then show ?thesis using dma_inv_core [OF s'(1)] by simp
  qed
  moreover have k35: "keeps_cpu H (cm s3) (cm s')" using s5(3) fr(1) s'(2) by simp
  moreover have "keeps_cpu H (cm s) (cm s')"
    using keeps_cpu_trans [OF s2(3) keeps_cpu_trans [OF s3(3) k35]] s1(6) by simp
  moreover have "polls (dlog s') = polls (dlog s)"
    using core_eqD(7) [OF s'(1)] fr(5) c31(7) s1(7) by simp
  moreover have "settled H (cm s') a v"
    if "dma_cache_maint_allowed pol L src len" "in_range a src (unat len)" "cpu_sees H (cm s) a v" for a v
    using s2(4) that s1(6) keeps_cpu_trans [OF s3(3) k35] by (simp add: keeps_cpu_def keeps_def)
  ultimately show ?thesis using run by blast
qed

text \<open>A descriptor whose transfer stays in RAM, with a destination the engine may invalidate.\<close>

definition transfer_ok :: "dma_policy \<Rightarrow> mmu_layout \<Rightarrow> dma_desc \<Rightarrow> bool" where
  "transfer_ok pol L d \<longleftrightarrow> d_len d = 0 \<or>
     ram_range (d_src d) (unat (d_len d)) \<and> ram_range (d_dst d) (unat (d_len d)) \<and>
     apart (d_src d) (unat (d_len d)) (d_dst d) (unat (d_len d)) \<and> dma_cache_maint_allowed pol L (d_dst d) (d_len d)"

definition run_callback :: "(addr \<Rightarrow> addr \<Rightarrow> dmast \<Rightarrow> dmast option) \<Rightarrow> dma_desc \<Rightarrow> dmast \<Rightarrow> dmast option" where
  "run_callback call d s = (if d_cb d \<noteq> NULL then call (d_cb d) (d_user d) s else Some s)"

lemma dma_complete_one_ok:
  assumes hw: "hw_ok H" "virt_map pol L H" and inv: "dma_inv L s (d # ds)" and ok: "transfer_ok pol L (descs s d)"
  shows "\<exists>s'. dma_complete_one pol L H call s = run_callback call (descs s d) s' \<and> dma_inv L s' ds \<and>
    descs s' = (descs s)(d := (descs s d)\<lparr>d_next := NULL, d_status := 0\<rparr>) \<and>
    polls (dlog s') = polls (dlog s) @ [d] \<and>
    (\<forall>i < unat (d_len (descs s d)). \<forall>v. settled H (cm s) (d_src (descs s d) + of_nat i) v \<longrightarrow>
       undirty H (cm s) (d_dst (descs s d) + of_nat i) \<longrightarrow> settled H (cm s') (d_dst (descs s d) + of_nat i) v)"
proof -
  let ?d = "descs s d"
  have pend: "pending s (d # ds)" using inv by (simp add: dma_inv_def)
  then have hd: "g_pending_head s = d" "llist (\<lambda>d. d_next (descs s d)) (d_next ?d) ds" by (auto simp: pending_def)
  have dist: "d \<notin> set ds" using pending_distinct [OF pend] by simp
  have tl: "d_next ?d = NULL \<longleftrightarrow> ds = []" using hd(2) by (cases ds) auto
  define t where "t = s\<lparr>g_pending_head := d_next ?d, g_pending_tail := (if ds = [] then NULL else g_pending_tail s),
     descs := (descs s)(d := ?d\<lparr>d_next := NULL\<rparr>), dlog := dlog s @ [Poll d (d_src ?d) (d_dst ?d) (d_len ?d)]\<rparr>"
  have t: "cm t = cm s" "descs t d = ?d\<lparr>d_next := NULL\<rparr>" by (simp_all add: t_def)
  have "\<exists>t1. (if d_len ?d \<noteq> 0 then dma_transfer pol L H (d_dst ?d) (d_src ?d) (d_len ?d) t else Some t) = Some t1 \<and>
      core t1 = core t \<and>
      (\<forall>i < unat (d_len ?d). \<forall>v. settled H (cm t) (d_src ?d + of_nat i) v \<longrightarrow>
        undirty H (cm t) (d_dst ?d + of_nat i) \<longrightarrow> settled H (cm t1) (d_dst ?d + of_nat i) v)"
  proof (cases "d_len ?d = 0")
    case False
    then show ?thesis using ok dma_transfer_ok [OF hw, of "d_src ?d" "d_len ?d" "d_dst ?d" t] by (simp add: transfer_ok_def)
  qed simp
  then obtain t1 where t1: "(if d_len ?d \<noteq> 0 then dma_transfer pol L H (d_dst ?d) (d_src ?d) (d_len ?d) t else Some t) = Some t1"
    "core t1 = core t" "\<forall>i < unat (d_len ?d). \<forall>v. settled H (cm t) (d_src ?d + of_nat i) v \<longrightarrow>
        undirty H (cm t) (d_dst ?d + of_nat i) \<longrightarrow> settled H (cm t1) (d_dst ?d + of_nat i) v"
    by (elim exE conjE)
  have c1: "descs t1 = (descs s)(d := ?d\<lparr>d_next := NULL\<rparr>)" using core_eqD(1) [OF t1(2)] by (simp add: t_def)
  define t2 where "t2 = upd_desc d (d_status_update (\<lambda>_. 0)) t1"
  have t2: "cm t2 = cm t1" "descs t2 = (descs s)(d := ?d\<lparr>d_next := NULL, d_status := 0\<rparr>)"
    by (simp_all add: t2_def upd_desc_def c1)
  have t2c: "g_dma_desc_next t2 = g_dma_desc_next s" "g_dma_buf_end t2 = g_dma_buf_end s"
    "g_pending_head t2 = d_next ?d" "g_pending_tail t2 = (if ds = [] then NULL else g_pending_tail s)"
    "polls (dlog t2) = polls (dlog s) @ [d]"
    using core_eqD [OF t1(2)] by (simp_all add: t2_def upd_desc_def t_def)
  obtain t3 where t3: "dma_prepare_to_device pol L H d kSizeofDesc t2 = Some t3" "core t3 = core t2" "keeps_cpu H (cm t2) (cm t3)"
    using dma_prepare_desc [OF hw dma_inv_desc [OF inv], of d t2] by auto
  note c3 = core_eqD [OF t3(2)]
  define s' where "s' = t3\<lparr>dlog := dlog t3 @ [Done]\<rparr>"
  have s': "descs s' = descs t2" "polls (dlog s') = polls (dlog t2)" "cm s' = cm t3" "core s' = core t2"
    using c3 t3(2) by (simp_all add: s'_def core_def)
  have "dma_complete_one pol L H call s = run_callback call ?d s'"
  proof -
    have d2: "d_cb (descs t3 d) = d_cb ?d" "d_user (descs t3 d) = d_user ?d" using c3(1) t2(2) by simp_all
    show ?thesis
      using t1(1) t3(1) d2 tl
      unfolding dma_complete_one_def Let_def hd(1) run_callback_def s'_def t2_def t_def
      by (cases "ds = []"; cases "d_len ?d = 0") (simp_all add: upd_desc_def)
  qed
  moreover have "dma_inv L s' ds"
  proof -
    have "llist (\<lambda>e. d_next (descs t2 e)) (d_next ?d) ds"
      by (subst lpath_cong [of ds _ "\<lambda>e. d_next (descs s e)"]) (use hd(2) dist t2(2) in auto)
    moreover have "g_pending_tail s = last (d # ds)" using pend by (simp add: pending_def)
    ultimately have "pending t2 ds" using t2c by (simp add: pending_def)
    then have "dma_inv L t2 ds" using inv t2c by (simp add: dma_inv_def win_ok_def)
    then show ?thesis using dma_inv_core [OF s'(4)] by simp
  qed
  moreover have "settled H (cm s') (d_dst ?d + of_nat i) v"
    if "i < unat (d_len ?d)" "settled H (cm s) (d_src ?d + of_nat i) v" "undirty H (cm s) (d_dst ?d + of_nat i)" for i v
  proof -
    have "settled H (cm t1) (d_dst ?d + of_nat i) v" using t1(3) that t(1) by simp
    then show ?thesis using t3(3) t2(1) s'(3) by (simp add: keeps_cpu_def keeps_def)
  qed
  ultimately show ?thesis using s'(1,2) t2(2) t2c(5) by auto
qed

text \<open>Polling a whole queue.\<close>

lemma dma_poll_ok:
  assumes "hw_ok H" "virt_map pol L H" "dma_inv L s ds" "\<forall>d \<in> set ds. transfer_ok pol L (descs s d)"
    and "\<forall>cb user t. \<exists>t'. call cb user t = Some t' \<and> core t' = core t"
  shows "\<exists>s'. dma_poll_complete pol L H call s = Some s' \<and> g_pending_head s' = NULL \<and> g_pending_tail s' = NULL \<and>
    polls (dlog s') = polls (dlog s) @ ds \<and> (\<forall>d \<in> set ds. d_status (descs s' d) = 0) \<and>
    (\<forall>d. d \<notin> set ds \<longrightarrow> descs s' d = descs s d)"
  using assms(3,4)
proof (induction ds arbitrary: s)
  case Nil
  then have "g_pending_head s = NULL" "g_pending_tail s = NULL" by (simp_all add: dma_inv_def pending_def)
  then show ?case by (subst dma_poll_complete.simps) simp
next
  case (Cons d ds)
  have pend: "pending s (d # ds)" using Cons.prems(1) by (simp add: dma_inv_def)
  then have hd: "g_pending_head s \<noteq> NULL" by (auto simp: pending_def)
  have dist: "d \<notin> set ds" using pending_distinct [OF pend] by simp
  have "transfer_ok pol L (descs s d)" using Cons.prems(2) by simp
  from dma_complete_one_ok [OF assms(1,2) Cons.prems(1) this, of call]
  obtain t where t: "dma_complete_one pol L H call s = run_callback call (descs s d) t" "dma_inv L t ds"
    "descs t = (descs s)(d := (descs s d)\<lparr>d_next := NULL, d_status := 0\<rparr>)" "polls (dlog t) = polls (dlog s) @ [d]"
    by (elim exE conjE)
  obtain u where u: "run_callback call (descs s d) t = Some u" "core u = core t"
    using assms(5) [THEN spec, THEN spec, THEN spec, of "d_cb (descs s d)" "d_user (descs s d)" t]
    by (cases "d_cb (descs s d) = NULL") (auto simp: run_callback_def)
  note cu = core_eqD [OF u(2)]
  have inv: "dma_inv L u ds" using t(2) dma_inv_core [OF u(2)] by simp
  have ok: "\<forall>e \<in> set ds. transfer_ok pol L (descs u e)"
    using Cons.prems(2) cu(1) t(3) dist by auto
  from Cons.IH [OF inv ok] obtain s' where s': "dma_poll_complete pol L H call u = Some s'" "g_pending_head s' = NULL"
    "g_pending_tail s' = NULL" "polls (dlog s') = polls (dlog u) @ ds" "\<forall>d \<in> set ds. d_status (descs s' d) = 0"
    "\<forall>d. d \<notin> set ds \<longrightarrow> descs s' d = descs u d"
    by (elim exE conjE)
  have "dma_poll_complete pol L H call s = Some s'"
    using hd t(1) u(1) s'(1) by (subst dma_poll_complete.simps) simp
  moreover have "polls (dlog s') = polls (dlog s) @ d # ds" using s'(4) cu(7) t(4) by simp
  moreover have "d_status (descs s' d) = 0" using s'(6) dist cu(1) t(3) by simp
  ultimately show ?case using s' cu(1) t(3) by auto
qed

text \<open>
  C34: \<^verbatim>\<open>dma_poll_complete\<close> ends, and takes every pending descriptor exactly once, in the order of
  submission, leaving the queue empty and every status zero: if callbacks return and leave the engine
  alone. (A callback that submits again can keep the loop going for ever.)
\<close>
theorem dma_poll_drains:
  assumes "hw_ok H" "virt_map pol L H" "dma_inv L s ds" "\<forall>d \<in> set ds. transfer_ok pol L (descs s d)"
    and "\<forall>cb user t. \<exists>t'. call cb user t = Some t' \<and> core t' = core t"
  shows "\<exists>s'. dma_poll_complete pol L H call s = Some s' \<and> g_pending_head s' = NULL \<and> g_pending_tail s' = NULL \<and>
    polls (dlog s') = polls (dlog s) @ ds \<and> (\<forall>d \<in> set ds. d_status (descs s' d) = 0) \<and>
    (\<forall>d. d \<notin> set ds \<longrightarrow> descs s' d = descs s d)"
  by (rule dma_poll_ok [OF assms])

text \<open>
  C33: a DMA transfer delivers. When the engine is idle and a transfer between two separate RAM buffers is
  submitted and polled, the submission succeeds, and at the moment the callback runs the destination
  holds, in RAM and for the CPU, the bytes the CPU saw in the source when it submitted; this for every
  behaviour of the cache, provided no line of the destination was dirty.
\<close>
theorem dma_delivers:
  assumes hw: "hw_ok H" "virt_map pol L H" and inv: "dma_inv L s []"
    and al: "dma_alloc_desc s = (p, s0)" "p \<noteq> NULL"
    and r: "len \<noteq> 0" "ram_range src (unat len)" "ram_range dst (unat len)" "apart src (unat len) dst (unat len)"
    and ok: "dma_cache_maint_allowed pol L src len" "dma_cache_maint_allowed pol L dst len"
    and bytes: "\<forall>i < unat len. cpu_sees H (cm s) (src + of_nat i) (w i) \<and> undirty H (cm s) (dst + of_nat i)"
  shows "\<exists>s1 s2. dma_submit_memcpy pol L H dst src len cb user s = Some (0, s1) \<and>
    dma_poll_complete pol L H call s1 =
      Option.bind (run_callback call (new_desc dst src len cb user) s2) (dma_poll_complete pol L H call) \<and>
    (\<forall>i < unat len. settled H (cm s2) (dst + of_nat i) (w i)) \<and> g_pending_head s2 = NULL"
proof -
  have nn: "dst \<noteq> NULL" "src \<noteq> NULL" using r(2,3) by (auto simp: ram_range_def)
  obtain s1 where s1: "dma_submit_memcpy pol L H dst src len cb user s = Some (0, s1)" "dma_inv L s1 ([] @ [p])"
    "descs s1 p = new_desc dst src len cb user" "keeps_cpu H (cm s) (cm s1)"
    "dma_cache_maint_allowed pol L src len \<longrightarrow>
      (\<forall>a v. in_range a src (unat len) \<longrightarrow> cpu_sees H (cm s) a v \<longrightarrow> settled H (cm s1) a v)"
    using dma_submit_ok [OF hw inv nn r(1,2) al, of cb user] by (elim exE conjE)
  have d: "d_src (descs s1 p) = src" "d_dst (descs s1 p) = dst" "d_len (descs s1 p) = len"
    using s1(3) by (simp_all add: new_desc_def)
  have inv1: "dma_inv L s1 [p]" using s1(2) by simp
  have "transfer_ok pol L (descs s1 p)" using r ok d by (simp add: transfer_ok_def)
  from dma_complete_one_ok [OF hw inv1 this, of call, unfolded d]
  obtain s2 where s2: "dma_complete_one pol L H call s1 = run_callback call (descs s1 p) s2" "dma_inv L s2 []"
    "\<forall>i < unat len. \<forall>v. settled H (cm s1) (src + of_nat i) v \<longrightarrow> undirty H (cm s1) (dst + of_nat i) \<longrightarrow>
      settled H (cm s2) (dst + of_nat i) v"
    by (elim exE conjE)
  have "g_pending_head s1 = p" using inv1 by (simp add: dma_inv_def pending_def)
  then have "dma_poll_complete pol L H call s1 =
      Option.bind (run_callback call (new_desc dst src len cb user) s2) (dma_poll_complete pol L H call)"
    using al(2) s2(1) s1(3) by (subst dma_poll_complete.simps) simp
  moreover have "settled H (cm s2) (dst + of_nat i) (w i)" if i: "i < unat len" for i
  proof -
    have "in_range (src + of_nat i) src (unat len)" using unat_ram_range [OF r(2) i] i by (simp add: in_range_def)
    then have "settled H (cm s1) (src + of_nat i) (w i)" using s1(5) ok(1) bytes i by blast
    moreover have "undirty H (cm s1) (dst + of_nat i)" using s1(4) bytes i by (simp add: keeps_cpu_def keeps_def)
    ultimately show ?thesis using s2(3) i by blast
  qed
  moreover have "g_pending_head s2 = NULL" using s2(2) by (simp add: dma_inv_def pending_def)
  ultimately show ?thesis using s1(1) by blast
qed

section \<open>Concrete runs\<close>

definition desc_0 :: dma_desc where
  "desc_0 = \<lparr>d_src = 0, d_dst = 0, d_len = 0, d_status = 0, d_cb = 0, d_user = 0, d_next = 0\<rparr>"

definition dma_example :: "cmem \<Rightarrow> dmast" where
  "dma_example c = \<lparr>cm = c, descs = (\<lambda>_. desc_0), g_dma_desc_next = 0x40200000, g_dma_buf_end = 0x40201000,
     g_pending_head = NULL, g_pending_tail = NULL, prep_budget = 4, comp_budget = 4, daif = 0, dlog = []\<rparr>"

definition clean_example :: cmem where
  "clean_example = \<lparr>ram = (\<lambda>a. if a = 0x40080001 then 9 else 0), line_data = (\<lambda>_. 0), line_valid = (\<lambda>_. False),
     line_dirty = (\<lambda>_. False), hw_time = 0\<rparr>"

lemma dma_example_inv: "dma_inv layout_example (dma_example c) []"
  by (simp add: dma_inv_def pending_def win_ok_def dma_example_def layout_example_def)

theorem dma_blocks_disjoint_witness:
  "region 0x40200F80 100 \<inter> region 0x40200038 56 = {} \<and> region 0x40200F80 100 \<subseteq> {1075838976 ..< 1075843072}"
proof -
  have w: "win_ok layout_example (dma_example clean_example)" using dma_example_inv by (simp add: dma_inv_def)
  have run: "serve_all [ReqDesc, ReqBuf 100 64, ReqDesc] (dma_example clean_example) =
      ([0x40200000, 0x40200F80, 0x40200038], (dma_example clean_example)\<lparr>g_dma_buf_end := 0x40200F80, g_dma_desc_next := 0x40200070\<rparr>)"
    by (simp add: dma_alloc_desc_def dma_alloc_buffer_def kSizeofDesc_def kAlignofDesc_def dma_example_def)
  have i: "1 < length [ReqDesc, ReqBuf 100 64, ReqDesc]" "2 < length [ReqDesc, ReqBuf 100 64, ReqDesc]" by simp_all
  have nn: "[0x40200000, 0x40200F80, 0x40200038 :: addr] ! 1 \<noteq> NULL" by simp
  note d = dma_blocks_disjoint [OF w run i(1) nn]
  then have "region 0x40200F80 100 \<subseteq> {1075838976 ..< 1075843072}" by (simp add: layout_example_def)
  moreover have "region 0x40200F80 100 \<inter> region 0x40200038 56 = {}"
    using d [THEN conjunct2, THEN conjunct2, rule_format, OF i(2)] by simp
  ultimately show ?thesis by blast
qed

theorem dma_poll_drains_witness:
  "\<exists>s'. dma_poll_complete Cacheable layout_example hw_example (\<lambda>cb user t. Some t)
      ((dma_example cmem_example)\<lparr>g_pending_head := 0x40200000, g_pending_tail := 0x40200038, g_dma_desc_next := 0x40200070,
         descs := (\<lambda>_. desc_0)(0x40200000 := desc_0\<lparr>d_len := 4, d_src := 0x40080000, d_dst := 0x40081000, d_next := 0x40200038\<rparr>,
           0x40200038 := desc_0\<lparr>d_cb := 16\<rparr>)\<rparr>) = Some s' \<and>
    polls (dlog s') = [0x40200000, 0x40200038]"
proof -
  let ?s = "(dma_example cmem_example)\<lparr>g_pending_head := 0x40200000, g_pending_tail := 0x40200038, g_dma_desc_next := 0x40200070,
         descs := (\<lambda>_. desc_0)(0x40200000 := desc_0\<lparr>d_len := 4, d_src := 0x40080000, d_dst := 0x40081000, d_next := 0x40200038\<rparr>,
           0x40200038 := desc_0\<lparr>d_cb := 16\<rparr>)\<rparr>"
  have inv: "dma_inv layout_example ?s [0x40200000, 0x40200038]"
    by (simp add: dma_inv_def pending_def win_ok_def dma_example_def layout_example_def desc_0_def)
  have ok: "\<forall>d \<in> set [0x40200000, 0x40200038]. transfer_ok Cacheable layout_example (descs ?s d)"
    by (simp add: transfer_ok_def desc_0_def ram_range_def apart_def dma_cache_maint_allowed_def)
  have cb: "\<forall>cb user t. \<exists>t'. Some t = Some t' \<and> core t' = core t" by simp
  have "polls (dlog ?s) = []" by (simp add: dma_example_def polls_def)
  then show ?thesis
    using dma_poll_drains [OF hw_example_ok hw_example_map inv ok, of "\<lambda>cb user t. Some t", OF cb] by auto
qed

theorem dma_delivers_witness:
  "\<exists>s1 s2. dma_submit_memcpy Cacheable layout_example hw_example 0x40081000 0x40080000 2 0 0 (dma_example clean_example) = Some (0, s1) \<and>
    dma_poll_complete Cacheable layout_example hw_example (\<lambda>cb user t. None) s1 = Some s2 \<and> ram (cm s2) 0x40081001 = 9"
proof -
  let ?w = "\<lambda>i :: nat. if i = 1 then 9 else 0 :: u8"
  have al: "dma_alloc_desc (dma_example clean_example) = (0x40200000, (dma_example clean_example)\<lparr>g_dma_desc_next := 0x40200038\<rparr>)"
    by (simp add: dma_alloc_desc_def kSizeofDesc_def kAlignofDesc_def dma_example_def)
  have b: "\<forall>i < unat (2 :: u64). cpu_sees hw_example (cm (dma_example clean_example)) (0x40080000 + of_nat i) (?w i) \<and>
      undirty hw_example (cm (dma_example clean_example)) (0x40081000 + of_nat i)"
  proof (intro allI impI)
    fix i :: nat
    assume "i < unat (2 :: u64)"
    then have "i = 0 \<or> i = 1" by (simp add: less_2_cases_iff)
    then show "cpu_sees hw_example (cm (dma_example clean_example)) (0x40080000 + of_nat i) (?w i) \<and>
        undirty hw_example (cm (dma_example clean_example)) (0x40081000 + of_nat i)"
      by (elim disjE) (simp_all add: cpu_sees_def undirty_def dma_example_def clean_example_def)
  qed
  obtain s1 s2 where s: "dma_submit_memcpy Cacheable layout_example hw_example 0x40081000 0x40080000 2 0 0 (dma_example clean_example) = Some (0, s1)"
    "dma_poll_complete Cacheable layout_example hw_example (\<lambda>cb user t. None) s1 =
      Option.bind (run_callback (\<lambda>cb user t. None) (new_desc 0x40081000 0x40080000 2 0 0) s2)
        (dma_poll_complete Cacheable layout_example hw_example (\<lambda>cb user t. None))"
    "\<forall>i < unat (2 :: u64). settled hw_example (cm s2) (0x40081000 + of_nat i) (?w i)" "g_pending_head s2 = NULL"
    using dma_delivers [OF hw_example_ok hw_example_map dma_example_inv al, where w = ?w and len = 2 and src = "0x40080000" and
        dst = "0x40081000" and call = "\<lambda>cb user t. None" and cb = 0 and user = 0] b
    by (auto simp: ram_range_def apart_def dma_cache_maint_allowed_def)
  have "dma_poll_complete Cacheable layout_example hw_example (\<lambda>cb user t. None) s2 = Some s2"
    using s(4) by (subst dma_poll_complete.simps) simp
  then have "dma_poll_complete Cacheable layout_example hw_example (\<lambda>cb user t. None) s1 = Some s2"
    using s(2) by (simp add: run_callback_def new_desc_def)
  moreover have "ram (cm s2) 0x40081001 = 9" using s(3) [rule_format, of 1] by (simp add: settled_def)
  ultimately show ?thesis using s(1) by blast
qed

text \<open>A maintenance range inside one line of the example machine is one operation.\<close>

lemma hw_example_line: "dcache_line_size hw_example = 64"
  by (simp add: dcache_line_size_def hw_example_def)

lemma dc_range_one_line:
  assumes "len \<noteq> 0" "align_up (p + len) 64 = align_down p 64 + 64" "align_down p 64 < align_down p 64 + 64"
  shows "dc_range_common hw_example p len f c = f (align_down p 64) c"
proof -
  have e: "dcache_enabled hw_example" by (simp add: dcache_enabled_def hw_example_def)
  have "dc_loop f 64 b b = Some" for b by (rule ext, subst dc_loop.simps) simp
  then have "dc_loop f 64 (align_down p 64 + 64) (align_down p 64) c = f (align_down p 64) c"
    using assms(3) by (subst dc_loop.simps) simp
  then show ?thesis using assms e by (simp add: dc_range_common_def hw_example_line Let_def)
qed

lemma hw_example_phys:
  "in_ram a \<Longrightarrow> phys hw_example a = Some (a, True)" "in_ram a \<Longrightarrow> phys hw_example (a + 0x40000000) = Some (a, False)"
proof -
  show "phys hw_example a = Some (a, True)" if "in_ram a"
    using phys_ram [OF hw_example_map, of a] that unfolding in_ram_iff by simp
  show "in_ram a \<Longrightarrow> phys hw_example (a + 0x40000000) = Some (a, False)" by (rule phys_dev [OF hw_example_map])
qed

lemma hw_example_advance: "advance hw_example c = c\<lparr>hw_time := Suc (hw_time c)\<rparr>"
  by (simp add: advance_def hw_example_def)

lemmas one_line_ops = dc_cvac_range_def dc_ivac_range_def dc_cvac_line_def dc_ivac_line_def hw_example_advance

lemma hw_example_cvac:
  assumes "in_ram (align_down p 64)" "len \<noteq> 0" "align_up (p + len) 64 = align_down p 64 + 64" "align_down p 64 < align_down p 64 + 64"
  shows "dc_cvac_range hw_example p len c =
    Some (clean_line hw_example (line_of hw_example (align_down p 64)) (c\<lparr>hw_time := Suc (hw_time c)\<rparr>))"
  using hw_example_phys(1) [OF assms(1)] dc_range_one_line [OF assms(2-)] by (simp add: one_line_ops)

lemma hw_example_ivac:
  assumes "in_ram (align_down p 64)" "len \<noteq> 0" "align_up (p + len) 64 = align_down p 64 + 64" "align_down p 64 < align_down p 64 + 64"
  shows "dc_ivac_range hw_example p len c =
    Some (drop_line (line_of hw_example (align_down p 64)) (c\<lparr>hw_time := Suc (hw_time c)\<rparr>))"
  using hw_example_phys(1) [OF assms(1)] dc_range_one_line [OF assms(2-)] by (simp add: one_line_ops)

lemma clean_line_sel:
  "line_valid (clean_line H l c) = line_valid c"
  "ram (clean_line H l c) a = (if line_valid c l \<and> line_dirty c l \<and> line_of H a = l then line_data c a else ram c a)"
  by (simp_all add: clean_line_def)

text \<open>What any successful run of the engine's parts does to the memory and leaves alone.\<close>

lemma on_cm_core: "on_cm f s = Some s' \<Longrightarrow> core s' = core s"
  by (auto simp: on_cm_def core_def)

lemma dma_prepare_run:
  assumes "dma_prepare_to_device pol L H q n s = Some s'"
  shows "core s' = core s \<and> (cm s' = cm s \<or> dc_cvac_range H q n (cm s) = Some (cm s'))"
  using assms by (auto simp: dma_prepare_to_device_def on_cm_def core_def Let_def split: if_splits)

lemma dma_complete_run:
  assumes "dma_complete_from_device pol L H q n s = Some s'"
  shows "core s' = core s \<and>
    (if dma_cache_maint_allowed pol L q n then dc_ivac_range H q n (cm s) = Some (cm s') else cm s' = cm s)"
  using assms by (auto simp: dma_complete_from_device_def on_cm_def core_def Let_def split: if_splits)

lemma dma_transfer_run:
  assumes "dma_transfer pol L H dst src len s = Some s'" "dma_device_view H dst len \<noteq> dst"
  shows "core s' = core s \<and> (\<exists>c. dma_memcpy H (dma_device_view H dst len) (dma_device_view H src len) (unat len) (cm s) = Some c \<and>
    (if dma_cache_maint_allowed pol L dst len then dc_ivac_range H dst len c = Some (cm s') else cm s' = c))"
proof -
  obtain t where t: "on_cm (dma_memcpy H (dma_device_view H dst len) (dma_device_view H src len) (unat len)) s = Some t"
    "dma_complete_from_device pol L H dst len t = Some s'"
    using assms by (auto simp: dma_transfer_def bind_eq_Some_conv)
  show ?thesis using dma_complete_run [OF t(2)] on_cm_core [OF t(1)] t(1) by (auto simp: on_cm_def)
qed

lemma dma_submit_run:
  assumes "dma_submit_memcpy pol L H dst src len cb user s = Some (0, s')" "dma_alloc_desc s = (p, s0)" "g_pending_tail s = NULL"
    and "P (cm s)" "\<And>q n c c'. (q, n) \<in> {(src, len), (p, 56)} \<Longrightarrow> P c \<Longrightarrow> dc_cvac_range H q n c = Some c' \<Longrightarrow> P c'"
  shows "P (cm s')"
proof -
  have s0: "cm s0 = cm s" "g_pending_tail s0 = NULL"
    using assms(2,3) by (auto simp: dma_alloc_desc_def Let_def split: if_splits)
  define f where "f = (\<lambda>_ :: dma_desc. \<lparr>d_src = src, d_dst = dst, d_len = len, d_status = 1, d_cb = cb, d_user = user, d_next = NULL\<rparr>)"
  have nn: "\<not> (dst = NULL \<or> src = NULL \<or> len = 0)"
    by (rule notI) (use assms(1) in \<open>simp add: dma_submit_memcpy_def\<close>)
  have np: "p \<noteq> NULL"
  proof
    assume "p = NULL"
    then have "dma_submit_memcpy pol L H dst src len cb user s = Some (-2, s0)"
      unfolding dma_submit_memcpy_def if_not_P [OF nn] assms(2) Let_def prod.case by simp
    then show False using assms(1) by simp
  qed
  note body = assms(1) [unfolded dma_submit_memcpy_def if_not_P [OF nn] assms(2) Let_def prod.case if_not_P [OF np], folded f_def]
  from body obtain t where t: "dma_prepare_to_device pol L H src len (upd_desc p f s0) = Some t"
    by (auto simp: bind_eq_Some_conv)
  from body t obtain u where u: "dma_prepare_to_device pol L H p kSizeofDesc t = Some u" by (auto simp: bind_eq_Some_conv)
  have "g_pending_tail u = NULL"
    using s0(2) core_eqD(5) [OF conjunct1 [OF dma_prepare_run [OF t]]]
      core_eqD(5) [OF conjunct1 [OF dma_prepare_run [OF u]]] by (simp add: upd_desc_def)
  then have "cm s' = cm u" using body t u by (auto simp: dma_enqueue_frame(1))
  moreover have "P (cm t)" using dma_prepare_run [OF t] assms(4,5) s0(1) by (auto simp: upd_desc_def)
  then have "P (cm u)" using dma_prepare_run [OF u] assms(5) by (auto simp: kSizeofDesc_def)
  ultimately show ?thesis by simp
qed

lemma dma_complete_one_run:
  assumes "dma_complete_one pol L H call s = Some s'" "descs s (g_pending_head s) = d" "d_cb d = NULL" "d_len d \<noteq> 0"
    and "dma_device_view H (d_dst d) (d_len d) \<noteq> d_dst d"
    and "\<And>t t'. cm t = cm s \<Longrightarrow> dma_transfer pol L H (d_dst d) (d_src d) (d_len d) t = Some t' \<Longrightarrow> Q (cm t')"
    and "\<And>c c'. Q c \<Longrightarrow> dc_cvac_range H (g_pending_head s) 56 c = Some c' \<Longrightarrow> Q c'"
  shows "Q (cm s')"
proof -
  let ?p = "g_pending_head s"
  obtain t u v where t: "cm t = cm s" "d_cb (descs t ?p) = NULL"
    "dma_transfer pol L H (d_dst d) (d_src d) (d_len d) t = Some u"
    "dma_prepare_to_device pol L H ?p kSizeofDesc (upd_desc ?p (d_status_update (\<lambda>_. 0)) u) = Some v"
    "(if d_cb (descs v ?p) \<noteq> NULL then call (d_cb (descs v ?p)) (d_user (descs v ?p)) (v\<lparr>dlog := dlog v @ [Done]\<rparr>)
      else Some (v\<lparr>dlog := dlog v @ [Done]\<rparr>)) = Some s'"
  proof -
    let ?t = "\<lambda>s. let s = upd_desc ?p (d_next_update (\<lambda>_. NULL)) s in
      s\<lparr>dlog := dlog s @ [Poll ?p (d_src (descs s ?p)) (d_dst (descs s ?p)) (d_len (descs s ?p))]\<rparr>"
    define t where "t = ?t (let s = s\<lparr>g_pending_head := d_next (descs s ?p)\<rparr> in
      if g_pending_head s = NULL then s\<lparr>g_pending_tail := NULL\<rparr> else s)"
    have "cm t = cm s" "descs t ?p = d\<lparr>d_next := NULL\<rparr>"
      using assms(2) by (simp_all add: t_def Let_def upd_desc_def)
    moreover have body: "Option.bind (dma_transfer pol L H (d_dst d) (d_src d) (d_len d) t) (\<lambda>u.
        Option.bind (dma_prepare_to_device pol L H ?p kSizeofDesc (upd_desc ?p (d_status_update (\<lambda>_. 0)) u)) (\<lambda>v.
          if d_cb (descs v ?p) \<noteq> NULL then call (d_cb (descs v ?p)) (d_user (descs v ?p)) (v\<lparr>dlog := dlog v @ [Done]\<rparr>)
          else Some (v\<lparr>dlog := dlog v @ [Done]\<rparr>))) = Some s'"
      using assms(1,2,4) unfolding dma_complete_one_def t_def Let_def
      by (cases "d_next (descs s ?p) = NULL") (simp_all add: upd_desc_def cong: if_cong)
    from body obtain u where u: "dma_transfer pol L H (d_dst d) (d_src d) (d_len d) t = Some u" by (auto simp: bind_eq_Some_conv)
    from body u obtain v where v: "dma_prepare_to_device pol L H ?p kSizeofDesc (upd_desc ?p (d_status_update (\<lambda>_. 0)) u) = Some v"
      by (auto simp: bind_eq_Some_conv)
    moreover from body u v have "(if d_cb (descs v ?p) \<noteq> NULL then call (d_cb (descs v ?p)) (d_user (descs v ?p)) (v\<lparr>dlog := dlog v @ [Done]\<rparr>)
        else Some (v\<lparr>dlog := dlog v @ [Done]\<rparr>)) = Some s'" by simp
    moreover note u
    ultimately show thesis using that assms(3) by simp
  qed
  have "core u = core t" using dma_transfer_run [OF t(3) assms(5)] by simp
  then have "d_cb (descs v ?p) = NULL"
    using t(2) core_eqD(1) [OF conjunct1 [OF dma_prepare_run [OF t(4)]]] core_eqD(1) [of u t] by (simp add: upd_desc_def)
  then have "cm s' = cm v" using t(5) by auto
  moreover have "Q (cm u)" using assms(6) [OF t(1,3)] .
  then have "Q (cm v)" using dma_prepare_run [OF t(4)] assms(7) by (auto simp: upd_desc_def kSizeofDesc_def)
  ultimately show ?thesis by simp
qed


end
