(* ===== verification/Irq.thy ===== *)
theory Irq
  imports Sched Dma
begin

text \<open>
  The interrupt path: the vector's assembly (\<^verbatim>\<open>irq_el1\<close> in \<^verbatim>\<open>boot/vectors.S\<close>), the dispatcher
  \<^verbatim>\<open>irq_handler_el1\<close> (\<^verbatim>\<open>src/irq.cc\<close>), the timer (\<^verbatim>\<open>src/arch/aarch64/timer.cc\<close>) and the interrupt
  controller driver (\<^verbatim>\<open>src/arch/aarch64/gicv3.cc\<close>). The handler composes the scheduler's tick with the
  DMA engine's completion poll.

  Hardware is a parameter (\<open>irqenv\<close>): the value of the \<open>n\<close>-th read of the acknowledge register, whether
  the redistributor still sleeps at the \<open>n\<close>-th poll, what a controller register reads as after a value was
  written to it, and the counter's frequency. Console text goes to
  \<open>klog\<close>. The build is the default one (\<^verbatim>\<open>ARM_TIMER_DIAG\<close> on, \<^verbatim>\<open>LOCK_LAB_MODE\<close> off); \<open>use_cntp\<close> is \<^verbatim>\<open>USE_CNTP\<close>.
\<close>

section \<open>State\<close>

record irqenv =
  e_cfg :: kconfig
  e_pol :: dma_policy
  e_lay :: mmu_layout
  e_hw :: hw
  e_call :: "addr \<Rightarrow> addr \<Rightarrow> dmast \<Rightarrow> dmast option"
  e_iar :: "nat \<Rightarrow> u64"
  e_sleeps :: "nat \<Rightarrow> bool"
  e_reg :: "u64 \<Rightarrow> u32 \<Rightarrow> u32"
  e_cntfrq :: u64
  e_preempt_return :: addr
  e_use_cntp :: bool

record irqst =
  ks :: kstate
  dm :: dmast
  mmio :: "u64 \<Rightarrow> u32"
  gicr_prio :: "nat \<Rightarrow> u8"
  waker_polls :: nat
  icc_sre :: u64
  icc_pmr :: u64
  icc_bpr1 :: u64
  icc_igrpen1 :: u64
  acks :: nat
  eoir :: "u64 list"
  dirs :: "u64 list"
  cntp_tval :: u64
  cntp_ctl :: u64
  cntv_tval :: u64
  cntv_ctl :: u64
  g_timer_diag_once :: bool
  heartbeat :: u32
  g_irq_diag_count :: u32
  g_irq_entry_budget :: u32
  g_irq_timer_budget :: u32

record irq_frame =
  f_regs :: "nat \<Rightarrow> u64"
  f_lr :: u64
  f_sp :: u64
  f_spsr :: u64
  f_elr :: u64

definition on_ks :: "(kstate \<Rightarrow> kstate) \<Rightarrow> irqst \<Rightarrow> irqst" where
  "on_ks f s = s\<lparr>ks := f (ks s)\<rparr>"

definition print :: "string \<Rightarrow> irqst \<Rightarrow> irqst" where
  "print t = on_ks (kputs t)"

section \<open>Timer\<close>

text \<open>The system registers of the physical (\<^verbatim>\<open>cntp\<close>) and the virtual (\<^verbatim>\<open>cntv\<close>) timer.\<close>

definition read_cntfrq :: "irqenv \<Rightarrow> u64" where "read_cntfrq E = e_cntfrq E"
definition read_daif :: "irqst \<Rightarrow> u64" where "read_daif s = r_daif (regs (ks s))"
definition write_cntp_tval :: "u64 \<Rightarrow> irqst \<Rightarrow> irqst" where "write_cntp_tval v s = s\<lparr>cntp_tval := v\<rparr>"
definition write_cntp_ctl :: "u64 \<Rightarrow> irqst \<Rightarrow> irqst" where "write_cntp_ctl v s = s\<lparr>cntp_ctl := v\<rparr>"
definition read_cntp_ctl :: "irqst \<Rightarrow> u64" where "read_cntp_ctl s = cntp_ctl s"
definition write_cntv_tval :: "u64 \<Rightarrow> irqst \<Rightarrow> irqst" where "write_cntv_tval v s = s\<lparr>cntv_tval := v\<rparr>"
definition write_cntv_ctl :: "u64 \<Rightarrow> irqst \<Rightarrow> irqst" where "write_cntv_ctl v s = s\<lparr>cntv_ctl := v\<rparr>"
definition read_cntv_ctl :: "irqst \<Rightarrow> u64" where "read_cntv_ctl s = cntv_ctl s"

definition write_timer_tval :: "irqenv \<Rightarrow> u64 \<Rightarrow> irqst \<Rightarrow> irqst" where
  "write_timer_tval E v s = (if e_use_cntp E then write_cntp_tval v s else write_cntv_tval v s)"

definition write_timer_ctl :: "irqenv \<Rightarrow> u64 \<Rightarrow> irqst \<Rightarrow> irqst" where
  "write_timer_ctl E v s = (if e_use_cntp E then write_cntp_ctl v s else write_cntv_ctl v s)"

definition read_timer_ctl :: "irqenv \<Rightarrow> irqst \<Rightarrow> u64" where
  "read_timer_ctl E s = (if e_use_cntp E then read_cntp_ctl s else read_cntv_ctl s)"

text \<open>The period of the timer in use.\<close>

definition timer_tval :: "irqenv \<Rightarrow> irqst \<Rightarrow> u64" where
  "timer_tval E s = (if e_use_cntp E then cntp_tval s else cntv_tval s)"

lemma timer_tval_upd [simp]:
  "timer_tval E (s\<lparr>ks := k\<rparr>) = timer_tval E s" "timer_tval E (s\<lparr>dm := d\<rparr>) = timer_tval E s"
  by (simp_all add: timer_tval_def)

lemmas timer_reg_defs = write_timer_tval_def write_timer_ctl_def read_timer_ctl_def write_cntp_tval_def write_cntp_ctl_def
  read_cntp_ctl_def write_cntv_tval_def write_cntv_ctl_def read_cntv_ctl_def

definition compute_ticks :: "irqenv \<Rightarrow> u32 \<Rightarrow> u64" where
  "compute_ticks E hz =
     (let freq = read_cntfrq E;
          ticks = (if hz = 0 then 0 else freq div ucast hz)
      in if ticks = 0 then 1 else ticks)"

definition timer_init_hz :: "irqenv \<Rightarrow> u32 \<Rightarrow> irqst \<Rightarrow> irqst" where
  "timer_init_hz E hz s =
     (if hz = 0 then s
      else let ticks = compute_ticks E hz;
               s = write_timer_ctl E 0 s;
               s = write_timer_tval E ticks s;
               s = write_timer_ctl E 1 s;
               s = (if \<not> g_timer_diag_once s
                    then let s = s\<lparr>g_timer_diag_once := True\<rparr>;
                             ctl = read_timer_ctl E s;
                             daif = read_daif s;
                             s = print (''[timer] ctl=0x'' @ puthex64 ctl @ '' daif=0x'' @ puthex64 daif @
                                   '' use='' @ (if e_use_cntp E then ''CNTP'' else ''CNTV'') @ [newline]) s
                         in if ctl AND 1 = 0 then print (''[timer] enable bit appears 0'' @ [newline]) s else s
                    else s)
           in if hz = 1000 then print (''Timer IRQ armed @1kHz'' @ [newline]) s else s)"

definition timer_irq :: "irqenv \<Rightarrow> irqst \<Rightarrow> irqst" where
  "timer_irq E s =
     (let ticks = compute_ticks E 1000;
          s = write_timer_tval E ticks s;
          s = print ''.'' s;
          s = s\<lparr>heartbeat := heartbeat s + 1\<rparr>
      in if heartbeat s AND 63 = 0 then print [newline] s else s)"

section \<open>Interrupt controller\<close>

definition GICD_BASE :: u64 where "GICD_BASE = 0x08000000"
definition GICR_BASE :: u64 where "GICR_BASE = 0x080A0000"
definition GICR_SGI_BASE :: u64 where "GICR_SGI_BASE = GICR_BASE + 0x10000"

definition mmio_r32 :: "irqenv \<Rightarrow> u64 \<Rightarrow> irqst \<Rightarrow> u32" where
  "mmio_r32 E a s = e_reg E a (mmio s a)"

definition mmio_w32 :: "u64 \<Rightarrow> u32 \<Rightarrow> irqst \<Rightarrow> irqst" where
  "mmio_w32 a v s = s\<lparr>mmio := (mmio s)(a := v)\<rparr>"

definition enable_sre_el1 :: "irqst \<Rightarrow> irqst" where
  "enable_sre_el1 s = (let v = icc_sre s; v = v OR 1 in s\<lparr>icc_sre := v\<rparr>)"

definition read_icc_pmr :: "irqst \<Rightarrow> u64" where "read_icc_pmr s = icc_pmr s"
definition read_icc_igrpen1 :: "irqst \<Rightarrow> u64" where "read_icc_igrpen1 s = icc_igrpen1 s"

text \<open>Polling \<^verbatim>\<open>ChildrenAsleep\<close>; the result is the number of polls done.\<close>

partial_function (option) waker_wait :: "irqenv \<Rightarrow> nat \<Rightarrow> nat option" where
  "waker_wait E n = (if e_sleeps E n then waker_wait E (Suc n) else Some (Suc n))"

definition gicr_wake :: "irqenv \<Rightarrow> irqst \<Rightarrow> irqst option" where
  "gicr_wake E s =
     (let w = mmio_r32 E (GICR_BASE + 0x14) s;
          w = w AND NOT (push_bit 1 1);
          s = mmio_w32 (GICR_BASE + 0x14) w s
      in map_option (\<lambda>n. s\<lparr>waker_polls := n\<rparr>) (waker_wait E (waker_polls s)))"

definition gic_init :: "irqenv \<Rightarrow> irqst \<Rightarrow> irqst option" where
  "gic_init E s = do {
     s \<leftarrow> gicr_wake E s;
     let s = mmio_w32 (GICR_SGI_BASE + 0x80) 0xFFFFFFFF s;
     let s = mmio_w32 (GICR_SGI_BASE + 0xD00) 0 s;
     let s = mmio_w32 (GICR_SGI_BASE + 0xC04) 0 s;
     let s = mmio_w32 (GICR_SGI_BASE + 0x100) (push_bit 1 1 OR push_bit (if e_use_cntp E then 30 else 27) 1) s;
     let s = s\<lparr>gicr_prio := (gicr_prio s)(1 := 0x80, 27 := 0x80, 30 := 0x80)\<rparr>;
     let s = mmio_w32 GICD_BASE (push_bit 1 1) s;
     let s = enable_sre_el1 s;
     let s = s\<lparr>icc_pmr := 0xFF\<rparr>;
     let s = s\<lparr>icc_bpr1 := 0\<rparr>;
     let s = s\<lparr>icc_igrpen1 := 1\<rparr>;
     let s = print (''[gicr] group=0x'' @ puthex32 (mmio_r32 E (GICR_SGI_BASE + 0x80) s) @
                    '' modr=0x'' @ puthex32 (mmio_r32 E (GICR_SGI_BASE + 0xD00) s) @
                    '' isen=0x'' @ puthex32 (mmio_r32 E (GICR_SGI_BASE + 0x100) s) @ [newline]) s;
     let s = print (''[gicd] ctlr=0x'' @ puthex32 (mmio_r32 E GICD_BASE s) @ [newline]) s;
     let s = print (''[icc] pmr=0x'' @ puthex64 (read_icc_pmr s) @ '' grp1=0x'' @ puthex64 (read_icc_igrpen1 s) @ [newline]) s;
     Some (print (''[gic] init done'' @ [newline]) s)
   }"

definition gic_ack :: "irqenv \<Rightarrow> irqst \<Rightarrow> u32 \<times> irqst" where
  "gic_ack E s = (ucast (e_iar E (acks s)), s\<lparr>acks := Suc (acks s)\<rparr>)"

definition gic_eoi :: "u32 \<Rightarrow> irqst \<Rightarrow> irqst" where
  "gic_eoi iar s = s\<lparr>eoir := eoir s @ [ucast iar], dirs := dirs s @ [ucast iar]\<rparr>"

section \<open>The handler\<close>

definition irq_depth_add :: "u32 \<Rightarrow> irqst \<Rightarrow> irqst" where
  "irq_depth_add k = on_ks (upd_cpu (irq_depth_update (\<lambda>d. d + k)))"

text \<open>The body of the two timer cases; \<open>c\<close> is the character printed while the budget lasts.\<close>

definition timer_case :: "irqenv \<Rightarrow> string \<Rightarrow> irq_frame \<Rightarrow> irqst \<Rightarrow> (irq_frame \<times> irqst) option" where
  "timer_case E c frame s =
     (let s = (if g_irq_timer_budget s \<noteq> 0
               then let s = print c s in s\<lparr>g_irq_timer_budget := g_irq_timer_budget s - 1\<rparr> else s);
          s = timer_irq E s;
          s = on_ks (upd_cpu (ticks_update (\<lambda>n. n + 1))) s
      in do {
        k \<leftarrow> sched_on_tick (e_cfg E) (ks s);
        let s = s\<lparr>ks := k\<rparr>;
        d \<leftarrow> dma_poll_complete (e_pol E) (e_lay E) (e_hw E) (e_call E) (dm s);
        let s = s\<lparr>dm := d\<rparr>;
        let cpu = cpu (ks s);
        Some (if current_thread cpu \<noteq> NULL \<and> preempt_cnt cpu = 0 \<and> need_resched cpu \<noteq> 0
              then frame\<lparr>f_elr := e_preempt_return E\<rparr> else frame, s)
      })"

definition irq_handler_el1 :: "irqenv \<Rightarrow> irq_frame \<Rightarrow> irqst \<Rightarrow> (irq_frame \<times> irqst) option" where
  "irq_handler_el1 E frame s =
     (let s = (if g_irq_entry_budget s \<noteq> 0
               then let s = print ''!'' s in s\<lparr>g_irq_entry_budget := g_irq_entry_budget s - 1\<rparr> else s);
          s = irq_depth_add 1 s;
          (iar, s) = gic_ack E s;
          intid = iar AND 0x3FF;
          s = (if g_irq_diag_count s < 8
               then let s = print (''[irq] intid='' @ uart_print_u64 (ucast intid) @ [newline]) s
                    in s\<lparr>g_irq_diag_count := g_irq_diag_count s + 1\<rparr> else s)
      in if intid = 1023 then Some (frame, irq_depth_add (- 1) s)
         else do {
           (frame, s) \<leftarrow>
             (if intid = 27 then timer_case E '':'' frame s
              else if intid = 30 then timer_case E ''P'' frame s
              else Some (frame, if intid < 16 then print ''^'' s else print (''[irq] unexpected intid'' @ [newline]) s));
           let s = (if intid \<noteq> 1023 then gic_eoi iar s else s);
           Some (frame, irq_depth_add (- 1) s)
         })"

section \<open>The vector\<close>

text \<open>
  The interrupted context: x0 to x30, the stack pointer, and the program status and return address that
  the exception saved. \<open>clob\<close> is what the compiled handler leaves in the registers it may change; by the
  procedure call standard it keeps x19 to x29 and the stack pointer.
\<close>

record icontext =
  i_x :: "nat \<Rightarrow> u64"
  i_sp :: u64
  i_spsr :: u64
  i_pc :: u64

definition irq_el1 :: "irqenv \<Rightarrow> u64 \<Rightarrow> (nat \<Rightarrow> u64) \<Rightarrow> icontext \<Rightarrow> irqst \<Rightarrow> (icontext \<times> irqst) option" where
  "irq_el1 E tpidr clob ctx s =
     (let x = (i_x ctx)(19 := tpidr);
          x = (if x 19 \<noteq> 0 then x(20 := irq_stack_top (cpu (ks s)), 21 := i_sp ctx) else x(21 := i_sp ctx));
          frame = \<lparr>f_regs = (\<lambda>i. x i), f_lr = x 30, f_sp = x 21, f_spsr = i_spsr ctx, f_elr = i_pc ctx\<rparr>
      in do {
        (frame, s) \<leftarrow> irq_handler_el1 E frame s;
        let x = (\<lambda>i. if 19 \<le> i \<and> i \<le> 29 then x i else clob i);
        Some (\<lparr>i_x = (\<lambda>i. if i \<le> 18 then f_regs frame i else if i = 30 then f_lr frame else x i),
               i_sp = f_sp frame, i_spsr = f_spsr frame, i_pc = f_elr frame\<rparr>, s)
      })"

section \<open>What the handler does\<close>

definition depth :: "irqst \<Rightarrow> u32" where
  "depth s = irq_depth (cpu (ks s))"

text \<open>Steps that only print, count or touch the interrupt bookkeeping of the processor record.\<close>

definition same_sched :: "kstate \<Rightarrow> kstate \<Rightarrow> bool" where
  "same_sched k k' \<longleftrightarrow> threads k' = threads k \<and> bytes k' = bytes k \<and> rq_head k' = rq_head k \<and> rq_tail k' = rq_tail k \<and>
     current_thread (cpu k') = current_thread (cpu k) \<and> preempt_cnt (cpu k') = preempt_cnt (cpu k) \<and>
     need_resched (cpu k') = need_resched (cpu k)"

lemma same_sched_inv:
  assumes "same_sched k k'" "sched_inv k xs"
  shows "sched_inv k' xs"
  by (rule sched_inv_cong [OF assms(2)])
    (use assms(1) sched_invD(2) [OF assms(2)] in \<open>simp_all add: same_sched_def prio_ok_def\<close>)

lemma same_sched_guard: "same_sched k k' \<Longrightarrow> stack_guard_ok k' t = stack_guard_ok k t"
  by (simp add: same_sched_def stack_guard_ok_def)

lemma same_sched_trans: "same_sched a b \<Longrightarrow> same_sched b c \<Longrightarrow> same_sched a c"
  by (simp add: same_sched_def)

lemma same_sched_on [simp]:
  "same_sched k k" "same_sched k (kputs t k)" "same_sched k (upd_cpu (irq_depth_update f) k)" "same_sched k (upd_cpu (ticks_update g) k)"
  by (simp_all add: same_sched_def kputs_def upd_cpu_def)

lemma kputs_cpu [simp]: "cpu (kputs t k) = cpu k"
  by (simp add: kputs_def)

lemma sched_on_tick_cpu:
  assumes "sched_on_tick cfg k = Some k'"
  shows "irq_depth (cpu k') = irq_depth (cpu k) \<and> ticks (cpu k') = ticks (cpu k) \<and>
    current_thread (cpu k') = current_thread (cpu k) \<and> preempt_cnt (cpu k') = preempt_cnt (cpu k)"
  using assms unfolding sched_on_tick_def Let_def
  by (auto simp: bind_eq_Some_conv split: if_splits)

text \<open>The rest of the state, which the timer case leaves alone.\<close>

definition gic_side :: "irqst \<Rightarrow> nat \<times> u64 list \<times> u64 list" where
  "gic_side s = (acks s, eoir s, dirs s)"

definition wants_resched :: "irqst \<Rightarrow> bool" where
  "wants_resched s \<longleftrightarrow> current_thread (cpu (ks s)) \<noteq> NULL \<and> preempt_cnt (cpu (ks s)) = 0 \<and> need_resched (cpu (ks s)) \<noteq> 0"

text \<open>When the engine and the scheduler are in order, as their invariants say.\<close>

definition kernel_ok :: "irqenv \<Rightarrow> irqst \<Rightarrow> addr list \<Rightarrow> addr list \<Rightarrow> bool" where
  "kernel_ok E s xs ds \<longleftrightarrow> sched_inv (ks s) xs \<and> stack_guard_ok (ks s) (cur_thread (ks s)) \<and>
     hw_ok (e_hw E) \<and> virt_map (e_pol E) (e_lay E) (e_hw E) \<and> dma_inv (e_lay E) (dm s) ds \<and>
     (\<forall>d \<in> set ds. transfer_ok (e_pol E) (e_lay E) (descs (dm s) d)) \<and>
     (\<forall>cb user t. \<exists>t'. e_call E cb user t = Some t' \<and> core t' = core t)"

lemma kernel_ok_cong:
  "kernel_ok E s xs ds \<Longrightarrow> same_sched (ks s) (ks t) \<Longrightarrow> dm t = dm s \<Longrightarrow> kernel_ok E t xs ds"
  unfolding kernel_ok_def using same_sched_inv same_sched_guard by (metis same_sched_def)

lemma timer_case_ok:
  assumes "kernel_ok E s xs ds"
  shows "\<exists>s'. timer_case E c frame s = Some (if wants_resched s' then frame\<lparr>f_elr := e_preempt_return E\<rparr> else frame, s') \<and>
    depth s' = depth s \<and> ticks (cpu (ks s')) = ticks (cpu (ks s)) + 1 \<and> gic_side s' = gic_side s \<and>
    sched_inv (ks s') xs \<and> g_pending_head (dm s') = NULL \<and> polls (dlog (dm s')) = polls (dlog (dm s)) @ ds \<and>
    timer_tval E s' = compute_ticks E 1000"
proof -
  define t where "t = on_ks (upd_cpu (ticks_update (\<lambda>n. n + 1))) (timer_irq E (if g_irq_timer_budget s \<noteq> 0
    then let s = print c s in s\<lparr>g_irq_timer_budget := g_irq_timer_budget s - 1\<rparr> else s))"
  have t: "same_sched (ks s) (ks t)" "dm t = dm s" "depth t = depth s" "ticks (cpu (ks t)) = ticks (cpu (ks s)) + 1"
    "gic_side t = gic_side s" "timer_tval E t = compute_ticks E 1000"
    by (simp_all add: t_def timer_irq_def timer_tval_def timer_reg_defs print_def on_ks_def Let_def depth_def gic_side_def same_sched_def kputs_def upd_cpu_def)
  have k: "kernel_ok E t xs ds" by (rule kernel_ok_cong [OF assms t(1,2)])
  obtain k1 where k1: "sched_on_tick (e_cfg E) (ks t) = Some k1" "sched_inv k1 xs"
    using sched_on_tick_inv [of "ks t" xs "e_cfg E"] k unfolding kernel_ok_def by blast
  obtain d where d: "dma_poll_complete (e_pol E) (e_lay E) (e_hw E) (e_call E) (dm t) = Some d"
    "g_pending_head d = NULL" "polls (dlog d) = polls (dlog (dm t)) @ ds"
    using dma_poll_ok [of "e_hw E" "e_pol E" "e_lay E" "dm t" ds "e_call E"] k unfolding kernel_ok_def by blast
  let ?s = "t\<lparr>ks := k1, dm := d\<rparr>"
  have body: "timer_case E c frame s = do {
      k \<leftarrow> sched_on_tick (e_cfg E) (ks t);
      d \<leftarrow> dma_poll_complete (e_pol E) (e_lay E) (e_hw E) (e_call E) (dm t);
      Some (if wants_resched (t\<lparr>ks := k, dm := d\<rparr>) then frame\<lparr>f_elr := e_preempt_return E\<rparr> else frame, t\<lparr>ks := k, dm := d\<rparr>) }"
    unfolding timer_case_def t_def wants_resched_def Let_def by simp
  have "timer_case E c frame s = Some (if wants_resched ?s then frame\<lparr>f_elr := e_preempt_return E\<rparr> else frame, ?s)"
    unfolding body using k1(1) d(1) by simp
  then show ?thesis
    using sched_on_tick_cpu [OF k1(1)] t k1(2) d by (intro exI [of _ ?s]) (simp add: depth_def gic_side_def)
qed

text \<open>The handler up to the dispatch.\<close>

definition irq_begin :: "irqenv \<Rightarrow> irqst \<Rightarrow> u32 \<times> irqst" where
  "irq_begin E s =
     (let s = (if g_irq_entry_budget s \<noteq> 0
               then let s = print ''!'' s in s\<lparr>g_irq_entry_budget := g_irq_entry_budget s - 1\<rparr> else s);
          s = irq_depth_add 1 s;
          (iar, s) = gic_ack E s;
          intid = iar AND 0x3FF;
          s = (if g_irq_diag_count s < 8
               then let s = print (''[irq] intid='' @ uart_print_u64 (ucast intid) @ [newline]) s
                    in s\<lparr>g_irq_diag_count := g_irq_diag_count s + 1\<rparr> else s)
      in (iar, s))"

lemma irq_handler_eq:
  "irq_handler_el1 E frame s = (let (iar, s) = irq_begin E s; intid = iar AND 0x3FF in
     if intid = 1023 then Some (frame, irq_depth_add (- 1) s)
     else Option.bind (if intid = 27 then timer_case E '':'' frame s
              else if intid = 30 then timer_case E ''P'' frame s
              else Some (frame, if intid < 16 then print ''^'' s else print (''[irq] unexpected intid'' @ [newline]) s))
            (\<lambda>(frame, s). Some (frame, irq_depth_add (- 1) (gic_eoi iar s))))"
  by (simp add: irq_handler_el1_def irq_begin_def Let_def split_beta cong: if_cong option.case_cong bind_option_cong)

lemma irq_begin_ok:
  "fst (irq_begin E s) = ucast (e_iar E (acks s))" "same_sched (ks s) (ks (snd (irq_begin E s)))"
  "dm (snd (irq_begin E s)) = dm s" "depth (snd (irq_begin E s)) = depth s + 1"
  "acks (snd (irq_begin E s)) = Suc (acks s)" "eoir (snd (irq_begin E s)) = eoir s" "dirs (snd (irq_begin E s)) = dirs s"
  "ticks (cpu (ks (snd (irq_begin E s)))) = ticks (cpu (ks s))"
  by (simp_all add: irq_begin_def gic_ack_def irq_depth_add_def print_def on_ks_def Let_def depth_def same_sched_def
      kputs_def upd_cpu_def)

definition is_timer :: "u32 \<Rightarrow> bool" where
  "is_timer iar \<longleftrightarrow> iar AND 0x3FF = 27 \<or> iar AND 0x3FF = 30"

lemma irq_handler_ok:
  assumes "kernel_ok E s xs ds" and iar: "iar = ucast (e_iar E (acks s))"
  shows "\<exists>frame' s'. irq_handler_el1 E frame s = Some (frame', s') \<and> depth s' = depth s \<and> acks s' = Suc (acks s) \<and>
    eoir s' = eoir s @ (if iar AND 0x3FF = 1023 then [] else [ucast iar]) \<and>
    dirs s' = dirs s @ (if iar AND 0x3FF = 1023 then [] else [ucast iar]) \<and>
    ticks (cpu (ks s')) = ticks (cpu (ks s)) + (if is_timer iar then 1 else 0) \<and>
    polls (dlog (dm s')) = polls (dlog (dm s)) @ (if is_timer iar then ds else []) \<and> sched_inv (ks s') xs \<and>
    frame' = (if is_timer iar \<and> wants_resched s' then frame\<lparr>f_elr := e_preempt_return E\<rparr> else frame)"
proof -
  obtain t where b: "irq_begin E s = (iar, t)" using irq_begin_ok(1) [of E s] iar by (cases "irq_begin E s") simp
  note t = irq_begin_ok [where E = E and s = s, unfolded b fst_conv snd_conv]
  have kt: "kernel_ok E t xs ds" by (rule kernel_ok_cong [OF assms(1) t(2,3)])
  then have inv: "sched_inv (ks t) xs" by (simp add: kernel_ok_def)
  have fin: "depth (irq_depth_add (- 1) u) = depth u - 1" "acks (irq_depth_add (- 1) u) = acks u" "eoir (irq_depth_add (- 1) u) = eoir u"
    "dirs (irq_depth_add (- 1) u) = dirs u" "ticks (cpu (ks (irq_depth_add (- 1) u))) = ticks (cpu (ks u))"
    "dm (irq_depth_add (- 1) u) = dm u" "same_sched (ks u) (ks (irq_depth_add (- 1) u))" "wants_resched (irq_depth_add (- 1) u) = wants_resched u" for u
    by (simp_all add: irq_depth_add_def on_ks_def depth_def wants_resched_def upd_cpu_def same_sched_def)
  have eoi: "depth (gic_eoi i u) = depth u" "acks (gic_eoi i u) = acks u" "eoir (gic_eoi i u) = eoir u @ [ucast i]"
    "dirs (gic_eoi i u) = dirs u @ [ucast i]" "ks (gic_eoi i u) = ks u" "dm (gic_eoi i u) = dm u" "wants_resched (gic_eoi i u) = wants_resched u" for i u
    by (simp_all add: gic_eoi_def depth_def wants_resched_def)
  consider "iar AND 0x3FF = 1023" | c where "is_timer iar"
      "irq_handler_el1 E frame s = Option.bind (timer_case E c frame t) (\<lambda>(frame, s). Some (frame, irq_depth_add (- 1) (gic_eoi iar s)))"
    | msg where "iar AND 0x3FF \<noteq> 1023" "\<not> is_timer iar"
      "irq_handler_el1 E frame s = Some (frame, irq_depth_add (- 1) (gic_eoi iar (print msg t)))"
  proof (cases "iar AND 0x3FF = 1023 \<or> is_timer iar")
    case True
    then consider "iar AND 0x3FF = 1023" | "iar AND 0x3FF = 27" | "iar AND 0x3FF = 30" by (auto simp: is_timer_def)
    then show ?thesis
      by cases (rule that(1), assumption, (rule that(2) [of "'':''"], simp add: is_timer_def, simp add: irq_handler_eq b),
        rule that(2) [of "''P''"], simp add: is_timer_def, simp add: irq_handler_eq b)
  next
    case False
    then show ?thesis
      by (intro that(3) [of "if iar AND 0x3FF < 16 then ''^'' else ''[irq] unexpected intid'' @ [newline]"])
        (simp_all add: is_timer_def irq_handler_eq b)
  qed
  then show ?thesis
  proof cases
    case 1
    then have "irq_handler_el1 E frame s = Some (frame, irq_depth_add (- 1) t)" by (simp add: irq_handler_eq b)
    then show ?thesis using 1 t fin [of t] same_sched_inv [OF fin(7) inv] by (simp add: is_timer_def)
  next
    case (2 c)
    obtain u where u: "timer_case E c frame t = Some (if wants_resched u then frame\<lparr>f_elr := e_preempt_return E\<rparr> else frame, u)"
      "depth u = depth t" "ticks (cpu (ks u)) = ticks (cpu (ks t)) + 1" "gic_side u = gic_side t" "sched_inv (ks u) xs"
      "polls (dlog (dm u)) = polls (dlog (dm t)) @ ds"
      using timer_case_ok [OF kt, of c frame] by blast
    have "iar AND 0x3FF \<noteq> 1023" using 2(1) by (auto simp: is_timer_def)
    moreover have "sched_inv (ks (irq_depth_add (- 1) (gic_eoi iar u))) xs"
      using same_sched_inv [OF fin(7) [of "gic_eoi iar u"]] u(5) eoi(5) by simp
    ultimately show ?thesis using 2 u t fin [of "gic_eoi iar u"] eoi [of iar u] by (simp add: gic_side_def)
  next
    case (3 msg)
    have p: "same_sched (ks t) (ks (print msg t))" "depth (print msg t) = depth t" "acks (print msg t) = acks t"
      "eoir (print msg t) = eoir t" "dirs (print msg t) = dirs t" "ticks (cpu (ks (print msg t))) = ticks (cpu (ks t))"
      "dm (print msg t) = dm t"
      by (simp_all add: print_def on_ks_def depth_def)
    have "sched_inv (ks (irq_depth_add (- 1) (gic_eoi iar (print msg t)))) xs"
      using same_sched_inv [OF fin(7) [of "gic_eoi iar (print msg t)"]] same_sched_inv [OF p(1) inv] eoi(5) by simp
    then show ?thesis using 3 t p fin [of "gic_eoi iar (print msg t)"] eoi [of iar "print msg t"] by simp
  qed
qed

text \<open>
  C9: the interrupt handler returns and keeps its books. Whatever identifier the controller hands out, the
  nesting depth is as before; the interrupt is acknowledged once, and completed with exactly the value
  that was read (priority drop and deactivation), unless it is spurious, when nothing is written; a timer interrupt, and only
  a timer interrupt, counts one tick, runs the scheduler's tick and completes every pending DMA
  descriptor in order; the scheduler's invariant is kept.
\<close>
theorem irq_handler_balanced:
  assumes "kernel_ok E s xs ds" and iar: "iar = ucast (e_iar E (acks s))"
  shows "\<exists>frame' s'. irq_handler_el1 E frame s = Some (frame', s') \<and> depth s' = depth s \<and> acks s' = Suc (acks s) \<and>
    eoir s' = eoir s @ (if iar AND 0x3FF = 1023 then [] else [ucast iar]) \<and>
    dirs s' = dirs s @ (if iar AND 0x3FF = 1023 then [] else [ucast iar]) \<and>
    ticks (cpu (ks s')) = ticks (cpu (ks s)) + (if is_timer iar then 1 else 0) \<and>
    polls (dlog (dm s')) = polls (dlog (dm s)) @ (if is_timer iar then ds else []) \<and> sched_inv (ks s') xs \<and>
    frame' = (if is_timer iar \<and> wants_resched s' then frame\<lparr>f_elr := e_preempt_return E\<rparr> else frame)"
  by (rule irq_handler_ok [OF assms])


text \<open>
  An example: the scheduler of \<open>Sched\<close>, an engine with two pending descriptors, and a controller
  that hands out the identifier \<open>iar\<close>.
\<close>

definition irqenv_example :: "u64 \<Rightarrow> irqenv" where
  "irqenv_example iar = \<lparr>e_cfg = \<lparr>policy = PRIO, mutex_pi = True, lockdep = False\<rparr>, e_pol = Cacheable, e_lay = layout_example,
     e_hw = hw_example, e_call = (\<lambda>_ _ t. Some t), e_iar = (\<lambda>_. iar), e_sleeps = (\<lambda>n. n < 3), e_reg = (\<lambda>_ v. v),
     e_cntfrq = 62500000, e_preempt_return = 0x40080000, e_use_cntp = False\<rparr>"

definition irqst_example :: irqst where
  "irqst_example = \<lparr>ks = tick_example,
     dm = (dma_example cmem_example)\<lparr>g_pending_head := 0x40200000, g_pending_tail := 0x40200038, g_dma_desc_next := 0x40200070,
       descs := (\<lambda>_. desc_0)(0x40200000 := desc_0\<lparr>d_len := 4, d_src := 0x40080000, d_dst := 0x40081000, d_next := 0x40200038\<rparr>)\<rparr>,
     mmio = (\<lambda>_. 0), gicr_prio = (\<lambda>_. 0), waker_polls = 0, icc_sre = 0, icc_pmr = 0,
     icc_bpr1 = 0, icc_igrpen1 = 0, acks = 0, eoir = [], dirs = [], cntp_tval = 0, cntp_ctl = 0, cntv_tval = 0, cntv_ctl = 1, g_timer_diag_once = True,
     heartbeat = 0, g_irq_diag_count = 8, g_irq_entry_budget = 0, g_irq_timer_budget = 0\<rparr>"

lemma tick_example_inv: "sched_inv tick_example [16, 32, 48]"
proof -
  have "rq_inv tick_example [16, 32, 48]"
    using rq_inv_cong [OF ring_example_inv, of tick_example] by (simp add: tick_example_def)
  then show ?thesis
    by (simp add: sched_inv_def prio_ok_def tick_example_def ring_example_def zero_thread_def zero_cpu_def kconst_defs)
qed

lemma kernel_ok_example: "kernel_ok (irqenv_example iar) irqst_example [16, 32, 48] [0x40200000, 0x40200038]"
proof -
  have "stack_guard_ok tick_example (cur_thread tick_example)"
    by (simp add: stack_guard_ok_def tick_example_def ring_example_def zero_thread_def)
  moreover have "dma_inv layout_example (dm irqst_example) [0x40200000, 0x40200038]"
    by (simp add: dma_inv_def pending_def win_ok_def irqst_example_def dma_example_def layout_example_def desc_0_def)
  moreover have "\<forall>d \<in> set [0x40200000, 0x40200038]. transfer_ok Cacheable layout_example (descs (dm irqst_example) d)"
    by (simp add: irqst_example_def transfer_ok_def desc_0_def ram_range_def apart_def dma_cache_maint_allowed_def)
  moreover have "ks irqst_example = tick_example" by (simp add: irqst_example_def)
  ultimately show ?thesis
    using tick_example_inv by (simp add: kernel_ok_def irqenv_example_def hw_example_ok hw_example_map)
qed

definition frame_example :: irq_frame where
  "frame_example = \<lparr>f_regs = (\<lambda>_. 0), f_lr = 0, f_sp = 0x40200000, f_spsr = 5, f_elr = 0x40080444\<rparr>"

theorem irq_handler_balanced_witness:
  "\<exists>frame' s'. irq_handler_el1 (irqenv_example 27) frame_example irqst_example = Some (frame', s') \<and> eoir s' = [27] \<and>
    ticks (cpu (ks s')) = 1 \<and> polls (dlog (dm s')) = [0x40200000, 0x40200038]"
proof -
  have "is_timer 27" by (simp add: is_timer_def)
  then show ?thesis
    using irq_handler_balanced [OF kernel_ok_example [of 27], of 27 frame_example]
    by (auto simp: irqenv_example_def irqst_example_def tick_example_def zero_cpu_def polls_def dma_example_def)
qed


section \<open>Bringing up the controller and the timer\<close>

lemma waker_wait_returns:
  assumes "\<not> e_sleeps E n" "k \<le> n" "\<forall>i. k \<le> i \<and> i < n \<longrightarrow> e_sleeps E i"
  shows "waker_wait E k = Some (Suc n)"
  using assms(2,3)
proof (induction "n - k" arbitrary: k)
  case 0
  then show ?case using assms(1) by (subst waker_wait.simps) simp
next
  case (Suc m)
  then have "e_sleeps E k" by simp
  then show ?case using Suc.hyps(1) [of "Suc k"] Suc.hyps(2) Suc.prems by (subst waker_wait.simps) simp
qed

lemma print_keeps [simp]:
  "mmio (print t s) = mmio s" "gicr_prio (print t s) = gicr_prio s" "waker_polls (print t s) = waker_polls s"
  "icc_sre (print t s) = icc_sre s" "icc_pmr (print t s) = icc_pmr s" "icc_igrpen1 (print t s) = icc_igrpen1 s"
  "cntp_tval (print t s) = cntp_tval s" "cntp_ctl (print t s) = cntp_ctl s"
  "cntv_tval (print t s) = cntv_tval s" "cntv_ctl (print t s) = cntv_ctl s"
  by (simp_all add: print_def on_ks_def)

lemma timer_init_hz_keeps:
  assumes "hz \<noteq> 0"
  shows "mmio (timer_init_hz E hz s) = mmio s" "gicr_prio (timer_init_hz E hz s) = gicr_prio s"
    "waker_polls (timer_init_hz E hz s) = waker_polls s" "icc_sre (timer_init_hz E hz s) = icc_sre s"
    "icc_pmr (timer_init_hz E hz s) = icc_pmr s" "icc_igrpen1 (timer_init_hz E hz s) = icc_igrpen1 s"
    "timer_tval E (timer_init_hz E hz s) = compute_ticks E hz" "read_timer_ctl E (timer_init_hz E hz s) = 1"
  using assms by (simp_all add: timer_init_hz_def Let_def timer_tval_def timer_reg_defs)

lemma compute_ticks_pos: "compute_ticks E hz \<noteq> 0"
  by (simp add: compute_ticks_def Let_def)

lemma bit_two:
  "i < 32 \<Longrightarrow> bit (push_bit j 1 OR push_bit k 1 :: u32) i = (i = j \<or> i = k)"
  by (auto simp: bit_or_iff bit_exp_iff)

text \<open>The writes of the initialisation, without the messages.\<close>

lemma gic_init_effect:
  assumes "waker_wait E (waker_polls s) = Some n"
  shows "\<exists>s'. gic_init E s = Some s' \<and> waker_polls s' = n \<and> icc_sre s' = icc_sre s OR 1 \<and> icc_pmr s' = 0xFF \<and> icc_igrpen1 s' = 1 \<and>
    mmio s' = (mmio s)(GICR_BASE + 0x14 := mmio_r32 E (GICR_BASE + 0x14) s AND NOT (push_bit 1 1), GICR_SGI_BASE + 0x80 := 0xFFFFFFFF,
      GICR_SGI_BASE + 0xD00 := 0, GICR_SGI_BASE + 0xC04 := 0,
      GICR_SGI_BASE + 0x100 := push_bit 1 1 OR push_bit (if e_use_cntp E then 30 else 27) 1, GICD_BASE := push_bit 1 1) \<and>
    gicr_prio s' = (gicr_prio s)(1 := 0x80, 27 := 0x80, 30 := 0x80)"
  using assms by (simp add: gic_init_def gicr_wake_def enable_sre_el1_def mmio_w32_def Let_def)

definition timer_ppi :: "irqenv \<Rightarrow> nat" where
  "timer_ppi E = (if e_use_cntp E then 30 else 27)"

text \<open>
  Bringing up interrupts. If the redistributor wakes at some poll, the controller's initialisation returns,
  and not before that poll. Then exactly SGI 1 and the selected timer's interrupt are enabled, each in
  non-secure group 1 with priority above the mask, and the CPU interface lets group 1 through; arming the timer
  leaves it enabled with a non-zero period that is the counter's frequency divided by the rate.
\<close>
lemma gic_timer_bring_up:
  assumes "\<not> e_sleeps E n" "waker_polls s \<le> n" "\<forall>i. waker_polls s \<le> i \<and> i < n \<longrightarrow> e_sleeps E i" "hz \<noteq> 0"
  shows "\<exists>s'. map_option (timer_init_hz E hz) (gic_init E s) = Some s' \<and> waker_polls s' = Suc n \<and>
    (\<forall>i < 32. bit (mmio s' (GICR_SGI_BASE + 0x100)) i = (i \<in> {1, timer_ppi E})) \<and>
    (\<forall>i \<in> {1, timer_ppi E}. bit (mmio s' (GICR_SGI_BASE + 0x80)) i \<and> \<not> bit (mmio s' (GICR_SGI_BASE + 0xD00)) i \<and>
      ucast (gicr_prio s' i) < icc_pmr s') \<and>
    bit (mmio s' GICD_BASE) 1 \<and> bit (icc_sre s') 0 \<and> icc_igrpen1 s' = 1 \<and> \<not> bit (mmio s' (GICR_BASE + 0x14)) 1 \<and>
    read_timer_ctl E s' = 1 \<and> timer_tval E s' \<noteq> 0 \<and> (e_cntfrq E div ucast hz \<noteq> 0 \<longrightarrow> timer_tval E s' = e_cntfrq E div ucast hz)"
proof -
  obtain g where g: "gic_init E s = Some g" "waker_polls g = Suc n" "icc_sre g = icc_sre s OR 1" "icc_pmr g = 0xFF" "icc_igrpen1 g = 1"
    "mmio g = (mmio s)(GICR_BASE + 0x14 := mmio_r32 E (GICR_BASE + 0x14) s AND NOT (push_bit 1 1), GICR_SGI_BASE + 0x80 := 0xFFFFFFFF,
      GICR_SGI_BASE + 0xD00 := 0, GICR_SGI_BASE + 0xC04 := 0,
      GICR_SGI_BASE + 0x100 := push_bit 1 1 OR push_bit (if e_use_cntp E then 30 else 27) 1, GICD_BASE := push_bit 1 1)"
    "gicr_prio g = (gicr_prio s)(1 := 0x80, 27 := 0x80, 30 := 0x80)"
    using gic_init_effect [OF waker_wait_returns [OF assms(1-3)]] by (elim exE conjE)
  have m: "mmio g (GICR_SGI_BASE + 0x100) = push_bit 1 1 OR push_bit (timer_ppi E) 1" "mmio g (GICR_SGI_BASE + 0x80) = - 1"
    "mmio g (GICR_SGI_BASE + 0xD00) = 0" "mmio g GICD_BASE = push_bit 1 1"
    "mmio g (GICR_BASE + 0x14) = mmio_r32 E (GICR_BASE + 0x14) s AND NOT (push_bit 1 1)"
    by (simp_all add: g(6) GICR_SGI_BASE_def GICR_BASE_def GICD_BASE_def timer_ppi_def)
  have ppi: "timer_ppi E = 27 \<or> timer_ppi E = 30" by (simp add: timer_ppi_def)
  have "bit (push_bit 1 1 OR push_bit (timer_ppi E) 1 :: u32) i = (i \<in> {1, timer_ppi E})" if "i < 32" for i
    using bit_two [OF that, of 1 "timer_ppi E"] by simp
  moreover have "bit (- 1 :: u32) i" if "i \<in> {1, timer_ppi E}" for i using that ppi by auto
  moreover have "ucast (gicr_prio g i) < icc_pmr g" if "i \<in> {1, timer_ppi E}" for i using that ppi g(4,7) by auto
  moreover have "bit (push_bit 1 1 :: u32) 1" "\<not> bit (mmio_r32 E (GICR_BASE + 0x14) s AND NOT (push_bit 1 1)) 1" "bit (icc_sre g) 0"
    using g(3) by (simp_all add: bit_and_iff bit_not_iff bit_or_iff)
  ultimately show ?thesis
    using compute_ticks_pos [of E hz]
    by (intro exI [of _ "timer_init_hz E hz g"])
      (simp add: g(1,2,5) m timer_init_hz_keeps [OF assms(4)], simp add: compute_ticks_def read_cntfrq_def Let_def assms(4))
qed

lemma gic_timer_bring_up_example:
  "\<exists>s'. map_option (timer_init_hz (irqenv_example 27) 1000) (gic_init (irqenv_example 27) irqst_example) = Some s' \<and>
    waker_polls s' = 4 \<and> bit (mmio s' (GICR_SGI_BASE + 0x100)) 27 \<and> timer_tval (irqenv_example 27) s' = 62500"
  using gic_timer_bring_up [of "irqenv_example 27" 3 irqst_example 1000]
  by (fastforce simp: irqenv_example_def irqst_example_def timer_ppi_def)

end
