(* ===== verification/Libc.thy ===== *)
theory Libc
  imports ByteMem
begin

text \<open>
  The C library routines of \<^verbatim>\<open>src/libc.cc\<close> on byte memory. A routine returns its result and the memory.
  Pointers wrap as 64-bit words; the lemmas ask that the areas do not.
\<close>

section \<open>The routines\<close>

definition memset :: "addr \<Rightarrow> int \<Rightarrow> u64 \<Rightarrow> mem \<Rightarrow> addr \<times> mem" where
  "memset dst c n m = (let v = word_of_int c :: u8 in
     (dst, for_loop (unat n) (\<lambda>i m. m(dst + of_nat i := v)) m))"

definition memcpy :: "addr \<Rightarrow> addr \<Rightarrow> u64 \<Rightarrow> mem \<Rightarrow> addr \<times> mem" where
  "memcpy dst src n m = (dst, for_loop (unat n) (\<lambda>i m. m(dst + of_nat i := m (src + of_nat i))) m)"

text \<open>The descending loop of \<^verbatim>\<open>memmove\<close> is indexed by \<open>k = n - i\<close>.\<close>

definition memmove :: "addr \<Rightarrow> addr \<Rightarrow> u64 \<Rightarrow> mem \<Rightarrow> addr \<times> mem" where
  "memmove dst src n m =
     (if dst = src \<or> n = 0 then (dst, m)
      else if dst < src then (dst, for_loop (unat n) (\<lambda>i m. m(dst + of_nat i := m (src + of_nat i))) m)
      else (dst, for_loop (unat n) (\<lambda>k m. let i = n - of_nat k in m(dst + (i - 1) := m (src + (i - 1)))) m))"

primrec memcmp_from :: "mem \<Rightarrow> addr \<Rightarrow> addr \<Rightarrow> nat \<Rightarrow> int" where
  "memcmp_from m p q 0 = 0"
| "memcmp_from m p q (Suc n) =
     (if m p \<noteq> m q then (if m p < m q then -1 else 1) else memcmp_from m (p + 1) (q + 1) n)"

definition memcmp :: "addr \<Rightarrow> addr \<Rightarrow> u64 \<Rightarrow> mem \<Rightarrow> int" where
  "memcmp a b n m = memcmp_from m a b (unat n)"

section \<open>Areas\<close>

text \<open>The offset of an address in an area that does not wrap.\<close>

lemma area_addr:
  fixes p :: addr
  assumes "unat p + n \<le> 2 ^ 64" "i < n"
  shows "unat (p + of_nat i) = unat p + i"
  using assms by (subst unat_add_nowrap) (auto simp: unat_of_nat)

lemma area_memE:
  fixes p :: addr
  assumes "unat p + n \<le> 2 ^ 64" "unat p \<le> unat x" "unat x < unat p + n"
  obtains i where "i < n" "x = p + of_nat i"
proof
  show i: "unat x - unat p < n" using assms by simp
  show "x = p + of_nat (unat x - unat p)"
    using area_addr [OF assms(1) i] assms(2) by (simp add: word_unat_eq_iff)
qed

lemma store_bytes_eqI:
  assumes "unat p + length bs \<le> 2 ^ 64" "length bs \<le> 2 ^ 64"
    and "\<And>i. i < length bs \<Longrightarrow> m' (p + of_nat i) = bs ! i"
    and "\<And>x. unat x < unat p \<or> unat p + length bs \<le> unat x \<Longrightarrow> m' x = m x"
  shows "m' = store_bytes m p bs"
proof
  fix x
  show "m' x = store_bytes m p bs x"
  proof (cases "unat p \<le> unat x \<and> unat x < unat p + length bs")
    case True
    then obtain i where "i < length bs" "x = p + of_nat i" using area_memE [OF assms(1)] by blast
    then show ?thesis using assms(2,3) nth_store_bytes [of i bs m p] by simp
  next
    case False
    have "x \<notin> span p (length bs)"
    proof
      assume "x \<in> span p (length bs)"
      then obtain i where "x = p + of_nat i" "i < length bs" by (auto simp: span_def)
      then show False using area_addr [OF assms(1), of i] False by simp
    qed
    then show ?thesis using False assms(4) [of x] by (simp add: store_bytes_other not_le not_less)
  qed
qed

section \<open>What the routines compute\<close>

text \<open>
  A loop that writes the bytes of the destination in some order: after \<open>i\<close> rounds exactly the addresses of
  \<open>W i\<close> have their final value.
\<close>

lemma copy_up:
  assumes "unat dst + n \<le> 2 ^ 64" "unat src + n \<le> 2 ^ 64" "unat dst \<le> unat src \<or> unat src + n \<le> unat dst"
  shows "for_loop n (\<lambda>i m. m(dst + of_nat i := m (src + of_nat i))) m = store_bytes m dst (load_bytes m src n)"
proof -
  let ?f = "\<lambda>i m. m(dst + of_nat i := m (src + of_nat i))"
  let ?I = "\<lambda>i m'. (\<forall>j < i. m' (dst + of_nat j) = m (src + of_nat j)) \<and>
    (\<forall>x. unat x < unat dst \<or> unat dst + i \<le> unat x \<longrightarrow> m' x = m x)"
  have "?I n (for_loop n ?f m)"
  proof (rule for_loop_inv [where I = ?I])
    fix i m' assume i: "i < n" and I: "?I i m'"
    have ud: "unat (dst + of_nat j) = unat dst + j" if "j \<le> i" for j
      using area_addr [OF assms(1)] i that by simp
    have us: "unat (src + of_nat i) = unat src + i" using area_addr [OF assms(2) i] .
    have "m' (src + of_nat i) = m (src + of_nat i)" using I us assms(3) i by auto
    moreover have "dst + of_nat j \<noteq> dst + of_nat i" if "j < i" for j
    proof
      assume "dst + of_nat j = dst + of_nat i"
      then show False using ud [of j] ud [of i] that by simp
    qed
    ultimately show "?I (Suc i) (?f i m')" using I ud [of i] by (auto simp: less_Suc_eq)
  qed simp
  then show ?thesis
    using assms by (intro store_bytes_eqI) (auto simp: nth_load_bytes)
qed

lemma copy_down:
  assumes "unat dst + unat n \<le> 2 ^ 64" "unat src + unat n \<le> 2 ^ 64" "unat src \<le> unat dst"
  shows "for_loop (unat n) (\<lambda>k m. let i = n - of_nat k in m(dst + (i - 1) := m (src + (i - 1)))) m =
    store_bytes m dst (load_bytes m src (unat n))"
proof -
  let ?f = "\<lambda>k m. let i = n - of_nat k in m(dst + (i - 1) := m (src + (i - 1)))"
  let ?I = "\<lambda>k m'. (\<forall>j < unat n. unat n - k \<le> j \<longrightarrow> m' (dst + of_nat j) = m (src + of_nat j)) \<and>
    (\<forall>x. unat x < unat dst + (unat n - k) \<or> unat dst + unat n \<le> unat x \<longrightarrow> m' x = m x)"
  have "?I (unat n) (for_loop (unat n) ?f m)"
  proof (rule for_loop_inv [where I = ?I])
    fix k m' assume k: "k < unat n" and I: "?I k m'"
    let ?j = "unat n - Suc k"
    have idx: "n - of_nat k - 1 = of_nat ?j"
    proof -
      have "of_nat ?j = (of_nat (unat n) - of_nat (Suc k) :: u64)" using k by (subst of_nat_diff) simp_all
      then show ?thesis by simp
    qed
    have ud: "unat (dst + of_nat j) = unat dst + j" if "j < unat n" for j using area_addr [OF assms(1) that] .
    have us: "unat (src + of_nat ?j) = unat src + ?j" using area_addr [OF assms(2), of ?j] k by simp
    have r: "m' (src + of_nat ?j) = m (src + of_nat ?j)" using I us assms(3) k by auto
    have ne: "dst + of_nat j \<noteq> dst + of_nat ?j" if "?j < j" "j < unat n" for j
    proof
      assume "dst + of_nat j = dst + of_nat ?j"
      then show False using ud [of j] ud [of ?j] that k by simp
    qed
    have f: "?f k m' = m'(dst + of_nat ?j := m (src + of_nat ?j))" unfolding Let_def idx r ..
    have "(?f k m') (dst + of_nat j) = m (src + of_nat j)" if "j < unat n" "?j \<le> j" for j
    proof (cases "j = ?j")
      case False
      then have "unat n - k \<le> j" using that k by simp
      then show ?thesis unfolding f using ne that False I by simp
    qed (simp add: f)
    moreover have "(?f k m') x = m x" if "unat x < unat dst + ?j \<or> unat dst + unat n \<le> unat x" for x
    proof -
      have "x \<noteq> dst + of_nat ?j" using that ud [of ?j] k by auto
      then show ?thesis unfolding f using I that k by auto
    qed
    ultimately show "?I (Suc k) (?f k m')" by blast
  qed simp
  then show ?thesis
    using assms(1) by (intro store_bytes_eqI) (auto simp: nth_load_bytes)
qed

text \<open>
  C38: \<^verbatim>\<open>memmove\<close> is the parallel copy. For areas that overlap in any way, the destination ends with the
  bytes the source had before the call, nothing else changes, and the destination is returned.
\<close>
theorem memmove_parallel:
  assumes "unat dst + unat n \<le> 2 ^ 64" "unat src + unat n \<le> 2 ^ 64"
  shows "memmove dst src n m = (dst, store_bytes m dst (load_bytes m src (unat n)))"
proof -
  have "store_bytes m dst (load_bytes m dst (unat n)) = m"
    by (rule sym, rule store_bytes_eqI) (use assms(1) in \<open>simp_all add: nth_load_bytes\<close>)
  then show ?thesis
    using copy_up [OF assms, of m] copy_down [OF assms, of m]
    by (auto simp: memmove_def word_less_nat_alt)
qed

theorem memmove_parallel_witness:
  "map (snd (memmove 101 100 3 (\<lambda>a. ucast a))) [100, 101, 102, 103] = [100, 100, 101, 102]"
proof -
  have u: "unat (3 :: u64) = Suc (Suc (Suc 0))" "unat (101 :: addr) = 101" "unat (100 :: addr) = 100" by simp_all
  have "memmove 101 100 3 (\<lambda>a. ucast a) = (101, store_bytes (\<lambda>a. ucast a) 101 (load_bytes (\<lambda>a. ucast a) 100 (Suc (Suc (Suc 0)))))"
    by (rule memmove_parallel [of 101 3 100 "\<lambda>a. ucast a", unfolded u]) simp_all
  then show ?thesis by simp
qed

text \<open>The other routines.\<close>

lemma memcpy_copies:
  assumes "unat dst + unat n \<le> 2 ^ 64" "unat src + unat n \<le> 2 ^ 64" "unat dst \<le> unat src \<or> unat src + unat n \<le> unat dst"
  shows "memcpy dst src n m = (dst, store_bytes m dst (load_bytes m src (unat n)))"
  using copy_up [OF assms] by (simp add: memcpy_def)

lemma memset_fills:
  assumes "unat dst + unat n \<le> 2 ^ 64"
  shows "memset dst c n m = (dst, store_bytes m dst (replicate (unat n) (word_of_int c)))"
proof -
  let ?f = "\<lambda>i m. m(dst + of_nat i := word_of_int c)"
  let ?I = "\<lambda>i m'. (\<forall>j < i. m' (dst + of_nat j) = word_of_int c) \<and>
    (\<forall>x. unat x < unat dst \<or> unat dst + i \<le> unat x \<longrightarrow> m' x = m x)"
  have "?I (unat n) (for_loop (unat n) ?f m)"
  proof (rule for_loop_inv [where I = ?I])
    fix i m' assume i: "i < unat n" and I: "?I i m'"
    have "unat (dst + of_nat i) = unat dst + i" using area_addr [OF assms i] .
    then show "?I (Suc i) (?f i m')" using I by (auto simp: less_Suc_eq)
  qed simp
  then have "for_loop (unat n) ?f m = store_bytes m dst (replicate (unat n) (word_of_int c))"
    using assms by (intro store_bytes_eqI) auto
  then show ?thesis by (simp add: memset_def Let_def)
qed

lemma memcmp_lexicographic:
  "memcmp a b n m = (let xs = load_bytes m a (unat n); ys = load_bytes m b (unat n)
     in if xs = ys then 0 else if ord_class.lexordp xs ys then -1 else 1)"
proof -
  have "memcmp_from m p q k = (let xs = load_bytes m p k; ys = load_bytes m q k
      in if xs = ys then 0 else if ord_class.lexordp xs ys then -1 else 1)" for p q k
    by (induction k arbitrary: p q) (auto simp: Let_def)
  then show ?thesis by (simp add: memcmp_def)
qed

end
