(* ===== verification/HeapLab.thy ===== *)
theory HeapLab
  imports Prelude
begin

text \<open>
  The first-fit heap of \<^verbatim>\<open>src/mem_lab.cc\<close>: blocks with a 16-byte header lie back to back, allocation takes
  the first free block that is large enough and splits it, freeing merges neighbours. Headers live in a
  typed store \<open>hstore\<close> indexed by address, whose values elsewhere (payloads) are arbitrary. \<open>None\<close> is a
  loop that does not end.

  The abstract heap is the list of its blocks, a size and whether it is free each.
\<close>

section \<open>The code\<close>

record heap_block =
  hb_magic :: u32
  hb_flags :: u32
  hb_size :: u64

type_synonym hstore = "addr \<Rightarrow> heap_block"

definition kHeapMagic :: u32 where "kHeapMagic = 0x6d656d31"
definition kHeapFree :: u32 where "kHeapFree = 1"
definition kSizeofHeapBlock :: u64 where "kSizeofHeapBlock = 16"

definition heap_next :: "hstore \<Rightarrow> addr \<Rightarrow> addr" where
  "heap_next m b = (let p = b; p = p + kSizeofHeapBlock; p = p + hb_size (m b) in align_up p 16)"

definition heap_init :: "addr \<Rightarrow> u64 \<Rightarrow> hstore \<Rightarrow> hstore" where
  "heap_init mem bytes m =
     m(mem := \<lparr>hb_magic = kHeapMagic, hb_flags = kHeapFree, hb_size = bytes - kSizeofHeapBlock\<rparr>)"

definition heap_take :: "addr \<Rightarrow> u64 \<Rightarrow> hstore \<Rightarrow> hstore" where
  "heap_take b req m =
     (let payload = b + kSizeofHeapBlock;
          old_end = align_up (payload + hb_size (m b)) 16;
          new_hdr = align_up (payload + req) 16;
          new_payload = new_hdr + kSizeofHeapBlock;
          m = (if new_payload + 16 \<le> old_end
               then let m = m(new_hdr := \<lparr>hb_magic = kHeapMagic, hb_flags = kHeapFree, hb_size = old_end - new_payload\<rparr>)
                    in m(b := (m b)\<lparr>hb_size := req\<rparr>)
               else m)
      in m(b := (m b)\<lparr>hb_flags := hb_flags (m b) AND NOT kHeapFree\<rparr>))"

partial_function (option) first_fit_loop ::
  "addr \<Rightarrow> u64 \<Rightarrow> hstore \<Rightarrow> addr \<Rightarrow> u64 \<Rightarrow> (addr \<times> u64 \<times> hstore) option" where
  "first_fit_loop end req m b steps =
     (if \<not> b + kSizeofHeapBlock \<le> end then Some (NULL, steps, m)
      else if hb_magic (m b) \<noteq> kHeapMagic then Some (NULL, steps, m)
      else if hb_flags (m b) AND kHeapFree = 0 \<or> hb_size (m b) < req
           then first_fit_loop end req m (heap_next m b) (steps + 1)
      else Some (b + kSizeofHeapBlock, steps + 1, heap_take b req m))"

definition heap_alloc_first_fit ::
  "addr \<Rightarrow> u64 \<Rightarrow> u64 \<Rightarrow> hstore \<Rightarrow> (addr \<times> u64 option \<times> hstore) option" where
  "heap_alloc_first_fit heap heap_bytes req m =
     (if heap = NULL \<or> req = 0 then Some (NULL, None, m)
      else let req = align_up req 16
           in map_option (\<lambda>(p, steps, m). (p, Some steps, m)) (first_fit_loop (heap + heap_bytes) req m heap 0))"

partial_function (option) coalesce_loop :: "addr \<Rightarrow> hstore \<Rightarrow> addr \<Rightarrow> hstore option" where
  "coalesce_loop end m b =
     (if \<not> b + kSizeofHeapBlock \<le> end then Some m
      else if hb_magic (m b) \<noteq> kHeapMagic then Some m
      else let n = heap_next m b
           in if end < n + kSizeofHeapBlock then Some m
              else if hb_magic (m n) \<noteq> kHeapMagic then Some m
              else if hb_flags (m b) AND kHeapFree \<noteq> 0 \<and> hb_flags (m n) AND kHeapFree \<noteq> 0
              then let b_payload = b + kSizeofHeapBlock;
                       n_payload = n + kSizeofHeapBlock;
                       gap = n_payload - (b_payload + hb_size (m b))
                   in coalesce_loop end (m(b := (m b)\<lparr>hb_size := hb_size (m b) + gap + hb_size (m n)\<rparr>)) b
              else coalesce_loop end m n)"

definition heap_coalesce :: "addr \<Rightarrow> u64 \<Rightarrow> hstore \<Rightarrow> hstore option" where
  "heap_coalesce heap heap_bytes m = coalesce_loop (heap + heap_bytes) m heap"

definition heap_free :: "addr \<Rightarrow> u64 \<Rightarrow> addr \<Rightarrow> hstore \<Rightarrow> hstore option" where
  "heap_free heap heap_bytes p m =
     (if heap = NULL \<or> p = NULL then Some m
      else if p < heap + kSizeofHeapBlock \<or> heap + heap_bytes \<le> p then Some m
      else let b = p - kSizeofHeapBlock
           in if hb_magic (m b) \<noteq> kHeapMagic then Some m
              else heap_coalesce heap heap_bytes (m(b := (m b)\<lparr>hb_flags := hb_flags (m b) OR kHeapFree\<rparr>)))"

text \<open>The statistics: total free bytes, the largest free block, the number of free blocks.\<close>

partial_function (option) stats_loop ::
  "addr \<Rightarrow> hstore \<Rightarrow> addr \<Rightarrow> u64 \<times> u64 \<times> u64 \<Rightarrow> (u64 \<times> u64 \<times> u64) option" where
  "stats_loop end m b acc =
     (if \<not> b + kSizeofHeapBlock \<le> end then Some acc
      else if hb_magic (m b) \<noteq> kHeapMagic then Some acc
      else if hb_flags (m b) AND kHeapFree = 0 then stats_loop end m (heap_next m b) acc
      else let (total, largest, count) = acc
           in stats_loop end m (heap_next m b)
                (total + hb_size (m b), (if largest < hb_size (m b) then hb_size (m b) else largest), count + 1))"

definition heap_stats :: "addr \<Rightarrow> u64 \<Rightarrow> hstore \<Rightarrow> (u64 \<times> u64 \<times> u64) option" where
  "heap_stats heap heap_bytes m = stats_loop (heap + heap_bytes) m heap (0, 0, 0)"

section \<open>Blocks\<close>

type_synonym blk = "nat \<times> bool"

definition hdr :: "hstore \<Rightarrow> addr \<Rightarrow> blk \<Rightarrow> bool" where
  "hdr m a x \<longleftrightarrow> hb_magic (m a) = kHeapMagic \<and> unat (hb_size (m a)) = fst x \<and>
     (hb_flags (m a) AND kHeapFree \<noteq> 0 \<longleftrightarrow> snd x)"

primrec bsize :: "blk list \<Rightarrow> nat" where
  "bsize [] = 0"
| "bsize (x # bs) = 16 + fst x + bsize bs"

text \<open>The address after a block.\<close>

definition after :: "addr \<Rightarrow> blk \<Rightarrow> addr" where
  "after a x = a + of_nat (16 + fst x)"

primrec blocks :: "hstore \<Rightarrow> addr \<Rightarrow> blk list \<Rightarrow> bool" where
  "blocks m a [] \<longleftrightarrow> True"
| "blocks m a (x # bs) \<longleftrightarrow> hdr m a x \<and> blocks m (after a x) bs"

primrec hdrs :: "addr \<Rightarrow> blk list \<Rightarrow> addr set" where
  "hdrs a [] = {}"
| "hdrs a (x # bs) = insert a (hdrs (after a x) bs)"

text \<open>The place of the blocks: aligned, in the lower half of the address space.\<close>

definition fits :: "addr \<Rightarrow> blk list \<Rightarrow> bool" where
  "fits a bs \<longleftrightarrow> 16 dvd unat a \<and> a \<noteq> NULL \<and> (\<forall>x \<in> set bs. 16 dvd fst x) \<and> unat a + bsize bs \<le> 9223372036854775808"

lemma bsize_append [simp]: "bsize (xs @ ys) = bsize xs + bsize ys"
  by (induction xs) auto

lemma blocks_append: "blocks m a (xs @ ys) \<longleftrightarrow> blocks m a xs \<and> blocks m (a + of_nat (bsize xs)) ys"
  by (induction xs arbitrary: a) (auto simp: add_ac after_def)

lemma blocks_cong: "(\<And>x. x \<in> hdrs a bs \<Longrightarrow> m x = m' x) \<Longrightarrow> blocks m a bs = blocks m' a bs"
  by (induction bs arbitrary: a) (auto simp: hdr_def)

lemma fits_ConsD:
  assumes "fits a (x # bs)"
  shows "unat (after a x) = unat a + 16 + fst x" "fits (after a x) bs"
    "16 dvd fst x" "unat a + 16 + fst x \<le> 9223372036854775808" "unat a + 16 + fst x + bsize bs \<le> 9223372036854775808"
    "unat (a + 16) = unat a + 16"
proof -
  have b: "unat a + 16 + fst x + bsize bs \<le> 9223372036854775808" "16 dvd unat a" "16 dvd fst x"
    using assms by (auto simp: fits_def)
  have "16 + fst x < 2 ^ 64" using b by simp
  then have "unat (of_nat (16 + fst x) :: addr) = 16 + fst x" by (simp only: unat_of_nat mod_less len_num1 len_num0 len_bit0 len_bit1) simp
  then show u: "unat (after a x) = unat a + 16 + fst x"
    unfolding after_def using b by (subst unat_add_nowrap) simp_all
  have "16 dvd unat a + 16 + fst x" using b by simp
  moreover have "after a x \<noteq> NULL" using u by (metis add_gr_0 less_numeral_extra(3) unat_0 zero_less_numeral)
  ultimately show "fits (after a x) bs"
    using assms b u by (simp add: fits_def add_ac)
  show "unat (a + 16) = unat a + 16" using b by (subst unat_add_nowrap) simp_all
qed (use assms in \<open>auto simp: fits_def\<close>)

lemma hdrs_range: "fits a bs \<Longrightarrow> x \<in> hdrs a bs \<Longrightarrow> unat a \<le> unat x \<and> unat x + 16 \<le> unat a + bsize bs"
proof (induction bs arbitrary: a)
  case Nil
  then show ?case by simp
next
  case (Cons y bs)
  note f = fits_ConsD [OF Cons.prems(1)]
  show ?case
  proof (cases "x = a")
    case False
    then have "x \<in> hdrs (after a y) bs" using Cons.prems(2) by simp
    from Cons.IH [OF f(2) this] show ?thesis by (simp add: f(1))
  qed simp
qed

lemma hdrs_not_self: "fits a (x # bs) \<Longrightarrow> a \<notin> hdrs (after a x) bs"
  using fits_ConsD [of a x bs] hdrs_range [of "after a x" bs a] by fastforce

lemma align_up_16: "16 dvd unat x \<Longrightarrow> unat x \<le> 9223372036854775808 \<Longrightarrow> align_up x 16 = x"
proof -
  assume x: "16 dvd unat x" "unat x \<le> 9223372036854775808"
  then obtain q where q: "unat x = 16 * q" by (elim dvdE)
  have "unat (align_up x (2 ^ 4)) = (unat x + 2 ^ 4 - 1) div 2 ^ 4 * 2 ^ 4"
    by (rule unat_align_up_2p) (use x in simp_all)
  also have "(unat x + 2 ^ 4 - 1) div 2 ^ 4 = q" unfolding q by simp
  finally show "align_up x 16 = x" using q by (simp add: word_unat_eq_iff)
qed

lemma hdr_size: "hdr m a x \<Longrightarrow> hb_size (m a) = of_nat (fst x)"
proof -
  assume "hdr m a x"
  then have "fst x = unat (hb_size (m a))" by (simp add: hdr_def)
  then show ?thesis by simp
qed

lemma heap_next_eq:
  assumes "fits a (x # bs)" "hdr m a x"
  shows "heap_next m a = after a x"
proof -
  note f = fits_ConsD [OF assms(1)]
  have "16 dvd unat (after a x)" using f(2) by (simp add: fits_def)
  then have "align_up (after a x) 16 = after a x"
    by (rule align_up_16) (use f in simp)
  then show ?thesis using hdr_size [OF assms(2)] by (simp add: heap_next_def Let_def kSizeofHeapBlock_def after_def add_ac)
qed

lemma next_in: "fits a (x # bs) \<Longrightarrow> unat e = unat a + bsize (x # bs) \<Longrightarrow> a + kSizeofHeapBlock \<le> e"
  using fits_ConsD(6) by (fastforce simp: kSizeofHeapBlock_def word_le_nat_alt)

lemma next_out: "fits a [] \<Longrightarrow> unat e = unat a \<Longrightarrow> \<not> a + kSizeofHeapBlock \<le> e"
  by (subst word_le_nat_alt, subst unat_add_nowrap) (auto simp: kSizeofHeapBlock_def fits_def)

section \<open>Allocation\<close>

text \<open>First fit on lists of blocks: the offset of the chosen header, and the blocks afterwards.\<close>

definition take_blk :: "nat \<Rightarrow> nat \<Rightarrow> blk list" where
  "take_blk r n = (if r + 32 \<le> n then [(r, False), (n - r - 16, True)] else [(n, False)])"

primrec ff :: "nat \<Rightarrow> blk list \<Rightarrow> (nat \<times> blk list) option" where
  "ff r [] = None"
| "ff r (x # bs) = (if snd x \<and> r \<le> fst x then Some (0, take_blk r (fst x) @ bs)
     else map_option (\<lambda>(k, bs'). (16 + fst x + k, x # bs')) (ff r bs))"

lemma flag_clear: "(f AND NOT kHeapFree) AND kHeapFree = 0"
  by (rule bit_eqI) (simp add: bit_simps)

lemma flag_set: "(f OR kHeapFree) AND kHeapFree \<noteq> 0"
proof -
  have "bit ((f OR kHeapFree) AND kHeapFree) 0" by (simp add: bit_simps kHeapFree_def)
  then show ?thesis by auto
qed

lemma heap_take_ok:
  assumes f: "fits b (x # bs)" and bl: "blocks m b (x # bs)" and r: "16 dvd unat req" "unat req \<le> fst x"
  shows "blocks (heap_take b req m) b (take_blk (unat req) (fst x) @ bs) \<and> fits b (take_blk (unat req) (fst x) @ bs) \<and>
    bsize (take_blk (unat req) (fst x) @ bs) = bsize (x # bs) \<and>
    (\<forall>a. a \<notin> hdrs b (take_blk (unat req) (fst x) @ bs) \<longrightarrow> heap_take b req m a = m a)"
proof -
  note ff = fits_ConsD [OF f]
  have h: "hdr m b x" using bl by simp
  have p: "b + 16 + req = after b (unat req, False)" by (simp add: after_def add_ac)
  have fr: "fits b ((unat req, False) # bs)" using f r by (auto simp: fits_def)
  note g = fits_ConsD [OF fr, simplified fst_conv]
  have aln: "align_up (b + 16 + req) 16 = after b (unat req, False)"
    unfolding p by (rule align_up_16) (use g ff in \<open>auto simp: fits_def\<close>)
  have old: "align_up (b + 16 + hb_size (m b)) 16 = after b x"
    using heap_next_eq [OF f h] by (simp add: heap_next_def Let_def kSizeofHeapBlock_def)
  have un: "unat (after b (unat req, False) + 16 + 16) = unat b + unat req + 48" 
    by (subst unat_add_nowrap; (subst unat_add_nowrap)?) (use g ff r in simp_all)
  have cond: "after b (unat req, False) + 16 + 16 \<le> after b x \<longleftrightarrow> unat req + 32 \<le> fst x"
    unfolding word_le_nat_alt un ff(1) by auto
  show ?thesis
  proof (cases "unat req + 32 \<le> fst x")
    case False
    then have t: "heap_take b req m = m(b := (m b)\<lparr>hb_flags := hb_flags (m b) AND NOT kHeapFree\<rparr>)"
      using aln old cond by (simp add: heap_take_def Let_def kSizeofHeapBlock_def)
    have "blocks (heap_take b req m) (after b x) bs"
      by (subst blocks_cong [of _ _ _ m]) (use bl hdrs_not_self [OF f] t in auto)
    then show ?thesis using False h f t flag_clear
      by (auto simp: take_blk_def hdr_def after_def fits_def)
  next
    case True
    let ?n = "after b (unat req, False)"
    let ?y = "(fst x - unat req - 16, True)"
    have sz: "unat (after b x - (?n + 16)) = fst x - unat req - 16"
    proof -
      have u: "unat (?n + 16) = unat b + unat req + 32" using g ff r by (subst unat_add_nowrap) simp_all
      then show ?thesis using True ff(1) by (subst unat_sub) (simp_all add: word_le_nat_alt)
    qed
    have ne: "?n \<noteq> b" using g by (auto dest: arg_cong [of _ _ unat])
    have t: "heap_take b req m = m(?n := \<lparr>hb_magic = kHeapMagic, hb_flags = kHeapFree, hb_size = after b x - (?n + 16)\<rparr>,
        b := (m b)\<lparr>hb_size := req, hb_flags := hb_flags (m b) AND NOT kHeapFree\<rparr>)"
      using aln old cond True ne by (simp add: heap_take_def Let_def kSizeofHeapBlock_def fun_upd_twist)
    have d: "16 dvd fst x - unat req - 16" using ff(3) r(1) by (simp add: dvd_diff_nat)
    have f2: "fits ?n (?y # bs)" using g(2) ff(3) f True d g(1) by (auto simp: fits_def)
    have aft: "after ?n ?y = after b x"
      using fits_ConsD(1) [OF f2] g(1) ff(1) True by (simp add: word_unat_eq_iff)
    have nin: "b \<notin> hdrs (after b x) bs" "?n \<notin> hdrs (after b x) bs"
      using hdrs_not_self [OF f] hdrs_not_self [OF f2] aft by simp_all
    have "blocks (heap_take b req m) (after b x) bs"
      by (subst blocks_cong [of _ _ _ m]) (use bl nin t in auto)
    moreover have "hdr (heap_take b req m) b (unat req, False)" "hdr (heap_take b req m) ?n ?y"
      using h ne sz flag_clear by (auto simp: t hdr_def kHeapFree_def)
    moreover have "fits b (take_blk (unat req) (fst x) @ bs)"
      using f r d True by (auto simp: take_blk_def fits_def)
    ultimately show ?thesis using True aft t by (auto simp: take_blk_def)
  qed
qed

lemma hdr_free: "hdr m a x \<Longrightarrow> hb_flags (m a) AND kHeapFree = 0 \<longleftrightarrow> \<not> snd x"
  by (auto simp: hdr_def)

lemma hdr_fits_req: "hdr m a x \<Longrightarrow> hb_size (m a) < req \<longleftrightarrow> fst x < unat req"
  by (simp add: hdr_def word_less_nat_alt)

lemma first_fit_loop_ok:
  assumes "blocks m b bs" "fits b bs" "unat end = unat b + bsize bs" "16 dvd unat req"
  shows "case ff (unat req) bs of
      None \<Rightarrow> first_fit_loop end req m b steps = Some (NULL, steps + of_nat (length bs), m)
    | Some (k, bs') \<Rightarrow> \<exists>st m'. first_fit_loop end req m b steps = Some (b + of_nat k + kSizeofHeapBlock, st, m') \<and>
        blocks m' b bs' \<and> fits b bs' \<and> bsize bs' = bsize bs \<and> (\<forall>a. a \<notin> hdrs b bs' \<longrightarrow> m' a = m a)"
  using assms(1-3)
proof (induction bs arbitrary: b steps)
  case Nil
  then have "\<not> b + kSizeofHeapBlock \<le> end" by (intro next_out) simp_all
  then show ?case by (subst first_fit_loop.simps) simp
next
  case (Cons x bs)
  have h: "hdr m b x" using Cons.prems(1) by simp
  have mg: "hb_magic (m b) = kHeapMagic" using h by (simp add: hdr_def)
  have inside: "b + kSizeofHeapBlock \<le> end" by (rule next_in [OF Cons.prems(2,3)])
  note f = fits_ConsD [OF Cons.prems(2)]
  show ?case
  proof (cases "snd x \<and> unat req \<le> fst x")
    case True
    have "first_fit_loop end req m b steps = Some (b + kSizeofHeapBlock, steps + 1, heap_take b req m)"
      using inside mg hdr_free [OF h] hdr_fits_req [OF h, of req] True by (subst first_fit_loop.simps) simp
    then show ?thesis using heap_take_ok [OF Cons.prems(2,1) assms(4)] True by simp
  next
    case False
    have step: "first_fit_loop end req m b steps = first_fit_loop end req m (after b x) (steps + 1)"
      using inside mg hdr_free [OF h] hdr_fits_req [OF h, of req] False heap_next_eq [OF Cons.prems(2) h]
      by (subst first_fit_loop.simps) auto
    have bl: "blocks m (after b x) bs" using Cons.prems(1) by simp
    have e: "unat end = unat (after b x) + bsize bs" using f(1) Cons.prems(3) by simp
    note ih = Cons.IH [OF bl f(2) e, of "steps + 1"]
    show ?thesis
    proof (cases "ff (unat req) bs")
      case None
      then show ?thesis using ih step False by (auto simp: add_ac)
    next
      case (Some kb)
      obtain k bs' where kb: "kb = (k, bs')" by (cases kb)
      obtain st m' where m': "first_fit_loop end req m (after b x) (steps + 1) = Some (after b x + of_nat k + kSizeofHeapBlock, st, m')"
        "blocks m' (after b x) bs'" "fits (after b x) bs'" "bsize bs' = bsize bs" "\<forall>a. a \<notin> hdrs (after b x) bs' \<longrightarrow> m' a = m a"
        using ih Some kb by auto
      have "fits b (x # bs')" using m'(3,4) Cons.prems(2) by (auto simp: fits_def)
      moreover from hdrs_not_self [OF this] m'(5) h have "hdr m' b x" by (simp add: hdr_def)
      moreover have "after b x + of_nat k = b + of_nat (16 + fst x + k)" by (simp add: after_def)
      ultimately show ?thesis using False Some kb m' step by auto
    qed
  qed
qed

section \<open>Freeing\<close>

text \<open>Merging of neighbours, and the shape it leaves behind: no two free blocks in a row.\<close>

fun coal :: "blk list \<Rightarrow> blk list" where
  "coal [] = []"
| "coal [x] = [x]"
| "coal (x # y # bs) = (if snd x \<and> snd y then coal ((fst x + 16 + fst y, True) # bs) else x # coal (y # bs))"

definition no_adjacent :: "blk list \<Rightarrow> bool" where
  "no_adjacent bs \<longleftrightarrow> successively (\<lambda>x y. \<not> (snd x \<and> snd y)) bs"

lemma coal_hd: "bs \<noteq> [] \<Longrightarrow> coal bs \<noteq> [] \<and> snd (hd (coal bs)) = snd (hd bs)"
  by (induction bs rule: coal.induct) auto

lemma coal_no_adjacent: "no_adjacent (coal bs)"
proof (induction bs rule: coal.induct)
  case (3 x y bs)
  have "coal (y # bs) \<noteq> []" "snd (hd (coal (y # bs))) = snd y" using coal_hd [of "y # bs"] by simp_all
  then show ?case using 3 by (auto simp: no_adjacent_def successively_Cons)
qed (simp_all add: no_adjacent_def)

lemma coal_bsize [simp]: "bsize (coal bs) = bsize bs"
  by (induction bs rule: coal.induct) auto

lemma coalesce_loop_ok:
  assumes "blocks m b bs" "fits b bs" "unat end = unat b + bsize bs"
  shows "\<exists>m'. coalesce_loop end m b = Some m' \<and> blocks m' b (coal bs) \<and> fits b (coal bs) \<and>
    (\<forall>a. a \<notin> hdrs b bs \<longrightarrow> m' a = m a)"
  using assms
proof (induction bs arbitrary: m b rule: coal.induct)
  case 1
  then have "\<not> b + kSizeofHeapBlock \<le> end" by (intro next_out) simp_all
  then show ?case using 1 by (subst coalesce_loop.simps) simp
next
  case (2 x)
  note f = fits_ConsD [OF 2(2)]
  have h: "hdr m b x" using 2 by simp
  have "\<not> after b x + kSizeofHeapBlock \<le> end" by (rule next_out) (use f 2 in simp_all)
  then have "coalesce_loop end m b = Some m"
    using heap_next_eq [OF 2(2) h] by (subst coalesce_loop.simps) (simp add: Let_def not_le)
  then show ?case using 2 by simp
next
  case (3 x y bs)
  note f = fits_ConsD [OF 3(4)]
  note g = fits_ConsD [OF f(2)]
  let ?n = "after b x"
  have h: "hdr m b x" "hdr m ?n y" using 3(3) by simp_all
  have mg: "hb_magic (m b) = kHeapMagic" "hb_magic (m ?n) = kHeapMagic" using h by (simp_all add: hdr_def)
  have i1: "b + kSizeofHeapBlock \<le> end" by (rule next_in [OF 3(4,5)])
  have i2: "?n + kSizeofHeapBlock \<le> end" by (rule next_in [OF f(2)]) (use 3(5) f(1) in simp)
  have nx: "heap_next m b = ?n" by (rule heap_next_eq [OF 3(4) h(1)])
  show ?case
  proof (cases "snd x \<and> snd y")
    case False
    then have step: "coalesce_loop end m b = coalesce_loop end m ?n"
      using i1 i2 mg nx hdr_free [OF h(1)] hdr_free [OF h(2)]
      by (subst coalesce_loop.simps) (auto simp: Let_def not_less)
    have bl: "blocks m ?n (y # bs)" using 3(3) by simp
    have e: "unat end = unat ?n + bsize (y # bs)" using 3(5) f(1) by simp
    obtain m' where m': "coalesce_loop end m ?n = Some m'" "blocks m' ?n (coal (y # bs))" "fits ?n (coal (y # bs))"
      "\<forall>a. a \<notin> hdrs ?n (y # bs) \<longrightarrow> m' a = m a"
      using 3(2) [OF False bl f(2) e] by blast
    have "hdr m' b x" using h(1) m'(4) hdrs_not_self [OF 3(4)] by (simp add: hdr_def)
    moreover have "fits b (x # coal (y # bs))" using m'(3) 3(4) by (auto simp: fits_def)
    ultimately show ?thesis using False m' step by auto
  next
    case True
    let ?z = "(fst x + 16 + fst y, True)"
    have gap: "?n - b = 16 + hb_size (m b)"
      using hdr_size [OF h(1)] by (simp add: after_def)
    let ?m = "m(b := (m b)\<lparr>hb_size := hb_size (m b) + 16 + hb_size (m ?n)\<rparr>)"
    have step: "coalesce_loop end m b = coalesce_loop end ?m b"
      using i1 i2 mg nx hdr_free [OF h(1)] hdr_free [OF h(2)] True
      by (subst coalesce_loop.simps) (simp add: Let_def not_le [symmetric] gap add_ac)
    have aft: "after b ?z = after ?n y" by (simp add: after_def add_ac)
    have fz: "fits b (?z # bs)" using 3(4) f(3) g(3) by (auto simp: fits_def)
    have "unat (hb_size (m b) + 16 + hb_size (m ?n)) = fst x + 16 + fst y"
      using h f(4) g(4) f(1) by (subst unat_add_nowrap; (subst unat_add_nowrap)?) (simp_all add: hdr_def)
    then have hz: "hdr ?m b ?z" using h(1) True by (auto simp: hdr_def)
    have "blocks ?m (after b ?z) bs"
      by (subst blocks_cong [of _ _ _ m]) (use 3(3) hdrs_not_self [OF fz] aft in auto)
    then have bl: "blocks ?m b (?z # bs)" using hz by simp
    have e: "unat end = unat b + bsize (?z # bs)" using 3(5) by simp
    obtain m' where m': "coalesce_loop end ?m b = Some m'" "blocks m' b (coal (?z # bs))" "fits b (coal (?z # bs))"
      "\<forall>a. a \<notin> hdrs b (?z # bs) \<longrightarrow> m' a = ?m a"
      using 3(1) [OF True bl fz e] by blast
    then show ?thesis using True step aft by auto
  qed
qed

section \<open>Allocated blocks\<close>

text \<open>The payload address and size of every allocated block.\<close>

primrec allocd :: "addr \<Rightarrow> blk list \<Rightarrow> (addr \<times> nat) set" where
  "allocd a [] = {}"
| "allocd a (x # bs) = (if snd x then {} else {(a + 16, fst x)}) \<union> allocd (after a x) bs"

lemma after_bsize: "after (a + of_nat (bsize us)) x = a + of_nat (bsize (us @ [x]))"
  by (simp add: after_def add_ac)

lemma allocd_append: "allocd a (xs @ ys) = allocd a xs \<union> allocd (a + of_nat (bsize xs)) ys"
  by (induction xs arbitrary: a) (auto simp: after_def add_ac)

lemma hdrs_append: "hdrs a (xs @ ys) = hdrs a xs \<union> hdrs (a + of_nat (bsize xs)) ys"
  by (induction xs arbitrary: a) (auto simp: after_def add_ac)

lemma allocd_coal [simp]: "allocd a (coal bs) = allocd a bs"
proof (induction bs arbitrary: a rule: coal.induct)
  case (3 x y bs)
  have "after a (fst x + 16 + fst y, True) = after (after a x) y" by (simp add: after_def add_ac)
  then show ?case using 3 by auto
qed simp_all

lemma fits_appendD:
  assumes "fits a (us @ vs)"
  shows "unat (a + of_nat (bsize us)) = unat a + bsize us" "fits a us" "fits (a + of_nat (bsize us)) vs"
proof -
  have b: "unat a + bsize us + bsize vs \<le> 9223372036854775808" using assms by (simp add: fits_def)
  have "bsize us < 2 ^ 64" using b by simp
  then have "unat (of_nat (bsize us) :: addr) = bsize us" by (simp add: unat_of_nat)
  then show u: "unat (a + of_nat (bsize us)) = unat a + bsize us" using b by (subst unat_add_nowrap) simp_all
  have "16 dvd bsize us" if "\<forall>x \<in> set us. 16 dvd fst x" using that by (induction us) auto
  then have d: "16 dvd bsize us" using assms by (simp add: fits_def)
  show "fits a us" using assms by (simp add: fits_def)
  have "a + of_nat (bsize us) \<noteq> NULL"
  proof
    assume "a + of_nat (bsize us) = NULL"
    then have "unat a = 0" using u by simp
    then show False using assms by (simp add: fits_def unat_eq_0)
  qed
  then show "fits (a + of_nat (bsize us)) vs" using assms b d u by (simp add: fits_def)
qed

lemma allocd_range:
  "fits a bs \<Longrightarrow> (p, n) \<in> allocd a bs \<Longrightarrow> unat a + 16 \<le> unat p \<and> unat p + n \<le> unat a + bsize bs \<and> 16 dvd unat p"
proof (induction bs arbitrary: a)
  case Nil
  then show ?case by simp
next
  case (Cons x bs)
  note f = fits_ConsD [OF Cons.prems(1)]
  have al: "16 dvd unat a" using Cons.prems(1) by (simp add: fits_def)
  show ?case
  proof (cases "(p, n) \<in> allocd (after a x) bs")
    case True
    from Cons.IH [OF f(2) this] show ?thesis using f(1) by simp
  next
    case False
    then have "p = a + 16" "n = fst x" using Cons.prems(2) by (auto split: if_splits)
    then show ?thesis using f(6) al by simp
  qed
qed

lemma allocd_disjoint:
  "fits a bs \<Longrightarrow> (p, n) \<in> allocd a bs \<Longrightarrow> (q, k) \<in> allocd a bs \<Longrightarrow>
   p = q \<and> n = k \<or> unat p + n + 16 \<le> unat q \<or> unat q + k + 16 \<le> unat p"
proof (induction bs arbitrary: a)
  case Nil
  then show ?case by simp
next
  case (Cons x bs)
  note f = fits_ConsD [OF Cons.prems(1)]
  have r: "unat a + 16 + fst x + 16 \<le> unat r" if "(r, l) \<in> allocd (after a x) bs" for r l
    using allocd_range [OF f(2) that] f(1) by simp
  show ?case using Cons.prems(2,3) Cons.IH [OF f(2)] r f(6) by (auto split: if_splits; fastforce)
qed

lemma allocd_hdrs:
  "fits a bs \<Longrightarrow> (p, n) \<in> allocd a bs \<Longrightarrow> x \<in> hdrs a bs \<Longrightarrow> unat x + 16 \<le> unat p \<or> unat p + n \<le> unat x"
proof (induction bs arbitrary: a)
  case Nil
  then show ?case by simp
next
  case (Cons y bs)
  note f = fits_ConsD [OF Cons.prems(1)]
  have r: "unat a + 16 + fst y + 16 \<le> unat q" if "(q, l) \<in> allocd (after a y) bs" for q l
    using allocd_range [OF f(2) that] f(1) by simp
  have h: "unat a + 16 + fst y \<le> unat z" if "z \<in> hdrs (after a y) bs" for z
    using hdrs_range [OF f(2) that] f(1) by simp
  show ?case using Cons.prems(2,3) Cons.IH [OF f(2)] r h f(6) by (auto split: if_splits; fastforce)
qed

lemma ff_SomeD:
  "ff r bs = Some (k, bs') \<Longrightarrow> \<exists>us x vs. bs = us @ x # vs \<and> snd x \<and> r \<le> fst x \<and> bs' = us @ take_blk r (fst x) @ vs \<and> k = bsize us"
proof (induction bs arbitrary: k bs')
  case Nil
  then show ?case by simp
next
  case (Cons y bs)
  show ?case
  proof (cases "snd y \<and> r \<le> fst y")
    case True
    then have "y # bs = [] @ y # bs \<and> snd y \<and> r \<le> fst y \<and> bs' = [] @ take_blk r (fst y) @ bs \<and> k = bsize []"
      using Cons.prems by simp
    then show ?thesis by blast
  next
    case False
    then obtain k' bs'' where kb: "ff r bs = Some (k', bs'')" "k = 16 + fst y + k'" "bs' = y # bs''"
      using Cons.prems by auto
    obtain us x vs where u: "bs = us @ x # vs" "snd x" "r \<le> fst x" "bs'' = us @ take_blk r (fst x) @ vs" "k' = bsize us"
      using Cons.IH [OF kb(1)] by blast
    have "y # bs = (y # us) @ x # vs \<and> snd x \<and> r \<le> fst x \<and> bs' = (y # us) @ take_blk r (fst x) @ vs \<and> k = bsize (y # us)"
      using u kb by simp
    then show ?thesis by blast
  qed
qed

lemma ff_None_iff: "ff r bs = None \<longleftrightarrow> (\<forall>x \<in> set bs. snd x \<longrightarrow> fst x < r)"
  by (induction bs) auto

lemma ff_allocd:
  assumes "ff r bs = Some (k, bs')" "fits a bs" "no_adjacent bs"
  shows "\<exists>n. r \<le> n \<and> allocd a bs' = insert (a + of_nat k + 16, n) (allocd a bs) \<and>
    (\<forall>l. (a + of_nat k + 16, l) \<notin> allocd a bs) \<and> no_adjacent bs'"
proof -
  obtain us x vs where u: "bs = us @ x # vs" "snd x" "r \<le> fst x" "bs' = us @ take_blk r (fst x) @ vs" "k = bsize us"
    using ff_SomeD [OF assms(1)] by blast
  let ?h = "a + of_nat (bsize us)"
  note f = fits_appendD [OF assms(2) [unfolded u(1)]] and g = fits_ConsD [OF fits_appendD(3) [OF assms(2) [unfolded u(1)]]]
  have nin: "(?h + 16, l) \<notin> allocd a bs" for l
  proof
    assume "(?h + 16, l) \<in> allocd a bs"
    then have "(?h + 16, l) \<in> allocd a us \<or> (?h + 16, l) \<in> allocd (after ?h x) vs"
      using u(1,2) by (simp add: allocd_append)
    then show False
    proof
      assume "(?h + 16, l) \<in> allocd a us"
      from allocd_range [OF f(2) this] show False using g(6) f(1) by simp
    next
      assume "(?h + 16, l) \<in> allocd (after ?h x) vs"
      from allocd_range [OF g(2) this] show False using g(6,1) by simp
    qed
  qed
  have na: "no_adjacent (us @ x # vs)" using assms(3) u(1) by simp
  show ?thesis
  proof (cases "r + 32 \<le> fst x")
    case True
    have "after (after ?h (r, False)) (fst x - r - 16, True) = after ?h x"
    proof -
      have "(16 + r) + (16 + (fst x - r - 16)) = 16 + fst x" using True by simp
      then have "of_nat (16 + r) + of_nat (16 + (fst x - r - 16)) = (of_nat (16 + fst x) :: addr)"
        by (metis of_nat_add)
      then show ?thesis by (simp only: after_def fst_conv add.assoc)
    qed
    then have "allocd a bs' = insert (?h + 16, r) (allocd a bs)"
      using u(1,2,4) True by (auto simp: allocd_append take_blk_def)
    moreover have "no_adjacent bs'"
      using na u True by (auto simp: no_adjacent_def take_blk_def successively_append_iff successively_Cons)
    ultimately show ?thesis using nin u(5) by auto
  next
    case False
    have "after ?h (fst x, False) = after ?h x" by (simp add: after_def)
    then have "allocd a bs' = insert (?h + 16, fst x) (allocd a bs)"
      using u(1,2,4) False by (auto simp: allocd_append take_blk_def)
    moreover have "no_adjacent bs'"
      using na u False by (auto simp: no_adjacent_def take_blk_def successively_append_iff successively_Cons)
    ultimately show ?thesis using nin u(3,5) by auto
  qed
qed

lemma allocd_split:
  "(p, n) \<in> allocd a bs \<Longrightarrow> \<exists>us vs. bs = us @ (n, False) # vs \<and> p = a + of_nat (bsize us) + 16"
proof (induction bs arbitrary: a)
  case Nil
  then show ?case by simp
next
  case (Cons x bs)
  show ?case
  proof (cases "(p, n) \<in> allocd (after a x) bs")
    case True
    then obtain us vs where "bs = us @ (n, False) # vs" "p = after a x + of_nat (bsize us) + 16" using Cons.IH by blast
    then have "x # bs = (x # us) @ (n, False) # vs \<and> p = a + of_nat (bsize (x # us)) + 16" by (simp add: after_def add_ac)
    then show ?thesis by blast
  next
    case False
    then have "x # bs = [] @ (n, False) # bs \<and> p = a + of_nat (bsize []) + 16"
      using Cons.prems by (cases x) (auto split: if_splits)
    then show ?thesis by blast
  qed
qed

section \<open>The heap over time\<close>

text \<open>The invariant: the store spells out a list of blocks that fills the heap.\<close>

definition heap_shape :: "addr \<Rightarrow> u64 \<Rightarrow> hstore \<Rightarrow> blk list \<Rightarrow> bool" where
  "heap_shape base bytes m bs \<longleftrightarrow> blocks m base bs \<and> fits base bs \<and> bsize bs = unat bytes \<and> no_adjacent bs"

lemma heap_end: "heap_shape base bytes m bs \<Longrightarrow> unat (base + bytes) = unat base + bsize bs"
  by (subst unat_add_nowrap) (auto simp: heap_shape_def fits_def)

lemma heap_init_shape:
  assumes "16 dvd unat base" "base \<noteq> NULL" "16 dvd unat bytes" "bytes \<noteq> 0" "unat base + unat bytes \<le> 9223372036854775808"
  shows "heap_shape base bytes (heap_init base bytes m) [(unat bytes - 16, True)]"
proof -
  have b: "16 \<le> unat bytes" using assms(3,4) by (auto simp: unat_gt_0 intro: dvd_imp_le)
  then have "unat (bytes - 16) = unat bytes - 16" by (subst unat_sub) (simp_all add: word_le_nat_alt)
  then show ?thesis using assms b
    by (auto simp: heap_shape_def heap_init_def hdr_def fits_def no_adjacent_def kHeapFree_def kSizeofHeapBlock_def dvd_diff_nat)
qed

definition round16 :: "nat \<Rightarrow> nat" where
  "round16 n = (n + 15) div 16 * 16"

lemma heap_req:
  assumes "unat req \<le> 9223372036854775808"
  shows "unat (align_up req 16) = round16 (unat req)" "16 dvd unat (align_up req 16)" "unat req \<le> unat (align_up req 16)"
proof -
  have "unat (align_up req (2 ^ 4)) = (unat req + 2 ^ 4 - 1) div 2 ^ 4 * 2 ^ 4"
    by (rule unat_align_up_2p) (use assms in simp_all)
  then show u: "unat (align_up req 16) = round16 (unat req)" by (simp add: round16_def)
  show "16 dvd unat (align_up req 16)" by (simp add: u round16_def)
  show "unat req \<le> unat (align_up req 16)" unfolding u round16_def by presburger
qed

text \<open>Allocation: fails exactly when no free block is large enough, and otherwise carves a new block.\<close>

lemma heap_alloc_ok:
  assumes sh: "heap_shape base bytes m bs" and r: "req \<noteq> 0" "unat req \<le> 9223372036854775808"
  shows "\<exists>p st m'. heap_alloc_first_fit base bytes req m = Some (p, Some st, m') \<and>
    (if \<forall>x \<in> set bs. snd x \<longrightarrow> fst x < round16 (unat req) then p = NULL \<and> m' = m
     else p \<noteq> NULL \<and> (\<exists>bs' n. heap_shape base bytes m' bs' \<and> unat req \<le> n \<and> (\<forall>l. (p, l) \<notin> allocd base bs) \<and>
       allocd base bs' = insert (p, n) (allocd base bs) \<and> (\<forall>a. a \<notin> hdrs base bs' \<longrightarrow> m' a = m a)))"
proof -
  note q = heap_req [OF r(2)]
  have f: "blocks m base bs" "fits base bs" "no_adjacent bs" using sh by (simp_all add: heap_shape_def)
  have nn: "base \<noteq> NULL" using f(2) by (simp add: fits_def)
  note ok = first_fit_loop_ok [OF f(1,2) heap_end [OF sh] q(2), of 0]
  show ?thesis
  proof (cases "ff (unat (align_up req 16)) bs")
    case None
    then show ?thesis using ok nn r(1) ff_None_iff [of "unat (align_up req 16)" bs] q(1)
      by (auto simp: heap_alloc_first_fit_def)
  next
    case (Some kb)
    obtain k bs' where kb: "kb = (k, bs')" by (cases kb)
    from ff_allocd [OF Some [unfolded kb] f(2,3)] obtain n where n: "unat (align_up req 16) \<le> n"
      "allocd base bs' = insert (base + of_nat k + 16, n) (allocd base bs)" "\<forall>l. (base + of_nat k + 16, l) \<notin> allocd base bs"
      "no_adjacent bs'" by blast
    obtain st m' where m': "first_fit_loop (base + bytes) (align_up req 16) m base 0 = Some (base + of_nat k + 16, st, m')"
      "blocks m' base bs'" "fits base bs'" "bsize bs' = bsize bs" "\<forall>a. a \<notin> hdrs base bs' \<longrightarrow> m' a = m a"
      using ok Some kb by (auto simp: kSizeofHeapBlock_def)
    have "unat base + 16 \<le> unat (base + of_nat k + 16)" using allocd_range [OF m'(3)] n(2) by blast
    then have pn: "base + of_nat k + 16 \<noteq> NULL" by auto
    have sh': "heap_shape base bytes m' bs'" using sh m' n(4) by (simp add: heap_shape_def)
    have "\<not> (\<forall>x \<in> set bs. snd x \<longrightarrow> fst x < round16 (unat req))"
      using Some ff_None_iff [of "unat (align_up req 16)" bs] q(1) by auto
    moreover have "heap_alloc_first_fit base bytes req m = Some (base + of_nat k + 16, Some st, m')"
      using m'(1) nn r(1) by (simp add: heap_alloc_first_fit_def Let_def)
    moreover have "unat req \<le> n" using q(3) n(1) by simp
    ultimately show ?thesis using sh' n(2,3) m'(5) pn by auto
  qed
qed

text \<open>Freeing an allocated block removes it, and no two free blocks are neighbours afterwards.\<close>

lemma heap_free_ok:
  assumes sh: "heap_shape base bytes m bs" and p: "(p, n) \<in> allocd base bs" "n \<noteq> 0"
  shows "\<exists>m' bs'. heap_free base bytes p m = Some m' \<and> heap_shape base bytes m' bs' \<and>
    allocd base bs' = allocd base bs - {(p, n)} \<and> (\<forall>a. a \<notin> hdrs base bs \<longrightarrow> m' a = m a)"
proof -
  have f: "blocks m base bs" "fits base bs" using sh by (simp_all add: heap_shape_def)
  obtain us vs where u: "bs = us @ (n, False) # vs" "p = base + of_nat (bsize us) + 16" using allocd_split [OF p(1)] by blast
  let ?h = "base + of_nat (bsize us)"
  let ?fs = "us @ (n, True) # vs"
  note g = fits_appendD [OF f(2) [unfolded u(1)]]
  note k = fits_ConsD [OF g(3)]
  have hd: "hdr m ?h (n, False)" "blocks m base us" "blocks m (after ?h (n, False)) vs" using f(1) u(1) by (simp_all add: blocks_append)
  have nh: "?h \<notin> hdrs base us" using hdrs_range [OF g(2), of ?h] g(1) by auto
  have nv: "?h \<notin> hdrs (after ?h (n, False)) vs" by (rule hdrs_not_self [OF g(3)])
  let ?m = "m(?h := (m ?h)\<lparr>hb_flags := hb_flags (m ?h) OR kHeapFree\<rparr>)"
  have aft: "after ?h (n, True) = after ?h (n, False)" by (simp add: after_def)
  have "blocks ?m base us" by (subst blocks_cong [of _ _ _ m]) (use hd nh in auto)
  moreover have "blocks ?m (after ?h (n, True)) vs"
    unfolding aft by (subst blocks_cong [of _ _ _ m]) (use hd nv in auto)
  moreover have "hdr ?m ?h (n, True)" using hd(1) flag_set by (auto simp: hdr_def)
  ultimately have bl: "blocks ?m base ?fs" by (simp add: blocks_append)
  have ft: "fits base ?fs" using f(2) u(1) by (auto simp: fits_def)
  have en: "unat (base + bytes) = unat base + bsize ?fs" using heap_end [OF sh] u(1) by simp
  obtain m' where m': "coalesce_loop (base + bytes) ?m base = Some m'" "blocks m' base (coal ?fs)" "fits base (coal ?fs)"
    "\<forall>a. a \<notin> hdrs base ?fs \<longrightarrow> m' a = ?m a"
    using coalesce_loop_ok [OF bl ft en] by blast
  have hs: "hdrs base ?fs = hdrs base bs" using u(1) aft by (simp add: hdrs_append)
  have rng: "unat base + 16 \<le> unat p" "unat p + n \<le> unat base + bsize bs" using allocd_range [OF f(2) p(1)] by simp_all
  have "heap_free base bytes p m = Some m'"
  proof -
    have nn: "base \<noteq> NULL" "p \<noteq> NULL" using f(2) rng(1) by (auto simp: fits_def)
    have lo: "\<not> p < base + kSizeofHeapBlock"
    proof -
      have "unat (base + 16) = unat base + 16" using f(2) u(1) by (subst unat_add_nowrap) (auto simp: fits_def)
      then show ?thesis using rng(1) by (simp add: kSizeofHeapBlock_def word_less_nat_alt)
    qed
    have ph: "p - kSizeofHeapBlock = ?h" by (simp add: u(2) kSizeofHeapBlock_def)
    have mg: "hb_magic (m ?h) = kHeapMagic" using hd(1) by (simp add: hdr_def)
    have hi: "\<not> base + bytes \<le> p" using p(2) rng(2) heap_end [OF sh] by (simp add: word_le_nat_alt)
    show ?thesis using nn lo hi ph mg m'(1) by (simp add: heap_free_def heap_coalesce_def Let_def)
  qed
  moreover have "heap_shape base bytes m' (coal ?fs)"
    using m' sh u(1) coal_no_adjacent by (simp add: heap_shape_def)
  moreover have "allocd base (coal ?fs) = allocd base bs - {(p, n)}"
  proof -
    have "(p, n) \<notin> allocd base us" using allocd_range [OF g(2), of p n] u(2) g(1) k(6) by auto
    moreover have "(p, n) \<notin> allocd (after ?h (n, False)) vs" using allocd_range [OF k(2), of p n] u(2) k(1,6) by auto
    ultimately show ?thesis using u aft by (auto simp: allocd_append)
  qed
  moreover have "m' a = m a" if "a \<notin> hdrs base bs" for a
  proof -
    have "a \<noteq> ?h" using that u(1) by (auto simp: hdrs_append)
    then show ?thesis using m'(4) that hs by simp
  qed
  ultimately show ?thesis by blast
qed

text \<open>
  A client: it allocates, frees blocks it holds, and writes anything into them. A write may change what
  the store shows at any address whose 16 bytes meet a block the client holds. \<open>live\<close> gives the size the
  client asked for.
\<close>

definition off_limits :: "(addr \<Rightarrow> u64 option) \<Rightarrow> addr \<Rightarrow> bool" where
  "off_limits live a \<longleftrightarrow> (\<forall>p r. live p = Some r \<longrightarrow> unat a + 16 \<le> unat p \<or> unat p + unat r \<le> unat a)"

type_synonym client = "hstore \<times> (addr \<Rightarrow> u64 option)"

inductive heap_step :: "addr \<Rightarrow> u64 \<Rightarrow> client \<Rightarrow> client \<Rightarrow> bool" for base bytes where
  step_alloc: "heap_alloc_first_fit base bytes req m = Some (p, st, m') \<Longrightarrow> unat req \<le> 9223372036854775808 \<Longrightarrow>
    heap_step base bytes (m, live) (m', if p = NULL then live else live(p \<mapsto> req))"
| step_free: "live p = Some r \<Longrightarrow> heap_free base bytes p m = Some m' \<Longrightarrow>
    heap_step base bytes (m, live) (m', live(p := None))"
| step_write: "(\<forall>a. off_limits live a \<longrightarrow> m' a = m a) \<Longrightarrow> heap_step base bytes (m, live) (m', live)"

definition client_inv :: "addr \<Rightarrow> u64 \<Rightarrow> client \<Rightarrow> blk list \<Rightarrow> bool" where
  "client_inv base bytes = (\<lambda>(m, live) bs. heap_shape base bytes m bs \<and>
     (\<forall>p n. (p, n) \<in> allocd base bs \<longrightarrow> (\<exists>r. live p = Some r \<and> r \<noteq> 0 \<and> unat r \<le> n)) \<and>
     (\<forall>p. live p \<noteq> None \<longrightarrow> (\<exists>n. (p, n) \<in> allocd base bs)))"

lemma client_inv_held:
  assumes "client_inv base bytes (m, live) bs" "live p = Some r"
  shows "\<exists>n. (p, n) \<in> allocd base bs \<and> unat r \<le> n \<and> n \<noteq> 0"
proof -
  obtain n where n: "(p, n) \<in> allocd base bs" using assms by (auto simp: client_inv_def)
  then obtain r' where "live p = Some r'" "r' \<noteq> 0" "unat r' \<le> n" using assms(1) unfolding client_inv_def prod.case by blast
  moreover from this have "0 < unat r'" by (simp add: unat_gt_0)
  ultimately show ?thesis using assms(2) n by (auto intro!: exI [of _ n])
qed

lemma off_limits_mono: "live \<subseteq>\<^sub>m live' \<Longrightarrow> off_limits live' a \<Longrightarrow> off_limits live a"
  unfolding off_limits_def map_le_def by (metis domI)

lemma client_inv_off_limits:
  assumes "client_inv base bytes (m, live) bs" "a \<in> hdrs base bs"
  shows "off_limits live a"
proof -
  have "unat a + 16 \<le> unat p \<or> unat p + unat r \<le> unat a" if lp: "live p = Some r" for p r
  proof -
    obtain n where n: "(p, n) \<in> allocd base bs" "unat r \<le> n"
      using client_inv_held [OF assms(1) lp] by blast
    have "fits base bs" using assms(1) by (simp add: client_inv_def heap_shape_def)
    from allocd_hdrs [OF this n(1) assms(2)] n(2) show ?thesis by linarith
  qed
  then show ?thesis by (simp add: off_limits_def)
qed

lemma heap_step_inv:
  assumes "heap_step base bytes (m, live) (m', live')" "client_inv base bytes (m, live) bs"
  shows "\<exists>bs'. client_inv base bytes (m', live') bs'"
  using assms(1)
proof cases
  case (step_alloc req p st)
  have sh: "heap_shape base bytes m bs" using assms(2) by (simp add: client_inv_def)
  show ?thesis
  proof (cases "req = 0")
    case True
    then have "m' = m" "p = NULL" using step_alloc by (auto simp: heap_alloc_first_fit_def)
    then show ?thesis using assms(2) step_alloc by auto
  next
    case False
    note ok = heap_alloc_ok [OF sh False step_alloc(3)]
    show ?thesis
    proof (cases "p = NULL")
      case True
      then show ?thesis using ok step_alloc assms(2) by (auto split: if_splits)
    next
      case pn: False
      let ?full = "\<forall>x \<in> set bs. snd x \<longrightarrow> fst x < round16 (unat req)"
      obtain p1 st1 m1 where a: "heap_alloc_first_fit base bytes req m = Some (p1, Some st1, m1)"
        "if ?full then p1 = NULL \<and> m1 = m
         else p1 \<noteq> NULL \<and> (\<exists>bs' n. heap_shape base bytes m1 bs' \<and> unat req \<le> n \<and> (\<forall>l. (p1, l) \<notin> allocd base bs) \<and>
           allocd base bs' = insert (p1, n) (allocd base bs) \<and> (\<forall>a. a \<notin> hdrs base bs' \<longrightarrow> m1 a = m a))"
        using ok by blast
      have e: "p1 = p" "m1 = m'" using a(1) step_alloc(2) by simp_all
      have "\<not> ?full"
      proof
        assume ?full
        from a(2) [unfolded if_P [OF this]] show False using pn e by simp
      qed
      from a(2) [unfolded if_not_P [OF this] e]
      obtain bs' n where n: "heap_shape base bytes m' bs'" "unat req \<le> n" "\<forall>l. (p, l) \<notin> allocd base bs"
        "allocd base bs' = insert (p, n) (allocd base bs)"
        by blast
      have "client_inv base bytes (m', live(p \<mapsto> req)) bs'"
        using assms(2) n False by (auto simp: client_inv_def)
      then show ?thesis using step_alloc pn by auto
    qed
  qed
next
  case (step_free p r)
  have sh: "heap_shape base bytes m bs" using assms(2) by (simp add: client_inv_def)
  have f: "fits base bs" using sh by (simp add: heap_shape_def)
  obtain n where n: "(p, n) \<in> allocd base bs" "n \<noteq> 0" using client_inv_held [OF assms(2) step_free(2)] by blast
  from heap_free_ok [OF sh n] obtain bs' where b: "heap_shape base bytes m' bs'" "allocd base bs' = allocd base bs - {(p, n)}"
    using step_free by auto
  have only: "q \<noteq> p" if "(q, k) \<in> allocd base bs'" for q k
  proof
    assume "q = p"
    with that b(2) have "(p, k) \<in> allocd base bs" "k \<noteq> n" by auto
    with allocd_disjoint [OF f n(1), of p k] show False by simp
  qed
  have "client_inv base bytes (m', live(p := None)) bs'"
    unfolding client_inv_def prod.case
  proof (intro conjI allI impI)
    show "heap_shape base bytes m' bs'" by (rule b(1))
    show "\<exists>r. (live(p := None)) q = Some r \<and> r \<noteq> 0 \<and> unat r \<le> k" if "(q, k) \<in> allocd base bs'" for q k
      using that only [OF that] b(2) assms(2) by (simp add: client_inv_def)
    show "\<exists>k. (q, k) \<in> allocd base bs'" if "(live(p := None)) q \<noteq> None" for q
      using that b(2) assms(2) by (auto simp: client_inv_def split: if_splits)
  qed
  then show ?thesis using step_free by auto
next
  case step_write
  have "m' a = m a" if "a \<in> hdrs base bs" for a
    using client_inv_off_limits [OF assms(2) that] step_write by simp
  then have "blocks m' base bs = blocks m base bs" by (intro blocks_cong) simp
  then have "client_inv base bytes (m', live) bs" using assms(2) by (simp add: client_inv_def heap_shape_def)
  then show ?thesis using step_write by auto
qed


definition heap_example :: hstore where
  "heap_example = (\<lambda>_. \<lparr>hb_magic = 0, hb_flags = 0, hb_size = 0\<rparr>)"

lemma heap_example_alloc:
  "heap_alloc_first_fit 0x1000 0x80 20 (heap_init 0x1000 0x80 heap_example) =
     Some (0x1010, Some 1, heap_take 0x1000 32 (heap_init 0x1000 0x80 heap_example))"
  unfolding heap_alloc_first_fit_def Let_def
  by (subst first_fit_loop.simps)
    (simp add: heap_init_def kSizeofHeapBlock_def kHeapMagic_def kHeapFree_def align_up_def)


text \<open>
  The rounding of the request is not checked: a request within 15 bytes of \<open>2 ^ 64\<close> rounds to 0 and is
  served, with an empty block.
\<close>

lemma heap_alloc_wraps:
  "\<exists>m'. heap_alloc_first_fit 0x1000 0x80 0xFFFFFFFFFFFFFFF8 (heap_init 0x1000 0x80 heap_example) = Some (0x1010, Some 1, m') \<and>
    hb_size (m' 0x1000) = 0"
  unfolding heap_alloc_first_fit_def Let_def
  by (subst first_fit_loop.simps)
    (simp add: heap_init_def heap_take_def kSizeofHeapBlock_def kHeapMagic_def kHeapFree_def align_up_def)

text \<open>The statistics are those of the list of blocks.\<close>

lemma stats_loop_ok:
  assumes "blocks m b bs" "fits b bs" "unat end = unat b + bsize bs"
    and "unat tot + (\<Sum>x\<leftarrow>filter snd bs. fst x) < 2 ^ 64"
  shows "\<exists>t l c. stats_loop end m b (tot, largest, count) = Some (t, l, c) \<and>
    unat t = unat tot + (\<Sum>x\<leftarrow>filter snd bs. fst x) \<and>
    unat l = fold max (map fst (filter snd bs)) (unat largest) \<and> c = count + of_nat (length (filter snd bs))"
  using assms
proof (induction bs arbitrary: b tot largest count)
  case Nil
  then have "\<not> b + kSizeofHeapBlock \<le> end" by (intro next_out) simp_all
  then show ?case by (subst stats_loop.simps) simp
next
  case (Cons x bs)
  have h: "hdr m b x" using Cons.prems(1) by simp
  note f = fits_ConsD [OF Cons.prems(2)]
  have mg: "hb_magic (m b) = kHeapMagic" "unat (hb_size (m b)) = fst x" using h by (simp_all add: hdr_def)
  have i: "b + kSizeofHeapBlock \<le> end" by (rule next_in [OF Cons.prems(2,3)])
  have bl: "blocks m (after b x) bs" and e: "unat end = unat (after b x) + bsize bs"
    using Cons.prems(1,3) f(1) by simp_all
  note nx = heap_next_eq [OF Cons.prems(2) h]
  show ?case
  proof (cases "snd x")
    case False
    then have "stats_loop end m b (tot, largest, count) = stats_loop end m (after b x) (tot, largest, count)"
      using i mg nx hdr_free [OF h] by (subst stats_loop.simps) simp
    then show ?thesis using Cons.IH [OF bl f(2) e, of tot largest count] Cons.prems(4) False by simp
  next
    case True
    let ?t = "tot + hb_size (m b)" and ?l = "if largest < hb_size (m b) then hb_size (m b) else largest"
    have ut: "unat ?t = unat tot + fst x" using Cons.prems(4) True mg by (subst unat_add_nowrap) simp_all
    have ul: "unat ?l = max (fst x) (unat largest)" using mg by (auto simp: word_less_nat_alt)
    have "stats_loop end m b (tot, largest, count) = stats_loop end m (after b x) (?t, ?l, count + 1)"
      using i mg nx hdr_free [OF h] True by (subst stats_loop.simps) simp
    then show ?thesis using Cons.IH [OF bl f(2) e, of ?t ?l "count + 1"] Cons.prems(4) True ut ul
      by (auto simp: add_ac)
  qed
qed

lemma heap_stats_ok:
  assumes "heap_shape base bytes m bs"
  shows "\<exists>t l c. heap_stats base bytes m = Some (t, l, c) \<and> unat t = (\<Sum>x\<leftarrow>filter snd bs. fst x) \<and>
    unat l = fold max (map fst (filter snd bs)) 0 \<and> c = of_nat (length (filter snd bs))"
proof -
  have "(\<Sum>x\<leftarrow>filter snd bs. fst x) \<le> bsize bs" by (induction bs) auto
  then have "unat (0 :: u64) + (\<Sum>x\<leftarrow>filter snd bs. fst x) < 2 ^ 64" using assms by (auto simp: heap_shape_def fits_def)
  then show ?thesis
    using stats_loop_ok [of m base bs "base + bytes" 0 0 0] assms heap_end [OF assms]
    by (simp add: heap_stats_def heap_shape_def)
qed

end
