(* ===== verification/Spinlock.thy ===== *)
theory Spinlock
  imports Prelude
begin

text \<open>
  The spinlocks of \<^verbatim>\<open>src/spinlock.cc\<close> under interleaving. Any number of agents (CPUs) call \<^verbatim>\<open>raw_spin_lock\<close>,
  \<^verbatim>\<open>raw_spin_trylock\<close>, \<^verbatim>\<open>spin_lock\<close>, \<^verbatim>\<open>spin_trylock\<close>, \<^verbatim>\<open>spin_lock_irqsave\<close> and the unlock functions on any
  number of locks, nested in any order, and are interleaved between the instructions that access memory:
  \<^verbatim>\<open>ldaxr\<close> and \<^verbatim>\<open>stxr\<close> are separate steps, and between them stands the exclusive monitor. A store to a
  monitored address clears the monitor, an exception may, and \<^verbatim>\<open>stxr\<close> may fail for no reason, as the
  architecture allows. Memory is sequentially consistent (the acquire and release qualifiers and the
  compiler barriers have no effect in this model), and no agent nests \<open>2 ^ 31\<close> locks; the reschedule inside \<^verbatim>\<open>preempt_enable\<close> is not part of it.
\<close>

section \<open>State\<close>

datatype lock_call = RawLock | RawTry | SpinLock | SpinTry | IrqLock

text \<open>How a lock was taken; \<open>Irq f\<close> keeps the saved interrupt flags.\<close>

datatype kind = Raw | Spin | Irq u64

text \<open>The place of an agent inside the lock functions. The flag says whether the call gives up on failure.\<close>

datatype spc =
    Idle
  | PreemptOff bool addr
  | IrqSave addr
  | Ldaxr bool kind addr
  | Stxr bool kind addr
  | Failed bool kind addr
  | SpinWait kind addr
  | PreemptOffAfter addr
  | IrqRestore u64
  | PreemptOn

record spst =
  lockv :: "addr \<Rightarrow> u32"
  monitor :: "nat \<Rightarrow> addr option"
  pc :: "nat \<Rightarrow> spc"
  preempt_cnt :: "nat \<Rightarrow> u32"
  daif :: "nat \<Rightarrow> u64"
  held :: "nat \<Rightarrow> (addr \<times> kind) list"

definition goto :: "nat \<Rightarrow> spc \<Rightarrow> spst \<Rightarrow> spst" where
  "goto a p s = s\<lparr>pc := (pc s)(a := p)\<rparr>"

definition preempt_disable_at :: "nat \<Rightarrow> spst \<Rightarrow> spst" where
  "preempt_disable_at a s = s\<lparr>preempt_cnt := (preempt_cnt s)(a := preempt_cnt s a + 1)\<rparr>"

definition preempt_enable_at :: "nat \<Rightarrow> spst \<Rightarrow> spst" where
  "preempt_enable_at a s = (if preempt_cnt s a = 0 then s
     else s\<lparr>preempt_cnt := (preempt_cnt s)(a := preempt_cnt s a - 1)\<rparr>)"

text \<open>A store to a lock word: every agent loses its monitor on it.\<close>

definition store_lock :: "addr \<Rightarrow> u32 \<Rightarrow> spst \<Rightarrow> spst" where
  "store_lock l v s = s\<lparr>lockv := (lockv s)(l := v),
     monitor := (\<lambda>b. if monitor s b = Some l then None else monitor s b)\<rparr>"

definition clrex :: "nat \<Rightarrow> spst \<Rightarrow> spst" where
  "clrex a s = s\<lparr>monitor := (monitor s)(a := None)\<rparr>"

section \<open>Steps\<close>

fun entry :: "lock_call \<Rightarrow> addr \<Rightarrow> spc" where
  "entry RawLock l = Ldaxr False Raw l"
| "entry RawTry l = Ldaxr True Raw l"
| "entry SpinLock l = PreemptOff False l"
| "entry SpinTry l = PreemptOff True l"
| "entry IrqLock l = IrqSave l"

fun retry :: "kind \<Rightarrow> addr \<Rightarrow> spc" where
  "retry Spin l = PreemptOff False l"
| "retry k l = Ldaxr False k l"

fun acquired :: "kind \<Rightarrow> addr \<Rightarrow> spc" where
  "acquired (Irq f) l = PreemptOffAfter l"
| "acquired k l = Idle"

fun released :: "kind \<Rightarrow> spc" where
  "released Raw = Idle"
| "released Spin = PreemptOn"
| "released (Irq f) = IrqRestore f"

definition after_failure :: "nat \<Rightarrow> bool \<Rightarrow> kind \<Rightarrow> addr \<Rightarrow> spst \<Rightarrow> spst" where
  "after_failure a tr k l s =
     goto a (if tr then Idle else SpinWait k l) (if k = Spin then preempt_enable_at a s else s)"

inductive spin_step :: "spst \<Rightarrow> spst \<Rightarrow> bool" where
  call_null: "pc s a = Idle \<Longrightarrow> spin_step s s"
| call: "pc s a = Idle \<Longrightarrow> l \<noteq> NULL \<Longrightarrow> length (held s a) < 2147483648 \<Longrightarrow> spin_step s (goto a (entry c l) s)"
| preempt_off: "pc s a = PreemptOff tr l \<Longrightarrow> spin_step s (goto a (Ldaxr tr Spin l) (preempt_disable_at a s))"
| irq_save: "pc s a = IrqSave l \<Longrightarrow>
    spin_step s (goto a (Ldaxr False (Irq (daif s a)) l) (s\<lparr>daif := (daif s)(a := daif s a OR 0x80)\<rparr>))"
| ldaxr_free: "pc s a = Ldaxr tr k l \<Longrightarrow> lockv s l = 0 \<Longrightarrow>
    spin_step s (goto a (Stxr tr k l) (s\<lparr>monitor := (monitor s)(a := Some l)\<rparr>))"
| ldaxr_taken: "pc s a = Ldaxr tr k l \<Longrightarrow> lockv s l \<noteq> 0 \<Longrightarrow> spin_step s (goto a (Failed tr k l) (clrex a s))"
| stxr_ok: "pc s a = Stxr tr k l \<Longrightarrow> monitor s a = Some l \<Longrightarrow>
    spin_step s (goto a (acquired k l) ((store_lock l 1 s)\<lparr>held := (held s)(a := (l, k) # held s a)\<rparr>))"
| stxr_fail: "pc s a = Stxr tr k l \<Longrightarrow> spin_step s (goto a (Failed tr k l) (clrex a s))"
| failed: "pc s a = Failed tr k l \<Longrightarrow> spin_step s (after_failure a tr k l s)"
| wait_taken: "pc s a = SpinWait k l \<Longrightarrow> lockv s l \<noteq> 0 \<Longrightarrow> spin_step s s"
| wait_free: "pc s a = SpinWait k l \<Longrightarrow> lockv s l = 0 \<Longrightarrow> spin_step s (goto a (retry k l) s)"
| preempt_off_after: "pc s a = PreemptOffAfter l \<Longrightarrow> spin_step s (goto a Idle (preempt_disable_at a s))"
| unlock: "pc s a = Idle \<Longrightarrow> (l, k) \<in> set (held s a) \<Longrightarrow>
    spin_step s (goto a (released k) ((store_lock l 0 s)\<lparr>held := (held s)(a := remove1 (l, k) (held s a))\<rparr>))"
| irq_restore: "pc s a = IrqRestore f \<Longrightarrow> spin_step s (goto a PreemptOn (s\<lparr>daif := (daif s)(a := f)\<rparr>))"
| preempt_on: "pc s a = PreemptOn \<Longrightarrow> spin_step s (goto a Idle (preempt_enable_at a s))"
| exception: "spin_step s (clrex a s)"

definition raw_spin_init :: "addr \<Rightarrow> spst \<Rightarrow> spst" where
  "raw_spin_init l s = (if l = NULL then s else store_lock l 0 s)"

definition spin_start :: spst where
  "spin_start = \<lparr>lockv = (\<lambda>_. 0), monitor = (\<lambda>_. None), pc = (\<lambda>_. Idle), preempt_cnt = (\<lambda>_. 0), daif = (\<lambda>_. 0),
     held = (\<lambda>_. [])\<rparr>"

section \<open>Invariant\<close>

definition counted :: "kind \<Rightarrow> bool" where
  "counted k \<longleftrightarrow> k \<noteq> Raw"

fun pending_off :: "spc \<Rightarrow> nat" where
  "pending_off (Ldaxr t k l) = (if k = Spin then 1 else 0)"
| "pending_off (Stxr t k l) = (if k = Spin then 1 else 0)"
| "pending_off (Failed t k l) = (if k = Spin then 1 else 0)"
| "pending_off (IrqRestore f) = 1"
| "pending_off PreemptOn = 1"
| "pending_off p = 0"

fun missing_off :: "spc \<Rightarrow> nat" where
  "missing_off (PreemptOffAfter l) = 1"
| "missing_off p = 0"

definition holds :: "spst \<Rightarrow> nat \<Rightarrow> addr \<Rightarrow> bool" where
  "holds s a l \<longleftrightarrow> l \<in> fst ` set (held s a)"

definition lock_inv :: "spst \<Rightarrow> bool" where
  "lock_inv s \<longleftrightarrow> (\<forall>a l. monitor s a = Some l \<longrightarrow> lockv s l = 0) \<and>
     (\<forall>l. lockv s l = 0 \<or> lockv s l = 1) \<and>
     (\<forall>l. lockv s l \<noteq> 0 \<longleftrightarrow> (\<exists>a. holds s a l)) \<and>
     (\<forall>a b l. holds s a l \<longrightarrow> holds s b l \<longrightarrow> a = b) \<and>
     (\<forall>a. distinct (map fst (held s a)))"

definition weight :: "spst \<Rightarrow> nat \<Rightarrow> nat" where
  "weight s a = length (filter (counted \<circ> snd) (held s a)) + pending_off (pc s a)"

fun acquiring :: "spc \<Rightarrow> bool" where
  "acquiring Idle \<longleftrightarrow> False"
| "acquiring (PreemptOffAfter l) \<longleftrightarrow> False"
| "acquiring (IrqRestore f) \<longleftrightarrow> False"
| "acquiring PreemptOn \<longleftrightarrow> False"
| "acquiring p \<longleftrightarrow> True"

definition count_inv :: "spst \<Rightarrow> bool" where
  "count_inv s \<longleftrightarrow> (\<forall>a. unat (preempt_cnt s a) + missing_off (pc s a) = weight s a \<and>
     length (held s a) \<le> 2147483648 \<and> (acquiring (pc s a) \<longrightarrow> length (held s a) < 2147483648))"

lemmas step_defs = goto_def preempt_disable_at_def preempt_enable_at_def store_lock_def clrex_def after_failure_def

text \<open>The steps that do not store to a lock word.\<close>

lemma lock_inv_frame:
  assumes "lock_inv s" "lockv t = lockv s" "held t = held s"
    and "\<And>a l. monitor t a = Some l \<Longrightarrow> monitor s a = Some l \<or> lockv s l = 0"
  shows "lock_inv t"
  using assms unfolding lock_inv_def holds_def by (metis (no_types, lifting))

lemma lock_inv_store:
  assumes "lock_inv s" "monitor s a = Some l"
  shows "lock_inv (goto a p ((store_lock l 1 s)\<lparr>held := (held s)(a := (l, k) # held s a)\<rparr>))"
proof -
  have free: "lockv s l = 0" using assms by (simp add: lock_inv_def)
  then have "\<not> holds s b l" for b using assms(1) unfolding lock_inv_def by metis
  note none = this
  have hs: "holds (goto a p ((store_lock l 1 s)\<lparr>held := (held s)(a := (l, k) # held s a)\<rparr>)) b x \<longleftrightarrow>
      holds s b x \<or> b = a \<and> x = l" for b x
    by (auto simp: holds_def step_defs)
  have "l \<notin> set (map fst (held s a))" using none [of a] by (simp add: holds_def)
  then show ?thesis unfolding lock_inv_def hs
    using assms(1) none unfolding lock_inv_def by (auto simp: step_defs split: if_splits)
qed

lemma holds_remove1:
  assumes "distinct (map fst xs)" "(l, k) \<in> set xs"
  shows "fst ` set (remove1 (l, k) xs) = fst ` set xs - {l}" "distinct (map fst (remove1 (l, k) xs))"
proof -
  have d: "distinct xs" using assms(1) by (simp add: distinct_map)
  show "fst ` set (remove1 (l, k) xs) = fst ` set xs - {l}"
  proof -
    have "m = k" if "(l, m) \<in> set xs" for m by (rule eq_key_imp_eq_value [OF assms(1) that assms(2)])
    then have only: "x = (l, k)" if "x \<in> set xs" "fst x = l" for x using that by (cases x) simp
    have "fst x \<noteq> l" if "x \<in> set xs" "x \<noteq> (l, k)" for x using only [OF that(1)] that(2) by blast
    then have "set xs - {(l, k)} = {x \<in> set xs. fst x \<noteq> l}" by fastforce
    then have "set (remove1 (l, k) xs) = {x \<in> set xs. fst x \<noteq> l}" by (simp only: set_remove1_eq [OF d])
    then show ?thesis by auto
  qed
  show "distinct (map fst (remove1 (l, k) xs))"
    using assms d by (auto simp: distinct_map distinct_remove1 set_remove1_eq intro: inj_on_subset)
qed

lemma lock_inv_unlock:
  assumes "lock_inv s" "(l, k) \<in> set (held s a)"
  shows "lock_inv (goto a p ((store_lock l 0 s)\<lparr>held := (held s)(a := remove1 (l, k) (held s a))\<rparr>))"
proof -
  have d: "distinct (map fst (held s a))" using assms(1) by (simp add: lock_inv_def)
  note r = holds_remove1 [OF d assms(2)]
  have h: "holds s a l" using assms(2) by (force simp: holds_def)
  have hs: "holds (goto a p ((store_lock l 0 s)\<lparr>held := (held s)(a := remove1 (l, k) (held s a))\<rparr>)) b x \<longleftrightarrow> holds s b x \<and> x \<noteq> l" for b x
  proof -
    have u: "holds s b l \<longrightarrow> b = a" using h assms(1) unfolding lock_inv_def by blast
    show ?thesis using u r(1) by (cases "b = a") (auto simp: holds_def step_defs)
  qed
  show ?thesis unfolding lock_inv_def hs
    using assms(1) r(2) unfolding lock_inv_def by (auto simp: step_defs)
qed

lemma lock_inv_step: "spin_step s t \<Longrightarrow> lock_inv s \<Longrightarrow> lock_inv t"
proof (induction rule: spin_step.induct)
  case (stxr_ok s a tr k l)
  then show ?case by (intro lock_inv_store)
next
  case (unlock s a l k)
  then show ?case by (intro lock_inv_unlock)
qed (erule lock_inv_frame; auto simp: step_defs split: if_splits)+

lemma weight_remove1:
  "(l, k) \<in> set xs \<Longrightarrow> length (filter (counted \<circ> snd) xs) =
    (if counted k then Suc (length (filter (counted \<circ> snd) (remove1 (l, k) xs)))
     else length (filter (counted \<circ> snd) (remove1 (l, k) xs)))"
  by (induction xs) auto

lemma weight_less: "length (filter P xs) \<le> length xs"
  by (rule length_filter_le)

lemma unat_cnt_plus: "unat (c :: u32) < 4294967295 \<Longrightarrow> unat (c + 1) = unat c + 1"
  by (subst unat_word_ariths) simp

lemma unat_cnt_minus: "c \<noteq> 0 \<Longrightarrow> unat (c - 1 :: u32) = unat c - 1"
  by (rule unat_minus_one)

lemma count_inv_at:
  assumes "count_inv s" "\<And>b. b \<noteq> a \<Longrightarrow> preempt_cnt t b = preempt_cnt s b \<and> pc t b = pc s b \<and> held t b = held s b"
    and "unat (preempt_cnt t a) + missing_off (pc t a) = weight t a"
    and "length (held t a) \<le> 2147483648" "acquiring (pc t a) \<Longrightarrow> length (held t a) < 2147483648"
  shows "count_inv t"
  unfolding count_inv_def
proof
  fix b
  show "unat (preempt_cnt t b) + missing_off (pc t b) = weight t b \<and> length (held t b) \<le> 2147483648 \<and>
      (acquiring (pc t b) \<longrightarrow> length (held t b) < 2147483648)"
    using assms by (cases "b = a") (auto simp: count_inv_def weight_def)
qed

lemma count_invD:
  assumes "count_inv s"
  shows "unat (preempt_cnt s a) + missing_off (pc s a) = weight s a" "length (held s a) \<le> 2147483648"
    "acquiring (pc s a) \<Longrightarrow> length (held s a) < 2147483648"
  using assms by (auto simp: count_inv_def)

lemma cnt_small: "count_inv s \<Longrightarrow> unat (preempt_cnt s a) < 4294967295"
proof -
  assume i: "count_inv s"
  have "pending_off (pc s a) \<le> 1" by (cases "pc s a") auto
  then have "weight s a \<le> length (held s a) + 1" unfolding weight_def by (intro add_mono weight_less) simp_all
  then show ?thesis using count_invD(1,2) [OF i, of a] by linarith
qed

lemma count_inv_step: "spin_step s t \<Longrightarrow> count_inv s \<Longrightarrow> count_inv t"
proof (induction rule: spin_step.induct)
  case (call s a l c)
  note d = count_invD [OF call(4), of a]
  show ?case by (rule count_inv_at [OF call(4), where a = a]) (use call d in \<open>cases c; auto simp: step_defs weight_def\<close>)+
next
  case (preempt_off s a tr l)
  note d = count_invD [OF preempt_off(2), of a] and c = unat_cnt_plus [OF cnt_small [OF preempt_off(2)], of a]
  show ?case by (rule count_inv_at [OF preempt_off(2), where a = a]) (use preempt_off d c in \<open>auto simp: step_defs weight_def\<close>)
next
  case (irq_save s a l)
  note d = count_invD [OF irq_save(2), of a]
  show ?case by (rule count_inv_at [OF irq_save(2), where a = a]) (use irq_save d in \<open>auto simp: step_defs weight_def\<close>)
next
  case (ldaxr_free s a tr k l)
  note d = count_invD [OF ldaxr_free(3), of a]
  show ?case by (rule count_inv_at [OF ldaxr_free(3), where a = a]) (use ldaxr_free d in \<open>auto simp: step_defs weight_def\<close>)
next
  case (ldaxr_taken s a tr k l)
  note d = count_invD [OF ldaxr_taken(3), of a]
  show ?case by (rule count_inv_at [OF ldaxr_taken(3), where a = a]) (use ldaxr_taken d in \<open>auto simp: step_defs weight_def\<close>)
next
  case (stxr_ok s a tr k l)
  note d = count_invD [OF stxr_ok(3), of a]
  show ?case by (rule count_inv_at [OF stxr_ok(3), where a = a])
    (use stxr_ok d in \<open>cases k; auto simp: step_defs weight_def counted_def\<close>)+
next
  case (stxr_fail s a tr k l)
  note d = count_invD [OF stxr_fail(2), of a]
  show ?case by (rule count_inv_at [OF stxr_fail(2), where a = a]) (use stxr_fail d in \<open>auto simp: step_defs weight_def\<close>)
next
  case (failed s a tr k l)
  note d = count_invD [OF failed(2), of a]
  have "preempt_cnt s a \<noteq> 0" if "k = Spin" using d(1) failed(1) that by (auto simp: weight_def)
  then have c: "k = Spin \<Longrightarrow> preempt_cnt s a \<noteq> 0 \<and> unat (preempt_cnt s a - 1) + 1 = unat (preempt_cnt s a)"
    by (simp add: unat_cnt_minus unat_gt_0 Suc_leI)
  show ?case by (rule count_inv_at [OF failed(2), where a = a])
    (use failed d c in \<open>auto simp: step_defs weight_def split: if_splits\<close>)
next
  case (wait_free s a k l)
  note d = count_invD [OF wait_free(3), of a]
  show ?case by (rule count_inv_at [OF wait_free(3), where a = a]) (use wait_free d in \<open>cases k; auto simp: step_defs weight_def\<close>)+
next
  case (preempt_off_after s a l)
  note d = count_invD [OF preempt_off_after(2), of a] and c = unat_cnt_plus [OF cnt_small [OF preempt_off_after(2)], of a]
  show ?case by (rule count_inv_at [OF preempt_off_after(2), where a = a]) (use preempt_off_after d c in \<open>auto simp: step_defs weight_def\<close>)
next
  case (unlock s a l k)
  note d = count_invD [OF unlock(3), of a] and w = weight_remove1 [OF unlock(2)]
  have "length (remove1 (l, k) (held s a)) \<le> length (held s a)" by (simp add: length_remove1)
  then show ?case by (intro count_inv_at [OF unlock(3), where a = a])
    (use unlock d w in \<open>cases k; auto simp: step_defs weight_def counted_def\<close>)+
next
  case (irq_restore s a f)
  note d = count_invD [OF irq_restore(2), of a]
  show ?case by (rule count_inv_at [OF irq_restore(2), where a = a]) (use irq_restore d in \<open>auto simp: step_defs weight_def\<close>)
next
  case (preempt_on s a)
  note d = count_invD [OF preempt_on(2), of a]
  have n: "preempt_cnt s a \<noteq> 0" using d(1) preempt_on(1) by (auto simp: weight_def)
  have c: "unat (preempt_cnt s a - 1) + 1 = unat (preempt_cnt s a)" using n by (simp add: unat_cnt_minus unat_gt_0 Suc_leI)
  show ?case by (rule count_inv_at [OF preempt_on(2), where a = a]) (use preempt_on d c n in \<open>auto simp: step_defs weight_def\<close>)
qed (simp_all add: count_inv_def weight_def clrex_def)

section \<open>Mutual exclusion\<close>

lemma spin_reach_inv:
  assumes "spin_step\<^sup>*\<^sup>* spin_start s"
  shows "lock_inv s \<and> count_inv s"
  using assms
proof (induction rule: rtranclp_induct)
  case base
  show ?case by (simp add: lock_inv_def count_inv_def holds_def weight_def spin_start_def)
next
  case (step s t)
  then show ?case using lock_inv_step count_inv_step by blast
qed

text \<open>
  C40: in every interleaving of any number of agents no two of them ever hold the same lock, and the lock word
  is zero exactly when nobody does. Whenever an agent is outside the lock functions, its preemption count
  is the number of locks it holds through the \<^verbatim>\<open>spin_\<close> functions: preemption is off while it holds one,
  and a call that fails, or waits and retries, leaves no trace in the count.
\<close>
theorem spin_mutual_exclusion:
  assumes "spin_step\<^sup>*\<^sup>* spin_start s"
  shows "(\<forall>a b l. holds s a l \<longrightarrow> holds s b l \<longrightarrow> a = b) \<and> (\<forall>l. lockv s l = 0 \<longleftrightarrow> \<not> (\<exists>a. holds s a l)) \<and>
    (\<forall>a. pc s a = Idle \<longrightarrow> unat (preempt_cnt s a) = length (filter (\<lambda>(l, k). k \<noteq> Raw) (held s a)))"
proof -
  note inv = spin_reach_inv [OF assms]
  have "unat (preempt_cnt s a) = length (filter (\<lambda>(l, k). k \<noteq> Raw) (held s a))" if "pc s a = Idle" for a
  proof -
    have "(counted \<circ> snd) = (\<lambda>(l :: addr, k). k \<noteq> Raw)" by (auto simp: counted_def)
    then show ?thesis using count_invD(1) [OF conjunct2 [OF inv], of a] that by (simp add: weight_def)
  qed
  then show ?thesis using inv unfolding lock_inv_def by blast
qed

text \<open>An undisturbed acquisition of a free lock.\<close>

lemma spin_lock_free:
  assumes "pc s a = Idle" "l \<noteq> NULL" "lockv s l = 0" "length (held s a) < 2147483648"
  shows "\<exists>t. spin_step\<^sup>*\<^sup>* s t \<and> pc t a = Idle \<and> held t a = (l, Spin) # held s a \<and> lockv t l = 1"
proof -
  let ?s1 = "goto a (PreemptOff False l) s"
  let ?s2 = "goto a (Ldaxr False Spin l) (preempt_disable_at a ?s1)"
  let ?s3 = "goto a (Stxr False Spin l) (?s2\<lparr>monitor := (monitor ?s2)(a := Some l)\<rparr>)"
  let ?s4 = "goto a (acquired Spin l) ((store_lock l 1 ?s3)\<lparr>held := (held ?s3)(a := (l, Spin) # held ?s3 a)\<rparr>)"
  have "spin_step s ?s1" using spin_step.call [OF assms(1,2,4), of SpinLock] by simp
  moreover have "spin_step ?s1 ?s2" by (rule spin_step.preempt_off) (simp add: goto_def)
  moreover have "spin_step ?s2 ?s3" by (rule spin_step.ldaxr_free) (use assms(3) in \<open>simp_all add: step_defs\<close>)
  moreover have "spin_step ?s3 ?s4" by (rule spin_step.stxr_ok [where tr = False]) (simp_all add: step_defs)
  ultimately have "spin_step\<^sup>*\<^sup>* s ?s4" by (meson converse_rtranclp_into_rtranclp rtranclp.rtrancl_refl)
  then show ?thesis by (intro exI [of _ ?s4]) (simp add: step_defs)
qed

theorem spin_mutual_exclusion_witness:
  "\<exists>s. spin_step\<^sup>*\<^sup>* spin_start s \<and> holds s 0 0x1000 \<and> (\<forall>b. holds s b 0x1000 \<longrightarrow> b = 0) \<and> preempt_cnt s 0 = 1"
proof -
  obtain s where s: "spin_step\<^sup>*\<^sup>* spin_start s" "pc s 0 = Idle" "held s 0 = [(0x1000, Spin)]"
    using spin_lock_free [of spin_start 0 "0x1000"] by (auto simp: spin_start_def)
  note m = spin_mutual_exclusion [OF s(1)]
  have "unat (preempt_cnt s 0) = 1" using m s(2,3) by simp
  then have "preempt_cnt s 0 = 1" by (simp add: word_unat_eq_iff)
  moreover have h: "holds s 0 0x1000" by (simp add: holds_def s(3))
  ultimately show ?thesis using m s(1) by blast
qed

end
