(* ===== verification/DmaLab.thy ===== *)
theory DmaLab
  imports Dma Kmem Uart
begin

text \<open>
  The cache-coherence demonstrations of \<^verbatim>\<open>src/dma_lab.cc\<close>: six cases that leave out one step of cache
  maintenance, expect to see the stale data, then do the step and expect the right data. They run on the memory
  of \<open>Cache\<close>, in which the cache may act between any two accesses, with buffers from the boot heap.

  A multi-byte access is a sequence of byte accesses, so the cache may even act inside it. The local
  array \<^verbatim>\<open>expected\<close>, which no device sees, is a function from indices to bytes. Barriers have no effect of their own.
\<close>

section \<open>State and helpers\<close>

record labst =
  lm :: cmem
  lheap :: kmem
  llog :: string

definition lputs :: "string \<Rightarrow> labst \<Rightarrow> labst" where
  "lputs t s = s\<lparr>llog := llog s @ t\<rparr>"

definition on_lm :: "(cmem \<Rightarrow> cmem option) \<Rightarrow> labst \<Rightarrow> labst option" where
  "on_lm f s = map_option (\<lambda>c. s\<lparr>lm := c\<rparr>) (f (lm s))"

definition read_lm :: "(cmem \<Rightarrow> ('a \<times> cmem) option) \<Rightarrow> labst \<Rightarrow> ('a \<times> labst) option" where
  "read_lm f s = map_option (\<lambda>(v, c). (v, s\<lparr>lm := c\<rparr>)) (f (lm s))"

definition lalloc :: "u64 \<Rightarrow> u64 \<Rightarrow> labst \<Rightarrow> addr \<times> labst" where
  "lalloc sz align s = (let (p, h) = kmem_alloc_aligned (lheap s) sz align in (p, s\<lparr>lheap := h\<rparr>))"

definition to_alias :: "addr \<Rightarrow> u64 \<Rightarrow> addr" where
  "to_alias p len =
     (if p = NULL \<or> len = 0 then NULL
      else let start = p;
               end = start + (len - 1)
           in if end < start then NULL
              else if start < 0x40000000 \<or> end \<ge> 0x80000000 then NULL
              else start + 0x40000000)"

text \<open>Stores of \<open>f i\<close>, \<open>f (i + 1)\<close>, ... at \<open>p + i\<close>, \<open>p + i + 1\<close>, ...\<close>

primrec store_loop :: "hw \<Rightarrow> (nat \<Rightarrow> u8) \<Rightarrow> addr \<Rightarrow> nat \<Rightarrow> nat \<Rightarrow> cmem \<Rightarrow> cmem option" where
  "store_loop H f p i 0 c = Some c"
| "store_loop H f p i (Suc n) c = Option.bind (cpu_store H (p + of_nat i) (f i) c) (store_loop H f p (Suc i) n)"

definition pattern_byte :: "u8 \<Rightarrow> nat \<Rightarrow> u8" where
  "pattern_byte seed i = seed + of_nat (i * 7)"

definition memfill :: "hw \<Rightarrow> addr \<Rightarrow> nat \<Rightarrow> u8 \<Rightarrow> cmem \<Rightarrow> cmem option" where
  "memfill H p len seed = store_loop H (pattern_byte seed) p 0 len"

definition memfill_const :: "hw \<Rightarrow> addr \<Rightarrow> nat \<Rightarrow> u8 \<Rightarrow> cmem \<Rightarrow> cmem option" where
  "memfill_const H p len v = store_loop H (\<lambda>_. v) p 0 len"

text \<open>The comparison of memory with \<^verbatim>\<open>expected\<close>; the result is the index or -1.\<close>

primrec mismatch_loop :: "hw \<Rightarrow> (nat \<Rightarrow> u8) \<Rightarrow> addr \<Rightarrow> nat \<Rightarrow> nat \<Rightarrow> cmem \<Rightarrow> (int \<times> cmem) option" where
  "mismatch_loop H f p i 0 c = Some (-1, c)"
| "mismatch_loop H f p i (Suc n) c =
     do { (v, c) \<leftarrow> cpu_load H (p + of_nat i) c;
          if v \<noteq> f i then Some (int i, c) else mismatch_loop H f p (Suc i) n c }"

definition first_mismatch :: "hw \<Rightarrow> addr \<Rightarrow> (nat \<Rightarrow> u8) \<Rightarrow> nat \<Rightarrow> cmem \<Rightarrow> (int \<times> cmem) option" where
  "first_mismatch H p f len = mismatch_loop H f p 0 len"

definition device_memcpy :: "hw \<Rightarrow> addr \<Rightarrow> addr \<Rightarrow> nat \<Rightarrow> cmem \<Rightarrow> cmem option" where
  "device_memcpy H dst src len = dma_memcpy H dst src len"

definition clean_to_poc :: "hw \<Rightarrow> addr \<Rightarrow> u64 \<Rightarrow> cmem \<Rightarrow> cmem option" where
  "clean_to_poc H p len = dc_cvac_range H p len"

definition invalidate_for_cpu :: "hw \<Rightarrow> addr \<Rightarrow> u64 \<Rightarrow> cmem \<Rightarrow> cmem option" where
  "invalidate_for_cpu H p len = dc_ivac_range H p len"

text \<open>Multi-byte accesses of the CPU, little-endian.\<close>

primrec cpu_load_bytes :: "hw \<Rightarrow> addr \<Rightarrow> nat \<Rightarrow> cmem \<Rightarrow> (u8 list \<times> cmem) option" where
  "cpu_load_bytes H p 0 c = Some ([], c)"
| "cpu_load_bytes H p (Suc n) c =
     do { (v, c) \<leftarrow> cpu_load H p c; (vs, c) \<leftarrow> cpu_load_bytes H (p + 1) n c; Some (v # vs, c) }"

definition cpu_load64 :: "hw \<Rightarrow> addr \<Rightarrow> cmem \<Rightarrow> (u64 \<times> cmem) option" where
  "cpu_load64 H p c = map_option (\<lambda>(vs, c). (from_le vs, c)) (cpu_load_bytes H p 8 c)"

definition cpu_load32 :: "hw \<Rightarrow> addr \<Rightarrow> cmem \<Rightarrow> (u32 \<times> cmem) option" where
  "cpu_load32 H p c = map_option (\<lambda>(vs, c). (from_le vs, c)) (cpu_load_bytes H p 4 c)"

definition cpu_store64 :: "hw \<Rightarrow> addr \<Rightarrow> u64 \<Rightarrow> cmem \<Rightarrow> cmem option" where
  "cpu_store64 H p v = store_loop H (\<lambda>i. to_le 8 v ! i) p 0 8"

definition cpu_store32 :: "hw \<Rightarrow> addr \<Rightarrow> u32 \<Rightarrow> cmem \<Rightarrow> cmem option" where
  "cpu_store32 H p v = store_loop H (\<lambda>i. to_le 4 v ! i) p 0 4"

section \<open>The cases\<close>

definition case1_cpu_to_dev_stale_src :: "hw \<Rightarrow> labst \<Rightarrow> (bool \<times> labst) option" where
  "case1_cpu_to_dev_stale_src H s =
     (let s = lputs (''[dma-lab][1] stale read CPU->device (missing clean)'' @ [newline]) s;
          s = lputs (''[dma-lab][1] why: device reads via NC alias, CPU dirty cache not visible'' @ [newline]) s;
          (src, s) = lalloc 1024 64 s;
          (dst, s) = lalloc 1024 64 s;
          src_alias = to_alias src 1024;
          dst_alias = to_alias dst 1024
      in if src = NULL \<or> dst = NULL \<or> src_alias = NULL \<or> dst_alias = NULL then Some (False, s)
         else do {
           s \<leftarrow> on_lm (memfill_const H src 1024 0x11) s;
           s \<leftarrow> on_lm (dc_cvac_range H src 1024) s;
           s \<leftarrow> on_lm (dc_ivac_range H src 1024) s;
           s \<leftarrow> on_lm (memfill_const H dst 1024 0) s;
           s \<leftarrow> on_lm (dc_cvac_range H dst 1024) s;
           s \<leftarrow> on_lm (dc_ivac_range H dst 1024) s;
           s \<leftarrow> on_lm (memfill H src 1024 0x80) s;
           s \<leftarrow> on_lm (device_memcpy H dst_alias src_alias 1024) s;
           s \<leftarrow> on_lm (invalidate_for_cpu H dst 1024) s;
           (mismatch, s) \<leftarrow> read_lm (first_mismatch H dst (pattern_byte 0x80) 1024) s;
           if mismatch < 0 then
             Some (False, lputs (''[dma-lab][1] ERR unexpected PASS (bug did not reproduce)'' @ [newline]) s)
           else do {
             let s = lputs (''[dma-lab][1] OK expected FAIL without clean: mismatch@'' @
                            uart_print_u64 (word_of_int mismatch) @ [newline]) s;
             s \<leftarrow> on_lm (clean_to_poc H src 1024) s;
             s \<leftarrow> on_lm (device_memcpy H dst_alias src_alias 1024) s;
             s \<leftarrow> on_lm (invalidate_for_cpu H dst 1024) s;
             (mismatch, s) \<leftarrow> read_lm (first_mismatch H dst (pattern_byte 0x80) 1024) s;
             if mismatch \<ge> 0 then
               Some (False, lputs (''[dma-lab][1] ERR fix failed: still mismatching@'' @
                                   uart_print_u64 (word_of_int mismatch) @ [newline]) s)
             else Some (True, lputs (''[dma-lab][1] OK fixed PASS (clean + dma_wmb)'' @ [newline]) s)
           }
         })"

definition case2_dev_to_cpu_stale_dst :: "hw \<Rightarrow> labst \<Rightarrow> (bool \<times> labst) option" where
  "case2_dev_to_cpu_stale_dst H s =
     (let s = lputs (''[dma-lab][2] stale read device->CPU (missing invalidate)'' @ [newline]) s;
          s = lputs (''[dma-lab][2] why: device writes memory via NC alias, CPU may keep stale cache line'' @ [newline]) s;
          (dst, s) = lalloc 1024 64 s;
          dst_alias = to_alias dst 1024
      in if dst = NULL \<or> dst_alias = NULL then Some (False, s)
         else do {
           s \<leftarrow> on_lm (memfill_const H dst 1024 0xAA) s;
           s \<leftarrow> on_lm (dc_cvac_range H dst 1024) s;
           s \<leftarrow> on_lm (memfill_const H dst_alias 1024 0x55) s;
           (i, s) \<leftarrow> read_lm (first_mismatch H dst (\<lambda>_. 0xAA) 1024) s;
           let saw_new = i \<ge> 0;
           if saw_new then
             Some (False, lputs (''[dma-lab][2] ERR unexpected PASS (CPU observed device write without invalidate)'' @ [newline]) s)
           else do {
             let s = lputs (''[dma-lab][2] OK expected FAIL without invalidate (CPU kept stale cache)'' @ [newline]) s;
             s \<leftarrow> on_lm (invalidate_for_cpu H dst 1024) s;
             (i, s) \<leftarrow> read_lm (first_mismatch H dst (\<lambda>_. 0x55) 1024) s;
             if i \<ge> 0 then do {
               (v, s) \<leftarrow> read_lm (cpu_load H (dst + word_of_int i)) s;
               Some (False, lputs (''[dma-lab][2] ERR fix failed: dst mismatch@'' @ uart_print_u64 (word_of_int i) @
                 '' val=0x'' @ puthex64 (ucast v) @ [newline]) s)
             }
             else Some (True, lputs (''[dma-lab][2] OK fixed PASS (dma_rmb + invalidate)'' @ [newline]) s)
           }
         })"

text \<open>\<^verbatim>\<open>LabDesc\<close>: the fields \<^verbatim>\<open>src\<close>, \<^verbatim>\<open>dst\<close>, \<^verbatim>\<open>len\<close>, \<^verbatim>\<open>cookie\<close> at offsets 0, 8, 16, 24.\<close>

definition kSizeofLabDesc :: u64 where "kSizeofLabDesc = 32"

definition write_lab_desc :: "hw \<Rightarrow> addr \<Rightarrow> u64 \<Rightarrow> u64 \<Rightarrow> u64 \<Rightarrow> u64 \<Rightarrow> cmem \<Rightarrow> cmem option" where
  "write_lab_desc H d src dst len cookie c = do {
     c \<leftarrow> cpu_store64 H d src c;
     c \<leftarrow> cpu_store64 H (d + 8) dst c;
     c \<leftarrow> cpu_store64 H (d + 16) len c;
     cpu_store64 H (d + 24) cookie c
   }"

definition device_process_desc :: "hw \<Rightarrow> addr \<Rightarrow> cmem \<Rightarrow> (bool \<times> cmem) option" where
  "device_process_desc H desc_alias c =
     (if desc_alias = NULL then Some (False, c)
      else do {
        (len, c) \<leftarrow> cpu_load64 H (desc_alias + 16) c;
        (src, c) \<leftarrow> cpu_load64 H desc_alias c;
        (dst, c) \<leftarrow> cpu_load64 H (desc_alias + 8) c;
        if len = 0 \<or> len > 4096 then Some (False, c)
        else map_option (\<lambda>c. (True, c)) (device_memcpy H dst src (unat len) c)
      })"

definition case3_descriptor_stale_fields :: "hw \<Rightarrow> labst \<Rightarrow> (bool \<times> labst) option" where
  "case3_descriptor_stale_fields H s =
     (let s = lputs (''[dma-lab][3] descriptor stale fields (missing clean)'' @ [newline]) s;
          s = lputs (''[dma-lab][3] why: device reads descriptor via NC alias; CPU must clean before publish'' @ [newline]) s;
          (src, s) = lalloc 512 64 s;
          (dst, s) = lalloc 512 64 s;
          (desc, s) = lalloc kSizeofLabDesc 64 s
      in if src = NULL \<or> dst = NULL \<or> desc = NULL then Some (False, s)
         else let src_alias = to_alias src 512;
                  dst_alias = to_alias dst 512;
                  desc_alias = to_alias desc kSizeofLabDesc
              in if src_alias = NULL \<or> dst_alias = NULL \<or> desc_alias = NULL then Some (False, s)
         else do {
           s \<leftarrow> on_lm (memfill H src 512 0x10) s;
           s \<leftarrow> on_lm (clean_to_poc H src 512) s;
           s \<leftarrow> on_lm (memfill_const H dst 512 0) s;
           s \<leftarrow> on_lm (clean_to_poc H dst 512) s;
           s \<leftarrow> on_lm (memfill_const H desc 32 0) s;
           s \<leftarrow> on_lm (dc_cvac_range H desc kSizeofLabDesc) s;
           s \<leftarrow> on_lm (dc_ivac_range H desc kSizeofLabDesc) s;
           s \<leftarrow> on_lm (write_lab_desc H desc src_alias dst_alias 512 0x1234) s;
           (ok, s) \<leftarrow> read_lm (device_process_desc H desc_alias) s;
           s \<leftarrow> on_lm (invalidate_for_cpu H dst 512) s;
           (mismatch, s) \<leftarrow> read_lm (first_mismatch H dst (pattern_byte 0x10) 512) s;
           if ok \<or> mismatch < 0 then
             Some (False, lputs (''[dma-lab][3] ERR unexpected PASS (descriptor bug did not reproduce)'' @ [newline]) s)
           else do {
             let s = lputs (''[dma-lab][3] OK expected FAIL without descriptor clean (device saw len=0)'' @ [newline]) s;
             s \<leftarrow> on_lm (clean_to_poc H desc kSizeofLabDesc) s;
             (ok, s) \<leftarrow> read_lm (device_process_desc H desc_alias) s;
             s \<leftarrow> on_lm (invalidate_for_cpu H dst 512) s;
             (mismatch, s) \<leftarrow> read_lm (first_mismatch H dst (pattern_byte 0x10) 512) s;
             if \<not> ok \<or> mismatch \<ge> 0 then
               Some (False, lputs (''[dma-lab][3] ERR fix failed (clean + dma_wmb)'' @ [newline]) s)
             else Some (True, lputs (''[dma-lab][3] OK fixed PASS (clean desc + dma_wmb)'' @ [newline]) s)
           }
         })"

definition case4_publish_ordering_head_vs_desc :: "hw \<Rightarrow> labst \<Rightarrow> (bool \<times> labst) option" where
  "case4_publish_ordering_head_vs_desc H s =
     (let s = lputs (''[dma-lab][4] publish ordering (head visible before desc)'' @ [newline]) s;
          s = lputs (''[dma-lab][4] why: must order desc clean before doorbell/head publish (dma_wmb)'' @ [newline]) s;
          (src, s) = lalloc 256 64 s;
          (dst, s) = lalloc 256 64 s;
          (desc, s) = lalloc kSizeofLabDesc 64 s;
          (head, s) = lalloc 8 64 s
      in if src = NULL \<or> dst = NULL \<or> desc = NULL \<or> head = NULL then Some (False, s)
         else let src_alias = to_alias src 256;
                  dst_alias = to_alias dst 256;
                  desc_alias = to_alias desc kSizeofLabDesc;
                  head_alias = to_alias head 8
              in if src_alias = NULL \<or> dst_alias = NULL \<or> desc_alias = NULL \<or> head_alias = NULL then Some (False, s)
         else do {
           s \<leftarrow> on_lm (memfill H src 256 0x33) s;
           s \<leftarrow> on_lm (clean_to_poc H src 256) s;
           s \<leftarrow> on_lm (memfill_const H dst 256 0) s;
           s \<leftarrow> on_lm (clean_to_poc H dst 256) s;
           s \<leftarrow> on_lm (cpu_store64 H head 0) s;
           s \<leftarrow> on_lm (clean_to_poc H head 8) s;
           s \<leftarrow> on_lm (memfill_const H desc 32 0) s;
           s \<leftarrow> on_lm (dc_cvac_range H desc kSizeofLabDesc) s;
           s \<leftarrow> on_lm (dc_ivac_range H desc kSizeofLabDesc) s;
           s \<leftarrow> on_lm (write_lab_desc H desc src_alias dst_alias 256 0xfeed) s;
           s \<leftarrow> on_lm (cpu_store64 H head desc_alias) s;
           s \<leftarrow> on_lm (dc_cvac_range H head 8) s;
           (observed, s) \<leftarrow> read_lm (cpu_load64 H head_alias) s;
           (ok, s) \<leftarrow> read_lm (device_process_desc H observed) s;
           s \<leftarrow> on_lm (invalidate_for_cpu H dst 256) s;
           (mismatch, s) \<leftarrow> read_lm (first_mismatch H dst (pattern_byte 0x33) 256) s;
           if ok \<or> mismatch < 0 then
             Some (False, lputs (''[dma-lab][4] ERR unexpected PASS (publish ordering bug did not reproduce)'' @ [newline]) s)
           else do {
             let s = lputs (''[dma-lab][4] OK expected FAIL (head published but desc not cleaned)'' @ [newline]) s;
             s \<leftarrow> on_lm (clean_to_poc H desc kSizeofLabDesc) s;
             s \<leftarrow> on_lm (dc_cvac_range H head 8) s;
             (observed, s) \<leftarrow> read_lm (cpu_load64 H head_alias) s;
             (ok, s) \<leftarrow> read_lm (device_process_desc H observed) s;
             s \<leftarrow> on_lm (invalidate_for_cpu H dst 256) s;
             (mismatch, s) \<leftarrow> read_lm (first_mismatch H dst (pattern_byte 0x33) 256) s;
             if \<not> ok \<or> mismatch \<ge> 0 then
               Some (False, lputs (''[dma-lab][4] ERR fix failed (desc clean before publish)'' @ [newline]) s)
             else Some (True, lputs (''[dma-lab][4] OK fixed PASS (clean desc + dma_wmb before publish)'' @ [newline]) s)
           }
         })"

text \<open>\<^verbatim>\<open>for (i = 0; i < n; ++i) if (*flag_vol == 1) { saw = true; break; }\<close>\<close>

primrec poll_flag :: "hw \<Rightarrow> addr \<Rightarrow> nat \<Rightarrow> cmem \<Rightarrow> (bool \<times> cmem) option" where
  "poll_flag H flag 0 c = Some (False, c)"
| "poll_flag H flag (Suc n) c =
     do { (v, c) \<leftarrow> cpu_load32 H flag c; if v = 1 then Some (True, c) else poll_flag H flag n c }"

definition case5_completion_flag_race :: "hw \<Rightarrow> labst \<Rightarrow> (bool \<times> labst) option" where
  "case5_completion_flag_race H s =
     (let s = lputs (''[dma-lab][5] completion flag race (missing invalidate on poll)'' @ [newline]) s;
          s = lputs (''[dma-lab][5] why: polling cacheable flag needs invalidate/rmb to observe device writes'' @ [newline]) s;
          (flag, s) = lalloc 4 64 s
      in if flag = NULL then Some (False, s)
         else let flag_alias = to_alias flag 4
              in if flag_alias = NULL then Some (False, s)
         else do {
           s \<leftarrow> on_lm (cpu_store32 H flag 0) s;
           s \<leftarrow> on_lm (clean_to_poc H flag 4) s;
           (_, s) \<leftarrow> read_lm (cpu_load32 H flag) s;
           s \<leftarrow> on_lm (cpu_store32 H flag_alias 1) s;
           (saw, s) \<leftarrow> read_lm (poll_flag H flag 200000) s;
           if saw then
             Some (False, lputs (''[dma-lab][5] ERR unexpected PASS (saw completion without invalidate)'' @ [newline]) s)
           else do {
             let s = lputs (''[dma-lab][5] OK expected FAIL (stuck on stale cached flag)'' @ [newline]) s;
             s \<leftarrow> on_lm (invalidate_for_cpu H flag 4) s;
             (v, s) \<leftarrow> read_lm (cpu_load32 H flag) s;
             if v \<noteq> 1 then
               Some (False, lputs (''[dma-lab][5] ERR fix failed: still not seeing completion'' @ [newline]) s)
             else Some (True, lputs (''[dma-lab][5] OK fixed PASS (dma_rmb + invalidate)'' @ [newline]) s)
           }
         })"

definition case6_cacheline_sharing_hazard :: "hw \<Rightarrow> labst \<Rightarrow> (bool \<times> labst) option" where
  "case6_cacheline_sharing_hazard H s =
     (let s = lputs (''[dma-lab][6] cache line sharing hazard (invalidate drops dirty neighbor)'' @ [newline]) s;
          s = lputs (''[dma-lab][6] why: invalidate works on whole lines; DMA buffers must not share lines'' @ [newline]) s;
          line = dcache_line_size H
      in if line < 32 \<or> line AND (line - 1) \<noteq> 0 then
           Some (False, lputs (''[dma-lab][6] unsupported dcache line size'' @ [newline]) s)
         else let (base, s) = lalloc (line * 2) line s
         in if base = NULL then Some (False, s)
         else let guard = base; buf = base + 1; len = line - 2; buf_alias = to_alias buf len
         in if buf_alias = NULL then Some (False, s)
         else do {
           s \<leftarrow> on_lm (memfill_const H base (unat line) 0) s;
           s \<leftarrow> on_lm (clean_to_poc H base line) s;
           s \<leftarrow> on_lm (dc_ivac_range H base line) s;
           s \<leftarrow> on_lm (memfill_const H buf_alias (unat len) 0x5A) s;
           s \<leftarrow> on_lm (cpu_store H guard 0xCC) s;
           s \<leftarrow> on_lm (dc_ivac_range H buf len) s;
           (v, s) \<leftarrow> read_lm (cpu_load H guard) s;
           if v = 0xCC then
             Some (False, lputs (''[dma-lab][6] ERR unexpected PASS (guard survived invalidate)'' @ [newline]) s)
           else let s = lputs (''[dma-lab][6] OK expected FAIL: guard lost due to line invalidate'' @ [newline]) s;
                    (base2, s) = lalloc (line * 2) line s
           in if base2 = NULL then Some (False, s)
           else let guard2 = base2; buf2 = base2 + line; len2 = line; buf2_alias = to_alias buf2 len2
           in if buf2_alias = NULL then Some (False, s)
           else do {
             s \<leftarrow> on_lm (memfill_const H base2 (unat (line * 2)) 0) s;
             s \<leftarrow> on_lm (clean_to_poc H base2 (line * 2)) s;
             s \<leftarrow> on_lm (dc_ivac_range H base2 (line * 2)) s;
             s \<leftarrow> on_lm (memfill_const H buf2_alias (unat len2) 0x7E) s;
             s \<leftarrow> on_lm (cpu_store H guard2 0xCC) s;
             s \<leftarrow> on_lm (dc_ivac_range H buf2 len2) s;
             (v, s) \<leftarrow> read_lm (cpu_load H guard2) s;
             if v \<noteq> 0xCC then
               Some (False, lputs (''[dma-lab][6] ERR fix failed: guard corrupted'' @ [newline]) s)
             else do {
               (i, s) \<leftarrow> read_lm (first_mismatch H buf2 (\<lambda>_. 0x7E) (unat len2)) s;
               if i \<ge> 0 then
                 Some (False, lputs (''[dma-lab][6] ERR fix failed: buffer mismatch@'' @
                                     uart_print_u64 (word_of_int i) @ [newline]) s)
               else Some (True, lputs (''[dma-lab][6] OK fixed PASS (line-aligned buffer avoids sharing)'' @ [newline]) s)
             }
           }
         })"

definition run_case :: "hw \<Rightarrow> u32 \<Rightarrow> labst \<Rightarrow> (bool \<times> labst) option" where
  "run_case H n s =
     (if n = 1 then case1_cpu_to_dev_stale_src H s
      else if n = 2 then case2_dev_to_cpu_stale_dst H s
      else if n = 3 then case3_descriptor_stale_fields H s
      else if n = 4 then case4_publish_ordering_head_vs_desc H s
      else if n = 5 then case5_completion_flag_race H s
      else if n = 6 then case6_cacheline_sharing_hazard H s
      else Some (False, lputs (''[dma-lab] unknown case'' @ [newline]) s))"

text \<open>\<^verbatim>\<open>for (c = 1; c <= 6; ++c) { ++total; if (run_case(c)) ++pass; }\<close>, over the cases to come; the result is \<^verbatim>\<open>pass\<close>.\<close>

primrec run_cases :: "hw \<Rightarrow> u32 list \<Rightarrow> u32 \<Rightarrow> labst \<Rightarrow> (u32 \<times> labst) option" where
  "run_cases H [] pass s = Some (pass, s)"
| "run_cases H (c # cs) pass s =
     do { (ok, s) \<leftarrow> run_case H c s; run_cases H cs (if ok then pass + 1 else pass) s }"

definition policy_str :: "dma_policy \<Rightarrow> string" where
  "policy_str pol = (case pol of NonCacheable \<Rightarrow> ''NONCACHEABLE'' | Cacheable \<Rightarrow> ''CACHEABLE'')"

definition dma_lab_run :: "dma_policy \<Rightarrow> hw \<Rightarrow> u32 \<Rightarrow> labst \<Rightarrow> labst option" where
  "dma_lab_run pol H mode s =
     (let s = lputs (''[dma-lab] begin policy='' @ policy_str pol @ '' mode='' @ uart_print_u64 (ucast mode) @ [newline]) s
      in if \<not> dcache_enabled H then Some (lputs (''[dma-lab] dcache disabled; lab requires caches-on'' @ [newline]) s)
         else let line = dcache_line_size H;
                  s = lputs (''[dma-lab] dcache_line='' @ uart_print_u64 line @ [newline]) s
              in do {
                (pass, total, s) \<leftarrow>
                  (if mode = 1 then map_option (\<lambda>(pass, s). (pass, 6 :: u32, s)) (run_cases H [1, 2, 3, 4, 5, 6] 0 s)
                   else map_option (\<lambda>(ok, s). (if ok then 1 else 0, 1, s)) (run_case H mode s));
                Some (lputs (''[dma-lab] result '' @ (if pass = total then ''PASS ('' else ''FAIL ('') @
                  uart_print_u64 (ucast pass) @ ''/'' @ uart_print_u64 (ucast total) @ '')'' @ [newline]) s)
              })"

section \<open>What is known of a byte\<close>

text \<open>
  Knowledge of a byte of memory that no action of the cache can spoil. \<open>BSees v\<close>: the CPU reads \<open>v\<close>. \<open>BMixed g v\<close>:
  moreover RAM and cache hold \<open>g\<close> or \<open>v\<close>. \<open>BClean\<close>: no write-back touches it. \<open>BSettled v\<close>: CPU and device read \<open>v\<close>,
  and it is clean. \<open>BWrote v\<close>: a device wrote \<open>v\<close>, and the cache may still hold an old copy.
\<close>

datatype byst = BAny | BClean | BSees u8 | BMixed u8 u8 | BSettled u8 | BWrote u8

definition among :: "hw \<Rightarrow> cmem \<Rightarrow> addr \<Rightarrow> u8 set \<Rightarrow> bool" where
  "among H c a S \<longleftrightarrow> ram c a \<in> S \<and> (line_valid c (line_of H a) \<longrightarrow> line_data c a \<in> S)"

fun bytesat :: "hw \<Rightarrow> cmem \<Rightarrow> addr \<Rightarrow> byst \<Rightarrow> bool" where
  "bytesat H c a BAny = True"
| "bytesat H c a BClean = undirty H c a"
| "bytesat H c a (BSees v) = cpu_sees H c a v"
| "bytesat H c a (BMixed g v) = (cpu_sees H c a v \<and> among H c a {g, v})"
| "bytesat H c a (BSettled v) = (settled H c a v \<and> undirty H c a)"
| "bytesat H c a (BWrote v) = dev_wrote H c a v"

text \<open>What the operations make of it.\<close>

fun stored :: "u8 \<Rightarrow> byst \<Rightarrow> byst" where
  "stored v (BSettled g) = BMixed g v"
| "stored v (BMixed g w) = (if g = w then BMixed g v else BSees v)"
| "stored v _ = BSees v"

fun beside :: "byst \<Rightarrow> byst" where
  "beside (BSettled v) = BMixed v v"
| "beside (BSees v) = BSees v"
| "beside (BMixed g v) = BMixed g v"
| "beside _ = BAny"

fun cleaned :: "byst \<Rightarrow> byst" where
  "cleaned BAny = BClean"
| "cleaned BClean = BClean"
| "cleaned (BSees v) = BSettled v"
| "cleaned (BMixed g v) = BSettled v"
| "cleaned (BSettled v) = BSettled v"
| "cleaned (BWrote v) = BWrote v"

fun dropped :: "byst \<Rightarrow> byst" where
  "dropped (BSettled v) = BSettled v"
| "dropped (BWrote v) = BSettled v"
| "dropped _ = BClean"

fun is_clean :: "byst \<Rightarrow> bool" where
  "is_clean BClean = True"
| "is_clean (BSettled v) = True"
| "is_clean (BWrote v) = True"
| "is_clean _ = False"

definition dev_put :: "u8 \<Rightarrow> byst \<Rightarrow> byst" where
  "dev_put v st = (if is_clean st then BWrote v else BAny)"

text \<open>A step that spoils knowledge at most in the lines \<open>X\<close>.\<close>

definition keeps_out :: "addr set \<Rightarrow> hw \<Rightarrow> cmem \<Rightarrow> cmem \<Rightarrow> bool" where
  "keeps_out X H c c' \<longleftrightarrow> (\<forall>a st. line_of H a \<notin> X \<longrightarrow> bytesat H c a st \<longrightarrow> bytesat H c' a st)"

lemma keeps_out_refl [simp]: "keeps_out X H c c"
  by (simp add: keeps_out_def)

lemma keeps_out_trans: "keeps_out X H c c' \<Longrightarrow> keeps_out X H c' c'' \<Longrightarrow> keeps_out X H c c''"
  by (simp add: keeps_out_def)

lemma keeps_out_mono: "keeps_out X H c c' \<Longrightarrow> X \<subseteq> Y \<Longrightarrow> keeps_out Y H c c'"
  by (auto simp: keeps_out_def)

text \<open>The cache's own actions and the CPU's loads.\<close>

lemma hw_step_among: "hw_step H c c' \<Longrightarrow> among H c a S \<Longrightarrow> among H c' a S"
  by (erule hw_step.cases) (auto simp: among_def cache_line_defs)

lemma among_advance:
  assumes "hw_ok H" "among H c a S"
  shows "among H (advance H c) a S"
proof -
  have "(hw_step H)\<^sup>*\<^sup>* c d \<Longrightarrow> among H d a S" for d
    by (induction rule: rtranclp_induct) (use assms(2) hw_step_among in blast)+
  then have "among H (hw_act H (hw_time c) c) a S" using assms(1) by (simp add: hw_ok_def)
  then show ?thesis by (simp add: advance_def among_def)
qed

lemma bytesat_keeps:
  assumes "keeps_cpu H c c'" "\<And>S. among H c a S \<Longrightarrow> among H c' a S" "bytesat H c a st"
  shows "bytesat H c' a st"
  using assms by (cases st) (auto simp: keeps_cpu_def keeps_def)

lemma bytesat_advance: "hw_ok H \<Longrightarrow> bytesat H c a st \<Longrightarrow> bytesat H (advance H c) a st"
  by (rule bytesat_keeps [OF advance_keeps among_advance]) auto

lemma bytesat_fill: "bytesat H c a st \<Longrightarrow> bytesat H (fill_line H l c) a st"
  by (rule bytesat_keeps [OF fill_keeps]) (auto simp: among_def fill_line_def)

text \<open>One access of the CPU through the cache.\<close>

lemma load_cached:
  assumes "hw_ok H" "phys H a = Some (a, True)"
  shows "\<exists>v c'. cpu_load H a c = Some (v, c') \<and> keeps_out {} H c c' \<and> (\<forall>w. cpu_sees H c a w \<longrightarrow> v = w)"
proof -
  let ?d = "fill_line H (line_of H a) (advance H c)"
  have "cpu_load H a c = Some (line_data ?d a, ?d)" using assms(2) by (simp add: cpu_load_def Let_def)
  moreover have b: "bytesat H ?d b st" if "bytesat H c b st" for b st
    using that bytesat_fill bytesat_advance [OF assms(1)] by blast
  moreover have "line_data ?d a = w" if "cpu_sees H c a w" for w
  proof -
    have "cpu_sees H ?d a w" using b [of a "BSees w"] that by simp
    moreover have "line_valid ?d (line_of H a)" by (simp add: fill_line_def)
    ultimately show ?thesis by (simp add: cpu_sees_def)
  qed
  ultimately show ?thesis by (auto simp: keeps_out_def)
qed

lemma store_cached:
  assumes "hw_ok H" "phys H a = Some (a, True)"
  shows "\<exists>c'. cpu_store H a v c = Some c' \<and> keeps_out {line_of H a} H c c' \<and>
    (\<forall>st. bytesat H c a st \<longrightarrow> bytesat H c' a (stored v st)) \<and>
    (\<forall>b st. b \<noteq> a \<longrightarrow> bytesat H c b st \<longrightarrow> bytesat H c' b (beside st))"
proof -
  let ?d = "fill_line H (line_of H a) (advance H c)"
  let ?e = "?d\<lparr>line_data := (line_data ?d)(a := v), line_dirty := (line_dirty ?d)(line_of H a := True)\<rparr>"
  have run: "cpu_store H a v c = Some ?e" using assms(2) by (simp add: cpu_store_def Let_def)
  have d: "bytesat H ?d b st" if "bytesat H c b st" for b st
    using that bytesat_fill bytesat_advance [OF assms(1)] by blast
  have val: "line_valid ?d (line_of H a)" by (simp add: fill_line_def)
  have "bytesat H ?e b st" if "line_of H b \<noteq> line_of H a" "bytesat H ?d b st" for b st
    using that by (cases st) (auto simp: cache_value_defs among_def)
  moreover have "bytesat H ?e a (stored v st)" if "bytesat H ?d a st" for st
    using that val by (cases st) (auto simp: cache_value_defs among_def)
  moreover have "bytesat H ?e b (beside st)" if "b \<noteq> a" "bytesat H ?d b st" for b st
    using that by (cases st) (auto simp: cache_value_defs among_def split: if_splits)
  ultimately show ?thesis using run d unfolding keeps_out_def by blast
qed

text \<open>One access of a device, through the alias.\<close>

lemma store_alias:
  assumes "hw_ok H" "virt_map pol L H" "in_ram a"
  shows "\<exists>c'. cpu_store H (a + 0x40000000) v c = Some c' \<and>
    (\<forall>st. bytesat H c a st \<longrightarrow> bytesat H c' a (dev_put v st)) \<and> (\<forall>b st. b \<noteq> a \<longrightarrow> bytesat H c b st \<longrightarrow> bytesat H c' b st)"
proof -
  let ?d = "advance H c"
  let ?e = "?d\<lparr>ram := (ram ?d)(a := v)\<rparr>"
  have run: "cpu_store H (a + 0x40000000) v c = Some ?e"
    using phys_dev [OF assms(2,3)] by (simp add: cpu_store_def Let_def)
  have d: "bytesat H ?d b st" if "bytesat H c b st" for b st using that bytesat_advance [OF assms(1)] by blast
  have "bytesat H ?e b st" if "b \<noteq> a" "bytesat H ?d b st" for b st
    using that by (cases st) (auto simp: cache_value_defs among_def)
  moreover have "bytesat H ?e a (dev_put v st)" if "bytesat H ?d a st" for st
    using that by (cases st) (auto simp: cache_value_defs dev_put_def)
  ultimately show ?thesis using run d by blast
qed

lemma load_alias:
  assumes "hw_ok H" "virt_map pol L H" "in_ram a"
  shows "\<exists>v c'. cpu_load H (a + 0x40000000) c = Some (v, c') \<and> keeps_out {} H c c' \<and> (\<forall>S. among H c a S \<longrightarrow> v \<in> S)"
proof -
  have "cpu_load H (a + 0x40000000) c = Some (ram (advance H c) a, advance H c)"
    using phys_dev [OF assms(2,3)] by (simp add: cpu_load_def Let_def)
  moreover have "ram (advance H c) a \<in> S" if "among H c a S" for S
    using among_advance [OF assms(1) that] by (simp add: among_def)
  ultimately show ?thesis using bytesat_advance [OF assms(1)] by (auto simp: keeps_out_def)
qed

section \<open>Operations on blocks\<close>

lemma beside_steady [simp]: "beside (beside st) = beside st" "stored v (beside st) = stored v st" "beside (stored v st) = stored v st"
  by (cases st; simp)+

lemma bytesat_beside: "bytesat H c a st \<Longrightarrow> bytesat H c a (beside st)"
  by (cases st) (auto simp: settled_cpu_sees, auto simp: settled_def among_def)

lemma bytesat_settled: "bytesat H c a (BSettled v) \<Longrightarrow> among H c a {v}"
  by (auto simp: settled_def among_def)

text \<open>The two maintenance operations satisfy the contract with the finer account of what they keep.\<close>

interpretation cvac_b: line_op dc_cvac_line "\<lambda>_. keeps_out {}" cpu_sees
proof unfold_locales
  fix X H c c' a v
  assume k: "keeps_out {} H c c'"
  then have b: "\<And>st. bytesat H c a st \<Longrightarrow> bytesat H c' a st" by (simp add: keeps_out_def)
  show "cpu_sees H c a v \<Longrightarrow> cpu_sees H c' a v" using b [of "BSees v"] by simp
  show "undirty H c a \<Longrightarrow> undirty H c' a" using b [of BClean] by simp
  show "settled H c a v \<Longrightarrow> settled H c' a v"
    using b [of "BMixed v v"] settled_cpu_sees [of H c a v] by (simp add: settled_def among_def)
next
  fix H va p b c
  assume h: "hw_ok H" and ph: "phys H va = Some (p, b)"
  let ?c = "clean_line H (line_of H p) (advance H c)"
  have r: "dc_cvac_line H va c = Some ?c" using ph by (simp add: dc_cvac_line_def Let_def)
  have "bytesat H ?c a st" if "bytesat H c a st" for a st
    by (rule bytesat_keeps [OF clean_keeps _ bytesat_advance [OF h that]]) (auto simp: among_def clean_line_def)
  then have k: "keeps_out {} H c ?c" by (simp add: keeps_out_def)
  have "settled H ?c a v" if "line_of H a = line_of H p" "cpu_sees H c a v" for a v
    using clean_settles [of H "advance H c" a v] that bytesat_advance [OF h, of c a "BSees v"] by simp
  moreover have "undirty H ?c a" if "line_of H a = line_of H p" for a using that by (simp add: undirty_def clean_line_def)
  ultimately show "\<exists>c'. dc_cvac_line H va c = Some c' \<and> keeps_out {} H c c' \<and>
      (\<forall>a v. line_of H a = line_of H p \<longrightarrow> undirty H c' a \<and> (cpu_sees H c a v \<longrightarrow> settled H c' a v))"
    using r k by blast
qed (auto intro: keeps_out_trans)

definition keeps_both :: "addr set \<Rightarrow> hw \<Rightarrow> cmem \<Rightarrow> cmem \<Rightarrow> bool" where
  "keeps_both X H c c' \<longleftrightarrow> keeps H c c' \<and> keeps_out X H c c'"

interpretation ivac_b: line_op dc_ivac_line keeps_both dev_wrote
proof unfold_locales
  fix H va p b c
  assume h: "hw_ok H" and ph: "phys H va = Some (p, b)"
  let ?c = "drop_line (line_of H p) (advance H c)"
  have r: "dc_ivac_line H va c = Some ?c" using ph by (simp add: dc_ivac_line_def Let_def)
  have "bytesat H ?c a st" if "line_of H a \<noteq> line_of H p" "bytesat H c a st" for a st
    using bytesat_advance [OF h that(2)] that(1) by (cases st) (auto simp: cache_value_defs among_def drop_line_def)
  then have "keeps_both {line_of H p} H c ?c" using ivac_keeps [OF h r] by (simp add: keeps_both_def keeps_out_def)
  moreover have "settled H ?c a v" if "line_of H a = line_of H p" "dev_wrote H c a v" for a v
    using drop_settles [of H "advance H c" a v] that bytesat_advance [OF h, of c a "BWrote v"] by simp
  moreover have "undirty H ?c a" if "line_of H a = line_of H p" for a using that by (simp add: undirty_def drop_line_def)
  ultimately show "\<exists>c'. dc_ivac_line H va c = Some c' \<and> keeps_both {line_of H p} H c c' \<and>
      (\<forall>a v. line_of H a = line_of H p \<longrightarrow> undirty H c' a \<and> (dev_wrote H c a v \<longrightarrow> settled H c' a v))"
    using r by blast
qed (auto simp: keeps_both_def keeps_def keeps_out_def)

text \<open>Cacheable RAM, as far as a block reaches.\<close>

definition cached_ram :: "dma_policy \<Rightarrow> mmu_layout \<Rightarrow> addr \<Rightarrow> nat \<Rightarrow> bool" where
  "cached_ram pol L p n \<longleftrightarrow> ram_range p n \<and> (\<forall>a. in_range a p n \<longrightarrow> \<not> (pol = NonCacheable \<and> dma_page L a))"

lemma cached_ram_byte:
  assumes "cached_ram pol L p n" "i < n"
  shows "in_ram (p + of_nat i)" "in_range (p + of_nat i) p n" "unat (p + of_nat i) = unat p + i"
    "virt_map pol L H \<Longrightarrow> phys H (p + of_nat i) = Some (p + of_nat i, True)"
proof -
  have r: "ram_range p n" using assms(1) by (simp add: cached_ram_def)
  show u: "unat (p + of_nat i) = unat p + i" by (rule unat_ram_range [OF r assms(2)])
  show ir: "in_ram (p + of_nat i)" using r assms(2) u by (simp add: in_ram_unat ram_range_def)
  show rg: "in_range (p + of_nat i) p n" using u assms(2) by (simp add: in_range_def)
  have "\<not> (pol = NonCacheable \<and> dma_page L (p + of_nat i))" using assms(1) rg by (auto simp: cached_ram_def)
  then show "virt_map pol L H \<Longrightarrow> phys H (p + of_nat i) = Some (p + of_nat i, True)"
    using phys_ram [of pol L H "p + of_nat i"] ir by (simp add: in_ram_iff)
qed

lemma in_range_byte: "cached_ram pol L p n \<Longrightarrow> in_range a p n \<Longrightarrow> \<exists>i < n. a = p + of_nat i"
proof -
  assume r: "cached_ram pol L p n" and a: "in_range a p n"
  define i where "i = unat a - unat p"
  have i: "i < n" "unat a = unat p + i" using a by (auto simp: in_range_def i_def)
  then have "a = p + of_nat i" using cached_ram_byte(3) [OF r i(1)] by (simp add: word_unat_eq_iff)
  then show ?thesis using i(1) by blast
qed

lemma line_in_lines: "cached_ram pol L p n \<Longrightarrow> i < n \<Longrightarrow> line_of H (p + of_nat i) \<in> lines_of H p n"
  using cached_ram_byte(3) [of pol L p n i] by (auto simp: lines_of_def)

lemma all_less_Suc_shift: "(\<forall>i < Suc n. P i) \<longleftrightarrow> P 0 \<and> (\<forall>i < n. P (Suc i))"
  by (auto simp: less_Suc_eq_0_disj)

definition knows :: "hw \<Rightarrow> cmem \<Rightarrow> addr \<Rightarrow> nat \<Rightarrow> (nat \<Rightarrow> byst) \<Rightarrow> bool" where
  "knows H c p n t \<longleftrightarrow> (\<forall>i < n. bytesat H c (p + of_nat i) (t i))"

lemma knows_Suc: "knows H c q (Suc n) t \<longleftrightarrow> bytesat H c q (t 0) \<and> knows H c (q + 1) n (\<lambda>i. t (Suc i))"
  by (simp add: knows_def all_less_Suc_shift algebra_simps)

lemma knows_out:
  assumes "knows H c q m t" "keeps_out X H c c'" "cached_ram pol L q m" "X \<inter> lines_of H q m = {}"
  shows "knows H c' q m t"
  using assms line_in_lines [OF assms(3)] unfolding knows_def keeps_out_def by blast

text \<open>The CPU fills a block.\<close>

lemma store_loop_cached:
  assumes hw: "hw_ok H" "virt_map pol L H" and r: "cached_ram pol L p m" "i + n \<le> m"
    and t: "\<forall>j. beside (t j) = t j" and k: "knows H c p m t"
  shows "\<exists>c'. store_loop H f p i n c = Some c' \<and> keeps_out (lines_of H p m) H c c' \<and>
    knows H c' p m (\<lambda>j. if i \<le> j \<and> j < i + n then stored (f j) (t j) else t j)"
  using r(2) t k
proof (induction n arbitrary: i c t)
  case 0
  then show ?case by (auto simp: knows_def)
next
  case (Suc n)
  have i: "i < m" using Suc.prems(1) by simp
  let ?a = "p + of_nat i"
  let ?t = "t(i := stored (f i) (t i))"
  obtain c1 where c1: "cpu_store H ?a (f i) c = Some c1" "keeps_out {line_of H ?a} H c c1"
    "\<And>st. bytesat H c ?a st \<Longrightarrow> bytesat H c1 ?a (stored (f i) st)"
    "\<And>b st. b \<noteq> ?a \<Longrightarrow> bytesat H c b st \<Longrightarrow> bytesat H c1 b (beside st)"
    using store_cached [OF hw(1) cached_ram_byte(4) [OF r(1) i hw(2)], of "f i" c] by blast
  have k1: "knows H c1 p m ?t" unfolding knows_def
  proof (intro allI impI)
    fix j assume j: "j < m"
    have "p + of_nat j = ?a \<longleftrightarrow> j = i"
      using cached_ram_byte(3) [OF r(1) j] cached_ram_byte(3) [OF r(1) i] by (auto simp: word_unat_eq_iff)
    then show "bytesat H c1 (p + of_nat j) (?t j)"
      using Suc.prems(2,3) j c1(3) [of "t i"] c1(4) [of "p + of_nat j" "t j"] unfolding knows_def by auto
  qed
  have "\<forall>j. beside (?t j) = ?t j" using Suc.prems(2) by simp
  from Suc.IH [OF _ this k1, of "Suc i"] Suc.prems(1) obtain c' where
    c': "store_loop H f p (Suc i) n c1 = Some c'" "keeps_out (lines_of H p m) H c1 c'"
      "knows H c' p m (\<lambda>j. if Suc i \<le> j \<and> j < Suc i + n then stored (f j) (?t j) else ?t j)"
    by auto
  have "keeps_out (lines_of H p m) H c c1"
    by (rule keeps_out_mono [OF c1(2)]) (use line_in_lines [OF r(1) i] in simp)
  moreover have "(\<lambda>j. if Suc i \<le> j \<and> j < Suc i + n then stored (f j) (?t j) else ?t j) =
      (\<lambda>j. if i \<le> j \<and> j < i + Suc n then stored (f j) (t j) else t j)"
    by (auto simp: fun_eq_iff)
  moreover have "store_loop H f p i (Suc n) c = Some c'" using c1(1) c'(1) by simp
  ultimately show ?case using c'(2,3) keeps_out_trans by metis
qed

lemma fill_knows:
  assumes hw: "hw_ok H" "virt_map pol L H" and r: "cached_ram pol L p n" and k: "knows H c p n t"
  shows "\<exists>c'. store_loop H f p 0 n c = Some c' \<and> keeps_out (lines_of H p n) H c c' \<and> knows H c' p n (\<lambda>j. stored (f j) (t j))"
proof -
  have k': "knows H c p n (\<lambda>j. beside (t j))" using k bytesat_beside unfolding knows_def by blast
  from store_loop_cached [OF hw r, of 0 n "\<lambda>j. beside (t j)" c f] k'
  show ?thesis by (simp add: knows_def)
qed

text \<open>A device fills a block, or copies one.\<close>

lemma store_loop_alias:
  assumes hw: "hw_ok H" "virt_map pol L H" and r: "cached_ram pol L p m" "i + n \<le> m" and k: "knows H c p m t"
  shows "\<exists>c'. store_loop H f (p + 0x40000000) i n c = Some c' \<and> keeps_out (lines_of H p m) H c c' \<and>
    knows H c' p m (\<lambda>j. if i \<le> j \<and> j < i + n then dev_put (f j) (t j) else t j)"
  using r(2) k
proof (induction n arbitrary: i c t)
  case 0
  then show ?case by (auto simp: knows_def)
next
  case (Suc n)
  have i: "i < m" using Suc.prems(1) by simp
  let ?a = "p + of_nat i"
  let ?t = "t(i := dev_put (f i) (t i))"
  obtain c1 where c1: "cpu_store H (?a + 0x40000000) (f i) c = Some c1"
    "\<And>st. bytesat H c ?a st \<Longrightarrow> bytesat H c1 ?a (dev_put (f i) st)"
    "\<And>b st. b \<noteq> ?a \<Longrightarrow> bytesat H c b st \<Longrightarrow> bytesat H c1 b st"
    using store_alias [OF hw cached_ram_byte(1) [OF r(1) i], of "f i" c] by blast
  have k1: "knows H c1 p m ?t" unfolding knows_def
  proof (intro allI impI)
    fix j assume j: "j < m"
    have "p + of_nat j = ?a \<longleftrightarrow> j = i"
      using cached_ram_byte(3) [OF r(1) j] cached_ram_byte(3) [OF r(1) i] by (auto simp: word_unat_eq_iff)
    then show "bytesat H c1 (p + of_nat j) (?t j)"
      using Suc.prems(2) j c1(2) [of "t i"] c1(3) [of "p + of_nat j" "t j"] unfolding knows_def by auto
  qed
  from Suc.IH [OF _ k1, of "Suc i"] Suc.prems(1) obtain c' where
    c': "store_loop H f (p + 0x40000000) (Suc i) n c1 = Some c'" "keeps_out (lines_of H p m) H c1 c'"
      "knows H c' p m (\<lambda>j. if Suc i \<le> j \<and> j < Suc i + n then dev_put (f j) (?t j) else ?t j)"
    by auto
  have "keeps_out (lines_of H p m) H c c1"
    unfolding keeps_out_def
  proof (intro allI impI)
    fix a st
    assume "line_of H a \<notin> lines_of H p m" "bytesat H c a st"
    moreover have "a \<noteq> ?a" using line_in_lines [OF r(1) i, of H] calculation(1) by metis
    ultimately show "bytesat H c1 a st" using c1(3) by blast
  qed
  moreover have "(\<lambda>j. if Suc i \<le> j \<and> j < Suc i + n then dev_put (f j) (?t j) else ?t j) =
      (\<lambda>j. if i \<le> j \<and> j < i + Suc n then dev_put (f j) (t j) else t j)"
    by (auto simp: fun_eq_iff)
  moreover have "store_loop H f (p + 0x40000000) i (Suc n) c = Some c'"
    using c1(1) c'(1) by (simp add: algebra_simps)
  ultimately show ?case using c'(2,3) keeps_out_trans by metis
qed

lemma dev_fill_knows:
  assumes hw: "hw_ok H" "virt_map pol L H" and r: "cached_ram pol L p n" and k: "knows H c p n t"
  shows "\<exists>c'. store_loop H f (p + 0x40000000) 0 n c = Some c' \<and> keeps_out (lines_of H p n) H c c' \<and>
    knows H c' p n (\<lambda>j. dev_put (f j) (t j))"
  using store_loop_alias [OF hw r _ k, of 0 n f] by (auto simp: knows_def)

text \<open>What the destination of a device's copy holds, given the source.\<close>

definition copied :: "byst \<Rightarrow> byst \<Rightarrow> byst" where
  "copied s d = (if is_clean d then (case s of BSettled v \<Rightarrow> BWrote v | _ \<Rightarrow> BClean) else BAny)"

lemma dev_put_clean: "bytesat H c a (dev_put v d) \<Longrightarrow> is_clean d \<Longrightarrow> bytesat H c a BClean"
  by (simp add: dev_put_def dev_wrote_def)

lemma device_copy_knows:
  assumes hw: "hw_ok H" "virt_map pol L H"
    and "cached_ram pol L src n" "cached_ram pol L dst n" "apart src n dst n" "knows H c src n u" "knows H c dst n t"
  shows "\<exists>c'. dma_memcpy H (dst + 0x40000000) (src + 0x40000000) n c = Some c' \<and>
    (\<forall>a st. \<not> in_range a dst n \<longrightarrow> bytesat H c a st \<longrightarrow> bytesat H c' a st) \<and> knows H c' dst n (\<lambda>i. copied (u i) (t i))"
  using assms(3-)
proof (induction n arbitrary: src dst c u t)
  case 0
  then show ?case by (simp add: knows_def)
next
  case (Suc n)
  have tail: "cached_ram pol L (q + 1) n" "in_ram q" "unat (q + 1) = Suc (unat q)"
    if "cached_ram pol L q (Suc n)" for q
    using that ram_range_Suc [of q n] by (auto simp: cached_ram_def in_range_def)
  note rs = tail [OF Suc.prems(1)] and rd = tail [OF Suc.prems(2)]
  obtain v c1 where c1: "cpu_load H (src + 0x40000000) c = Some (v, c1)" "keeps_out {} H c c1" "\<And>S. among H c src S \<Longrightarrow> v \<in> S"
    using load_alias [OF hw rs(2), of c] by blast
  obtain c2 where c2: "cpu_store H (dst + 0x40000000) v c1 = Some c2"
    "\<And>st. bytesat H c1 dst st \<Longrightarrow> bytesat H c2 dst (dev_put v st)"
    "\<And>b st. b \<noteq> dst \<Longrightarrow> bytesat H c1 b st \<Longrightarrow> bytesat H c2 b st"
    using store_alias [OF hw rd(2), of v c1] by blast
  have k1: "bytesat H c a st \<Longrightarrow> bytesat H c1 a st" for a st using c1(2) by (simp add: keeps_out_def)
  have ne: "src + 1 + of_nat i \<noteq> dst" "dst + 1 + of_nat i \<noteq> dst" if "i < n" for i
  proof -
    have s: "unat (src + 1 + of_nat i) = unat src + Suc i" "unat (dst + 1 + of_nat i) = unat dst + Suc i"
      using cached_ram_byte(3) [OF rs(1) that] cached_ram_byte(3) [OF rd(1) that] rs(3) rd(3) by simp_all
    show "src + 1 + of_nat i \<noteq> dst" "dst + 1 + of_nat i \<noteq> dst"
      by (rule notI, drule arg_cong [where f = unat], use s Suc.prems(3) that in \<open>simp add: apart_def\<close>)+
  qed
  have ks: "knows H c2 (src + 1) n (\<lambda>i. u (Suc i))" "knows H c2 (dst + 1) n (\<lambda>i. t (Suc i))"
    using Suc.prems(4,5) c2(3) k1 ne unfolding knows_Suc by (simp_all add: knows_def)
  have "apart (src + 1) n (dst + 1) n" using Suc.prems(3) rs(3) rd(3) by (auto simp: apart_def)
  from Suc.IH [OF rs(1) rd(1) this ks] obtain c' where
    c': "dma_memcpy H (dst + 1 + 0x40000000) (src + 1 + 0x40000000) n c2 = Some c'"
    "\<And>a st. \<not> in_range a (dst + 1) n \<Longrightarrow> bytesat H c2 a st \<Longrightarrow> bytesat H c' a st"
    "knows H c' (dst + 1) n (\<lambda>i. copied (u (Suc i)) (t (Suc i)))"
    by blast
  have "dma_memcpy H (dst + 0x40000000) (src + 0x40000000) (Suc n) c = Some c'"
    using c1(1) c2(1) c'(1) by (simp add: algebra_simps)
  moreover have "bytesat H c' a st" if "\<not> in_range a dst (Suc n)" "bytesat H c a st" for a st
  proof -
    have "\<not> in_range a (dst + 1) n" "a \<noteq> dst" using that(1) rd(3) by (auto simp: in_range_def)
    then show ?thesis using that(2) k1 c2(3) c'(2) by blast
  qed
  moreover have "bytesat H c' dst (copied (u 0) (t 0))"
  proof -
    have "bytesat H c2 dst (dev_put v (t 0))" using Suc.prems(5) k1 c2(2) unfolding knows_Suc by blast
    moreover have "v = w" if "u 0 = BSettled w" for w
    proof -
      have "bytesat H c src (u 0)" using Suc.prems(4) unfolding knows_Suc by blast
      then show ?thesis using c1(3) [of "{w}"] bytesat_settled [of H c src w] that by simp
    qed
    ultimately have "bytesat H c2 dst (copied (u 0) (t 0))"
      using dev_put_clean [of H c2 dst v "t 0"] unfolding copied_def by (cases "u 0") (auto simp: dev_put_def)
    moreover have "\<not> in_range dst (dst + 1) n" using rd(3) by (simp add: in_range_def)
    ultimately show ?thesis using c'(2) by blast
  qed
  ultimately show ?case using c'(3) unfolding knows_Suc by blast
qed

text \<open>Maintenance of a block.\<close>

lemma range_bounds:
  assumes "cached_ram pol L p (unat len)" "len \<noteq> 0"
  shows "kRamBase \<le> p" "unat p + unat len \<le> 2147483648"
  using assms(1) by (simp_all add: cached_ram_def ram_range_def kRamBase_def word_le_nat_alt)

lemma cvac_knows:
  assumes hw: "hw_ok H" "virt_map pol L H" and r: "cached_ram pol L p (unat len)" "len \<noteq> 0" and k: "knows H c p (unat len) t"
  shows "\<exists>c'. dc_cvac_range H p len c = Some c' \<and> keeps_out {} H c c' \<and> knows H c' p (unat len) (\<lambda>i. cleaned (t i))"
proof -
  obtain c' where c': "dc_cvac_range H p len c = Some c'" "keeps_out {} H c c'"
    "\<And>a v. unat p \<le> unat a \<Longrightarrow> unat a < unat p + unat len \<Longrightarrow> cpu_sees H c a v \<Longrightarrow> settled H c' a v"
    "\<And>a. unat p \<le> unat a \<Longrightarrow> unat a < unat p + unat len \<Longrightarrow> undirty H c' a"
    using cvac_b.range_ok [OF hw range_bounds [OF r] r(2), of c] unfolding dc_cvac_range_def by blast
  have "bytesat H c' (p + of_nat i) (cleaned (t i))" if i: "i < unat len" for i
  proof -
    let ?a = "p + of_nat i"
    have a: "unat p \<le> unat ?a" "unat ?a < unat p + unat len" using cached_ram_byte(3) [OF r(1) i] i by simp_all
    have "bytesat H c ?a (t i)" "bytesat H c' ?a (t i)" using k c'(2) i by (simp_all add: knows_def keeps_out_def)
    then show ?thesis using c'(3) [OF a] c'(4) [OF a] by (cases "t i") (auto simp: settled_cpu_sees)
  qed
  then show ?thesis using c'(1,2) by (auto simp: knows_def)
qed

lemma ivac_knows:
  assumes hw: "hw_ok H" "virt_map pol L H" and r: "cached_ram pol L p (unat len)" "len \<noteq> 0" and k: "knows H c p (unat len) t"
  shows "\<exists>c'. dc_ivac_range H p len c = Some c' \<and> keeps_out (lines_of H p (unat len)) H c c' \<and>
    knows H c' p (unat len) (\<lambda>i. dropped (t i))"
proof -
  obtain c' where c': "dc_ivac_range H p len c = Some c'" "keeps H c c'" "keeps_out (lines_of H p (unat len)) H c c'"
    "\<And>a v. unat p \<le> unat a \<Longrightarrow> unat a < unat p + unat len \<Longrightarrow> dev_wrote H c a v \<Longrightarrow> settled H c' a v"
    "\<And>a. unat p \<le> unat a \<Longrightarrow> unat a < unat p + unat len \<Longrightarrow> undirty H c' a"
    using ivac_b.range_ok [OF hw range_bounds [OF r] r(2), of c] unfolding dc_ivac_range_def keeps_both_def by blast
  have "bytesat H c' (p + of_nat i) (dropped (t i))" if i: "i < unat len" for i
  proof -
    let ?a = "p + of_nat i"
    have a: "unat p \<le> unat ?a" "unat ?a < unat p + unat len" using cached_ram_byte(3) [OF r(1) i] i by simp_all
    have "bytesat H c ?a (t i)" using k i by (simp add: knows_def)
    then show ?thesis using c'(2) c'(4) [OF a] c'(5) [OF a] by (cases "t i") (auto simp: keeps_def)
  qed
  then show ?thesis using c'(1,3) by (auto simp: knows_def)
qed

section \<open>Loads\<close>

text \<open>What the CPU is sure to read, and what a device may read.\<close>

fun reads :: "byst \<Rightarrow> u8 option" where
  "reads (BSees v) = Some v"
| "reads (BMixed g v) = Some v"
| "reads (BSettled v) = Some v"
| "reads _ = None"

fun ram_may :: "byst \<Rightarrow> u8 set" where
  "ram_may (BSettled v) = {v}"
| "ram_may (BMixed g v) = {g, v}"
| "ram_may _ = UNIV"

lemma reads_sees: "bytesat H c a st \<Longrightarrow> reads st = Some v \<Longrightarrow> cpu_sees H c a v"
  by (cases st) (auto simp: settled_cpu_sees)

lemma ram_may_among: "bytesat H c a st \<Longrightarrow> among H c a (ram_may st)"
  by (cases st) (auto simp: among_def settled_def)

lemma mismatch_loop_ok:
  assumes hw: "hw_ok H" "virt_map pol L H" and r: "cached_ram pol L p m" "i + n \<le> m" and k: "knows H c p m t"
  shows "\<exists>d c'. mismatch_loop H f p i n c = Some (d, c') \<and> keeps_out {} H c c' \<and>
    ((\<forall>j. i \<le> j \<and> j < i + n \<longrightarrow> reads (t j) = Some (f j)) \<longrightarrow> d = -1)"
  using r(2) k
proof (induction n arbitrary: i c)
  case 0
  then show ?case by simp
next
  case (Suc n)
  have i: "i < m" using Suc.prems(1) by simp
  obtain v c1 where c1: "cpu_load H (p + of_nat i) c = Some (v, c1)" "keeps_out {} H c c1"
    "\<And>w. cpu_sees H c (p + of_nat i) w \<Longrightarrow> v = w"
    using load_cached [OF hw(1) cached_ram_byte(4) [OF r(1) i hw(2)], of c] by blast
  have k1: "knows H c1 p m t" by (rule knows_out [OF Suc.prems(2) c1(2) r(1)]) simp
  obtain d c' where c': "mismatch_loop H f p (Suc i) n c1 = Some (d, c')" "keeps_out {} H c1 c'"
    "(\<forall>j. Suc i \<le> j \<and> j < Suc i + n \<longrightarrow> reads (t j) = Some (f j)) \<longrightarrow> d = -1"
    using Suc.IH [OF _ k1, of "Suc i"] Suc.prems(1) by auto
  have v: "v = f i" if "reads (t i) = Some (f i)"
    using reads_sees [OF _ that] Suc.prems(2) i c1(3) unfolding knows_def by blast
  show ?case
  proof (cases "v = f i")
    case True
    then show ?thesis using c1(1,2) c' keeps_out_trans [OF c1(2) c'(2)] by auto
  next
    case False
    then show ?thesis using c1(1,2) v by auto
  qed
qed

lemma load_bytes_cached:
  assumes hw: "hw_ok H" "virt_map pol L H" and "cached_ram pol L p n" "knows H c p n t"
  shows "\<exists>vs c'. cpu_load_bytes H p n c = Some (vs, c') \<and> keeps_out {} H c c' \<and> length vs = n \<and>
    (\<forall>i < n. \<forall>v. reads (t i) = Some v \<longrightarrow> vs ! i = v)"
  using assms(3-)
proof (induction n arbitrary: p c t)
  case 0
  then show ?case by simp
next
  case (Suc n)
  have r: "cached_ram pol L (p + 1) n"
    using Suc.prems(1) ram_range_Suc [of p n] by (auto simp: cached_ram_def in_range_def)
  have "phys H p = Some (p, True)" using cached_ram_byte(4) [OF Suc.prems(1) _ hw(2), of 0] by simp
  from load_cached [OF hw(1) this, of c] obtain v c1 where c1: "cpu_load H p c = Some (v, c1)" "keeps_out {} H c c1"
    "\<And>w. cpu_sees H c p w \<Longrightarrow> v = w"
    by blast
  have k: "knows H c p (Suc n) t \<Longrightarrow> knows H c1 p (Suc n) t" by (rule knows_out [OF _ c1(2) Suc.prems(1)]) auto
  from k [OF Suc.prems(2)] have "knows H c1 (p + 1) n (\<lambda>i. t (Suc i))" unfolding knows_Suc by blast
  from Suc.IH [OF r this] obtain vs c' where c': "cpu_load_bytes H (p + 1) n c1 = Some (vs, c')" "keeps_out {} H c1 c'"
    "length vs = n" "\<forall>i < n. \<forall>v. reads (t (Suc i)) = Some v \<longrightarrow> vs ! i = v"
    by blast
  have "v = w" if "reads (t 0) = Some w" for w
    using reads_sees [OF _ that] Suc.prems(2) c1(3) unfolding knows_Suc by blast
  then show ?case using c1(1) c' keeps_out_trans [OF c1(2) c'(2)] by (auto simp: less_Suc_eq_0_disj)
qed

lemma load_bytes_alias:
  assumes hw: "hw_ok H" "virt_map pol L H" and "cached_ram pol L p n" "knows H c p n t"
  shows "\<exists>vs c'. cpu_load_bytes H (p + 0x40000000) n c = Some (vs, c') \<and> keeps_out {} H c c' \<and> length vs = n \<and>
    (\<forall>i < n. vs ! i \<in> ram_may (t i))"
  using assms(3-)
proof (induction n arbitrary: p c t)
  case 0
  then show ?case by simp
next
  case (Suc n)
  have r: "cached_ram pol L (p + 1) n"
    using Suc.prems(1) ram_range_Suc [of p n] by (auto simp: cached_ram_def in_range_def)
  have "in_ram p" using cached_ram_byte(1) [OF Suc.prems(1), of 0] by simp
  from load_alias [OF hw this, of c] obtain v c1 where c1: "cpu_load H (p + 0x40000000) c = Some (v, c1)" "keeps_out {} H c c1"
    "\<And>S. among H c p S \<Longrightarrow> v \<in> S"
    by blast
  have k: "knows H c p (Suc n) t \<Longrightarrow> knows H c1 p (Suc n) t" by (rule knows_out [OF _ c1(2) Suc.prems(1)]) auto
  from k [OF Suc.prems(2)] have "knows H c1 (p + 1) n (\<lambda>i. t (Suc i))" unfolding knows_Suc by blast
  from Suc.IH [OF r this] obtain vs c' where c': "cpu_load_bytes H (p + 1 + 0x40000000) n c1 = Some (vs, c')" "keeps_out {} H c1 c'"
    "length vs = n" "\<forall>i < n. vs ! i \<in> ram_may (t (Suc i))"
    by blast
  have "v \<in> ram_may (t 0)" using ram_may_among Suc.prems(2) c1(3) unfolding knows_Suc by blast
  moreover have "cpu_load_bytes H (p + 0x40000000) (Suc n) c = Some (v # vs, c')"
    using c1(1) c'(1) by (simp add: algebra_simps)
  ultimately show ?case using c'(3,4) keeps_out_trans [OF c1(2) c'(2)] by (auto simp: less_Suc_eq_0_disj)
qed

section \<open>Several blocks\<close>

text \<open>The blocks of a case lie in cacheable RAM and share no cache line.\<close>

definition blocks_ok :: "dma_policy \<Rightarrow> mmu_layout \<Rightarrow> hw \<Rightarrow> (addr \<times> nat) list \<Rightarrow> bool" where
  "blocks_ok pol L H bs \<longleftrightarrow> hw_ok H \<and> virt_map pol L H \<and> (\<forall>b < length bs. cached_ram pol L (fst (bs ! b)) (snd (bs ! b))) \<and>
     (\<forall>b < length bs. \<forall>d < length bs. b \<noteq> d \<longrightarrow> apart (fst (bs ! b)) (snd (bs ! b)) (fst (bs ! d)) (snd (bs ! d)) \<and>
        lines_of H (fst (bs ! b)) (snd (bs ! b)) \<inter> lines_of H (fst (bs ! d)) (snd (bs ! d)) = {})"

definition coh :: "hw \<Rightarrow> (addr \<times> nat) list \<Rightarrow> (nat \<Rightarrow> nat \<Rightarrow> byst) \<Rightarrow> cmem \<Rightarrow> bool" where
  "coh H bs k c \<longleftrightarrow> (\<forall>b < length bs. knows H c (fst (bs ! b)) (snd (bs ! b)) (k b))"

lemma coh_upd:
  assumes "blocks_ok pol L H bs" "coh H bs k c" "b < length bs" "bs ! b = (p, n)"
    and "keeps_out (lines_of H p n) H c c'" "knows H c' p n t"
  shows "coh H bs (k(b := t)) c'"
  unfolding coh_def
proof (intro allI impI)
  fix d assume d: "d < length bs"
  show "knows H c' (fst (bs ! d)) (snd (bs ! d)) ((k(b := t)) d)"
  proof (cases "d = b")
    case True
    then show ?thesis using assms(4,6) by simp
  next
    case False
    have "cached_ram pol L (fst (bs ! d)) (snd (bs ! d))" "lines_of H p n \<inter> lines_of H (fst (bs ! d)) (snd (bs ! d)) = {}"
      using assms(1,3,4) d False unfolding blocks_ok_def by (metis fst_conv snd_conv)+
    then show ?thesis using knows_out [OF _ assms(5)] assms(2) d False by (simp add: coh_def)
  qed
qed

lemma coh_keep:
  assumes "blocks_ok pol L H bs" "coh H bs k c" "keeps_out {} H c c'"
  shows "coh H bs k c'"
  using assms knows_out [OF _ assms(3)] by (auto simp: coh_def blocks_ok_def)

lemma blocks_okD:
  assumes "blocks_ok pol L H bs" "b < length bs" "bs ! b = (p, n)"
  shows "hw_ok H" "virt_map pol L H" "cached_ram pol L p n"
  using assms by (auto simp: blocks_ok_def)

lemma cohD: "coh H bs k c \<Longrightarrow> b < length bs \<Longrightarrow> bs ! b = (p, n) \<Longrightarrow> knows H c p n (k b)"
  by (auto simp: coh_def)

definition succeeds :: "'a option \<Rightarrow> ('a \<Rightarrow> bool) \<Rightarrow> bool" where
  "succeeds m P \<longleftrightarrow> (\<exists>x. m = Some x \<and> P x)"

lemma succeeds_Some [simp]: "succeeds (Some x) P = P x"
  by (simp add: succeeds_def)

lemma succeeds_bind: "succeeds m P \<Longrightarrow> (\<And>x. P x \<Longrightarrow> succeeds (f x) Q) \<Longrightarrow> succeeds (Option.bind m f) Q"
  by (auto simp: succeeds_def)

text \<open>The rules that run a case step by step; the state is kept in the form \<open>s\<lparr>lm := c\<rparr>\<close>.\<close>

lemma on_lm_bind: "succeeds (f c) P \<Longrightarrow> (\<And>c. P c \<Longrightarrow> succeeds (g (s\<lparr>lm := c\<rparr>)) Q) \<Longrightarrow>
    succeeds (Option.bind (on_lm f (s\<lparr>lm := c\<rparr>)) g) Q"
  by (auto simp: succeeds_def on_lm_def)

lemma read_lm_bind: "succeeds (f c) (\<lambda>(v, c). P v c) \<Longrightarrow> (\<And>v c. P v c \<Longrightarrow> succeeds (g v (s\<lparr>lm := c\<rparr>)) Q) \<Longrightarrow>
    succeeds (Option.bind (read_lm f (s\<lparr>lm := c\<rparr>)) (\<lambda>(v, s). g v s)) Q"
  by (auto simp: succeeds_def read_lm_def)

lemma on_lm_puts: "succeeds (f c) P \<Longrightarrow> (\<And>c. P c \<Longrightarrow> succeeds (g ((lputs t s)\<lparr>lm := c\<rparr>)) Q) \<Longrightarrow>
    succeeds (Option.bind (on_lm f (lputs t (s\<lparr>lm := c\<rparr>))) g) Q"
  by (auto simp: succeeds_def on_lm_def lputs_def)

lemma read_lm_puts: "succeeds (f c) (\<lambda>(v, c). P v c) \<Longrightarrow> (\<And>v c. P v c \<Longrightarrow> succeeds (g v ((lputs t s)\<lparr>lm := c\<rparr>)) Q) \<Longrightarrow>
    succeeds (Option.bind (read_lm f (lputs t (s\<lparr>lm := c\<rparr>))) (\<lambda>(v, s). g v s)) Q"
  by (auto simp: succeeds_def read_lm_def lputs_def)

lemma lputs_lm: "lputs t (s\<lparr>lm := c\<rparr>) = (lputs t s)\<lparr>lm := c\<rparr>"
  by (simp add: lputs_def)

definition blk :: "(addr \<times> nat) list \<Rightarrow> nat \<Rightarrow> addr \<Rightarrow> nat \<Rightarrow> bool" where
  "blk bs b p n \<longleftrightarrow> b < length bs \<and> bs ! b = (p, n)"

lemma blkD: "blk bs b p n \<Longrightarrow> b < length bs" "blk bs b p n \<Longrightarrow> bs ! b = (p, n)"
  by (simp_all add: blk_def)

lemma coh_any: "coh H bs (\<lambda>_ _. BAny) c"
  by (simp add: coh_def knows_def)

lemma coh_fill:
  assumes "blocks_ok pol L H bs" "blk bs b p n" "coh H bs k c" "k b = t"
  shows "succeeds (store_loop H f p 0 n c) (coh H bs (k(b := \<lambda>i. stored (f i) (t i))))"
  using fill_knows [OF blocks_okD [OF assms(1) blkD [OF assms(2)]] cohD [OF assms(3) blkD [OF assms(2)]], of f]
    coh_upd [OF assms(1,3) blkD [OF assms(2)]] assms(4)
  unfolding succeeds_def by blast

lemma coh_dev_fill:
  assumes "blocks_ok pol L H bs" "blk bs b p n" "coh H bs k c" "k b = t"
  shows "succeeds (store_loop H f (p + 0x40000000) 0 n c) (coh H bs (k(b := \<lambda>i. dev_put (f i) (t i))))"
  using dev_fill_knows [OF blocks_okD [OF assms(1) blkD [OF assms(2)]] cohD [OF assms(3) blkD [OF assms(2)]], of f]
    coh_upd [OF assms(1,3) blkD [OF assms(2)]] assms(4)
  unfolding succeeds_def by blast

lemma coh_cvac:
  assumes "blocks_ok pol L H bs" "blk bs b p (unat len)" "len \<noteq> 0" "coh H bs k c" "k b = t"
  shows "succeeds (dc_cvac_range H p len c) (coh H bs (k(b := \<lambda>i. cleaned (t i))))"
  using cvac_knows [OF blocks_okD [OF assms(1) blkD [OF assms(2)]] assms(3) cohD [OF assms(4) blkD [OF assms(2)]]]
    coh_upd [OF assms(1,4) blkD [OF assms(2)]] keeps_out_mono assms(5)
  unfolding succeeds_def by blast

lemma coh_ivac:
  assumes "blocks_ok pol L H bs" "blk bs b p (unat len)" "len \<noteq> 0" "coh H bs k c" "k b = t"
  shows "succeeds (dc_ivac_range H p len c) (coh H bs (k(b := \<lambda>i. dropped (t i))))"
  using ivac_knows [OF blocks_okD [OF assms(1) blkD [OF assms(2)]] assms(3) cohD [OF assms(4) blkD [OF assms(2)]]]
    coh_upd [OF assms(1,4) blkD [OF assms(2)]] assms(5)
  unfolding succeeds_def by blast

lemma coh_dev_copy:
  assumes "blocks_ok pol L H bs" "blk bs b dst n" "blk bs d src n" "d \<noteq> b" "coh H bs k c" "k b = t" "k d = u"
  shows "succeeds (dma_memcpy H (dst + 0x40000000) (src + 0x40000000) n c) (coh H bs (k(b := \<lambda>i. copied (u i) (t i))))"
proof -
  note b = blkD [OF assms(2)] and d = blkD [OF assms(3)]
  note B = blocks_okD [OF assms(1) b]
  have "apart src n dst n" using assms(1,4) b d unfolding blocks_ok_def by (metis fst_conv snd_conv)
  from device_copy_knows [OF B(1,2) blocks_okD(3) [OF assms(1) d] B(3) this cohD [OF assms(5) d] cohD [OF assms(5) b]]
  obtain c' where c': "dma_memcpy H (dst + 0x40000000) (src + 0x40000000) n c = Some c'"
    "\<And>a st. \<not> in_range a dst n \<Longrightarrow> bytesat H c a st \<Longrightarrow> bytesat H c' a st" "knows H c' dst n (\<lambda>i. copied (u i) (t i))"
    unfolding assms(6,7) by blast
  have "keeps_out (lines_of H dst n) H c c'"
    using c'(2) by (auto simp: keeps_out_def lines_of_def in_range_def)
  then show ?thesis using coh_upd [OF assms(1,5) b _ c'(3)] c'(1) by (simp add: succeeds_def)
qed

lemma coh_mismatch:
  assumes "blocks_ok pol L H bs" "blk bs b p n" "coh H bs k c" "k b = t"
  shows "succeeds (first_mismatch H p f n c) (\<lambda>(d, c'). coh H bs k c' \<and> ((\<forall>i < n. reads (t i) = Some (f i)) \<longrightarrow> d = -1))"
  using mismatch_loop_ok [OF blocks_okD [OF assms(1) blkD [OF assms(2)]] _ cohD [OF assms(3) blkD [OF assms(2)]], of 0 n f]
    coh_keep [OF assms(1,3)] assms(4)
  unfolding succeeds_def first_mismatch_def by fastforce

lemma coh_mem:
  assumes "blocks_ok pol L H bs" "blk bs b p n" "coh H bs k c" "k b = t"
  shows "succeeds (memfill_const H p n v c) (coh H bs (k(b := \<lambda>i. stored v (t i))))"
    "succeeds (memfill_const H (p + 0x40000000) n v c) (coh H bs (k(b := \<lambda>i. dev_put v (t i))))"
    "succeeds (memfill H p n v c) (coh H bs (k(b := \<lambda>i. stored (pattern_byte v i) (t i))))"
  using coh_fill [OF assms, of "\<lambda>_. v"] coh_dev_fill [OF assms, of "\<lambda>_. v"] coh_fill [OF assms, of "pattern_byte v"]
  by (simp_all add: memfill_const_def memfill_def)

lemmas coh_device_memcpy = coh_dev_copy [folded device_memcpy_def]
lemmas coh_clean_to_poc = coh_cvac [folded clean_to_poc_def]
lemmas coh_invalidate = coh_ivac [folded invalidate_for_cpu_def]

lemmas lab_steps = on_lm_bind on_lm_puts read_lm_bind read_lm_puts coh_mem(2) coh_mem(1,3) coh_cvac coh_ivac coh_device_memcpy
  coh_clean_to_poc coh_invalidate coh_mismatch

section \<open>Buffers from the heap\<close>

text \<open>The heap is cacheable RAM with \<open>room\<close> bytes left, and lines have at most 64 bytes.\<close>

definition heap_ok :: "dma_policy \<Rightarrow> mmu_layout \<Rightarrow> hw \<Rightarrow> nat \<Rightarrow> kmem \<Rightarrow> bool" where
  "heap_ok pol L H room h \<longleftrightarrow> hw_ok H \<and> virt_map pol L H \<and> unat (dcache_line_size H) \<le> 64 \<and>
     1073741824 \<le> unat (kcur h) \<and> unat (kcur h) + room \<le> unat (kend h) \<and> unat (kend h) \<le> 2147483648 \<and>
     (\<forall>a. unat (kcur h) \<le> unat a \<and> unat a < unat (kend h) \<longrightarrow> \<not> (pol = NonCacheable \<and> dma_page L a))"

lemma heap_ok_less: "heap_ok pol L H r h \<Longrightarrow> r' \<le> r \<Longrightarrow> heap_ok pol L H r' h"
  by (auto simp: heap_ok_def)

lemma to_alias_ram:
  assumes "ram_range p (unat len)" "len \<noteq> 0"
  shows "to_alias p len = p + 0x40000000" "p \<noteq> NULL" "p + 0x40000000 \<noteq> NULL"
proof -
  have p: "1073741824 \<le> unat p" "unat p + unat len \<le> 2147483648" using assms(1) by (auto simp: ram_range_def)
  have l: "0 < unat len" "unat (len - 1) = unat len - 1" using assms(2) unat_minus_one by (simp_all add: unat_gt_0)
  have e: "unat (p + (len - 1)) = unat p + (unat len - 1)" using p l by (subst unat_add_nowrap) simp_all
  show n: "p \<noteq> NULL" using p by auto
  have "unat (p + 0x40000000) = unat p + 1073741824" using p by (subst unat_add_nowrap) simp_all
  then show "p + 0x40000000 \<noteq> NULL" by (metis add_is_0 unat_0 zero_neq_numeral)
  have "\<not> p + (len - 1) < p" "\<not> p < 0x40000000" "\<not> 0x80000000 \<le> p + (len - 1)"
    using p l e by (simp_all add: word_less_nat_alt word_le_nat_alt)
  then show "to_alias p len = p + 0x40000000" using n assms(2) by (simp add: to_alias_def Let_def)
qed

lemma lalloc_ok:
  assumes h: "heap_ok pol L H room (lheap s)" and al: "kmem_align al = al" "unat al \<le> 64" and sz: "sz \<noteq> 0" "unat sz + 64 \<le> room"
  shows "\<exists>p h'. lalloc sz al s = (p, s\<lparr>lheap := h'\<rparr>) \<and> heap_ok pol L H (room - (unat sz + 64)) h' \<and> cached_ram pol L p (unat sz) \<and>
    unat al dvd unat p \<and> unat (kcur (lheap s)) \<le> unat p \<and> unat p + unat sz = unat (kcur h')"
proof -
  let ?h = "lheap s"
  obtain p h' where a: "kmem_alloc_aligned ?h sz al = (p, h')" by (cases "kmem_alloc_aligned ?h sz al")
  have b: "1073741824 \<le> unat (kcur ?h)" "unat (kcur ?h) + room \<le> unat (kend ?h)" "unat (kend ?h) \<le> 2147483648"
    using h by (simp_all add: heap_ok_def)
  have i: "kmem_inv ?h" using b by (auto simp: kmem_inv_def word_le_nat_alt word_less_nat_alt)
  have ad: "kmem_admissible ?h sz al" using b al sz by (auto simp: kmem_admissible_def word_le_nat_alt)
  note bd = kmem_align_up_bounds [OF i ad]
  have "p \<noteq> NULL \<and> h' = ?h\<lparr>kcur := p + sz\<rparr> \<and> unat (kcur ?h) \<le> unat p \<and> unat (p + sz) = unat p + unat sz \<and>
      unat p < unat (kcur ?h) + unat al \<and> unat al dvd unat p"
    using i ad a
  proof (cases rule: kmem_alloc_cases)
    case full
    then show ?thesis using bd(2) b al sz by simp
  next
    case block
    then show ?thesis using bd(2) al(1) by simp
  qed
  note p = this
  have "heap_ok pol L H (room - (unat sz + 64)) h'"
    using h p b al sz by (auto simp: heap_ok_def)
  moreover have "cached_ram pol L p (unat sz)"
    using h p b al sz by (auto simp: cached_ram_def ram_range_def in_range_def heap_ok_def)
  ultimately show ?thesis using a p by (auto simp: lalloc_def)
qed

lemma lines_apart:
  assumes "unat (dcache_line_size H) dvd unat q" "unat p + n \<le> unat q"
  shows "lines_of H p n \<inter> lines_of H q m = {}"
proof -
  obtain k where k: "k < 18" "dcache_line_size H = 2 ^ k" by (rule dcache_line_size_2p)
  have z: "unat (dcache_line_size H) = 2 ^ k" using k unat_2p [of k] by simp
  have "line_of H a \<noteq> line_of H b" if "unat a < unat p + n" "unat q \<le> unat b" for a b
  proof -
    obtain j where j: "unat q = 2 ^ k * j" using assms(1) unfolding z by (elim dvdE)
    have "unat a < 2 ^ k * j" "2 ^ k * j \<le> unat b" using that assms(2) j by simp_all
    then have "unat a div 2 ^ k < j" "j \<le> unat b div 2 ^ k"
      by (simp_all add: div_less_iff_less_mult less_eq_div_iff_mult_less_eq mult.commute)
    then show ?thesis using line_of_eq_iff [OF k(2)] k(1) by simp
  qed
  then show ?thesis unfolding lines_of_def by force
qed

text \<open>Blocks that follow each other, each starting on a line of its own.\<close>

lemma blocks_chain:
  assumes "hw_ok H" "virt_map pol L H" "\<forall>b < length bs. cached_ram pol L (fst (bs ! b)) (snd (bs ! b))"
    and "\<forall>d < length bs. \<forall>b < d. unat (fst (bs ! b)) + snd (bs ! b) \<le> unat (fst (bs ! d)) \<and>
      unat (dcache_line_size H) dvd unat (fst (bs ! d))"
  shows "blocks_ok pol L H bs"
proof -
  have "apart (fst (bs ! b)) (snd (bs ! b)) (fst (bs ! d)) (snd (bs ! d)) \<and>
      lines_of H (fst (bs ! b)) (snd (bs ! b)) \<inter> lines_of H (fst (bs ! d)) (snd (bs ! d)) = {}"
    if "b < length bs" "d < length bs" "b \<noteq> d" for b d
  proof (cases "b < d")
    case True
    then show ?thesis using assms(4) that lines_apart by (simp add: apart_def)
  next
    case False
    then have "d < b" using that(3) by simp
    then show ?thesis using assms(4) that lines_apart [of H "fst (bs ! b)" "fst (bs ! d)"] by (simp add: apart_def Int_commute)
  qed
  then show ?thesis using assms(1-3) unfolding blocks_ok_def by blast
qed

lemma line_dvd_64: "unat (dcache_line_size H) \<le> 64 \<Longrightarrow> 64 dvd n \<Longrightarrow> unat (dcache_line_size H) dvd n"
proof -
  assume l: "unat (dcache_line_size H) \<le> 64" and n: "64 dvd n"
  obtain k where k: "k < 18" "dcache_line_size H = 2 ^ k" by (rule dcache_line_size_2p)
  have z: "unat (dcache_line_size H) = 2 ^ k" using k unat_2p [of k] by simp
  have "(2 :: nat) ^ k \<le> 2 ^ 6" using l unfolding z by simp
  then have "k \<le> 6" by (rule power_le_imp_le_exp [rotated]) simp
  then have "(2 :: nat) ^ k dvd 2 ^ 6" by (rule le_imp_power_dvd)
  then have "(2 :: nat) ^ k dvd 64" by simp
  then show ?thesis unfolding z using n by (rule dvd_trans)
qed

end
