(* ===== verification/DmaLabRun.thy ===== *)
theory DmaLabRun
  imports DmaLab
begin

text \<open>
  The runs of the demonstrations of \<open>DmaLab\<close>. Under every behaviour of the cache, each case ends,
  and its repaired half works: the only way to fail is that the defect did not show.
\<close>

section \<open>Outcomes\<close>

text \<open>The text of a run ends with \<open>t\<close>.\<close>

definition ends :: "string \<Rightarrow> labst \<Rightarrow> bool" where
  "ends t s \<longleftrightarrow> (\<exists>pre. llog s = pre @ t)"

definition not_reproduced :: "nat \<Rightarrow> string" where
  "not_reproduced n =
     (if n = 1 then ''[dma-lab][1] ERR unexpected PASS (bug did not reproduce)''
      else if n = 2 then ''[dma-lab][2] ERR unexpected PASS (CPU observed device write without invalidate)''
      else if n = 3 then ''[dma-lab][3] ERR unexpected PASS (descriptor bug did not reproduce)''
      else if n = 4 then ''[dma-lab][4] ERR unexpected PASS (publish ordering bug did not reproduce)''
      else if n = 5 then ''[dma-lab][5] ERR unexpected PASS (saw completion without invalidate)''
      else ''[dma-lab][6] ERR unexpected PASS (guard survived invalidate)'') @ [newline]"

definition case_ok :: "dma_policy \<Rightarrow> mmu_layout \<Rightarrow> hw \<Rightarrow> nat \<Rightarrow> nat \<Rightarrow> bool \<times> labst \<Rightarrow> bool" where
  "case_ok pol L H room n r \<longleftrightarrow> heap_ok pol L H room (lheap (snd r)) \<and> (fst r \<or> ends (not_reproduced n) (snd r))"

lemma case_ok_simps [simp]:
  "case_ok pol L H room n (True, s) = heap_ok pol L H room (lheap s)"
  "case_ok pol L H room n (False, lputs (not_reproduced n) s) = heap_ok pol L H room (lheap s)"
  by (auto simp: case_ok_def ends_def lputs_def)

lemma lheap_simps [simp]: "lheap (lputs t s) = lheap s" "lheap (s\<lparr>lm := c\<rparr>) = lheap s" "lm (lputs t s) = lm s"
  by (simp_all add: lputs_def)

lemma not_reproduced_texts:
  "''[dma-lab][1] ERR unexpected PASS (bug did not reproduce)'' @ [newline] = not_reproduced 1"
  "''[dma-lab][2] ERR unexpected PASS (CPU observed device write without invalidate)'' @ [newline] = not_reproduced 2"
  "''[dma-lab][3] ERR unexpected PASS (descriptor bug did not reproduce)'' @ [newline] = not_reproduced 3"
  "''[dma-lab][4] ERR unexpected PASS (publish ordering bug did not reproduce)'' @ [newline] = not_reproduced 4"
  "''[dma-lab][5] ERR unexpected PASS (saw completion without invalidate)'' @ [newline] = not_reproduced 5"
  "''[dma-lab][6] ERR unexpected PASS (guard survived invalidate)'' @ [newline] = not_reproduced 6"
  by (simp_all add: not_reproduced_def)

lemma on_lm_start: "succeeds (f (lm s)) P \<Longrightarrow> (\<And>c. P c \<Longrightarrow> succeeds (g (s\<lparr>lm := c\<rparr>)) Q) \<Longrightarrow>
    succeeds (Option.bind (on_lm f s) g) Q"
  by (auto simp: succeeds_def on_lm_def)

lemma succeeds_if: "(b \<Longrightarrow> succeeds x Q) \<Longrightarrow> (\<not> b \<Longrightarrow> succeeds y Q) \<Longrightarrow> succeeds (if b then x else y) Q"
  by simp

lemmas run_steps = succeeds_if lab_steps on_lm_start coh_any

lemma alloc64:
  assumes h: "heap_ok pol L H r' (lheap s)" "r + (unat sz + 64) \<le> r'" and sz: "sz \<noteq> 0"
  obtains p h' where "lalloc sz 64 s = (p, s\<lparr>lheap := h'\<rparr>)" "heap_ok pol L H r h'" "cached_ram pol L p (unat sz)"
    "unat (dcache_line_size H) dvd unat p" "unat (kcur (lheap s)) \<le> unat p" "unat p + unat sz = unat (kcur h')"
    "to_alias p sz = p + 0x40000000" "p \<noteq> NULL" "p + 0x40000000 \<noteq> NULL"
proof -
  have "kmem_align 64 = 64" "unat (64 :: u64) \<le> 64" by (simp_all add: kmem_align_def is_pow2_def)
  from lalloc_ok [OF h(1) this sz] h(2) obtain p h' where p: "lalloc sz 64 s = (p, s\<lparr>lheap := h'\<rparr>)"
    "heap_ok pol L H (r' - (unat sz + 64)) h'" "cached_ram pol L p (unat sz)" "unat (64 :: u64) dvd unat p"
    "unat (kcur (lheap s)) \<le> unat p" "unat p + unat sz = unat (kcur h')" by auto
  have "heap_ok pol L H r h'" by (rule heap_ok_less [OF p(2)]) (use h(2) in simp)
  moreover have "unat (dcache_line_size H) dvd unat p" using line_dvd_64 [of H "unat p"] p(4) h(1) by (simp add: heap_ok_def)
  moreover have "ram_range p (unat sz)" using p(3) by (simp add: cached_ram_def)
  ultimately show thesis using that p(1,3,5,6) to_alias_ram [of p sz] sz by blast
qed

lemma case1_ok:
  assumes h: "heap_ok pol L H r' (lheap s)" "r + 2176 \<le> r'"
  shows "succeeds (case1_cpu_to_dev_stale_src H s) (case_ok pol L H r 1)"
proof -
  define s0 where "s0 = lputs (''[dma-lab][1] why: device reads via NC alias, CPU dirty cache not visible'' @ [newline])
    (lputs (''[dma-lab][1] stale read CPU->device (missing clean)'' @ [newline]) s)"
  have h0: "heap_ok pol L H r' (lheap s0)" using h(1) by (simp add: s0_def)
  obtain p h1 where p: "lalloc 1024 64 s0 = (p, s0\<lparr>lheap := h1\<rparr>)" "heap_ok pol L H (r + 1088) h1" "cached_ram pol L p (unat (1024 :: u64))"
    "unat (dcache_line_size H) dvd unat p" "unat p + unat (1024 :: u64) = unat (kcur h1)"
    "to_alias p 1024 = p + 0x40000000" "p \<noteq> NULL" "p + 0x40000000 \<noteq> NULL"
    by (rule alloc64 [OF h0, of "r + 1088" 1024]) (use h(2) in auto)
  have h1: "heap_ok pol L H (r + 1088) (lheap (s0\<lparr>lheap := h1\<rparr>))" using p(2) by simp
  obtain q h2 where q: "lalloc 1024 64 (s0\<lparr>lheap := h1\<rparr>) = (q, s0\<lparr>lheap := h2\<rparr>)" "heap_ok pol L H r h2"
    "cached_ram pol L q (unat (1024 :: u64))" "unat (dcache_line_size H) dvd unat q" "unat (kcur h1) \<le> unat q"
    "to_alias q 1024 = q + 0x40000000" "q \<noteq> NULL" "q + 0x40000000 \<noteq> NULL"
    by (rule alloc64 [OF h1, of r 1024]) (use h(2) in auto)
  have B: "blocks_ok pol L H [(p, 1024), (q, 1024)]"
    using h0 p q by (intro blocks_chain) (auto simp: heap_ok_def nth_Cons' less_Suc_eq)
  have blks: "blk [(p, 1024), (q, 1024)] 0 p 1024" "blk [(p, 1024), (q, 1024)] 1 q 1024"
    "blk [(p, 1024), (q, 1024)] 0 p (unat (1024 :: u64))" "blk [(p, 1024), (q, 1024)] 1 q (unat (1024 :: u64))"
    by (simp_all add: blk_def)
  have nz: "(1024 :: u64) \<noteq> 0" "(0 :: nat) \<noteq> 1" "(1 :: nat) \<noteq> 0" by simp_all
  have nn: "\<not> (p = NULL \<or> q = NULL \<or> p + 0x40000000 = NULL \<or> q + 0x40000000 = NULL)" using p(7,8) q(7,8) by blast
  show ?thesis
    unfolding case1_cpu_to_dev_stale_src_def s0_def [symmetric] Let_def p(1) q(1) p(6) q(6) prod.case not_reproduced_texts if_not_P [OF nn]
    by (assumption | erule conjE | rule run_steps B blks nz | (simp add: q(2) copied_def dev_put_def; fail))+
qed

lemma case2_ok:
  assumes h: "heap_ok pol L H r' (lheap s)" "r + 1088 \<le> r'"
  shows "succeeds (case2_dev_to_cpu_stale_dst H s) (case_ok pol L H r 2)"
proof -
  define s0 where "s0 = lputs (''[dma-lab][2] why: device writes memory via NC alias, CPU may keep stale cache line'' @ [newline])
    (lputs (''[dma-lab][2] stale read device->CPU (missing invalidate)'' @ [newline]) s)"
  have h0: "heap_ok pol L H r' (lheap s0)" using h(1) by (simp add: s0_def)
  obtain p h1 where p: "lalloc 1024 64 s0 = (p, s0\<lparr>lheap := h1\<rparr>)" "heap_ok pol L H r h1" "cached_ram pol L p (unat (1024 :: u64))"
    "to_alias p 1024 = p + 0x40000000" "p \<noteq> NULL" "p + 0x40000000 \<noteq> NULL"
    by (rule alloc64 [OF h0, of r 1024]) (use h(2) in auto)
  have B: "blocks_ok pol L H [(p, 1024)]" using h0 p by (intro blocks_chain) (auto simp: heap_ok_def)
  have blks: "blk [(p, 1024)] 0 p 1024" "blk [(p, 1024)] 0 p (unat (1024 :: u64))" "(1024 :: u64) \<noteq> 0" by (simp_all add: blk_def)
  have nn: "\<not> (p = NULL \<or> p + 0x40000000 = NULL)" using p(5,6) by blast
  show ?thesis
    unfolding case2_dev_to_cpu_stale_dst_def s0_def [symmetric] Let_def p(1,4) prod.case not_reproduced_texts if_not_P [OF nn]
    by (assumption | erule conjE | rule run_steps B blks | (simp add: p(2) dev_put_def; fail))+
qed

section \<open>Words in memory\<close>

lemma from_le_nth: "length vs = 8 \<Longrightarrow> (\<And>i. i < 8 \<Longrightarrow> vs ! i = to_le 8 w ! i) \<Longrightarrow> from_le vs = (w :: u64)"
  "length vs = 4 \<Longrightarrow> (\<And>i. i < 4 \<Longrightarrow> vs ! i = to_le 4 x ! i) \<Longrightarrow> from_le vs = (x :: u32)"
proof -
  have "length vs = 8 \<Longrightarrow> (\<And>i. i < 8 \<Longrightarrow> vs ! i = to_le 8 w ! i) \<Longrightarrow> vs = to_le 8 w"
    by (intro nth_equalityI) (simp_all del: to_le.simps)
  then show "length vs = 8 \<Longrightarrow> (\<And>i. i < 8 \<Longrightarrow> vs ! i = to_le 8 w ! i) \<Longrightarrow> from_le vs = w"
    using from_le_to_le_64 [of w] by simp
  have "length vs = 4 \<Longrightarrow> (\<And>i. i < 4 \<Longrightarrow> vs ! i = to_le 4 x ! i) \<Longrightarrow> vs = to_le 4 x"
    by (intro nth_equalityI) (simp_all del: to_le.simps)
  then show "length vs = 4 \<Longrightarrow> (\<And>i. i < 4 \<Longrightarrow> vs ! i = to_le 4 x ! i) \<Longrightarrow> from_le vs = x"
    using from_le_to_le_32 [of x] by simp
qed

text \<open>A word of which some bytes have been replaced by 0 is not larger.\<close>

lemma bit_from_le_Cons:
  assumes "i < LENGTH('a::len)"
  shows "bit (from_le (b # bs) :: 'a word) i \<longleftrightarrow> (if i < 8 then bit b i else bit (from_le bs :: 'a word) (i - 8))"
proof -
  have "\<not> bit b i" if "8 \<le> i" using that by (simp add: bit_word.rep_eq)
  then show ?thesis using assms by (auto simp: bit_or_iff bit_push_bit_iff bit_unsigned_iff)
qed

lemma from_le_part:
  "list_all2 (\<lambda>v b. v = 0 \<or> v = b) vs bs \<Longrightarrow> (from_le vs :: 'a::len word) AND from_le bs = from_le vs"
proof (induction rule: list_all2_induct)
  case Nil
  then show ?case by simp
next
  case (Cons v vs b bs)
  show ?case
  proof (rule bit_eqI)
    fix i assume "possible_bit TYPE('a word) i"
    then have i: "i < LENGTH('a)" by (simp add: possible_bit_word)
    have "bit (from_le vs AND from_le bs :: 'a word) (i - 8) = bit (from_le vs :: 'a word) (i - 8)" using Cons.IH by simp
    then show "bit (from_le (v # vs) AND from_le (b # bs) :: 'a word) i = bit (from_le (v # vs) :: 'a word) i"
      unfolding bit_and_iff bit_from_le_Cons [OF i] using Cons.hyps(1) by auto
  qed
qed

lemma from_le_part_le:
  assumes "length vs = 8" "\<And>i. i < 8 \<Longrightarrow> vs ! i = 0 \<or> vs ! i = to_le 8 w ! i"
  shows "unat (from_le vs :: u64) \<le> unat (w :: u64)"
proof -
  have "list_all2 (\<lambda>v b. v = 0 \<or> v = b) vs (to_le 8 w)"
    using assms by (simp add: list_all2_conv_all_nth del: to_le.simps)
  from from_le_part [OF this, where 'a = 64] have e: "from_le vs AND w = from_le vs" by (simp only: from_le_to_le_64)
  have "from_le vs AND w \<le> w" by (rule word_and_le1)
  then have "from_le vs \<le> w" unfolding e .
  then show ?thesis by (simp only: word_le_nat_alt)
qed

lemma coh_words:
  assumes "blocks_ok pol L H bs"
  shows "blk bs b p 4 \<Longrightarrow> coh H bs k c \<Longrightarrow> k b = t \<Longrightarrow>
      succeeds (cpu_store32 H (p + 0x40000000) x c) (coh H bs (k(b := \<lambda>i. dev_put (to_le 4 x ! i) (t i))))"
    "blk bs b p 4 \<Longrightarrow> coh H bs k c \<Longrightarrow> k b = t \<Longrightarrow>
      succeeds (cpu_store32 H p x c) (coh H bs (k(b := \<lambda>i. stored (to_le 4 x ! i) (t i))))"
    "blk bs b p 8 \<Longrightarrow> coh H bs k c \<Longrightarrow> k b = t \<Longrightarrow>
      succeeds (cpu_store64 H p v c) (coh H bs (k(b := \<lambda>i. stored (to_le 8 v ! i) (t i))))"
    "blk bs b p 4 \<Longrightarrow> coh H bs k c \<Longrightarrow> k b = t \<Longrightarrow>
      succeeds (cpu_load32 H p c) (\<lambda>(r, c'). coh H bs k c' \<and> (\<forall>x. (\<forall>i < 4. reads (t i) = Some (to_le 4 x ! i)) \<longrightarrow> r = x))"
    "blk bs b p 8 \<Longrightarrow> coh H bs k c \<Longrightarrow> k b = t \<Longrightarrow>
      succeeds (cpu_load64 H (p + 0x40000000) c) (\<lambda>(r, c'). coh H bs k c' \<and>
        (\<forall>v. (\<forall>i < 8. ram_may (t i) = {to_le 8 v ! i}) \<longrightarrow> r = v))"
proof -
  show "blk bs b p 4 \<Longrightarrow> coh H bs k c \<Longrightarrow> k b = t \<Longrightarrow>
      succeeds (cpu_store32 H (p + 0x40000000) x c) (coh H bs (k(b := \<lambda>i. dev_put (to_le 4 x ! i) (t i))))"
    unfolding cpu_store32_def by (rule coh_dev_fill [OF assms])
  show "blk bs b p 4 \<Longrightarrow> coh H bs k c \<Longrightarrow> k b = t \<Longrightarrow>
      succeeds (cpu_store32 H p x c) (coh H bs (k(b := \<lambda>i. stored (to_le 4 x ! i) (t i))))"
    unfolding cpu_store32_def by (rule coh_fill [OF assms])
  show "blk bs b p 8 \<Longrightarrow> coh H bs k c \<Longrightarrow> k b = t \<Longrightarrow>
      succeeds (cpu_store64 H p v c) (coh H bs (k(b := \<lambda>i. stored (to_le 8 v ! i) (t i))))"
    unfolding cpu_store64_def by (rule coh_fill [OF assms])
  assume k: "coh H bs k c" "k b = t"
  show "succeeds (cpu_load32 H p c) (\<lambda>(r, c'). coh H bs k c' \<and> (\<forall>x. (\<forall>i < 4. reads (t i) = Some (to_le 4 x ! i)) \<longrightarrow> r = x))"
    if b: "blk bs b p 4"
  proof -
    from load_bytes_cached [OF blocks_okD [OF assms blkD [OF b]] cohD [OF k(1) blkD [OF b]]] k(2) obtain vs c' where
      vs: "cpu_load_bytes H p 4 c = Some (vs, c')" "keeps_out {} H c c'" "length vs = 4"
        "\<forall>i < 4. \<forall>v. reads (t i) = Some v \<longrightarrow> vs ! i = v" by blast
    have "from_le vs = x" if "\<forall>i < 4. reads (t i) = Some (to_le 4 x ! i)" for x :: u32
      by (rule from_le_nth(2) [OF vs(3)]) (use vs(4) that in blast)
    then show ?thesis using vs(1) coh_keep [OF assms k(1) vs(2)] by (simp add: succeeds_def cpu_load32_def del: cpu_load_bytes.simps)
  qed
  show "succeeds (cpu_load64 H (p + 0x40000000) c) (\<lambda>(r, c'). coh H bs k c' \<and>
        (\<forall>v. (\<forall>i < 8. ram_may (t i) = {to_le 8 v ! i}) \<longrightarrow> r = v))"
    if b: "blk bs b p 8"
  proof -
    from load_bytes_alias [OF blocks_okD [OF assms blkD [OF b]] cohD [OF k(1) blkD [OF b]]] k(2) obtain vs c' where
      vs: "cpu_load_bytes H (p + 0x40000000) 8 c = Some (vs, c')" "keeps_out {} H c c'" "length vs = 8"
        "\<forall>i < 8. vs ! i \<in> ram_may (t i)" by blast
    have "from_le vs = v" if "\<forall>i < 8. ram_may (t i) = {to_le 8 v ! i}" for v :: u64
      by (rule from_le_nth(1) [OF vs(3)]) (use vs(4) that in blast)
    then show ?thesis using vs(1) coh_keep [OF assms k(1) vs(2)] by (simp add: succeeds_def cpu_load64_def del: cpu_load_bytes.simps)
  qed
qed

lemma coh_poll_flag:
  assumes "blocks_ok pol L H bs" "blk bs b p 4" "coh H bs k c"
  shows "succeeds (poll_flag H p n c) (\<lambda>(saw, c'). coh H bs k c')"
  using assms(3)
proof (induction n arbitrary: c)
  case 0
  then show ?case by simp
next
  case (Suc n)
  from coh_words(4) [OF assms(1,2) Suc.prems refl] obtain r c1 where
    "cpu_load32 H p c = Some (r, c1)" "coh H bs k c1" by (auto simp: succeeds_def)
  then show ?case using Suc.IH [of c1] by simp
qed

lemma case5_ok:
  assumes h: "heap_ok pol L H r' (lheap s)" "r + 68 \<le> r'"
  shows "succeeds (case5_completion_flag_race H s) (case_ok pol L H r 5)"
proof -
  define s0 where "s0 = lputs (''[dma-lab][5] why: polling cacheable flag needs invalidate/rmb to observe device writes'' @ [newline])
    (lputs (''[dma-lab][5] completion flag race (missing invalidate on poll)'' @ [newline]) s)"
  have h0: "heap_ok pol L H r' (lheap s0)" using h(1) by (simp add: s0_def)
  obtain p h1 where p: "lalloc 4 64 s0 = (p, s0\<lparr>lheap := h1\<rparr>)" "heap_ok pol L H r h1" "cached_ram pol L p (unat (4 :: u64))"
    "to_alias p 4 = p + 0x40000000" "p \<noteq> NULL" "p + 0x40000000 \<noteq> NULL"
    by (rule alloc64 [OF h0, of r 4]) (use h(2) in auto)
  have B: "blocks_ok pol L H [(p, 4)]" using h0 p by (intro blocks_chain) (auto simp: heap_ok_def)
  have blks: "blk [(p, 4)] 0 p 4" "blk [(p, 4)] 0 p (unat (4 :: u64))" "(4 :: u64) \<noteq> 0" by (simp_all add: blk_def)
  show ?thesis
    unfolding case5_completion_flag_race_def s0_def [symmetric] Let_def p(1,4) prod.case not_reproduced_texts
      if_not_P [OF p(5)] if_not_P [OF p(6)]
    by (assumption | erule conjE | rule run_steps coh_words coh_poll_flag B blks | (simp add: p(2) dev_put_def del: to_le.simps; fail))+
qed

section \<open>Descriptors\<close>

definition lab_bytes :: "u64 \<Rightarrow> u64 \<Rightarrow> u64 \<Rightarrow> u64 \<Rightarrow> u8 list" where
  "lab_bytes src dst len cookie = to_le 8 src @ to_le 8 dst @ to_le 8 len @ to_le 8 cookie"

lemma lab_bytes_nth:
  assumes "i < 8"
  shows "lab_bytes src dst len cookie ! i = to_le 8 src ! i" "lab_bytes src dst len cookie ! (8 + i) = to_le 8 dst ! i"
    "lab_bytes src dst len cookie ! (16 + i) = to_le 8 len ! i" "lab_bytes src dst len cookie ! (24 + i) = to_le 8 cookie ! i"
  using assms by (simp_all add: lab_bytes_def nth_append del: to_le.simps)

lemma store_loop_append:
  "store_loop H f p i (m + n) c = Option.bind (store_loop H f p i m c) (store_loop H f p (i + m) n)"
  by (induction m arbitrary: i c) (simp_all add: bind_assoc cong: bind_option_cong)

lemma store_loop_shift:
  "(\<And>j. j < n \<Longrightarrow> f (i + j) = g (k + i + j)) \<Longrightarrow> store_loop H f (p + of_nat k) i n c = store_loop H g p (k + i) n c"
proof (induction n arbitrary: i c)
  case 0
  then show ?case by simp
next
  case (Suc n)
  have "f i = g (k + i)" using Suc.prems [of 0] by simp
  moreover have "store_loop H f (p + of_nat k) (Suc i) n = store_loop H g p (k + Suc i) n"
    by (rule ext, rule Suc.IH) (use Suc.prems [of "Suc _"] in simp)
  ultimately show ?case by (simp add: add.assoc)
qed

lemma write_lab_desc_eq:
  "write_lab_desc H d src dst len cookie c = store_loop H (\<lambda>i. lab_bytes src dst len cookie ! i) d 0 32 c"
proof -
  let ?f = "\<lambda>i. lab_bytes src dst len cookie ! i"
  have part: "store_loop H (\<lambda>i. to_le 8 v ! i) (d + of_nat k) 0 8 c = store_loop H ?f d k 8 c"
    if "\<And>i. i < 8 \<Longrightarrow> lab_bytes src dst len cookie ! (k + i) = to_le 8 v ! i" for v :: u64 and k c
    using store_loop_shift [where f = "\<lambda>i. to_le 8 v ! i" and i = 0 and k = k and n = 8 and g = ?f] that by (simp del: to_le.simps)
  have p: "cpu_store64 H d src = store_loop H ?f d 0 8" "cpu_store64 H (d + 8) dst = store_loop H ?f d 8 8"
    "cpu_store64 H (d + 16) len = store_loop H ?f d 16 8" "cpu_store64 H (d + 24) cookie = store_loop H ?f d 24 8"
    using part [of 0 src] part [of 8 dst] part [of 16 len] part [of 24 cookie] lab_bytes_nth
    by (simp_all add: cpu_store64_def fun_eq_iff del: to_le.simps)
  have "store_loop H ?f d 0 32 c = Option.bind (store_loop H ?f d 0 8 c) (\<lambda>c. Option.bind (store_loop H ?f d 8 8 c)
      (\<lambda>c. Option.bind (store_loop H ?f d 16 8 c) (store_loop H ?f d 24 8)))"
  proof -
    have "store_loop H ?f d 8 24 = (\<lambda>c. Option.bind (store_loop H ?f d 8 8 c) (store_loop H ?f d 16 16))"
      "store_loop H ?f d 16 16 = (\<lambda>c. Option.bind (store_loop H ?f d 16 8 c) (store_loop H ?f d 24 8))"
      using store_loop_append [of H ?f d 8 8 16] store_loop_append [of H ?f d 16 8 8]
      by (simp_all add: fun_eq_iff del: store_loop.simps)
    then show ?thesis using store_loop_append [of H ?f d 0 8 24 c] by (simp del: store_loop.simps)
  qed
  then show ?thesis unfolding write_lab_desc_def p by simp
qed

lemma coh_write_lab_desc:
  assumes "blocks_ok pol L H bs" "blk bs b p 32" "coh H bs k c" "k b = t"
  shows "succeeds (write_lab_desc H p src dst len cookie c)
    (coh H bs (k(b := \<lambda>i. stored (lab_bytes src dst len cookie ! i) (t i))))"
  unfolding write_lab_desc_eq by (rule coh_fill [OF assms])

text \<open>A device reads a field of a descriptor of which it sees the new bytes, or some of them.\<close>

lemma field_load:
  assumes hw: "hw_ok H" "virt_map pol L H" and r: "cached_ram pol L p 32" "off + 8 \<le> 32" and k: "knows H c p 32 t"
  shows "\<exists>v c'. cpu_load64 H (p + of_nat off + 0x40000000) c = Some (v, c') \<and> keeps_out {} H c c' \<and>
    (\<forall>w. (\<forall>i < 8. ram_may (t (off + i)) = {to_le 8 w ! i}) \<longrightarrow> v = w) \<and>
    (\<forall>w :: u64. (\<forall>i < 8. ram_may (t (off + i)) \<subseteq> {0, to_le 8 w ! i}) \<longrightarrow> unat v \<le> unat w)"
proof -
  have u: "unat (p + of_nat off) = unat p + off" using cached_ram_byte(3) [OF r(1)] r(2) by simp
  have r8: "cached_ram pol L (p + of_nat off) 8"
    using r u by (auto simp: cached_ram_def ram_range_def in_range_def)
  have "knows H c (p + of_nat off) 8 (\<lambda>i. t (off + i))"
    using k r(2) by (simp add: knows_def algebra_simps del: of_nat_add) (simp add: add.assoc flip: of_nat_add)
  from load_bytes_alias [OF hw r8 this] obtain vs c' where
    vs: "cpu_load_bytes H (p + of_nat off + 0x40000000) 8 c = Some (vs, c')" "keeps_out {} H c c'" "length vs = 8"
      "\<forall>i < 8. vs ! i \<in> ram_may (t (off + i))" by blast
  have "from_le vs = w" if "\<forall>i < 8. ram_may (t (off + i)) = {to_le 8 w ! i}" for w :: u64
    by (rule from_le_nth(1) [OF vs(3)]) (use vs(4) that in blast)
  moreover have "unat (from_le vs :: u64) \<le> unat w" if "\<forall>i < 8. ram_may (t (off + i)) \<subseteq> {0, to_le 8 w ! i}" for w :: u64
    by (rule from_le_part_le [OF vs(3)]) (use vs(4) that in blast)
  ultimately show ?thesis using vs(1,2) by (auto simp: cpu_load64_def simp del: cpu_load_bytes.simps)
qed

lemma phys_total: "virt_map pol L H \<Longrightarrow> unat va < 3221225472 \<Longrightarrow> \<exists>p b. phys H va = Some (p, b)"
  by (auto simp: phys_def virt_map_def boot_map_def kRamBase_def kRamLimit_def word_less_nat_alt)

lemma memcpy_total:
  assumes "virt_map pol L H" "unat dst + n \<le> 3221225472" "unat src + n \<le> 3221225472"
  shows "\<exists>c'. dma_memcpy H dst src n c = Some c'"
  using assms(2-)
proof (induction n arbitrary: dst src c)
  case 0
  then show ?case by simp
next
  case (Suc n)
  have u: "unat (q + 1) = Suc (unat q)" if "unat q + Suc n \<le> 3221225472" for q :: addr
    using that by (subst unat_add_nowrap) simp_all
  obtain p b p' b' where "phys H src = Some (p, b)" "phys H dst = Some (p', b')"
    using phys_total [OF assms(1), of src] phys_total [OF assms(1), of dst] Suc.prems by fastforce
  then obtain v c1 c2 where "cpu_load H src c = Some (v, c1)" "cpu_store H dst v c1 = Some c2"
    by (cases b; cases b') (auto simp: cpu_load_def cpu_store_def Let_def)
  then show ?case using Suc.IH [of "dst + 1" "src + 1" c2] Suc.prems u [of dst] u [of src] by simp
qed

lemma desc_fields:
  assumes B: "blocks_ok pol L H bs" and b: "blk bs d p 32" and c: "coh H bs k c"
  obtains len c1 src c2 dst c3 where "cpu_load64 H (p + 0x40000000 + 16) c = Some (len, c1)"
    "cpu_load64 H (p + 0x40000000) c1 = Some (src, c2)" "cpu_load64 H (p + 0x40000000 + 8) c2 = Some (dst, c3)" "coh H bs k c3"
    "\<And>s t l ck. k d = (\<lambda>i. BSettled (lab_bytes s t l ck ! i)) \<Longrightarrow> len = l \<and> src = s \<and> dst = t"
    "\<And>s t l ck. k d = (\<lambda>i. BMixed 0 (lab_bytes s t l ck ! i)) \<Longrightarrow> unat len \<le> unat l \<and> unat src \<le> unat s \<and> unat dst \<le> unat t"
proof -
  note D = blocks_okD [OF B blkD [OF b]]
  note load = field_load [OF D]
  have kn: "knows H e p 32 (k d)" if "coh H bs k e" for e by (rule cohD [OF that blkD [OF b]])
  obtain len c1 where l: "cpu_load64 H (p + of_nat 16 + 0x40000000) c = Some (len, c1)" "keeps_out {} H c c1"
    "\<forall>w. (\<forall>i < 8. ram_may (k d (16 + i)) = {to_le 8 w ! i}) \<longrightarrow> len = w"
    "\<forall>w :: u64. (\<forall>i < 8. ram_may (k d (16 + i)) \<subseteq> {0, to_le 8 w ! i}) \<longrightarrow> unat len \<le> unat w"
    using load [of 16 c, OF _ kn [OF c]] by auto
  have c1: "coh H bs k c1" by (rule coh_keep [OF B c l(2)])
  obtain src c2 where s: "cpu_load64 H (p + of_nat 0 + 0x40000000) c1 = Some (src, c2)" "keeps_out {} H c1 c2"
    "\<forall>w. (\<forall>i < 8. ram_may (k d (0 + i)) = {to_le 8 w ! i}) \<longrightarrow> src = w"
    "\<forall>w :: u64. (\<forall>i < 8. ram_may (k d (0 + i)) \<subseteq> {0, to_le 8 w ! i}) \<longrightarrow> unat src \<le> unat w"
    using load [of 0 c1, OF _ kn [OF c1]] by auto
  have c2: "coh H bs k c2" by (rule coh_keep [OF B c1 s(2)])
  obtain dst c3 where t: "cpu_load64 H (p + of_nat 8 + 0x40000000) c2 = Some (dst, c3)" "keeps_out {} H c2 c3"
    "\<forall>w. (\<forall>i < 8. ram_may (k d (8 + i)) = {to_le 8 w ! i}) \<longrightarrow> dst = w"
    "\<forall>w :: u64. (\<forall>i < 8. ram_may (k d (8 + i)) \<subseteq> {0, to_le 8 w ! i}) \<longrightarrow> unat dst \<le> unat w"
    using load [of 8 c2, OF _ kn [OF c2]] by auto
  have c3: "coh H bs k c3" by (rule coh_keep [OF B c2 t(2)])
  have e: "p + of_nat 16 + 0x40000000 = p + 0x40000000 + 16" "p + of_nat 0 + 0x40000000 = p + 0x40000000"
    "p + of_nat 8 + 0x40000000 = p + 0x40000000 + 8" by simp_all
  show thesis
  proof (rule that [OF l(1) [unfolded e] s(1) [unfolded e] t(1) [unfolded e] c3])
    fix s' t' l' ck
    show "len = l' \<and> src = s' \<and> dst = t'" if "k d = (\<lambda>i. BSettled (lab_bytes s' t' l' ck ! i))"
      using l(3) s(3) t(3) lab_bytes_nth [where src = s' and dst = t' and len = l' and cookie = ck] unfolding that by (simp del: to_le.simps)
    show "unat len \<le> unat l' \<and> unat src \<le> unat s' \<and> unat dst \<le> unat t'" if "k d = (\<lambda>i. BMixed 0 (lab_bytes s' t' l' ck ! i))"
      using l(4) s(4) t(4) lab_bytes_nth [where src = s' and dst = t' and len = l' and cookie = ck] unfolding that by (simp del: to_le.simps)
  qed
qed

text \<open>The device finds a whole descriptor, or one that has not been cleaned.\<close>

lemma process_settled:
  assumes B: "blocks_ok pol L H bs" and b: "blk bs d p 32" and c: "coh H bs k c"
    and k: "k d = (\<lambda>i. BSettled (lab_bytes (q + 0x40000000) (r + 0x40000000) len cookie ! i))" "k b = t" "k a = u"
    and ab: "blk bs a q (unat len)" "blk bs b r (unat len)" "a \<noteq> b" "len \<noteq> 0" "len \<le> 4096" "p + 0x40000000 \<noteq> NULL"
  shows "succeeds (device_process_desc H (p + 0x40000000) c) (\<lambda>(ok, c'). ok \<and> coh H bs (k(b := \<lambda>i. copied (u i) (t i))) c')"
proof -
  obtain l c1 s c2 e c3 where f: "cpu_load64 H (p + 0x40000000 + 16) c = Some (l, c1)"
    "cpu_load64 H (p + 0x40000000) c1 = Some (s, c2)" "cpu_load64 H (p + 0x40000000 + 8) c2 = Some (e, c3)" "coh H bs k c3"
    "l = len \<and> s = q + 0x40000000 \<and> e = r + 0x40000000"
    by (rule desc_fields [OF B b c]) (use k(1) in blast)
  have "succeeds (device_memcpy H e s (unat l) c3) (coh H bs (k(b := \<lambda>i. copied (u i) (t i))))"
    using coh_device_memcpy [OF B ab(2,1,3) f(4) k(2,3)] f(5) by simp
  then obtain c' where c': "device_memcpy H e s (unat l) c3 = Some c'" "coh H bs (k(b := \<lambda>i. copied (u i) (t i))) c'"
    unfolding succeeds_def by blast
  have "\<not> (l = 0 \<or> l > 4096)" using f(5) ab(4,5) by (simp add: not_less)
  then show ?thesis
    unfolding device_process_desc_def if_not_P [OF ab(6)] f(1-3) bind.bind_lunit prod.case using c' by simp
qed

lemma process_stale:
  assumes B: "blocks_ok pol L H bs" and b: "blk bs d p 32" and c: "coh H bs k c"
    and k: "k d = (\<lambda>i. BMixed 0 (lab_bytes s t len cookie ! i))"
    and le: "unat s + unat len \<le> 3221225472" "unat t + unat len \<le> 3221225472" "p + 0x40000000 \<noteq> NULL"
  shows "succeeds (device_process_desc H (p + 0x40000000) c) (\<lambda>(ok, c'). ok \<or> \<not> ok \<and> coh H bs k c')"
proof -
  obtain l c1 s' c2 t' c3 where f: "cpu_load64 H (p + 0x40000000 + 16) c = Some (l, c1)"
    "cpu_load64 H (p + 0x40000000) c1 = Some (s', c2)" "cpu_load64 H (p + 0x40000000 + 8) c2 = Some (t', c3)" "coh H bs k c3"
    "unat l \<le> unat len \<and> unat s' \<le> unat s \<and> unat t' \<le> unat t"
    by (rule desc_fields [OF B b c]) (use k(1) in blast)
  have "virt_map pol L H" using B by (simp add: blocks_ok_def)
  then obtain c' where "dma_memcpy H t' s' (unat l) c3 = Some c'"
    using memcpy_total [of pol L H t' "unat l" s' c3] f(5) le by auto
  then show ?thesis
    unfolding device_process_desc_def if_not_P [OF le(3)] f(1-3) bind.bind_lunit prod.case device_memcpy_def using f(4) by simp
qed

lemma lab_bound:
  assumes "cached_ram pol L p n"
  shows "unat (p + 0x40000000) + n \<le> 3221225472"
proof -
  have p: "1073741824 \<le> unat p" "unat p + n \<le> 2147483648" using assms by (simp_all add: cached_ram_def ram_range_def)
  then have "unat (p + 0x40000000) = unat p + 1073741824" by (subst unat_add_nowrap) simp_all
  then show ?thesis using p by simp
qed

lemma case3_ok:
  assumes h: "heap_ok pol L H r' (lheap s)" "r + 1248 \<le> r'"
  shows "succeeds (case3_descriptor_stale_fields H s) (case_ok pol L H r 3)"
proof -
  define s0 where "s0 = lputs (''[dma-lab][3] why: device reads descriptor via NC alias; CPU must clean before publish'' @ [newline])
    (lputs (''[dma-lab][3] descriptor stale fields (missing clean)'' @ [newline]) s)"
  have h0: "heap_ok pol L H r' (lheap s0)" using h(1) by (simp add: s0_def)
  obtain p h1 where p: "lalloc 512 64 s0 = (p, s0\<lparr>lheap := h1\<rparr>)" "heap_ok pol L H (r + 672) h1" "cached_ram pol L p (unat (512 :: u64))"
    "unat (dcache_line_size H) dvd unat p" "unat p + unat (512 :: u64) = unat (kcur h1)"
    "to_alias p 512 = p + 0x40000000" "p \<noteq> NULL" "p + 0x40000000 \<noteq> NULL"
    by (rule alloc64 [OF h0, of "r + 672" 512]) (use h(2) in auto)
  have h1: "heap_ok pol L H (r + 672) (lheap (s0\<lparr>lheap := h1\<rparr>))" using p(2) by simp
  obtain q h2 where q: "lalloc 512 64 (s0\<lparr>lheap := h1\<rparr>) = (q, s0\<lparr>lheap := h2\<rparr>)" "heap_ok pol L H (r + 96) h2"
    "cached_ram pol L q (unat (512 :: u64))" "unat (dcache_line_size H) dvd unat q" "unat (kcur h1) \<le> unat q"
    "unat q + unat (512 :: u64) = unat (kcur h2)" "to_alias q 512 = q + 0x40000000" "q \<noteq> NULL" "q + 0x40000000 \<noteq> NULL"
    by (rule alloc64 [OF h1, of "r + 96" 512]) (use h(2) in auto)
  have h2: "heap_ok pol L H (r + 96) (lheap (s0\<lparr>lheap := h2\<rparr>))" using q(2) by simp
  obtain d h3 where d: "lalloc kSizeofLabDesc 64 (s0\<lparr>lheap := h2\<rparr>) = (d, s0\<lparr>lheap := h3\<rparr>)" "heap_ok pol L H r h3"
    "cached_ram pol L d (unat (32 :: u64))" "unat (dcache_line_size H) dvd unat d" "unat (kcur h2) \<le> unat d"
    "to_alias d kSizeofLabDesc = d + 0x40000000" "d \<noteq> NULL" "d + 0x40000000 \<noteq> NULL"
    by (rule alloc64 [OF h2, of r kSizeofLabDesc]) (auto simp: kSizeofLabDesc_def)
  let ?B = "[(p, 512), (q, 512), (d, 32)]"
  have B: "blocks_ok pol L H ?B"
    using h0 p q d by (intro blocks_chain) (auto simp: heap_ok_def nth_Cons' less_Suc_eq)
  have blks: "blk ?B 0 p 512" "blk ?B 1 q 512" "blk ?B 2 d 32"
    "blk ?B 0 p (unat (512 :: u64))" "blk ?B 1 q (unat (512 :: u64))" "blk ?B 2 d (unat kSizeofLabDesc)"
    by (simp_all add: blk_def kSizeofLabDesc_def)
  have nz: "(512 :: u64) \<noteq> 0" "kSizeofLabDesc \<noteq> 0" "(0 :: nat) \<noteq> 1" "(512 :: u64) \<le> 4096"
    "unat (p + 0x40000000) + unat (512 :: u64) \<le> 3221225472" "unat (q + 0x40000000) + unat (512 :: u64) \<le> 3221225472"
    using lab_bound [OF p(3)] lab_bound [OF q(3)] by (simp_all add: kSizeofLabDesc_def)
  have nn: "\<not> (p = NULL \<or> q = NULL \<or> d = NULL)" "\<not> (p + 0x40000000 = NULL \<or> q + 0x40000000 = NULL \<or> d + 0x40000000 = NULL)"
    using p(7,8) q(8,9) d(7,8) by blast+
  show ?thesis
    unfolding case3_descriptor_stale_fields_def s0_def [symmetric] Let_def p(1) q(1) d(1) p(6) q(7) d(6) prod.case not_reproduced_texts
      if_not_P [OF nn(1)] if_not_P [OF nn(2)]
    by (assumption | erule conjE disjE | rule run_steps coh_write_lab_desc B blks nz d(8)
        | (rule process_stale [OF B blks(3)], assumption, (simp; fail)) | (rule process_settled [OF B blks(3)], assumption, (simp; fail))
        | (simp add: d(2) copied_def dev_put_def; fail))+
qed

lemma coh_load_word:
  assumes "blocks_ok pol L H bs" "blk bs b p 8" "coh H bs k c" "k b = (\<lambda>i. BSettled (to_le 8 v ! i))"
  shows "succeeds (cpu_load64 H (p + 0x40000000) c) (\<lambda>(r, c'). r = v \<and> coh H bs k c')"
  using coh_words(5) [OF assms(1-3) refl] assms(4) by (auto simp: succeeds_def simp del: to_le.simps)

lemma case4_ok:
  assumes h: "heap_ok pol L H r' (lheap s)" "r + 808 \<le> r'"
  shows "succeeds (case4_publish_ordering_head_vs_desc H s) (case_ok pol L H r 4)"
proof -
  define s0 where "s0 = lputs (''[dma-lab][4] why: must order desc clean before doorbell/head publish (dma_wmb)'' @ [newline])
    (lputs (''[dma-lab][4] publish ordering (head visible before desc)'' @ [newline]) s)"
  have h0: "heap_ok pol L H r' (lheap s0)" using h(1) by (simp add: s0_def)
  obtain p h1 where p: "lalloc 256 64 s0 = (p, s0\<lparr>lheap := h1\<rparr>)" "heap_ok pol L H (r + 488) h1" "cached_ram pol L p (unat (256 :: u64))"
    "unat (dcache_line_size H) dvd unat p" "unat p + unat (256 :: u64) = unat (kcur h1)"
    "to_alias p 256 = p + 0x40000000" "p \<noteq> NULL" "p + 0x40000000 \<noteq> NULL"
    by (rule alloc64 [OF h0, of "r + 488" 256]) (use h(2) in auto)
  have h1: "heap_ok pol L H (r + 488) (lheap (s0\<lparr>lheap := h1\<rparr>))" using p(2) by simp
  obtain q h2 where q: "lalloc 256 64 (s0\<lparr>lheap := h1\<rparr>) = (q, s0\<lparr>lheap := h2\<rparr>)" "heap_ok pol L H (r + 168) h2"
    "cached_ram pol L q (unat (256 :: u64))" "unat (dcache_line_size H) dvd unat q" "unat (kcur h1) \<le> unat q"
    "unat q + unat (256 :: u64) = unat (kcur h2)" "to_alias q 256 = q + 0x40000000" "q \<noteq> NULL" "q + 0x40000000 \<noteq> NULL"
    by (rule alloc64 [OF h1, of "r + 168" 256]) (use h(2) in auto)
  have h2: "heap_ok pol L H (r + 168) (lheap (s0\<lparr>lheap := h2\<rparr>))" using q(2) by simp
  obtain d h3 where d: "lalloc kSizeofLabDesc 64 (s0\<lparr>lheap := h2\<rparr>) = (d, s0\<lparr>lheap := h3\<rparr>)" "heap_ok pol L H (r + 72) h3"
    "cached_ram pol L d (unat (32 :: u64))" "unat (dcache_line_size H) dvd unat d" "unat (kcur h2) \<le> unat d"
    "unat d + unat (32 :: u64) = unat (kcur h3)" "to_alias d kSizeofLabDesc = d + 0x40000000" "d \<noteq> NULL" "d + 0x40000000 \<noteq> NULL"
    by (rule alloc64 [OF h2, of "r + 72" kSizeofLabDesc]) (auto simp: kSizeofLabDesc_def)
  have h3: "heap_ok pol L H (r + 72) (lheap (s0\<lparr>lheap := h3\<rparr>))" using d(2) by simp
  obtain e h4 where e: "lalloc 8 64 (s0\<lparr>lheap := h3\<rparr>) = (e, s0\<lparr>lheap := h4\<rparr>)" "heap_ok pol L H r h4"
    "cached_ram pol L e (unat (8 :: u64))" "unat (dcache_line_size H) dvd unat e" "unat (kcur h3) \<le> unat e"
    "to_alias e 8 = e + 0x40000000" "e \<noteq> NULL" "e + 0x40000000 \<noteq> NULL"
    by (rule alloc64 [OF h3, of r 8]) (use h(2) in auto)
  let ?B = "[(p, 256), (q, 256), (d, 32), (e, 8)]"
  have B: "blocks_ok pol L H ?B"
    using h0 p q d e by (intro blocks_chain) (auto simp: heap_ok_def nth_Cons' less_Suc_eq)
  have blks: "blk ?B 0 p 256" "blk ?B 1 q 256" "blk ?B 2 d 32" "blk ?B 3 e 8"
    "blk ?B 0 p (unat (256 :: u64))" "blk ?B 1 q (unat (256 :: u64))" "blk ?B 2 d (unat kSizeofLabDesc)" "blk ?B 3 e (unat (8 :: u64))"
    by (simp_all add: blk_def kSizeofLabDesc_def)
  have nz: "(256 :: u64) \<noteq> 0" "(8 :: u64) \<noteq> 0" "kSizeofLabDesc \<noteq> 0" "(0 :: nat) \<noteq> 1" "(256 :: u64) \<le> 4096"
    "unat (p + 0x40000000) + unat (256 :: u64) \<le> 3221225472" "unat (q + 0x40000000) + unat (256 :: u64) \<le> 3221225472"
    using lab_bound [OF p(3)] lab_bound [OF q(3)] by (simp_all add: kSizeofLabDesc_def)
  have nn: "\<not> (p = NULL \<or> q = NULL \<or> d = NULL \<or> e = NULL)"
    "\<not> (p + 0x40000000 = NULL \<or> q + 0x40000000 = NULL \<or> d + 0x40000000 = NULL \<or> e + 0x40000000 = NULL)"
    using p(7,8) q(8,9) d(8,9) e(7,8) by blast+
  show ?thesis
    unfolding case4_publish_ordering_head_vs_desc_def s0_def [symmetric] Let_def p(1) q(1) d(1) e(1) p(6) q(7) d(7) e(6) prod.case
      not_reproduced_texts if_not_P [OF nn(1)] if_not_P [OF nn(2)]
    by (assumption | erule conjE disjE | hypsubst | rule run_steps coh_load_word coh_words(3) coh_write_lab_desc B blks nz d(9)
        | (rule process_stale [OF B blks(3)], assumption, (simp; fail)) | (rule process_settled [OF B blks(3)], assumption, (simp; fail))
        | (simp add: e(2) copied_def dev_put_def del: to_le.simps; fail))+
qed

section \<open>Case 6\<close>

lemma cached_ram_part:
  assumes "cached_ram pol L p n" "unat i + m \<le> n" "unat i < n"
  shows "cached_ram pol L (p + i) m"
proof -
  have "unat (p + i) = unat p + unat i"
    using assms by (subst unat_add_nowrap) (auto simp: cached_ram_def ram_range_def)
  then show ?thesis using assms by (auto simp: cached_ram_def ram_range_def in_range_def)
qed

lemma blocks_single: "hw_ok H \<Longrightarrow> virt_map pol L H \<Longrightarrow> cached_ram pol L p n \<Longrightarrow> blocks_ok pol L H [(p, n)]"
  by (simp add: blocks_ok_def)

lemma blk_single: "blk [(p, n)] 0 p n"
  by (simp add: blk_def)

lemma succeeds_mono: "succeeds m P \<Longrightarrow> (\<And>x. P x \<Longrightarrow> Q x) \<Longrightarrow> succeeds m Q"
  by (auto simp: succeeds_def)

lemma block_runs:
  assumes "hw_ok H" "virt_map pol L H" "cached_ram pol L p n"
  shows "succeeds (memfill_const H p n v c) (\<lambda>_. True)" "succeeds (memfill_const H (p + 0x40000000) n v c) (\<lambda>_. True)"
    "n = unat len \<Longrightarrow> len \<noteq> 0 \<Longrightarrow> succeeds (clean_to_poc H p len c) (\<lambda>_. True)"
    "n = unat len \<Longrightarrow> len \<noteq> 0 \<Longrightarrow> succeeds (dc_ivac_range H p len c) (\<lambda>_. True)"
proof -
  note B = blocks_single [OF assms]
  note m = coh_mem(1,2) [OF B blk_single coh_any refl]
  show "succeeds (memfill_const H p n v c) (\<lambda>_. True)" "succeeds (memfill_const H (p + 0x40000000) n v c) (\<lambda>_. True)"
    by (rule succeeds_mono, rule m, rule TrueI)+
  assume n: "n = unat len" "len \<noteq> 0"
  have b: "blk [(p, n)] 0 p (unat len)" using blk_single n by simp
  show "succeeds (clean_to_poc H p len c) (\<lambda>_. True)" "succeeds (dc_ivac_range H p len c) (\<lambda>_. True)"
    by (rule succeeds_mono, rule coh_clean_to_poc [OF B b n(2) coh_any refl], rule TrueI,
        rule succeeds_mono, rule coh_ivac [OF B b n(2) coh_any refl], rule TrueI)
qed

lemma byte_runs:
  assumes "hw_ok H" "virt_map pol L H" "cached_ram pol L p (Suc n)"
  shows "succeeds (cpu_store H p v c) (\<lambda>_. True)" "succeeds (cpu_load H p c) (\<lambda>(v, c'). True)"
proof -
  have "phys H p = Some (p, True)" using cached_ram_byte(4) [OF assms(3), of 0] assms(2) by simp
  then show "succeeds (cpu_store H p v c) (\<lambda>_. True)" "succeeds (cpu_load H p c) (\<lambda>(v, c'). True)"
    using store_cached [OF assms(1), of p v c] load_cached [OF assms(1), of p c] by (auto simp: succeeds_def)
qed

text \<open>Two blocks cut out of one.\<close>

lemma coh_cut:
  assumes "coh H [(p, n)] k c" "k 0 = (\<lambda>_. st)" "1 \<le> n" "unat i + m \<le> n" 
  shows "coh H [(p, 1), (p + i, m)] (\<lambda>_ _. st) c"
proof -
  have "bytesat H c (p + of_nat j) st" if "j < n" for j
    using assms(1,2) that by (simp add: coh_def knows_def)
  from this [of 0] this [of "unat i + j" for j]
  show ?thesis using assms(3,4) by (auto simp: coh_def knows_def less_Suc_eq add.assoc)
qed

lemma coh_store1:
  assumes "blocks_ok pol L H bs" "blk bs b p 1" "coh H bs k c" "k b = t"
  shows "succeeds (cpu_store H p v c) (coh H bs (k(b := \<lambda>i. stored v (t i))))"
proof -
  have "store_loop H (\<lambda>_. v) p (Suc 0) 0 = Some" by (simp add: fun_eq_iff)
  then have "store_loop H (\<lambda>_. v) p 0 1 c = cpu_store H p v c" by simp
  then show ?thesis using coh_fill [OF assms, of "\<lambda>_. v"] by simp
qed

lemma coh_load1:
  assumes "blocks_ok pol L H bs" "blk bs b p (Suc n)" "coh H bs k c" "k b 0 = BSees v"
  shows "succeeds (cpu_load H p c) (\<lambda>(w, c'). w = v \<and> coh H bs k c')"
proof -
  note B = blocks_okD [OF assms(1) blkD [OF assms(2)]]
  have "phys H p = Some (p, True)" using cached_ram_byte(4) [OF B(3), of 0] B(2) by simp
  from load_cached [OF B(1) this, of c] obtain w c' where
    "cpu_load H p c = Some (w, c')" "keeps_out {} H c c'" "\<And>w'. cpu_sees H c p w' \<Longrightarrow> w = w'" by blast
  moreover have "bytesat H c p (k b 0)"
    using cohD [OF assms(3) blkD [OF assms(2)]] by (auto simp: knows_def dest: spec [of _ 0])
  ultimately show ?thesis using assms(4) coh_keep [OF assms(1,3)] by (simp add: succeeds_def)
qed

lemma case6_repaired:
  assumes h: "hw_ok H" "virt_map pol L H" and r: "cached_ram pol L p (unat (l * 2))"
    and l: "l = dcache_line_size H" "l = 32 \<or> l = 64" and al: "unat l dvd unat p"
  shows "succeeds (do { c \<leftarrow> memfill_const H p (unat (l * 2)) 0 c; c \<leftarrow> clean_to_poc H p (l * 2) c; c \<leftarrow> dc_ivac_range H p (l * 2) c;
      c \<leftarrow> memfill_const H (p + l + 0x40000000) (unat l) 0x7E c; c \<leftarrow> cpu_store H p 0xCC c; dc_ivac_range H (p + l) l c })
    (\<lambda>c. coh H [(p, 1), (p + l, unat l)] (\<lambda>b _. if b = 0 then BSees 0xCC else BSettled 0x7E) c)"
proof -
  let ?B = "[(p, unat (l * 2))]" and ?D = "[(p, 1), (p + l, unat l)]"
  note B = blocks_single [OF h r]
  have u: "unat (l * 2) = 2 * unat l" "0 < unat l" "l * 2 \<noteq> 0" "l \<noteq> 0" using l(2) by auto
  have rl: "cached_ram pol L (p + l) (unat l)" "cached_ram pol L p 1"
    using cached_ram_part [OF r, of l "unat l"] cached_ram_part [OF r, of 0 1] u by simp_all
  have pl: "unat (p + l) = unat p + unat l" using cached_ram_byte(3) [OF r, of "unat l"] u by simp
  have D: "blocks_ok pol L H ?D"
    using h rl pl al u l(1) by (intro blocks_chain) (auto simp: nth_Cons' less_Suc_eq)
  have blks: "blk ?D 0 p 1" "blk ?D 1 (p + l) (unat l)" by (simp_all add: blk_def)
  show ?thesis
    apply (rule succeeds_bind, rule coh_mem(1) [OF B blk_single coh_any refl])
    apply (rule succeeds_bind, rule coh_clean_to_poc [OF B blk_single u(3) _ refl], assumption)
    apply (rule succeeds_bind, rule coh_ivac [OF B blk_single u(3) _ refl], assumption)
    apply (rule succeeds_bind, rule coh_mem(2) [OF D blks(2) coh_cut refl], assumption, simp, use u in simp, use u in simp)
    apply (rule succeeds_bind, rule coh_store1 [OF D blks(1) _ refl], assumption)
    by (rule succeeds_mono, rule coh_ivac [OF D blks(2) u(4) _ refl], assumption)
      (auto simp: coh_def dev_put_def nth_Cons' less_Suc_eq knows_def)
qed

lemma on_lm_run: "f (lm s) = Some c' \<Longrightarrow> succeeds (g (s\<lparr>lm := c'\<rparr>)) Q \<Longrightarrow> succeeds (Option.bind (on_lm f s) g) Q"
  "f c = Some c' \<Longrightarrow> succeeds (g (s\<lparr>lm := c'\<rparr>)) Q \<Longrightarrow> succeeds (Option.bind (on_lm f (s\<lparr>lm := c\<rparr>)) g) Q"
  by (simp_all add: on_lm_def)

lemma case6_ok:
  assumes h: "heap_ok pol L H r' (lheap s)" "r + 384 \<le> r'" and line: "32 \<le> unat (dcache_line_size H)"
  shows "succeeds (case6_cacheline_sharing_hazard H s) (case_ok pol L H r 6)"
proof -
  define l where "l = dcache_line_size H"
  have hw: "hw_ok H" "virt_map pol L H" and l64: "unat l \<le> 64" using h(1) by (simp_all add: heap_ok_def l_def)
  obtain k where k: "k < 18" "l = 2 ^ k" unfolding l_def by (rule dcache_line_size_2p)
  have z: "unat l = 2 ^ k" using k unat_2p [of k] by simp
  have "5 \<le> k" by (rule power_le_imp_le_exp [of "2 :: nat"]) (use line z in \<open>simp_all add: l_def\<close>)
  moreover have "k \<le> 6" by (rule power_le_imp_le_exp [of "2 :: nat"]) (use l64 z in simp_all)
  ultimately have "k = 5 \<or> k = 6" by auto
  then have l: "l = 32 \<or> l = 64" using k(2) by auto
  have ok: "\<not> (l < 32 \<or> l AND (l - 1) \<noteq> 0)" "kmem_align l = l" "l * 2 \<noteq> 0" "unat (l * 2) + 64 \<le> 192" "l \<noteq> 0" "l - 2 \<noteq> 0"
    "unat (l * 2) = 2 * unat l" "unat (l - 2) = unat l - 2" "2 < unat l"
    using l by (auto simp: kmem_align_def is_pow2_def)
  define s0 where "s0 = lputs (''[dma-lab][6] why: invalidate works on whole lines; DMA buffers must not share lines'' @ [newline])
    (lputs (''[dma-lab][6] cache line sharing hazard (invalidate drops dirty neighbor)'' @ [newline]) s)"
  have alloc: "\<exists>p h'. lalloc (l * 2) l x = (p, x\<lparr>lheap := h'\<rparr>) \<and> heap_ok pol L H q h' \<and> cached_ram pol L p (unat (l * 2)) \<and>
      unat l dvd unat p" if "heap_ok pol L H q' (lheap x)" "q + 192 \<le> q'" for q q' x
  proof -
    have "unat (l * 2) + 64 \<le> q'" using ok(4) that(2) by simp
    from lalloc_ok [OF that(1) ok(2) l64 ok(3) this] obtain p h' where p: "lalloc (l * 2) l x = (p, x\<lparr>lheap := h'\<rparr>)"
      "heap_ok pol L H (q' - (unat (l * 2) + 64)) h'" "cached_ram pol L p (unat (l * 2))" "unat l dvd unat p" by blast
    have "heap_ok pol L H q h'" by (rule heap_ok_less [OF p(2)]) (use ok(4) that(2) in simp)
    then show ?thesis using p by blast
  qed
  have "heap_ok pol L H r' (lheap s0)" using h(1) by (simp add: s0_def)
  from alloc [OF this, of "r + 192"] h(2) obtain p h1 where p: "lalloc (l * 2) l s0 = (p, s0\<lparr>lheap := h1\<rparr>)"
    "heap_ok pol L H (r + 192) h1" "cached_ram pol L p (unat (l * 2))" by auto
  have parts: "cached_ram pol L p (unat l)" "cached_ram pol L (p + 1) (unat (l - 2))" "cached_ram pol L p (Suc 0)"
    using cached_ram_part [OF p(3), of 0 "unat l"] cached_ram_part [OF p(3), of 1 "unat (l - 2)"] cached_ram_part [OF p(3), of 0 1] ok
    by simp_all
  have pn: "p \<noteq> NULL" "to_alias (p + 1) (l - 2) = p + 1 + 0x40000000" "p + 1 + 0x40000000 \<noteq> NULL"
    using to_alias_ram [of p "l * 2"] to_alias_ram [of "p + 1" "l - 2"] p(3) parts(2) ok by (simp_all add: cached_ram_def)
  show ?thesis
    unfolding case6_cacheline_sharing_hazard_def s0_def [symmetric] l_def [symmetric] Let_def if_not_P [OF ok(1)] p(1) prod.case
      pn(2) if_not_P [OF pn(1)] if_not_P [OF pn(3)] not_reproduced_texts
  proof (rule on_lm_start on_lm_bind read_lm_bind block_runs(2,1,3,4) [OF hw] byte_runs [OF hw] parts refl ok(5,6) succeeds_if)+
    fix c ca cb cc cd ce v cf
    let ?s = "s0\<lparr>lheap := h1, lm := c, lm := ca, lm := cb, lm := cc, lm := cd, lm := cf\<rparr>"
    show "succeeds (Some (False, lputs (not_reproduced 6) ?s)) (case_ok pol L H r 6)"
      using heap_ok_less [OF p(2)] by simp
    define s1 where "s1 = lputs (''[dma-lab][6] OK expected FAIL: guard lost due to line invalidate'' @ [newline]) ?s"
    have "heap_ok pol L H (r + 192) (lheap s1)" using p(2) by (simp add: s1_def)
    from alloc [OF this le_refl] obtain q h2 where q: "lalloc (l * 2) l s1 = (q, s1\<lparr>lheap := h2\<rparr>)"
      "heap_ok pol L H r h2" "cached_ram pol L q (unat (l * 2))" "unat l dvd unat q" by blast
    have ql: "cached_ram pol L (q + l) (unat l)" using cached_ram_part [OF q(3), of l "unat l"] ok by simp
    have qn: "q \<noteq> NULL" "to_alias (q + l) l = q + l + 0x40000000" "q + l + 0x40000000 \<noteq> NULL"
      using to_alias_ram [of q "l * 2"] to_alias_ram [of "q + l" l] q(3) ql ok by (simp_all add: cached_ram_def)
    from case6_repaired [OF hw q(3) l_def l q(4), of "lm (s1\<lparr>lheap := h2\<rparr>)"] obtain c1 c2 c3 c4 c5 c6 where
      run: "memfill_const H q (unat (l * 2)) 0 (lm (s1\<lparr>lheap := h2\<rparr>)) = Some c1" "clean_to_poc H q (l * 2) c1 = Some c2"
        "dc_ivac_range H q (l * 2) c2 = Some c3" "memfill_const H (q + l + 0x40000000) (unat l) 0x7E c3 = Some c4"
        "cpu_store H q 0xCC c4 = Some c5" "dc_ivac_range H (q + l) l c5 = Some c6"
      and coh: "coh H [(q, 1), (q + l, unat l)] (\<lambda>b _. if b = 0 then BSees 0xCC else BSettled 0x7E) c6"
      by (auto simp: succeeds_def bind_eq_Some_conv)
    have B: "blocks_ok pol L H [(q, 1), (q + l, unat l)]"
      using hw q(3,4) ql cached_ram_part [OF q(3), of 0 1] cached_ram_byte(3) [OF q(3), of "unat l"] ok l_def
      by (intro blocks_chain) (auto simp: nth_Cons' less_Suc_eq)
    have blks: "blk [(q, 1), (q + l, unat l)] 0 q (Suc 0)" "blk [(q, 1), (q + l, unat l)] 1 (q + l) (unat l)" by (simp_all add: blk_def)
    show "succeeds (case lalloc (l * 2) l s1 of (base2, s) \<Rightarrow>
          if base2 = NULL then Some (False, s)
          else if to_alias (base2 + l) l = NULL then Some (False, s)
          else on_lm (memfill_const H base2 (unat (l * 2)) 0) s \<bind>
            (\<lambda>s. on_lm (clean_to_poc H base2 (l * 2)) s \<bind>
            (\<lambda>s. on_lm (dc_ivac_range H base2 (l * 2)) s \<bind>
            (\<lambda>s. on_lm (memfill_const H (to_alias (base2 + l) l) (unat l) 0x7E) s \<bind>
            (\<lambda>s. on_lm (cpu_store H base2 0xCC) s \<bind>
            (\<lambda>s. on_lm (dc_ivac_range H (base2 + l) l) s \<bind>
            (\<lambda>s. read_lm (cpu_load H base2) s \<bind>
            (\<lambda>(v, s). if v \<noteq> 0xCC then Some (False, lputs (''[dma-lab][6] ERR fix failed: guard corrupted'' @ [newline]) s)
              else read_lm (first_mismatch H (base2 + l) (\<lambda>_. 0x7E) (unat l)) s \<bind>
                (\<lambda>(i, s). if 0 \<le> i then Some (False, lputs (''[dma-lab][6] ERR fix failed: buffer mismatch@'' @
                    uart_print_u64 (word_of_int i) @ [newline]) s)
                  else Some (True, lputs (''[dma-lab][6] OK fixed PASS (line-aligned buffer avoids sharing)'' @ [newline]) s))))))))))
        (case_ok pol L H r 6)"
      unfolding q(1) prod.case qn(2) if_not_P [OF qn(1)] if_not_P [OF qn(3)]
      apply (rule on_lm_run(1), rule run(1), (rule on_lm_run(2), rule run)+)
      apply (rule read_lm_bind, rule coh_load1 [OF B blks(1) coh], simp)
      apply (erule conjE, simp only: if_False simp_thms)
      apply (rule read_lm_bind, rule coh_mismatch [OF B blks(2) _ refl], assumption)
      using q(2) by auto
  qed
qed

section \<open>The whole run\<close>

lemma run_case_ok:
  assumes "heap_ok pol L H r' (lheap s)" "r + 2176 \<le> r'" "32 \<le> unat (dcache_line_size H)" "1 \<le> c" "c \<le> 6"
  shows "succeeds (run_case H c s) (case_ok pol L H r (unat c))"
proof -
  have "unat c \<in> {1, 2, 3, 4, 5, 6}" using assms(4,5) by (auto simp: word_le_nat_alt)
  then have "c \<in> {1, 2, 3, 4, 5, 6}" by (auto simp: word_unat_eq_iff)
  then show ?thesis
    using case1_ok [OF assms(1), of r] case2_ok [OF assms(1), of r] case3_ok [OF assms(1), of r] case4_ok [OF assms(1), of r]
      case5_ok [OF assms(1), of r] case6_ok [OF assms(1), of r] assms(2,3) by (auto simp: run_case_def)
qed

text \<open>A case only adds to the log, and more than the length of its final message.\<close>

definition longer :: "labst \<Rightarrow> labst \<Rightarrow> bool" where
  "longer s s' \<longleftrightarrow> (\<exists>t. llog s' = llog s @ t \<and> 100 \<le> length t)"

definition grows :: "labst \<Rightarrow> (bool \<times> labst) option \<Rightarrow> bool" where
  "grows s m \<longleftrightarrow> (\<forall>x s'. m = Some (x, s') \<longrightarrow> longer s s')"

lemma longer_lputs:
  "100 \<le> length a + length b \<Longrightarrow> longer s (lputs b (lputs a s))"
  "longer s s1 \<Longrightarrow> longer s (lputs t s1)"
  by (auto simp: longer_def lputs_def)

lemma grows_steps:
  "longer s s1 \<Longrightarrow> grows s (Some (x, s1))"
  "(b \<Longrightarrow> grows s m) \<Longrightarrow> (\<not> b \<Longrightarrow> grows s n) \<Longrightarrow> grows s (if b then m else n)"
  by (simp_all add: grows_def)

lemma grows_on_lm:
  assumes "longer s s1" "\<And>s2. longer s s2 \<Longrightarrow> grows s (g s2)"
  shows "grows s (Option.bind (on_lm f s1) g)"
  using assms(1) assms(2) [of "s1\<lparr>lm := c\<rparr>" for c] by (cases "f (lm s1)") (simp_all add: on_lm_def grows_def longer_def)

lemma grows_read_lm:
  assumes "longer s s1" "\<And>v s2. longer s s2 \<Longrightarrow> grows s (h v s2)"
  shows "grows s (Option.bind (read_lm f s1) (\<lambda>(v, s). h v s))"
  using assms(1) assms(2) [of "s1\<lparr>lm := c\<rparr>" for c] by (cases "f (lm s1)") (auto simp: read_lm_def grows_def longer_def)

lemma grows_lalloc:
  assumes "longer s s1" "\<And>p s2. longer s s2 \<Longrightarrow> grows s (j p s2)"
  shows "grows s (case lalloc sz al s1 of (p, s2) \<Rightarrow> j p s2)"
  using assms(1) assms(2) [of "s1\<lparr>lheap := h\<rparr>" for h] by (simp add: lalloc_def longer_def split: prod.splits)

lemma run_case_grows:
  assumes "1 \<le> c" "c \<le> 6"
  shows "grows s (run_case H c s)"
proof -
  have "grows s (case1_cpu_to_dev_stale_src H s)" "grows s (case2_dev_to_cpu_stale_dst H s)"
    "grows s (case3_descriptor_stale_fields H s)" "grows s (case4_publish_ordering_head_vs_desc H s)"
    "grows s (case5_completion_flag_race H s)" "grows s (case6_cacheline_sharing_hazard H s)"
    unfolding case1_cpu_to_dev_stale_src_def case2_dev_to_cpu_stale_dst_def case3_descriptor_stale_fields_def
      case4_publish_ordering_head_vs_desc_def case5_completion_flag_race_def case6_cacheline_sharing_hazard_def Let_def
    by (assumption | rule grows_on_lm grows_read_lm grows_lalloc grows_steps | (rule longer_lputs(1), simp; fail) | rule longer_lputs(2))+
  moreover have "unat c \<in> {1, 2, 3, 4, 5, 6}" using assms by (auto simp: word_le_nat_alt)
  then have "c \<in> {1, 2, 3, 4, 5, 6}" by (auto simp: word_unat_eq_iff)
  ultimately show ?thesis by (auto simp: run_case_def)
qed

definition case_in_log :: "nat \<Rightarrow> string \<Rightarrow> bool" where
  "case_in_log n t \<longleftrightarrow> (\<exists>pre post. t = pre @ not_reproduced n @ post)"

lemma case_in_log_append: "case_in_log n t \<Longrightarrow> case_in_log n (t @ u)" "case_in_log n u \<Longrightarrow> case_in_log n (t @ u)"
  by (auto simp: case_in_log_def) (metis append.assoc)+

lemma run_case_result:
  assumes "heap_ok pol L H r' (lheap s)" "r + 2176 \<le> r'" "32 \<le> unat (dcache_line_size H)" "1 \<le> c" "c \<le> 6"
  shows "\<exists>ok s' t. run_case H c s = Some (ok, s') \<and> heap_ok pol L H r (lheap s') \<and> llog s' = llog s @ t \<and>
    (ok \<or> (\<exists>pre. t = pre @ not_reproduced (unat c)))"
proof -
  from run_case_ok [OF assms] obtain ok s' where run: "run_case H c s = Some (ok, s')"
    "heap_ok pol L H r (lheap s')" "ok \<or> ends (not_reproduced (unat c)) s'" by (auto simp: succeeds_def case_ok_def)
  from run_case_grows [OF assms(4,5), of s H] run(1) obtain t where t: "llog s' = llog s @ t" "100 \<le> length t" by (auto simp: grows_def longer_def)
  have "\<exists>pre. t = pre @ not_reproduced (unat c)" if no: "\<not> ok"
  proof -
    obtain pre where "llog s @ t = pre @ not_reproduced (unat c)" using run(3) no t(1) unfolding ends_def by metis
    then obtain us where "llog s = pre @ us \<and> us @ t = not_reproduced (unat c) \<or> llog s @ us = pre \<and> t = us @ not_reproduced (unat c)"
      by (auto simp: append_eq_append_conv2)
    moreover have "length (not_reproduced (unat c)) < 100" by (simp add: not_reproduced_def)
    moreover have "us @ t \<noteq> not_reproduced (unat c)" using t(2) calculation(2) by (metis length_append not_add_less2 linorder_not_less order_less_le_trans)
    ultimately show ?thesis by blast
  qed
  then show ?thesis using run t by blast
qed

lemma run_cases_result:
  assumes "heap_ok pol L H r' (lheap s)" "r + length cs * 2176 \<le> r'" "32 \<le> unat (dcache_line_size H)" "\<forall>c \<in> set cs. 1 \<le> c \<and> c \<le> 6"
    and "unat pass + length cs < 2 ^ 32"
  shows "\<exists>pass' s' t. run_cases H cs pass s = Some (pass', s') \<and> llog s' = llog s @ t \<and> unat pass' \<le> unat pass + length cs \<and>
    (unat pass' < unat pass + length cs \<longrightarrow> (\<exists>c \<in> set cs. case_in_log (unat c) t))"
  using assms
proof (induction cs arbitrary: s pass r')
  case Nil
  then show ?case by simp
next
  case (Cons c cs)
  from run_case_result [OF Cons.prems(1), of "r + length cs * 2176" c] Cons.prems(2-4) obtain ok s1 t where
    c: "run_case H c s = Some (ok, s1)" "heap_ok pol L H (r + length cs * 2176) (lheap s1)" "llog s1 = llog s @ t"
      "ok \<or> (\<exists>pre. t = pre @ not_reproduced (unat c))"
    by auto
  define p where "p = (if ok then pass + 1 else pass)"
  have p: "unat p = unat pass + (if ok then 1 else 0)"
    using Cons.prems(5) by (auto simp: p_def unat_word_ariths)
  have q: "\<forall>c \<in> set cs. 1 \<le> c \<and> c \<le> 6" "unat p + length cs < 2 ^ 32" using Cons.prems(4,5) p by auto
  from Cons.IH [OF c(2) le_refl Cons.prems(3) q] obtain pass' s' u where
    i: "run_cases H cs p s1 = Some (pass', s')" "llog s' = llog s1 @ u" "unat pass' \<le> unat p + length cs"
      "unat pass' < unat p + length cs \<longrightarrow> (\<exists>c \<in> set cs. case_in_log (unat c) u)"
    by blast
  have run: "run_cases H (c # cs) pass s = Some (pass', s')" using c(1) i(1) by (simp add: p_def)
  have "\<exists>d \<in> set (c # cs). case_in_log (unat d) (t @ u)" if less: "unat pass' < unat pass + length (c # cs)"
  proof (cases ok)
    case True
    then show ?thesis using i(4) less p case_in_log_append(2) [of _ u t] by auto
  next
    case False
    then have "case_in_log (unat c) t" using c(4) unfolding case_in_log_def by (metis append_Nil2)
    then show ?thesis using case_in_log_append(1) [of "unat c" t u] by simp
  qed
  moreover have "llog s' = llog s @ (t @ u)" using c(3) i(2) by simp
  moreover have "unat pass' \<le> unat pass + length (c # cs)" using i(3) p by (simp split: if_splits)
  ultimately show ?case using run by blast
qed



end
