(* ===== verification/MmuRpi4.thy ===== *)
theory MmuRpi4
  imports PageTable Uart
begin

text \<open>
  The MMU set-up of \<^verbatim>\<open>src/arch/aarch64/mmu_rpi4.cc\<close>: RAM in the first gigabyte, its non-cacheable alias in the second,
  the peripherals in the fourth. The file repeats the descriptor functions, \<^verbatim>\<open>mair_value\<close>, \<^verbatim>\<open>tcr_value\<close> and the clearing
  loops of \<^verbatim>\<open>mmu.cc\<close>; they are those of \<open>PageTable\<close>. Locale \<open>board\<close> is interpreted on the functions that differ.
\<close>

section \<open>The code\<close>

definition kL1BlockSize :: u64 where "kL1BlockSize = 0x40000000"
definition kPeriphL1Base :: u64 where "kPeriphL1Base = 0xC0000000"

definition build_map :: "dma_policy \<Rightarrow> mmu_layout \<Rightarrow> mmu \<Rightarrow> mmu" where
  "build_map pol L st =
     (let m = clear_tables L (pt st);
          m = put (a_l0 L) 0 (pte_table (a_l1 L)) m;
          m = put (a_l1 L) 0 (pte_table (a_l2_ram L)) m;
          m = put (a_l1 L) 1 (pte_block 0 kAttrIdxNormalNc 3 OR kPtePxN OR kPteUxN) m;
          m = put (a_l1 L) 3 (pte_block kPeriphL1Base kAttrIdxDevice 0 OR kPtePxN OR kPteUxN) m;
          m = for_loop 512 (\<lambda>i m.
                let pa = of_nat i * kL2BlockSize
                in put (a_l2_ram L) i (pte_block pa kAttrIdxNormal 3) m) m;
          dma_start = dma_nc_start L;
          dma_end = dma_nc_end L;
          m = (if dma_end > dma_start then
                 let dma_last = dma_end - 1
                 in if dma_start div kL1BlockSize = 0 \<and> dma_last div kL1BlockSize = 0 then
                      let dma_first_block = dma_start AND NOT (kL2BlockSize - 1);
                          dma_last_block = dma_last AND NOT (kL2BlockSize - 1);
                          blocks = [dma_first_block, dma_last_block];
                          l3_tables = [a_l3_dma0 L, a_l3_dma1 L];
                          table_count = (if dma_first_block = dma_last_block then 1 else 2)
                      in for_loop table_count (\<lambda>t m.
                           let block_base = blocks ! t;
                               l2_index = unat (block_base div kL2BlockSize);
                               l3 = l3_tables ! t;
                               m = dma_table pol dma_start dma_end block_base l3 m
                           in put (a_l2_ram L) l2_index (pte_table l3) m) m
                    else m
               else m)
      in st\<lparr>pt := m, g_l3_extra_next := 0\<rparr>)"

definition ensure_l3_for_lowram_block :: "mmu_layout \<Rightarrow> nat \<Rightarrow> mmu \<Rightarrow> addr \<times> mmu" where
  "ensure_l3_for_lowram_block L l2_index st =
     (if l2_index \<ge> 512 then (NULL, st)
      else let e = pt st (entry (a_l2_ram L) l2_index);
               type = e AND 3
           in if type = 3 then (e AND 0x0000FFFFFFFFF000, st)
              else if type \<noteq> 1 then (NULL, st)
              else if g_l3_extra_next st \<ge> 8 then (NULL, st)
              else let l3 = l3_extra L (unat (g_l3_extra_next st));
                       st = st\<lparr>g_l3_extra_next := g_l3_extra_next st + 1\<rparr>;
                       attr_index = drop_bit 2 e AND 7;
                       sh = drop_bit 8 e AND 3;
                       xn = e AND (kPtePxN OR kPteUxN);
                       block_base = of_nat l2_index * kL2BlockSize;
                       m = for_loop 512 (\<lambda>i m.
                             let pa = block_base + of_nat i * kPageSize
                             in put l3 i (pte_page pa attr_index sh OR xn) m) (pt st);
                       m = put (a_l2_ram L) l2_index (pte_table l3) m
                   in (l3, st\<lparr>pt := m\<rparr>))"

definition rpi4_mmu_init :: "dma_policy \<Rightarrow> mmu_layout \<Rightarrow> u64 \<Rightarrow> bool \<Rightarrow> mmu \<Rightarrow> mmu" where
  "rpi4_mmu_init pol L mmfr0 enable st =
     (if \<not> enable then st
      else let before = sctlr_el1 st
           in if before AND 1 \<noteq> 0 then st
              else let st = build_map pol L st;
                       st = st\<lparr>mair_el1 := mair_value\<rparr>;
                       st = st\<lparr>tcr_el1 := tcr_value mmfr0\<rparr>;
                       st = st\<lparr>ttbr0_el1 := a_l0 L\<rparr>;
                       st = tlbi_vmalle1 st;
                       sctlr = before OR push_bit 0 1 OR push_bit 2 1 OR push_bit 12 1
                   in st\<lparr>sctlr_el1 := sctlr\<rparr>)"

definition rpi4_mmu_guard_page :: "mmu_layout \<Rightarrow> addr \<Rightarrow> mmu \<Rightarrow> int \<times> mmu" where
  "rpi4_mmu_guard_page L addr st =
     (if addr = NULL then (-1, st)
      else if \<not> mmu_enabled st then (-1, st)
      else let va = align_down addr kPageSize
           in if va \<ge> kL1BlockSize then (-1, st)
              else let l2_index = unat (va div kL2BlockSize);
                       l3_index = unat (va mod kL2BlockSize div kPageSize);
                       (l3, st) = ensure_l3_for_lowram_block L l2_index st
                   in if l3 = NULL then (-1, st)
                      else (0, tlbi_vmalle1 (st\<lparr>pt := put l3 l3_index 0 (pt st)\<rparr>)))"

definition rpi4_mmu_dump_state :: "mmu \<Rightarrow> string" where
  "rpi4_mmu_dump_state st =
     ''[mmu] mair_el1=0x'' @ puthex64 (mair_el1 st) @ [newline] @
     ''[mmu] tcr_el1 =0x'' @ puthex64 (tcr_el1 st) @ [newline] @
     ''[mmu] ttbr0_el1=0x'' @ puthex64 (ttbr0_el1 st) @ [newline] @
     ''[mmu] sctlr=0x'' @ puthex64 (sctlr_el1 st) @
     '' (C='' @ (if sctlr_el1 st AND push_bit 2 1 \<noteq> 0 then ''1'' else ''0'') @
     '', I='' @ (if sctlr_el1 st AND push_bit 12 1 \<noteq> 0 then ''1'' else ''0'') @
     '', M='' @ (if sctlr_el1 st AND push_bit 0 1 \<noteq> 0 then ''1'' else ''0'') @ '')'' @ [newline]"

section \<open>The code satisfies the board's contract\<close>

definition rpi4_l1 :: "mmu_layout \<Rightarrow> nat \<Rightarrow> u64" where
  "rpi4_l1 L j = (if j = 0 then pte_table (a_l2_ram L)
     else if j = 1 then pte_block 0 kAttrIdxNormalNc 3 OR kPtePxN OR kPteUxN
     else if j = 3 then pte_block kPeriphL1Base kAttrIdxDevice 0 OR kPtePxN OR kPteUxN else 0)"

definition rpi4_boot_base :: "mmu_layout \<Rightarrow> ptmem \<Rightarrow> ptmem" where
  "rpi4_boot_base L m = for_loop 512 (\<lambda>i. put (a_l2_ram L) i (pte_block (ram_block 0 i) kAttrIdxNormal 3))
     (put (a_l1 L) 3 (pte_block kPeriphL1Base kAttrIdxDevice 0 OR kPtePxN OR kPteUxN)
     (put (a_l1 L) 1 (pte_block 0 kAttrIdxNormalNc 3 OR kPtePxN OR kPteUxN)
     (put (a_l1 L) 0 (pte_table (a_l2_ram L))
     (put (a_l0 L) 0 (pte_table (a_l1 L)) (clear_tables L m)))))"

lemma in_lowram_unat: "in_ram_at 0 va \<longleftrightarrow> unat va < 1073741824"
  by (simp add: in_ram_at_def)

interpretation rpi4_tables: ram_tables 0 rpi4_l1
  by unfold_locales
    (auto simp: rpi4_l1_def pte_fields(8) [OF attr_ok_consts(1)] pte_fields(8) [OF attr_ok_consts(2)] or.assoc)

lemma rpi4_boot_base_entries:
  assumes L: "layout_ok L" and j: "j < 512"
  shows "rpi4_boot_base L m (entry (a_l0 L) j) = (if j = 0 then pte_table (a_l1 L) else 0)"
    "rpi4_boot_base L m (entry (a_l1 L) j) = rpi4_l1 L j"
    "rpi4_boot_base L m (entry (a_l2_ram L) j) = pte_block (ram_block 0 j) kAttrIdxNormal 3"
proof -
  note t = layout_tbl [OF L] and d = layout_distinct [OF L] layout_distinct [OF L, symmetric]
  have z: "clear_tables L m (entry (a_l0 L) j) = 0" "clear_tables L m (entry (a_l1 L) j) = 0"
    by (rule clear_tables_0 [OF L _ j], simp add: tables_def)+
  show "rpi4_boot_base L m (entry (a_l0 L) j) = (if j = 0 then pte_table (a_l1 L) else 0)"
    "rpi4_boot_base L m (entry (a_l1 L) j) = rpi4_l1 L j"
    "rpi4_boot_base L m (entry (a_l2_ram L) j) = pte_block (ram_block 0 j) kAttrIdxNormal 3"
    unfolding rpi4_boot_base_def rpi4_l1_def using t d j z by (simp_all add: for_loop_table put_entry)
qed

lemma build_map_pt: "pt (build_map pol L st) = with_dma pol 0 L (rpi4_boot_base L (pt st))"
proof -
  have z: "ram_block 0 k = of_nat k * kL2BlockSize" for k by (simp add: ram_block_def)
  have ok: "dma_ok_at 0 L \<longleftrightarrow> dma_nc_start L < dma_nc_end L \<and> dma_nc_start L div kL1BlockSize = 0 \<and> (dma_nc_end L - 1) div kL1BlockSize = 0"
  proof (cases "dma_nc_start L < dma_nc_end L")
    case True
    then have "1 \<le> dma_nc_end L" "unat (dma_nc_start L) < unat (dma_nc_end L)" by (auto simp: word_le_nat_alt word_less_nat_alt)
    moreover from this have "unat (dma_nc_end L - 1) = unat (dma_nc_end L) - 1" by (simp add: unat_sub_nowrap)
    ultimately show ?thesis
      using True by (auto simp: dma_ok_at_def word_unat_eq_iff unat_div kL1BlockSize_def div_eq_0_iff)
  next
    case False
    then show ?thesis by (simp add: dma_ok_at_def word_less_nat_alt)
  qed
  show ?thesis
  proof (cases "dma_ok_at 0 L")
    case False
    then show ?thesis
      using ok unfolding build_map_def Let_def rpi4_boot_base_def z with_dma_def by auto
  next
    case True
    note d = rpi4_tables.dma_blocks [OF True]
    have c: "dma_nc_start L < dma_nc_end L" "dma_nc_start L div kL1BlockSize = 0 \<and> (dma_nc_end L - 1) div kL1BlockSize = 0"
      using True ok by blast+
    show ?thesis
      unfolding build_map_def Let_def d(1,2) z [symmetric] rpi4_boot_base_def [symmetric] with_dma_def
      using True c d(3,4) rpi4_tables.ram_block_inj rpi4_tables.ram_block_index
      by (simp add: dma_table_eq for_loop_Suc numeral_2_eq_2 One_nat_def)
  qed
qed

interpretation rpi4: board 0 rpi4_l1 rpi4_boot_base build_map rpi4_mmu_init ensure_l3_for_lowram_block rpi4_mmu_guard_page
proof unfold_locales
  fix pol L st m mmfr0 k b a sh xn j
  show "layout_ok L \<Longrightarrow> has_top rpi4_l1 L (rpi4_boot_base L m)" using rpi4_boot_base_entries(1,2) by (simp add: has_top_def)
  show "layout_ok L \<Longrightarrow> j < 512 \<Longrightarrow> rpi4_boot_base L m (entry (a_l2_ram L) j) = pte_block (ram_block 0 j) kAttrIdxNormal 3"
    by (rule rpi4_boot_base_entries(3))
  show "pt (build_map pol L st) = with_dma pol 0 L (rpi4_boot_base L (pt st))" by (rule build_map_pt)
  show "sctlr_el1 st AND 1 = 0 \<Longrightarrow> rpi4_mmu_init pol L mmfr0 True st =
      st\<lparr>pt := pt (build_map pol L st), g_l3_extra_next := 0, mair_el1 := mair_value, tcr_el1 := tcr_value mmfr0,
        ttbr0_el1 := a_l0 L, tlb := (\<lambda>_. None), sctlr_el1 := sctlr_el1 st OR push_bit 0 1 OR push_bit 2 1 OR push_bit 12 1\<rparr>"
    by (simp add: rpi4_mmu_init_def Let_def tlbi_vmalle1_def build_map_def)
  show "k < 512 \<Longrightarrow> pt st (entry (a_l2_ram L) k) = pte_table b \<Longrightarrow> tbl_ok b \<Longrightarrow> ensure_l3_for_lowram_block L k st = (b, st)"
    using pte_table_fields [of b] desc_addr_tbl [of b] by (simp add: ensure_l3_for_lowram_block_def Let_def desc_addr_def)
  show "ensure_l3_for_lowram_block L k st =
        (if g_l3_extra_next st \<ge> 8 then (NULL, st)
         else let b = l3_extra L (unat (g_l3_extra_next st))
              in (b, st\<lparr>g_l3_extra_next := g_l3_extra_next st + 1,
                pt := put (a_l2_ram L) k (pte_table b) (for_loop 512 (\<lambda>i. put b i (pte_page (ram_page 0 k i) a sh OR xn)) (pt st))\<rparr>))"
    if "k < 512" and a: "attr_ok a sh xn" and e: "pt st (entry (a_l2_ram L) k) = pte_block (ram_block 0 k) a sh OR xn"
    unfolding ensure_l3_for_lowram_block_def Let_def e pte_fields [OF a] using that by (simp add: ram_page_def ram_block_def)
  show "rpi4_mmu_guard_page L a st =
      (let (b, st1) = ensure_l3_for_lowram_block L (va_index 2 a) st
       in if b = NULL then (-1, st1) else (0, tlbi_vmalle1 (st1\<lparr>pt := put b (va_index 3 a) 0 (pt st1)\<rparr>)))"
    if a: "in_ram_at 0 a" "a \<noteq> NULL" and en: "mmu_enabled st"
  proof -
    note g = rpi4_tables.guard_indices [OF a(1)]
    have "\<not> page_of a \<ge> kL1BlockSize" using g(2) by (simp add: in_lowram_unat kL1BlockSize_def word_le_nat_alt)
    then show ?thesis
      using a(2) en g(3,4) by (simp only: rpi4_mmu_guard_page_def Let_def g(1) if_False simp_thms diff_zero)
  qed
qed

section \<open>The map of the board\<close>

definition rpi4_map :: "dma_policy \<Rightarrow> mmu_layout \<Rightarrow> addr \<Rightarrow> xlat option" where
  "rpi4_map pol L va =
     (if va < kL1BlockSize then
        Some \<lparr>x_page = page_of va, x_attr = dma_attr pol (dma_page_at 0 L va), x_sh = 3, x_xn = dma_xn (dma_page_at 0 L va)\<rparr>
      else if va < 0x80000000 then
        Some \<lparr>x_page = page_of va - kL1BlockSize, x_attr = kAttrIdxNormalNc, x_sh = 3, x_xn = kPtePxN OR kPteUxN\<rparr>
      else if va < kPeriphL1Base then None
      else if va < 0x100000000 then
        Some \<lparr>x_page = page_of va, x_attr = kAttrIdxDevice, x_sh = 0, x_xn = kPtePxN OR kPteUxN\<rparr>
      else None)"

lemma rpi4_other:
  assumes "\<not> in_ram_at 0 va"
  shows "(if unat va < 549755813888 \<and> rpi4_l1 L (unat va div 1073741824) AND 3 = 1
      then leaf (rpi4_l1 L (unat va div 1073741824)) 30 va else None) = rpi4_map pol L va"
proof -
  have lo: "1073741824 \<le> unat va" using assms by (simp add: in_lowram_unat)
  have n: "\<not> va < kL1BlockSize" using lo by (simp add: word_less_nat_alt kL1BlockSize_def)
  consider "unat va < 2147483648" | "2147483648 \<le> unat va" "unat va < 3221225472" | "3221225472 \<le> unat va" "unat va < 4294967296"
    | "4294967296 \<le> unat va" by linarith
  then show ?thesis
  proof cases
    case 1
    then have d: "unat va div 1073741824 = 1" "va < 0x80000000" using lo by (simp_all add: word_less_nat_alt)
    then show ?thesis
      using 1 n leaf_gb [OF attr_ok_consts(2), of 0 kL1BlockSize va] pte_fields(8) [OF attr_ok_consts(2)]
      by (simp add: rpi4_l1_def rpi4_map_def or.assoc kL1BlockSize_def)
  next
    case 2
    then have d: "unat va div 1073741824 = 2" "\<not> va < 0x80000000" "va < kPeriphL1Base"
      by (simp_all add: word_less_nat_alt kPeriphL1Base_def)
    then show ?thesis using n by (simp add: rpi4_l1_def rpi4_map_def)
  next
    case 3
    then have d: "unat va div 1073741824 = 3" "\<not> va < 0x80000000" "\<not> va < kPeriphL1Base" "va < 0x100000000"
      by (simp_all add: word_less_nat_alt kPeriphL1Base_def)
    then show ?thesis
      using 3 n leaf_gb [OF attr_ok_consts(1), of kPeriphL1Base 0 va] pte_fields(8) [OF attr_ok_consts(1)]
      by (simp add: rpi4_l1_def rpi4_map_def or.assoc kPeriphL1Base_def)
  next
    case 4
    then have d: "4 \<le> unat va div 1073741824" "\<not> va < 0x80000000" "\<not> va < kPeriphL1Base" "\<not> va < 0x100000000"
      by (simp_all add: word_less_nat_alt kPeriphL1Base_def)
    then show ?thesis using n by (simp add: rpi4_l1_def rpi4_map_def)
  qed
qed

text \<open>
  C18: the Raspberry Pi 4 map. \<^verbatim>\<open>mmu_init\<close> on a CPU with the MMU off, followed by any sequence of \<^verbatim>\<open>mmu_guard_page\<close> on
  addresses of low RAM: every virtual address translates as the map of the board says (low RAM identity-mapped with the
  attributes of the DMA window, its non-cacheable alias, the peripherals, nothing else), except that the pages of the
  successful requests fault.
\<close>
theorem rpi4_guarded_map:
  assumes "layout_ok L" "sctlr_el1 st AND 1 = 0" "\<forall>a \<in> set as. a \<noteq> NULL \<and> a < kL1BlockSize"
    and "guard_run (rpi4_mmu_guard_page L) as (rpi4_mmu_init pol L mmfr0 True st) = (rs, st')"
  shows "length rs = length as \<and> set rs \<subseteq> {0, -1} \<and>
    translate st' va = (if \<exists>(a, r) \<in> set (zip as rs). r = 0 \<and> page_of va = page_of a then None else rpi4_map pol L va)"
proof -
  note i = rpi4.init_correct [OF assms(1,2), of pol mmfr0]
  have tlb: "tlb (rpi4_mmu_init pol L mmfr0 True st) = (\<lambda>_. None)" using assms(2) by (simp add: rpi4.init_off)
  have as: "\<forall>a \<in> set as. in_ram_at 0 a \<and> a \<noteq> NULL"
    using assms(3) by (simp add: in_lowram_unat word_less_nat_alt kL1BlockSize_def)
  have "Some (ram_xlat pol 0 L va) = rpi4_map pol L va" if "in_ram_at 0 va"
    using that by (simp add: in_lowram_unat word_less_nat_alt kL1BlockSize_def rpi4_map_def ram_xlat_def)
  then have "translate (rpi4_mmu_init pol L mmfr0 True st) va = rpi4_map pol L va"
    using i(3) [of va] rpi4_other [of va L pol] by simp
  then show ?thesis using rpi4.guard_run_correct [OF i(1,2) tlb as assms(4)] by simp
qed

definition rpi4_layout_example :: mmu_layout where
  "rpi4_layout_example = \<lparr>a_l0 = 0x100000, a_l1 = 0x101000, a_l2_ram = 0x102000, a_l3_dma0 = 0x103000,
     a_l3_dma1 = 0x104000, a_l3_extra = 0x105000, dma_nc_start = 0x200000, dma_nc_end = 0x201000\<rparr>"

definition rpi4_mmu_example :: mmu where
  "rpi4_mmu_example = \<lparr>pt = (\<lambda>_. 7), g_l3_extra_next = 5, mair_el1 = 0, tcr_el1 = 0, ttbr0_el1 = 0, sctlr_el1 = 0x30C50830,
     tlb = (\<lambda>_. None)\<rparr>"

theorem rpi4_guarded_map_witness:
  "\<exists>rs st'. guard_run (rpi4_mmu_guard_page rpi4_layout_example) [0x300000, 0x500008]
      (rpi4_mmu_init NonCacheable rpi4_layout_example 0 True rpi4_mmu_example) = (rs, st') \<and>
    length rs = 2 \<and> translate st' 0x200010 =
      Some \<lparr>x_page = 0x200000, x_attr = kAttrIdxNormalNc, x_sh = 3, x_xn = kPtePxN OR kPteUxN\<rparr>"
proof -
  have L: "layout_ok rpi4_layout_example"
    by (simp add: layout_ok_def tables_def l3_extra_def tbl_ok_def rpi4_layout_example_def upt_rec)
  have s: "sctlr_el1 rpi4_mmu_example AND 1 = 0" by (simp add: rpi4_mmu_example_def)
  have as: "\<forall>a \<in> set [0x300000, 0x500008]. a \<noteq> NULL \<and> a < kL1BlockSize" by (simp add: kL1BlockSize_def)
  obtain rs st' where g: "guard_run (rpi4_mmu_guard_page rpi4_layout_example) [0x300000, 0x500008]
      (rpi4_mmu_init NonCacheable rpi4_layout_example 0 True rpi4_mmu_example) = (rs, st')" by (cases rule: prod.exhaust)
  have p: "page_of 0x200010 = 0x200000" "page_of 0x300000 = 0x300000" "page_of 0x500008 = 0x500000"
    by (simp_all add: word_unat_eq_iff unat_page_of)
  have "rpi4_map NonCacheable rpi4_layout_example 0x200010 =
      Some \<lparr>x_page = 0x200000, x_attr = kAttrIdxNormalNc, x_sh = 3, x_xn = kPtePxN OR kPteUxN\<rparr>"
    by (simp add: rpi4_map_def kL1BlockSize_def p dma_page_at_def dma_ok_at_def in_dma_def dma_first_at_def rpi4_layout_example_def
        dma_attr_def dma_xn_def)
  then show ?thesis
    using rpi4_guarded_map [OF L s as g, of "0x200010"] g p by (auto dest!: set_zip_leftD)
qed

end
