(* ===== verification/Except.thy ===== *)
theory Except
  imports Kernel_State
begin

text \<open>
  The exception report (\<^verbatim>\<open>src/arch/aarch64/except.cc\<close>) and the three synchronous entries of
  \<^verbatim>\<open>boot/vectors.S\<close> that call it. The handler prints the syndrome and waits for ever: the result is the
  state in which it waits. The syndrome the CPU reports for a data abort is hardware, taken from the
  architecture: exception class 0x25 when the exception level does not change, 0x24 when it does.
\<close>

section \<open>Model\<close>

definition ec_name :: "u32 \<Rightarrow> string" where
  "ec_name ec =
     (if ec = 0x07 then ''FP/ASIMD trap''
      else if ec = 0x15 then ''SVC64''
      else if ec = 0x18 then ''IABT''
      else if ec = 0x24 then ''DABT''
      else if ec = 0x26 then ''SP alignment''
      else if ec = 0x2f then ''SError''
      else if ec = 0x00 then ''Unknown''
      else ''?'')"

definition except_el1_sync :: "u64 \<Rightarrow> u64 \<Rightarrow> u64 \<Rightarrow> u64 \<Rightarrow> u64 \<Rightarrow> kstate \<Rightarrow> kstate" where
  "except_el1_sync esr elr far spsr tag s =
     (let ec = ucast (drop_bit 26 esr AND 0x3F) :: u32;
          s = kputs ([newline] @ ''[EXC] EL1 sync tag=0x'' @ puthex64 tag) s;
          s = kputs ('' EC=0x'' @ puthex32 ec @ '' ('' @ ec_name ec @ '')'') s;
          s = kputs ('' ESR=0x'' @ puthex64 esr) s;
          s = kputs ('' ELR=0x'' @ puthex64 elr) s;
          s = kputs ('' FAR=0x'' @ puthex64 far) s;
          s = kputs ('' SPSR=0x'' @ puthex64 spsr) s
      in kputs [newline] s)"

text \<open>The entries: \<open>esr\<close>, \<open>elr\<close>, \<open>far\<close> and \<open>spsr\<close> are the system registers of those names.\<close>

definition sync_el1h :: "u64 \<Rightarrow> u64 \<Rightarrow> u64 \<Rightarrow> u64 \<Rightarrow> kstate \<Rightarrow> kstate" where
  "sync_el1h esr elr far spsr s = except_el1_sync esr elr far spsr 0x11 s"

definition sync_el1t :: "u64 \<Rightarrow> u64 \<Rightarrow> u64 \<Rightarrow> u64 \<Rightarrow> kstate \<Rightarrow> kstate" where
  "sync_el1t esr elr far spsr s = except_el1_sync esr elr far spsr 0x10 s"

definition sync_el0_64 :: "u64 \<Rightarrow> u64 \<Rightarrow> u64 \<Rightarrow> u64 \<Rightarrow> kstate \<Rightarrow> kstate" where
  "sync_el0_64 esr elr far spsr s = except_el1_sync esr elr far spsr 0x0 s"

section \<open>What the report says\<close>

text \<open>The syndrome of a data abort taken at the exception level that caused it; \<open>iss\<close> is its detail.\<close>

definition esr_data_abort_same_el :: "u64 \<Rightarrow> u64" where
  "esr_data_abort_same_el iss = push_bit 26 0x25 OR (iss AND mask 26)"

definition fault_report :: "string \<Rightarrow> string \<Rightarrow> u64 \<Rightarrow> u64 \<Rightarrow> u64 \<Rightarrow> u64 \<Rightarrow> string" where
  "fault_report ec name esr elr far spsr =
     [newline] @ ''[EXC] EL1 sync tag=0x11 EC=0x'' @ ec @ '' ('' @ name @ '') ESR=0x'' @ puthex64 esr @ '' ELR=0x'' @ puthex64 elr @
       '' FAR=0x'' @ puthex64 far @ '' SPSR=0x'' @ puthex64 spsr @ [newline]"

lemma ec_of_data_abort: "drop_bit 26 (esr_data_abort_same_el iss) AND 0x3F = (0x25 :: u64)"
proof (rule bit_word_eqI)
  fix i assume "i < LENGTH(64)"
  have f: "(0x3F :: u64) = mask 6" by (simp add: mask_eq_exp_minus_1)
  have b: "bit (0x25 :: u64) i \<Longrightarrow> i < 6" 
  proof -
    have "(0x25 :: u64) = take_bit 6 0x25" by (simp add: take_bit_eq_mod)
    then show "bit (0x25 :: u64) i \<Longrightarrow> i < 6" by (metis bit_take_bit_iff)
  qed
  show "bit (drop_bit 26 (esr_data_abort_same_el iss) AND 0x3F) i = bit (0x25 :: u64) i"
    unfolding esr_data_abort_same_el_def f using b by (auto simp: bit_simps)
qed

lemma hex_small: "puthex64 0x11 = ''11''" "puthex32 0x25 = ''25''" "puthex32 0x24 = ''24''"
  by (simp_all add: puthex64_def puthex32_def hex_digits.simps hex_digits32.simps kHexDigits_def drop_bit_eq_div)

text \<open>A data abort of the kernel itself is reported without its name: \<^verbatim>\<open>ec_name\<close> knows only 0x24.\<close>

lemma data_abort_report:
  "klog (sync_el1h (esr_data_abort_same_el iss) elr far spsr s) =
     klog s @ fault_report ''25'' ''?'' (esr_data_abort_same_el iss) elr far spsr"
  by (simp add: sync_el1h_def except_el1_sync_def Let_def ec_of_data_abort hex_small ec_name_def fault_report_def)

lemma data_abort_state:
  "bytes (sync_el1h esr elr far spsr s) = bytes s" "threads (sync_el1h esr elr far spsr s) = threads s"
  by (simp_all add: sync_el1h_def except_el1_sync_def Let_def)

end
