(* ===== verification/StackLab.thy ===== *)
theory StackLab
  imports ThreadCreate Except
begin

text \<open>
  The stack laboratory (\<^verbatim>\<open>src/stack_lab.cc\<close>): a thread uses some stack, reports the high-water mark
  and then writes to the guard page below its stack. Every body that waits for ever is modelled by the
  state in which it waits. What the compiler chooses is a parameter: \<open>frame\<close>, the bytes one call of
  \<^verbatim>\<open>consume_stack\<close> takes from the stack, and \<open>off\<close>, the offset of its buffer in that frame. A store
  goes through the translation \<open>xlat\<close>; if it faults, the CPU takes a data abort to \<open>sync_el1h\<close>.
\<close>

section \<open>Model\<close>

definition kGuardPageBytes :: u64 where "kGuardPageBytes = 4096"

lemma unat_next32:
  assumes "(d :: u32) < l"
  shows "unat (d + 1) = unat d + 1"
proof -
  have "unat d + 1 < 2 ^ 32" using assms unsigned_less [of l, where ?'a = nat] by (simp add: word_less_nat_alt)
  then show ?thesis by (simp add: unat_word_ariths)
qed

function consume_stack :: "u64 \<Rightarrow> u64 \<Rightarrow> addr \<Rightarrow> u32 \<Rightarrow> u32 \<Rightarrow> mem \<Rightarrow> mem" where
  "consume_stack frame off sp depth limit m =
     (let sp = sp - frame;
          m = m(sp + off := ucast depth)
      in if depth < limit then consume_stack frame off sp (depth + 1) limit m else m)"
  by pat_completeness auto
termination
  by (relation "measure (\<lambda>(frame, off, sp, depth, limit, m). unat limit - unat depth)")
    (simp_all add: unat_next32, simp add: word_less_nat_alt)

declare consume_stack.simps [simp del]

text \<open>A store of one byte; the second component is the state after a fault has been reported.\<close>

definition store_or_fault ::
  "(addr \<Rightarrow> xlat option) \<Rightarrow> u64 \<Rightarrow> u64 \<Rightarrow> u64 \<Rightarrow> addr \<Rightarrow> u8 \<Rightarrow> kstate \<Rightarrow> kstate + kstate" where
  "store_or_fault xlat iss elr spsr a v s =
     (case xlat a of
        Some _ \<Rightarrow> Inr (s\<lparr>bytes := (bytes s)(a := v)\<rparr>)
      | None \<Rightarrow> Inl (sync_el1h (esr_data_abort_same_el iss) elr a spsr s))"

definition probe_thread ::
  "(addr \<Rightarrow> xlat option) \<Rightarrow> u64 \<Rightarrow> u64 \<Rightarrow> u64 \<Rightarrow> u64 \<Rightarrow> u64 \<Rightarrow> addr \<Rightarrow> kstate \<Rightarrow> kstate" where
  "probe_thread xlat iss elr spsr frame off sp s =
     (let s = kputs (''[stack-lab] probe start'' @ [newline]) s;
          cur = cur_thread s
      in if cur = NULL then kputs (''[stack-lab] no current thread?'' @ [newline]) s
      else let s = kputs (''[stack-lab] stack_base=0x'' @ puthex64 (t_stack_base (thr s cur)) @
                          '' stack_size='' @ uart_print_u64 (t_stack_size (thr s cur)) @ [newline]) s;
               s = s\<lparr>bytes := consume_stack frame off sp 0 8 (bytes s)\<rparr>;
               used = thread_stack_high_watermark_bytes s cur;
               s = kputs (''[stack-lab] high_watermark_bytes='' @ uart_print_u64 used @ [newline]) s;
               guard = t_stack_base (thr s cur) - kGuardPageBytes;
               s = kputs (''[stack-lab] guard_page=0x'' @ puthex64 guard @ [newline]) s;
               s = kputs (''[stack-lab] writing guard page (expected [EXC] DABT)'' @ [newline]) s
           in case store_or_fault xlat iss elr spsr guard 0x42 s of
                Inl s \<Rightarrow> s
              | Inr s \<Rightarrow> kputs (''[stack-lab] BUG: guard page write succeeded'' @ [newline]) s)"

text \<open>\<open>None\<close>: the function waits for ever. \<open>probe\<close> is the address of \<^verbatim>\<open>probe_thread\<close>.\<close>

definition stack_lab_setup :: "mmu_layout \<Rightarrow> addr \<Rightarrow> addr \<Rightarrow> u32 \<Rightarrow> kenv \<Rightarrow> kenv option" where
  "stack_lab_setup L thread_trampoline probe mode e =
     (let e = e\<lparr>ks := kputs (''[stack-lab] setup'' @ [newline]) (ks e)\<rparr>
      in if mode \<noteq> 1 then None
      else do {
        (t, e) \<leftarrow> thread_create L thread_trampoline probe NULL (8 * 1024) e;
        if t = NULL then None
        else do {
          s \<leftarrow> sched_add t (ks e);
          Some (e\<lparr>ks := s\<rparr>)
        }
      })"

section \<open>Use of the stack\<close>

lemma consume_stack_deepest:
  assumes "depth \<le> limit"
  shows "consume_stack frame off sp depth limit m (sp - (ucast (limit - depth) + 1) * frame + off) = ucast limit"
  using assms
proof (induction frame off sp depth limit m rule: consume_stack.induct)
  case (1 frame off sp depth limit m)
  show ?case
  proof (cases "depth < limit")
    case True
    then have le: "depth + 1 \<le> limit" by (rule inc_le)
    have u: "unat (limit - depth) = unat (limit - (depth + 1)) + 1"
    proof -
      show ?thesis
        using True le unat_next32 [OF True] unat_sub [OF 1(2)] by (simp add: unat_sub word_less_nat_alt)
    qed
    have uc: "(ucast x :: u64) = of_nat (unat x)" for x :: u32 by simp
    have "(ucast (limit - depth) :: u64) = ucast (limit - (depth + 1)) + 1"
      unfolding uc u by (simp only: of_nat_add of_nat_1)
    then have a: "sp - (ucast (limit - depth) + 1) * frame + off =
        sp - frame - (ucast (limit - (depth + 1)) + 1) * frame + off"
      by (simp add: algebra_simps)
    show ?thesis
      unfolding a by (subst consume_stack.simps) (use 1(1) [OF refl refl True le] True in \<open>simp add: Let_def del: fun_upd_apply\<close>)
  next
    case False
    then have "depth = limit" using 1(2) by simp
    then show ?thesis by (subst consume_stack.simps) (simp add: Let_def)
  qed
qed

lemma unused_loop_stops:
  assumes "i \<le> k" "m (p + of_nat k) \<noteq> kStackWatermark"
  shows "unused_loop p i sz unused m \<le> unused + (k - i)"
  using assms
proof (induction p i sz unused m rule: unused_loop.induct)
  case (1 p i sz unused m)
  show ?case
  proof (cases "i < sz \<and> m (p + of_nat i) = kStackWatermark")
    case True
    then have "i \<noteq> k" using 1(3) by auto
    then have "Suc i \<le> k" using 1(2) by simp
    then show ?thesis using 1(1) [of] 1(3) True by (subst unused_loop.simps) fastforce
  next
    case False
    then show ?thesis by (subst unused_loop.simps) auto
  qed
qed

text \<open>An overwritten byte at offset \<open>k\<close> is counted: the reported use reaches at least down to it.\<close>

lemma watermark_covers:
  assumes t: "t \<noteq> NULL" "t_stack_base (thr s t) = base" "base \<noteq> NULL" "t_stack_size (thr s t) = sz"
    and k: "64 \<le> k" "k < unat sz" "bytes s (base + of_nat k) \<noteq> kStackWatermark"
  shows "unat sz - k \<le> unat (stack_high_watermark_bytes s t)"
proof -
  let ?n = "unused_loop base 64 (unat sz) 0 (bytes s)"
  have n: "?n \<le> k - 64" using unused_loop_stops [of 64 k "bytes s" base "unat sz" 0] k by simp
  have gb: "unat kStackGuardBytes = 64" by (simp add: kStackGuardBytes_def)
  have sz: "\<not> sz \<le> kStackGuardBytes" "sz \<noteq> 0" using k(1,2) gb by (auto simp: word_le_nat_alt)
  have un: "unat (of_nat ?n :: u64) = ?n"
  proof -
    have "?n < 18446744073709551616" using n k(2) unat_lt_2p64 [of sz] by linarith
    then show ?thesis by (simp add: unat_of_nat)
  qed
  have us: "unat (sz - kStackGuardBytes) = unat sz - 64"
    using k(1,2) gb by (simp add: unat_sub_nowrap word_le_nat_alt)
  have le: "(of_nat ?n :: u64) \<le> sz - kStackGuardBytes" using un us n k by (simp add: word_le_nat_alt)
  have "stack_high_watermark_bytes s t = sz - kStackGuardBytes - of_nat ?n"
    using t sz le by (simp add: stack_high_watermark_bytes_def Let_def gb)
  then show ?thesis using unat_sub_nowrap [OF le] un us n k by simp
qed


section \<open>The probe\<close>

definition probe_header :: "addr \<Rightarrow> u64 \<Rightarrow> string" where
  "probe_header base sz = ''[stack-lab] probe start'' @ [newline] @
     ''[stack-lab] stack_base=0x'' @ puthex64 base @ '' stack_size='' @ uart_print_u64 sz @ [newline]"

definition probe_figures :: "addr \<Rightarrow> u64 \<Rightarrow> string" where
  "probe_figures base used = ''[stack-lab] high_watermark_bytes='' @ uart_print_u64 used @ [newline] @
     ''[stack-lab] guard_page=0x'' @ puthex64 (base - kGuardPageBytes) @ [newline] @
     ''[stack-lab] writing guard page (expected [EXC] DABT)'' @ [newline]"

text \<open>What the probe does when its guard page is not mapped.\<close>

lemma probe_thread_faults:
  assumes t: "cur_thread s \<noteq> NULL" "t_stack_base (thr s (cur_thread s)) = base" "t_stack_size (thr s (cur_thread s)) = sz"
    and g: "xlat (base - kGuardPageBytes) = None"
    and s1: "s1 = s\<lparr>bytes := consume_stack frame off sp 0 8 (bytes s)\<rparr>"
  shows "klog (probe_thread xlat iss elr spsr frame off sp s) = klog s @ probe_header base sz @
      probe_figures base (stack_high_watermark_bytes s1 (cur_thread s)) @
      fault_report ''25'' ''?'' (esr_data_abort_same_el iss) elr (base - kGuardPageBytes) spsr"
    and "bytes (probe_thread xlat iss elr spsr frame off sp s) = bytes s1"
proof -
  let ?t = "cur_thread s"
  have w: "stack_high_watermark_bytes (kputs b (x\<lparr>bytes := m\<rparr>)) ?t = stack_high_watermark_bytes s1 ?t"
    "stack_high_watermark_bytes (x\<lparr>bytes := m\<rparr>) ?t = stack_high_watermark_bytes s1 ?t"
    if "threads x = threads s" "m = consume_stack frame off sp 0 8 (bytes s)" for x b m
    using that by (simp_all add: stack_high_watermark_bytes_def s1 Let_def)
  show "klog (probe_thread xlat iss elr spsr frame off sp s) = klog s @ probe_header base sz @
      probe_figures base (stack_high_watermark_bytes s1 (cur_thread s)) @
      fault_report ''25'' ''?'' (esr_data_abort_same_el iss) elr (base - kGuardPageBytes) spsr"
    using t g by (simp add: probe_thread_def Let_def store_or_fault_def data_abort_report probe_header_def
        probe_figures_def thread_stack_high_watermark_bytes_def w)
  show "bytes (probe_thread xlat iss elr spsr frame off sp s) = bytes s1"
    using t g by (simp add: probe_thread_def Let_def store_or_fault_def data_abort_state s1)
qed


section \<open>Property\<close>



end
