(* ===== verification/Platform.thy ===== *)
theory Platform
  imports Irq
begin

text \<open>
  The two boards (\<^verbatim>\<open>src/platform/virt.cc\<close>, \<^verbatim>\<open>rpi4.cc\<close>): console parameters, pin multiplexing and the
  interrupt controller of the board the kernel was built for. The GPIO registers are a store of 32-bit words.
  The lemmas: on the Raspberry Pi the console pins 14 and 15 are switched to the UART without pull
  resistors, and the function and the pull setting of every other pin stay as they were.
\<close>

section \<open>Model\<close>

datatype board_kind = Virt | Rpi4

definition kPeriphBase :: u64 where "kPeriphBase = 0xFE000000"
definition kGpioBase :: u64 where "kGpioBase = kPeriphBase + 0x200000"
definition kGpfsel1 :: u64 where "kGpfsel1 = kGpioBase + 0x04"
definition kGppupdn0 :: u64 where "kGppupdn0 = kGpioBase + 0xE4"
definition kUart0Base :: u64 where "kUart0Base = kPeriphBase + 0x201000"
definition kUart0ClockHz :: u32 where "kUart0ClockHz = 48000000"

definition mmio_write32 :: "u64 \<Rightarrow> u32 \<Rightarrow> (u64 \<Rightarrow> u32) \<Rightarrow> u64 \<Rightarrow> u32" where
  "mmio_write32 a v g = g(a := v)"

definition mmio_read32 :: "u64 \<Rightarrow> (u64 \<Rightarrow> u32) \<Rightarrow> u32" where
  "mmio_read32 a g = g a"

definition gpio_init_pl011_uart0 :: "(u64 \<Rightarrow> u32) \<Rightarrow> u64 \<Rightarrow> u32" where
  "gpio_init_pl011_uart0 g =
     (let fsel1 = mmio_read32 kGpfsel1 g;
          fsel1 = fsel1 AND NOT (push_bit 12 7 OR push_bit 15 7);
          fsel1 = fsel1 OR (push_bit 12 4 OR push_bit 15 4);
          g = mmio_write32 kGpfsel1 fsel1 g;
          pupdn0 = mmio_read32 kGppupdn0 g;
          pupdn0 = pupdn0 AND NOT (push_bit 28 3 OR push_bit 30 3)
      in mmio_write32 kGppupdn0 pupdn0 g)"

definition platform_name :: "board_kind \<Rightarrow> string" where
  "platform_name b = (case b of Virt \<Rightarrow> ''virt'' | Rpi4 \<Rightarrow> ''rpi4'')"

definition virt_early_init :: "uart \<Rightarrow> uart" where
  "virt_early_init u = uart_pl011_set_clock_hz 24000000 (uart_pl011_set_mmio_base 0x09000000 u)"

definition rpi4_early_init :: "uart \<times> (u64 \<Rightarrow> u32) \<Rightarrow> uart \<times> (u64 \<Rightarrow> u32)" where
  "rpi4_early_init = (\<lambda>(u, g).
     (let u = uart_pl011_set_mmio_base kUart0Base u;
          u = uart_pl011_set_clock_hz kUart0ClockHz u
      in (u, gpio_init_pl011_uart0 g)))"

definition platform_early_init :: "board_kind \<Rightarrow> uart \<times> (u64 \<Rightarrow> u32) \<Rightarrow> uart \<times> (u64 \<Rightarrow> u32)" where
  "platform_early_init b = (case b of Virt \<Rightarrow> map_prod virt_early_init id | Rpi4 \<Rightarrow> rpi4_early_init)"

definition virt_irq_init :: "irqenv \<Rightarrow> irqst \<Rightarrow> irqst option" where
  "virt_irq_init E s = gic_init E s"

definition rpi4_irq_init :: "irqst \<Rightarrow> irqst option" where
  "rpi4_irq_init s = Some s"

definition platform_irq_init :: "board_kind \<Rightarrow> irqenv \<Rightarrow> irqst \<Rightarrow> irqst option" where
  "platform_irq_init b E s = (case b of Virt \<Rightarrow> virt_irq_init E s | Rpi4 \<Rightarrow> rpi4_irq_init s)"

definition platform_full_kernel_supported :: "board_kind \<Rightarrow> int" where
  "platform_full_kernel_supported b = (case b of Virt \<Rightarrow> 1 | Rpi4 \<Rightarrow> 0)"

section \<open>Pins\<close>

text \<open>The three-bit function field of pin \<open>10 + n\<close> and the two-bit pull field of pin \<open>n\<close>.\<close>

definition pin_function :: "u32 \<Rightarrow> nat \<Rightarrow> u32" where
  "pin_function fsel1 n = take_bit 3 (drop_bit (3 * n) fsel1)"

definition pin_pull :: "u32 \<Rightarrow> nat \<Rightarrow> u32" where
  "pin_pull pupdn0 n = take_bit 2 (drop_bit (2 * n) pupdn0)"

lemma gpio_regs:
  "gpio_init_pl011_uart0 g kGpfsel1 = (g kGpfsel1 AND NOT (push_bit 12 7 OR push_bit 15 7)) OR (push_bit 12 4 OR push_bit 15 4)"
  "gpio_init_pl011_uart0 g kGppupdn0 = g kGppupdn0 AND NOT (push_bit 28 3 OR push_bit 30 3)"
  "a \<noteq> kGpfsel1 \<Longrightarrow> a \<noteq> kGppupdn0 \<Longrightarrow> gpio_init_pl011_uart0 g a = g a"
  by (simp_all add: gpio_init_pl011_uart0_def mmio_read32_def mmio_write32_def Let_def kGpfsel1_def kGppupdn0_def)

lemma bit_field: "bit (7 :: u32) i \<longleftrightarrow> i < 3" "bit (3 :: u32) i \<longleftrightarrow> i < 2" "bit (4 :: u32) i \<longleftrightarrow> i = 2"
proof -
  have m: "(7 :: u32) = mask 3" "(3 :: u32) = mask 2" "(4 :: u32) = push_bit 2 1" by (simp_all add: mask_eq_exp_minus_1)
  show "bit (7 :: u32) i \<longleftrightarrow> i < 3" "bit (3 :: u32) i \<longleftrightarrow> i < 2" unfolding m bit_mask_iff by auto
  show "bit (4 :: u32) i \<longleftrightarrow> i = 2" unfolding m(3) bit_push_bit_iff bit_1_iff by auto
qed

lemma gpio_bits:
  assumes "k < 32"
  shows "bit (gpio_init_pl011_uart0 g kGpfsel1) k \<longleftrightarrow> (if k < 12 \<or> 18 \<le> k then bit (g kGpfsel1) k else k = 14 \<or> k = 17)"
    and "bit (gpio_init_pl011_uart0 g kGppupdn0) k \<longleftrightarrow> k < 28 \<and> bit (g kGppupdn0) k"
  unfolding gpio_regs using assms
  by (simp_all only: bit_or_iff bit_and_iff bit_not_iff bit_push_bit_iff bit_field, auto)

lemma gpio_pins:
  assumes "n < 10"
  shows "pin_function (gpio_init_pl011_uart0 g kGpfsel1) n = (if n = 4 \<or> n = 5 then 4 else pin_function (g kGpfsel1) n)"
proof (rule bit_word_eqI)
  fix i assume "i < LENGTH(32)"
  have a: "(3 * n + i < 12 \<or> 18 \<le> 3 * n + i) = (n \<noteq> 4 \<and> n \<noteq> 5)" "n = 4 \<or> n = 5 \<Longrightarrow> (3 * n + i = 14 \<or> 3 * n + i = 17) = (i = 2)"
    if "i < 3" using that by presburger+
  have "bit (gpio_init_pl011_uart0 g kGpfsel1) (3 * n + i) = (if n = 4 \<or> n = 5 then i = 2 else bit (g kGpfsel1) (3 * n + i))"
    if "i < 3"
    using assms that a [OF that] by (subst gpio_bits(1)) simp_all
  then show "bit (pin_function (gpio_init_pl011_uart0 g kGpfsel1) n) i =
      bit (if n = 4 \<or> n = 5 then 4 else pin_function (g kGpfsel1) n) i"
    using bit_field(3) [of i] by (cases "n = 4 \<or> n = 5") (auto simp: pin_function_def bit_take_bit_iff bit_drop_bit_eq simp del: bit_numeral_rec)
qed

lemma gpio_pulls:
  assumes "n < 16"
  shows "pin_pull (gpio_init_pl011_uart0 g kGppupdn0) n = (if n = 14 \<or> n = 15 then 0 else pin_pull (g kGppupdn0) n)"
proof (rule bit_word_eqI)
  fix i assume "i < LENGTH(32)"
  have a: "(2 * n + i < 28) = (n \<noteq> 14 \<and> n \<noteq> 15)" if "i < 2" using that assms by presburger
  have "bit (gpio_init_pl011_uart0 g kGppupdn0) (2 * n + i) = (n \<noteq> 14 \<and> n \<noteq> 15 \<and> bit (g kGppupdn0) (2 * n + i))" if "i < 2"
    using assms that a [OF that] by (subst gpio_bits(2)) simp_all
  then show "bit (pin_pull (gpio_init_pl011_uart0 g kGppupdn0) n) i =
      bit (if n = 14 \<or> n = 15 then 0 else pin_pull (g kGppupdn0) n) i"
    by (auto simp: pin_pull_def bit_take_bit_iff bit_drop_bit_eq)
qed

end
