(* ===== verification/LabOps.thy ===== *)
theory LabOps
  imports SyncRun
begin

text \<open>
  What the entry points of the scheduler and of \<^verbatim>\<open>src/sync.cc\<close> do under the PRIO policy when a
  running thread calls them, in the form the laboratories need: which thread runs next, which
  threads are queued, who owns what, and whether the caller was blocked.
\<close>

section \<open>A kernel at rest\<close>

text \<open>
  Between two statements of a thread: the invariants hold, the preemption counter is \<open>n\<close>, no interrupt is
  being served, and the running thread is in the run queue, hence ready.
\<close>

definition at_rest :: "u32 \<Rightarrow> kstate \<Rightarrow> addr list \<Rightarrow> (addr \<Rightarrow> addr list) \<Rightarrow> (place \<Rightarrow> addr list) \<Rightarrow> bool" where
  "at_rest n s xs Own Q \<longleftrightarrow> sync_ok s xs Own Q \<and> preempt_cnt (cpu s) = n \<and> irq_depth (cpu s) = 0 \<and> cur_thread s \<in> set xs"

lemma at_restD:
  assumes "at_rest n s xs Own Q"
  shows "sync_ok s xs Own Q" "sched_inv s xs" "sync_inv s Own Q" "preempt_cnt (cpu s) = n" "irq_depth (cpu s) = 0"
    "cur_thread s \<in> set xs" "is_ready s (cur_thread s)" "cur_thread s \<noteq> NULL"
  using assms sched_invD(3,4) sync_okD(1,2) unfolding at_rest_def by blast+

text \<open>The running thread was kept, or is one of the highest priority.\<close>

definition runs_top :: "kstate \<Rightarrow> addr list \<Rightarrow> addr \<Rightarrow> bool" where
  "runs_top s xs c \<longleftrightarrow> cur_thread s = c \<and> c \<in> set xs \<or> (\<forall>v \<in> set xs. eff s v \<le> eff s (cur_thread s))"

lemma disable_mutexes [simp]: "mutexes (preempt_disable s) = mutexes s"
  by (simp add: preempt_disable_def)

section \<open>Rescheduling points\<close>

lemma do_switch_ticks [simp]: "ticks (cpu (do_switch k a b s)) = ticks (cpu s)"
  by (simp add: do_switch_eq [where f = "r_sp (regs s) - 96"] resume_def Let_def split: kont.split)

lemma prio_resched_top:
  assumes inv: "sched_inv s xs" and p: "policy cfg = PRIO" "xs \<noteq> []" "cur_thread s \<noteq> NULL" "preempt_cnt (cpu s) = 0"
    and r: "sched_resched_from_irq_tail cfg k s = Some s'"
  shows "sched_inv s' xs" "sched_only s s'" "preempt_cnt (cpu s') = 0" "irq_depth (cpu s') = irq_depth (cpu s)"
    "cur_thread s' \<in> set xs" "\<forall>v \<in> set xs. eff s' v \<le> eff s' (cur_thread s')"
    "kont s' (cur_thread s) = (if cur_thread s' = cur_thread s then kont s (cur_thread s) else k)" "ticks (cpu s') = ticks (cpu s)"
proof -
  obtain n where n: "prio_pick_next s (cur_thread s) (need_resched (cpu s) = kNeedReschedRotate)
      (need_resched (cpu s) = kNeedReschedRotate) = Some n" "is_ready s n" "\<forall>v \<in> set xs. eff s v \<le> eff s n"
    "n \<in> set xs \<or> n = cur_thread s"
    using prio_pick_next_sched [OF inv] p(2) by metis
  have mem: "n \<in> set xs" using n(2,4) inv by (auto simp: sched_inv_def is_ready_def)
  have e: "s' = (if n = cur_thread s then upd_cpu (need_resched_update (\<lambda>_. kNeedReschedNone)) s else do_switch k (cur_thread s) n s)"
    using r p n(1,2) by (simp add: sched_resched_from_irq_tail_def Let_def is_ready_def split: if_splits)
  show "sched_inv s' xs" using resched_inv [OF inv, of cfg k] r by simp
  show "sched_only s s'" by (rule resched_only [OF r])
  show "preempt_cnt (cpu s') = 0" "irq_depth (cpu s') = irq_depth (cpu s)" "cur_thread s' \<in> set xs"
    "\<forall>v \<in> set xs. eff s' v \<le> eff s' (cur_thread s')" "ticks (cpu s') = ticks (cpu s)"
    unfolding e using p(4) n(3) mem by auto
  show "kont s' (cur_thread s) = (if cur_thread s' = cur_thread s then kont s (cur_thread s) else k)"
    unfolding e by (auto simp: do_switch_eq [where f = "r_sp (regs s) - 96"] resume_def Let_def split: kont.split)
qed


text \<open>The end of an operation: \<^verbatim>\<open>preempt_enable\<close> with the counter at 1, and a request if the caller is not queued.\<close>

lemma enable_settles:
  assumes ok: "sync_ok s xs Own Q" and p: "policy cfg = PRIO" and c: "cur_thread s = c" "c \<noteq> NULL"
    and n: "preempt_cnt (cpu s) = 1" "irq_depth (cpu s) = 0" and q: "xs \<noteq> []" "c \<in> set xs \<or> need_resched (cpu s) \<noteq> 0"
    and e: "preempt_enable cfg k s = Some s'"
  shows "at_rest 0 s' xs Own Q" "sched_only s s'" "runs_top s' xs c"
    "kont s' c = (if cur_thread s' = c then kont s c else k)" "ticks (cpu s') = ticks (cpu s)"
    "need_resched (cpu s) \<noteq> 0 \<Longrightarrow> \<forall>v \<in> set xs. eff s' v \<le> eff s' (cur_thread s')"
proof -
  define s1 where "s1 = upd_cpu (preempt_cnt_update (\<lambda>n. n - 1)) s"
  have inv: "sched_inv s1 xs" using sched_inv_upd_cpu [OF sync_okD(1) [OF ok]] by (simp add: s1_def)
  have s1: "preempt_cnt (cpu s1) = 0" "irq_depth (cpu s1) = 0" "cur_thread s1 = c" "need_resched (cpu s1) = need_resched (cpu s)"
    "sched_only s s1" "kont s1 = kont s" "ticks (cpu s1) = ticks (cpu s)"
    using n c by (simp_all add: s1_def)
  have ok1: "sync_ok s1 xs Own Q" by (rule sync_ok_sched_only [OF ok inv s1(5)])
  have "at_rest 0 s' xs Own Q \<and> sched_only s s' \<and> runs_top s' xs c \<and>
    kont s' c = (if cur_thread s' = c then kont s c else k) \<and> ticks (cpu s') = ticks (cpu s) \<and>
    (need_resched (cpu s) \<noteq> 0 \<longrightarrow> (\<forall>v \<in> set xs. eff s' v \<le> eff s' (cur_thread s')))"
  proof (cases "need_resched (cpu s) = 0")
    case True
    then have "s' = s1" using e n s1 by (simp add: preempt_enable_def Let_def s1_def)
    then show ?thesis using ok1 s1 q True by (auto simp: at_rest_def runs_top_def)
  next
    case False
    then have r: "sched_resched_from_irq_tail cfg k s1 = Some s'" using e n s1 by (simp add: preempt_enable_def Let_def s1_def)
    have "cur_thread s1 \<noteq> NULL" using s1 c by simp
    note t = prio_resched_top [OF inv p q(1) this s1(1) r]
    have o: "sched_only s s'" using t(2) by (simp add: s1_def)
    show ?thesis
      using sync_ok_sched_only [OF ok t(1) o] t(3-) o s1 by (simp add: at_rest_def runs_top_def)
  qed
  then show "at_rest 0 s' xs Own Q" "sched_only s s'" "runs_top s' xs c"
    "kont s' c = (if cur_thread s' = c then kont s c else k)" "ticks (cpu s') = ticks (cpu s)"
    "need_resched (cpu s) \<noteq> 0 \<Longrightarrow> \<forall>v \<in> set xs. eff s' v \<le> eff s' (cur_thread s')" by blast+
qed

lemma sched_only_owner: "sched_only s s' \<Longrightarrow> m_owner (mtx s' m) = m_owner (mtx s m)"
  "sched_only s s' \<Longrightarrow> t_state (thr s' t) = t_state (thr s t)" "sched_only s s' \<Longrightarrow> eff s' t = eff s t"
  "sched_only s s' \<Longrightarrow> sems s' = sems s"
  by (simp_all add: sched_only_def)

lemma owner_same:
  assumes "sync_inv s Own Q" "sync_inv s' Own Q'" "m \<noteq> NULL"
  shows "m_owner (mtx s' m) = m_owner (mtx s m)"
proof -
  have "t \<noteq> NULL \<Longrightarrow> m_owner (mtx s' m) = t \<longleftrightarrow> m_owner (mtx s m) = t" for t
    using sync_invD(2) [OF assms(1)] sync_invD(2) [OF assms(2)] assms(3) by blast
  then show ?thesis by metis
qed

section \<open>Mutexes\<close>

lemma lock_gets:
  assumes r: "at_rest 0 s xs Own Q" and p: "policy cfg = PRIO" and m: "m \<noteq> NULL" and c: "c = cur_thread s"
    and o: "m_owner (mtx s m) = NULL \<or> m_owner (mtx s m) = c" and run: "mutex_lock cfg m s = Some s'"
  shows "\<exists>Own'. at_rest 0 s' xs Own' Q" "m_owner (mtx s' m) = c" "\<And>n. n \<noteq> m \<Longrightarrow> m_owner (mtx s' n) = m_owner (mtx s n)"
    "\<And>t. t_state (thr s' t) = t_state (thr s t)" "runs_top s' xs c" "kont s' c \<noteq> KMutexLock m"
    "\<And>t. eff s' t = eff s t" "sems s' = sems s"
proof -
  note R = at_restD [OF r, folded c]
  define s1 where "s1 = set_kont c KRun (preempt_disable s)"
  have ok1: "sync_ok s1 xs Own Q" unfolding s1_def by (intro sync_ok_kont sync_ok_disable R(1))
  have s1: "preempt_cnt (cpu s1) = 1" "irq_depth (cpu s1) = 0" "cur_thread s1 = c" "mtx s1 n = mtx s n" "kont s1 c = KRun"
    "t_state (thr s1 t) = t_state (thr s t)" "eff s1 t = eff s t" "sems s1 = sems s" for n t
    using R c by (simp_all add: s1_def preempt_disable_def)
  note run' = run [unfolded mutex_lock_def Let_def disable_state, folded c, folded s1_def]
  define s2 where "s2 = (if m_owner (mtx s m) = c then s1 else thread_owned_mutex_add c m (upd_mutex m (m_owner_update (\<lambda>_. c)) s1))"
  define s3 where "s3 = upd_thread c (t_waiting_on_update (\<lambda>_. NULL)) s2"
  have e: "preempt_enable cfg KResched s3 = Some s'"
    using run' m R(8) o s1 by (auto simp: s3_def s2_def split: if_splits)
  have "\<exists>Own'. sync_ok s3 xs Own' Q" "m_owner (mtx s3 n) = (if n = m then c else m_owner (mtx s n))" for n
  proof -
    have "\<exists>Own'. sync_ok s3 xs Own' Q \<and> (\<forall>n. m_owner (mtx s3 n) = (if n = m then c else m_owner (mtx s n)))"
    proof (cases "m_owner (mtx s m) = c")
      case True
      have "sync_ok s3 xs Own Q"
        using waiting_on_ok [OF ok1, of c "\<lambda>_. NULL"] True sync_okD(3) [OF ok1] by (simp add: sync_ok_def s3_def s2_def)
      then show ?thesis using True s1 by (auto simp: s3_def s2_def)
    next
      case False
      then have "m_owner (mtx s1 m) = NULL" using o s1 by simp
      from acquire_ok(1,2,4) [OF ok1 R(8) m this] False show ?thesis
        using sync_okD(3) [OF ok1] s1 by (auto simp: sync_ok_def s3_def s2_def)
    qed
    then show "\<exists>Own'. sync_ok s3 xs Own' Q" "m_owner (mtx s3 n) = (if n = m then c else m_owner (mtx s n))" for n by blast+
  qed
  then obtain Own' where ok3: "sync_ok s3 xs Own' Q" and ow: "\<And>n. m_owner (mtx s3 n) = (if n = m then c else m_owner (mtx s n))"
    by blast
  have s3: "cpu s3 = cpu s1" "kont s3 = kont s1" "t_state (thr s3 t) = t_state (thr s1 t)" "eff s3 t = eff s1 t" "sems s3 = sems s1" for t
    by (auto simp: s3_def s2_def thread_owned_mutex_add_def Let_def)
  have h: "cur_thread s3 = c" "preempt_cnt (cpu s3) = 1" "irq_depth (cpu s3) = 0" "xs \<noteq> []" "c \<in> set xs \<or> need_resched (cpu s3) \<noteq> 0"
    using s1 s3 R(6) by auto
  note t = enable_settles [OF ok3 p h(1) R(8) h(2-5) e]
  show "\<exists>Own'. at_rest 0 s' xs Own' Q" using t(1) by blast
  show "m_owner (mtx s' m) = c" "\<And>n. n \<noteq> m \<Longrightarrow> m_owner (mtx s' n) = m_owner (mtx s n)"
    "\<And>t. t_state (thr s' t) = t_state (thr s t)" "\<And>t. eff s' t = eff s t" "sems s' = sems s"
    using sched_only_owner [OF t(2)] ow s1 s3 by simp_all
  show "runs_top s' xs c" by (rule t(3))
  show "kont s' c \<noteq> KMutexLock m" using t(4) s3 s1 by simp
qed


lemma lock_blocks:
  assumes r: "at_rest 0 s xs Own Q" and p: "policy cfg = PRIO" and m: "m \<noteq> NULL" and c: "c = cur_thread s"
    and o: "m_owner (mtx s m) \<noteq> NULL" "m_owner (mtx s m) \<noteq> c" and q: "remove1 c xs \<noteq> []" and run: "mutex_lock cfg m s = Some s'"
  shows "at_rest 0 s' (remove1 c xs) Own (Q(Inl m := [c]))"
    "\<And>n. n \<noteq> NULL \<Longrightarrow> m_owner (mtx s' n) = m_owner (mtx s n)"
    "\<And>t. t_state (thr s' t) = (if t = c then kThreadBlocked else t_state (thr s t))" "kont s' c = KMutexLock m"
    "cur_thread s' \<noteq> c"
proof -
  note R = at_restD [OF r, folded c]
  define s1 where "s1 = set_kont c KRun (preempt_disable s)"
  have ok1: "sync_ok s1 xs Own Q" unfolding s1_def by (intro sync_ok_kont sync_ok_disable R(1))
  have s1: "preempt_cnt (cpu s1) = 1" "irq_depth (cpu s1) = 0" "cur_thread s1 = c" "mtx s1 n = mtx s n"
    "t_state (thr s1 t) = t_state (thr s t)" for n t
    using R c by (simp_all add: s1_def preempt_disable_def)
  have r1: "is_ready s1 c" using R(7) by (simp add: is_ready_def s1)
  note run' = run [unfolded mutex_lock_def Let_def disable_state, folded c, folded s1_def]
  obtain s2 where s2: "mutex_block cfg m c s1 = Some s2" "sched_inv s2 (remove1 c xs)" "sync_inv s2 Own (Q(Inl m := [c]))"
    "\<And>t. t_state (thr s2 t) = (if t = c then kThreadBlocked else t_state (thr s1 t))" "cpu s2 = (cpu s1)\<lparr>need_resched := 1\<rparr>"
    using mutex_block_spec [OF sync_okD(1,2) [OF ok1] r1 s1(3) [symmetric] m s1(4) [THEN arg_cong [where f = m_owner]] o, of cfg] by blast
  let ?s = "set_kont c (KMutexLock m) s2"
  have ok2: "sync_ok ?s (remove1 c xs) Own (Q(Inl m := [c]))"
    by (rule sync_ok_kont) (use s2 sync_okD(3) [OF ok1] in \<open>simp add: sync_ok_def\<close>)
  have e: "preempt_enable cfg (KMutexLock m) ?s = Some s'"
    using run' m R(8) o s1 s2(1) by (auto split: if_splits)
  have h: "cur_thread ?s = c" "preempt_cnt (cpu ?s) = 1" "irq_depth (cpu ?s) = 0" "c \<in> set (remove1 c xs) \<or> need_resched (cpu ?s) \<noteq> 0"
    using s2(5) s1 by simp_all
  note t = enable_settles [OF ok2 p h(1) R(8) h(2,3) q h(4) e]
  show a: "at_rest 0 s' (remove1 c xs) Own (Q(Inl m := [c]))" by (rule t(1))
  show "m_owner (mtx s' n) = m_owner (mtx s n)" if "n \<noteq> NULL" for n
    using owner_same [OF R(3) at_restD(3) [OF a] that] .
  show st: "t_state (thr s' t) = (if t = c then kThreadBlocked else t_state (thr s t))" for t
    using sched_only_owner(2) [OF t(2)] s2(4) s1 by simp
  show "kont s' c = KMutexLock m" using t(4) by simp
  have "is_ready s' (cur_thread s')" by (rule at_restD(7) [OF a])
  then show "cur_thread s' \<noteq> c" using st [of c] by (auto simp: is_ready_def kconst_defs)
qed


text \<open>Nobody waits, or one thread does and gets the mutex: no wait queue is ever longer.\<close>

lemma unlock_releases:
  assumes r: "at_rest 0 s xs Own Q" and p: "policy cfg = PRIO" and m: "m \<noteq> NULL" and c: "c = cur_thread s"
    and o: "m_owner (mtx s m) = c" and run: "mutex_unlock cfg m s = Some s'"
  obtains (free) Own' where "at_rest 0 s' xs Own' Q" "Q (Inl m) = []" "m_owner (mtx s' m) = NULL"
      "\<And>n. n \<noteq> m \<Longrightarrow> m_owner (mtx s' n) = m_owner (mtx s n)" "\<And>t. t_state (thr s' t) = t_state (thr s t)"
    | (hand) Own' b where "at_rest 0 s' (xs @ [b]) Own' (Q(Inl m := []))" "Q (Inl m) = [b]" "b \<noteq> c" "m_owner (mtx s' m) = b"
      "\<And>n. n \<noteq> m \<Longrightarrow> m_owner (mtx s' n) = m_owner (mtx s n)"
      "\<And>t. t_state (thr s' t) = (if t = b then kThreadReady else t_state (thr s t))"
proof -
  note R = at_restD [OF r, folded c]
  let ?s = "preempt_disable s"
  have ok1: "sync_ok ?s xs Own Q" by (rule sync_ok_disable [OF R(1)])
  have r1: "is_ready ?s c" "c = cur_thread ?s" "m_owner (mtx ?s m) = c" using R(7) c o by (simp_all add: disable_state)
  have n1: "preempt_cnt (cpu ?s) = 1" "irq_depth (cpu ?s) = 0" using R(4,5) by (simp_all add: preempt_disable_def)
  obtain s2 where s2: "mutex_release cfg m c ?s = Some s2" and e: "preempt_enable cfg KResched s2 = Some s'"
    using run m R(8) o c by (auto simp: mutex_unlock_def Let_def disable_state bind_eq_Some_conv)
  show thesis
  proof (cases "Q (Inl m) = []")
    case True
    have f: "sched_inv s2 xs" "sync_inv s2 (released Own c m) Q" "m_owner (mtx s2 m) = NULL"
      "\<And>t. t_state (thr s2 t) = t_state (thr ?s t)" "cpu s2 = cpu ?s" "\<And>n. n \<noteq> m \<Longrightarrow> m_owner (mtx s2 n) = m_owner (mtx ?s n)"
      using mutex_release_empty [OF sync_okD(1,2) [OF ok1] r1(1) m r1(3) True, of cfg] s2 by auto
    have ok2: "sync_ok s2 xs (released Own c m) Q" using f sync_okD(3) [OF ok1] by (simp add: sync_ok_def)
    have h: "cur_thread s2 = c" "preempt_cnt (cpu s2) = 1" "irq_depth (cpu s2) = 0" "xs \<noteq> []" "c \<in> set xs \<or> need_resched (cpu s2) \<noteq> 0"
      using f(5) n1 r1(2) R(6) by auto
    note t = enable_settles [OF ok2 p h(1) R(8) h(2-5) e]
    show thesis by (rule free [OF t(1) True]) (use sched_only_owner(1,2) [OF t(2)] f in \<open>simp_all add: disable_state\<close>)
  next
    case False
    obtain ys b zs Own' where f: "Q (Inl m) = ys @ b # zs" "sched_inv s2 (xs @ [b])" "sync_inv s2 Own' (Q(Inl m := ys @ zs))"
      "m_owner (mtx s2 m) = b" "\<And>t. t_state (thr s2 t) = (if t = b then kThreadReady else t_state (thr ?s t))"
      "\<And>n. n \<noteq> m \<Longrightarrow> m_owner (mtx s2 n) = m_owner (mtx ?s n)" "cpu s2 = (cpu ?s)\<lparr>need_resched := need_resched (cpu s2)\<rparr>"
      using mutex_release_wakes [OF sync_okD(1,2) [OF ok1] r1(1,2) m r1(3) False, of cfg] s2 by force
    have one: "ys = []" "zs = []" using f(1) sync_okD(3) [OF ok1, of "Inl m"] by auto
    have bc: "b \<noteq> c" using f(1) ready_not_waiting [OF sync_okD(2) [OF ok1] r1(1), of "Inl m"] by auto
    have ok2: "sync_ok s2 (xs @ [b]) Own' (Q(Inl m := []))"
      using f(2,3) one sync_okD(3) [OF ok1] by (simp add: sync_ok_def)
    have h: "cur_thread s2 = c" "preempt_cnt (cpu s2) = 1" "irq_depth (cpu s2) = 0"
      by (subst f(7), use n1 r1(2) in simp)+
    have "xs @ [b] \<noteq> []" "c \<in> set (xs @ [b]) \<or> need_resched (cpu s2) \<noteq> 0" using R(6) by auto
    note t = enable_settles [OF ok2 p h(1) R(8) h(2,3) this e]
    have "Q (Inl m) = [b]" using f(1) one by simp
    then show thesis
      by (rule hand [OF t(1) _ bc]) (use sched_only_owner(1,2) [OF t(2)] f(4-6) in \<open>simp_all add: disable_state\<close>)
  qed
qed

lemma enable_same:
  assumes r: "at_rest 0 s xs Own Q" and p: "policy cfg = PRIO" and c: "c = cur_thread s"
    and e: "preempt_enable cfg KResched (preempt_disable s) = Some s'"
  shows "at_rest 0 s' xs Own Q" "sched_only s s'" "runs_top s' xs c" "ticks (cpu s') = ticks (cpu s)"
proof -
  note R = at_restD [OF r, folded c]
  let ?s = "preempt_disable s"
  have ok: "sync_ok ?s xs Own Q" by (rule sync_ok_disable [OF R(1)])
  have h: "cur_thread ?s = c" "preempt_cnt (cpu ?s) = 1" "irq_depth (cpu ?s) = 0" "xs \<noteq> []" "c \<in> set xs \<or> need_resched (cpu ?s) \<noteq> 0"
    using R c by (auto simp: preempt_disable_def)
  note t = enable_settles [OF ok p h(1) R(8) h(2-5) e]
  show "at_rest 0 s' xs Own Q" "runs_top s' xs c" by (rule t(1), rule t(3))
  show "sched_only s s'" "ticks (cpu s') = ticks (cpu s)" using t(2,5) by (simp_all add: preempt_disable_def)
qed

lemma unlock_foreign:
  assumes r: "at_rest 0 s xs Own Q" and p: "policy cfg = PRIO" and c: "c = cur_thread s"
    and o: "m_owner (mtx s m) \<noteq> c" and m: "m \<noteq> NULL" and run: "mutex_unlock cfg m s = Some s'"
  shows "at_rest 0 s' xs Own Q" "sched_only s s'" "runs_top s' xs c"
  using enable_same [OF r p c] run m o c by (auto simp: mutex_unlock_def Let_def disable_state)

lemma trylock_result:
  assumes r: "at_rest 0 s xs Own Q" and p: "policy cfg = PRIO" and m: "m \<noteq> NULL" and c: "c = cur_thread s"
    and run: "mutex_trylock cfg m s = Some (v, s')"
  shows "\<exists>Own'. at_rest 0 s' xs Own' Q" "\<And>t. t_state (thr s' t) = t_state (thr s t)"
    "\<And>n. n \<noteq> m \<Longrightarrow> m_owner (mtx s' n) = m_owner (mtx s n)"
    "if m_owner (mtx s m) = NULL \<or> m_owner (mtx s m) = c then v = 0 \<and> m_owner (mtx s' m) = c
     else v = -1 \<and> m_owner (mtx s' m) = m_owner (mtx s m)"
proof -
  note R = at_restD [OF r, folded c]
  let ?s = "preempt_disable s"
  have ok1: "sync_ok ?s xs Own Q" by (rule sync_ok_disable [OF R(1)])
  note run' = run [unfolded mutex_trylock_def Let_def disable_state, folded c]
  define s2 where "s2 = (if m_owner (mtx s m) = NULL then thread_owned_mutex_add c m (upd_mutex m (m_owner_update (\<lambda>_. c)) ?s) else ?s)"
  define s3 where "s3 = (if m_owner (mtx s m) = NULL \<or> m_owner (mtx s m) = c then upd_thread c (t_waiting_on_update (\<lambda>_. NULL)) s2 else s2)"
  have e: "preempt_enable cfg KResched s3 = Some s'"
    and v: "v = (if m_owner (mtx s m) = NULL \<or> m_owner (mtx s m) = c then 0 else -1)"
    using run' m R(8) by (auto simp: s3_def s2_def bind_eq_Some_conv split: if_splits)
  have "\<exists>Own'. sync_ok s3 xs Own' Q \<and> (\<forall>n. m_owner (mtx s3 n) = (if n = m \<and> m_owner (mtx s m) = NULL then c else m_owner (mtx s n)))"
  proof (cases "m_owner (mtx s m) = NULL")
    case True
    then have "m_owner (mtx ?s m) = NULL" by (simp add: disable_state)
    from acquire_ok(1,2,4) [OF ok1 R(8) m this] True show ?thesis
      using sync_okD(3) [OF ok1] by (auto simp: sync_ok_def s3_def s2_def disable_state)
  next
    case False
    have "sync_ok s3 xs Own Q"
      using waiting_on_ok [OF ok1, of c "\<lambda>_. NULL"] False ok1 sync_okD(3) [OF ok1] by (auto simp: sync_ok_def s3_def s2_def)
    then show ?thesis using False by (auto simp: s3_def s2_def disable_state)
  qed
  then obtain Own' where ok3: "sync_ok s3 xs Own' Q"
    and ow: "\<And>n. m_owner (mtx s3 n) = (if n = m \<and> m_owner (mtx s m) = NULL then c else m_owner (mtx s n))" by blast
  have s3: "cpu s3 = cpu ?s" "t_state (thr s3 t) = t_state (thr s t)" for t
    by (auto simp: s3_def s2_def thread_owned_mutex_add_def Let_def disable_state)
  have h: "cur_thread s3 = c" "preempt_cnt (cpu s3) = 1" "irq_depth (cpu s3) = 0" "xs \<noteq> []" "c \<in> set xs \<or> need_resched (cpu s3) \<noteq> 0"
    using s3 R c by (auto simp: preempt_disable_def)
  note t = enable_settles [OF ok3 p h(1) R(8) h(2-5) e]
  show "\<exists>Own'. at_rest 0 s' xs Own' Q" using t(1) by blast
  show "t_state (thr s' t) = t_state (thr s t)" for t using sched_only_owner(2) [OF t(2)] s3 by simp
  show "m_owner (mtx s' n) = m_owner (mtx s n)" if "n \<noteq> m" for n using sched_only_owner(1) [OF t(2)] ow that by simp
  show "if m_owner (mtx s m) = NULL \<or> m_owner (mtx s m) = c then v = 0 \<and> m_owner (mtx s' m) = c
     else v = -1 \<and> m_owner (mtx s' m) = m_owner (mtx s m)"
    using v sched_only_owner(1) [OF t(2)] ow by auto
qed


section \<open>Semaphores\<close>

lemma sem_down_passes:
  assumes r: "at_rest 0 s xs Own Q" and p: "policy cfg = PRIO" and c: "c = cur_thread s" and q: "p \<noteq> NULL"
    and n: "s_count (sems s p) > 0" and run: "sem_down cfg p s = Some s'"
  shows "at_rest 0 s' xs Own Q" "runs_top s' xs c" "mutexes s' = mutexes s"
    "\<And>t. t_state (thr s' t) = t_state (thr s t)" "\<And>t. eff s' t = eff s t"
proof -
  note R = at_restD [OF r, folded c]
  let ?s = "upd_sem p (s_count_update (\<lambda>c. c - 1)) (preempt_disable s)"
  have ok: "sync_ok ?s xs Own Q" by (intro sem_count_ok sync_ok_disable R(1))
  have e: "preempt_enable cfg KResched ?s = Some s'" using run q n by (simp add: sem_down_def Let_def disable_state)
  have h: "cur_thread ?s = c" "preempt_cnt (cpu ?s) = 1" "irq_depth (cpu ?s) = 0" "xs \<noteq> []" "c \<in> set xs \<or> need_resched (cpu ?s) \<noteq> 0"
    using R c by (auto simp: preempt_disable_def)
  note t = enable_settles [OF ok p h(1) R(8) h(2-5) e]
  show "at_rest 0 s' xs Own Q" "runs_top s' xs c" by (rule t(1), rule t(3))
  show "mutexes s' = mutexes s" "\<And>t. t_state (thr s' t) = t_state (thr s t)" "\<And>t. eff s' t = eff s t"
    using t(2) by (simp_all add: sched_only_def disable_state)
qed

text \<open>The caller becomes the whole wait queue.\<close>

lemma sem_down_blocks:
  assumes r: "at_rest 0 s xs Own Q" and p: "policy cfg = PRIO" and c: "c = cur_thread s" and q: "p \<noteq> NULL"
    and n: "s_count (sems s p) \<le> 0" and ne: "remove1 c xs \<noteq> []" and run: "sem_down cfg p s = Some s'"
  shows "at_rest 0 s' (remove1 c xs) Own (Q(Inr p := [c]))" "mutexes s' = mutexes s" "s_count (sems s' p) = s_count (sems s p) - 1"
    "\<And>t. t_state (thr s' t) = (if t = c then kThreadBlocked else t_state (thr s t))" "\<And>t. eff s' t = eff s t"
    "\<forall>v \<in> set (remove1 c xs). eff s' v \<le> eff s' (cur_thread s')"
proof -
  note R = at_restD [OF r, folded c]
  let ?s = "upd_sem p (s_count_update (\<lambda>c. c - 1)) (preempt_disable s)"
  have ok: "sync_ok ?s xs Own Q" by (intro sem_count_ok sync_ok_disable R(1))
  have s1: "is_ready ?s c" "c = cur_thread ?s" "preempt_cnt (cpu ?s) = 1" "irq_depth (cpu ?s) = 0"
    "s_count (sems ?s p) = s_count (sems s p) - 1"
    using R(4,5,7) c by (simp_all add: is_ready_def preempt_disable_def)
  obtain s2 where s2: "sem_block p c ?s = Some s2" "preempt_enable cfg KResched s2 = Some s'"
    using run q n R(8) c by (auto simp: sem_down_def Let_def disable_state bind_eq_Some_conv)
  have b: "sched_inv s2 (remove1 c xs)" "sync_inv s2 Own (Q(Inr p := [c]))"
    "\<And>t. t_state (thr s2 t) = (if t = c then kThreadBlocked else t_state (thr ?s t))"
    "s_count (sems s2 p) = s_count (sems ?s p)" "cpu s2 = (cpu ?s)\<lparr>need_resched := 1\<rparr>" "mutexes s2 = mutexes ?s" "\<And>t. eff s2 t = eff ?s t"
    using sem_block_spec [OF sync_okD(1,2) [OF ok] s1(1,2), of p] s2(1) by auto
  have ok2: "sync_ok s2 (remove1 c xs) Own (Q(Inr p := [c]))" using b(1,2) sync_okD(3) [OF ok] by (simp add: sync_ok_def)
  have h: "cur_thread s2 = c" "preempt_cnt (cpu s2) = 1" "irq_depth (cpu s2) = 0" "c \<in> set (remove1 c xs) \<or> need_resched (cpu s2) \<noteq> 0"
    using b(5) s1 by simp_all
  note t = enable_settles [OF ok2 p h(1) R(8) h(2,3) ne h(4) s2(2)]
  show a: "at_rest 0 s' (remove1 c xs) Own (Q(Inr p := [c]))" by (rule t(1))
  show "mutexes s' = mutexes s" "s_count (sems s' p) = s_count (sems s p) - 1"
    "\<And>t. t_state (thr s' t) = (if t = c then kThreadBlocked else t_state (thr s t))" "\<And>t. eff s' t = eff s t"
    using t(2) b s1(5) by (simp_all add: sched_only_def disable_state)
  have "distinct xs" using sched_invD(1) [OF R(2)] by (simp add: rq_inv_def)
  then show "\<forall>v \<in> set (remove1 c xs). eff s' v \<le> eff s' (cur_thread s')" using t(3) by (auto simp: runs_top_def)
qed

lemma sem_down_returns:
  assumes r: "at_rest 0 s xs Own Q" and q: "p \<noteq> NULL"
  shows "\<exists>s'. sem_down cfg p s = Some s'"
proof -
  note R = at_restD [OF r]
  let ?s = "upd_sem p (s_count_update (\<lambda>c. c - 1)) (preempt_disable s)"
  have ok: "sync_ok ?s xs Own Q" by (intro sem_count_ok sync_ok_disable R(1))
  have s1: "is_ready ?s (cur_thread s)" "cur_thread s = cur_thread ?s" using R(7) by (simp_all add: is_ready_def preempt_disable_def)
  show ?thesis
    using sem_block_spec [OF sync_okD(1,2) [OF ok] s1, of p] preempt_enable_inv [OF sync_okD(1) [OF ok], of cfg] preempt_enable_inv q R(8)
    by (fastforce simp: sem_down_def Let_def disable_state)
qed

lemma sem_up_result:
  assumes r: "at_rest 0 s xs Own Q" and p: "policy cfg = PRIO" and c: "c = cur_thread s" and q: "p \<noteq> NULL"
    and run: "sem_up cfg p s = Some s'"
  obtains (wake) xs' where "at_rest 0 s' xs' Own (Q(Inr p := []))" "set xs' = set xs \<union> set (Q (Inr p))" "s_count (sems s p) < 0"
      "\<And>n. n \<noteq> NULL \<Longrightarrow> m_owner (mtx s' n) = m_owner (mtx s n)"
      "\<And>t. t_state (thr s' t) = (if t \<in> set (Q (Inr p)) then kThreadReady else t_state (thr s t))"
    | (skip) "at_rest 0 s' xs Own Q" "s_count (sems s p) \<ge> 0" "\<And>n. n \<noteq> NULL \<Longrightarrow> m_owner (mtx s' n) = m_owner (mtx s n)"
      "\<And>t. t_state (thr s' t) = t_state (thr s t)"
proof -
  note R = at_restD [OF r, folded c]
  let ?s = "upd_sem p (s_count_update (\<lambda>c. c + 1)) (preempt_disable s)"
  have ok: "sync_ok ?s xs Own Q" by (intro sem_count_ok sync_ok_disable R(1))
  have s1: "cur_thread ?s = c" "preempt_cnt (cpu ?s) = 1" "irq_depth (cpu ?s) = 0" "s_count (sems ?s p) = s_count (sems s p) + 1"
    using R c by (simp_all add: preempt_disable_def)
  obtain s2 where s2: "(if s_count (sems ?s p) \<le> 0 then sem_wake p ?s else Some ?s) = Some s2" "preempt_enable cfg KResched s2 = Some s'"
    using run q unfolding sem_up_def Let_def by (auto simp: bind_eq_Some_conv split: if_splits)
  have same: thesis if e: "s2 = ?s" and g: "s_count (sems s p) < 0 \<Longrightarrow> Q (Inr p) = []"
  proof -
    have h: "xs \<noteq> []" "c \<in> set xs \<or> need_resched (cpu ?s) \<noteq> 0" using R(6) by auto
    note t = enable_settles [OF ok p s1(1) R(8) s1(2,3) h s2(2) [unfolded e]]
    have st: "\<And>t. t_state (thr s' t) = t_state (thr s t)" "\<And>n. m_owner (mtx s' n) = m_owner (mtx s n)"
      using t(2) by (simp_all add: sched_only_def disable_state)
    show thesis
    proof (cases "s_count (sems s p) < 0")
      case True
      then have "Q(Inr p := []) = Q" using g by auto
      then show thesis using wake [of xs] t(1) st g True by auto
    next
      case False
      then show thesis using skip t(1) st by auto
    qed
  qed
  show thesis
  proof (cases "s_count (sems s p) < 0")
    case False
    then show thesis using same s2(1) s1(4) by auto
  next
    case True
    then have w: "sem_wake p ?s = Some s2" using s2(1) s1(4) by simp
    show thesis
    proof (cases "Q (Inr p) = []")
      case True
      then have "s_waiters (sems ?s p) = NULL" using sync_invD(3) [OF sync_okD(2) [OF ok], of "Inr p"] by simp
      moreover have "upd_sem p (s_waiters_update (\<lambda>_. s_waiters (sems ?s p))) ?s = ?s" by (simp add: upd_sem_def)
      ultimately have "s2 = ?s" using w by (simp add: sem_wake_def)
      then show thesis using same True by blast
    next
      case False
      obtain ys b zs where f: "Q (Inr p) = ys @ b # zs" "sched_inv s2 (xs @ [b])" "sync_inv s2 Own (Q(Inr p := ys @ zs))"
        "\<And>t. t_state (thr s2 t) = (if t = b then kThreadReady else t_state (thr ?s t))"
        "cpu s2 = (cpu ?s)\<lparr>need_resched := need_resched (cpu s2)\<rparr>"
        using sem_wake_spec [OF ok False] w by force
      have one: "ys = []" "zs = []" using f(1) sync_okD(3) [OF ok, of "Inr p"] by auto
      have ok2: "sync_ok s2 (xs @ [b]) Own (Q(Inr p := []))" using f one sync_okD(3) [OF ok] by (simp add: sync_ok_def)
      have h: "cur_thread s2 = c" "preempt_cnt (cpu s2) = 1" "irq_depth (cpu s2) = 0" by (subst f(5), use s1 in simp)+
      have "xs @ [b] \<noteq> []" "c \<in> set (xs @ [b]) \<or> need_resched (cpu s2) \<noteq> 0" using R(6) by auto
      note t = enable_settles [OF ok2 p h(1) R(8) h(2,3) this s2(2)]
      have qs: "set (Q (Inr p)) = {b}" using f(1) one by simp
      show thesis
      proof (rule wake [OF t(1) _ \<open>s_count (sems s p) < 0\<close>])
        show "set (xs @ [b]) = set xs \<union> set (Q (Inr p))" using qs by simp
        show "n \<noteq> NULL \<Longrightarrow> m_owner (mtx s' n) = m_owner (mtx s n)" for n
          using owner_same [OF R(3) at_restD(3) [OF t(1)]] by blast
        show "t_state (thr s' u) = (if u \<in> set (Q (Inr p)) then kThreadReady else t_state (thr s u))" for u
          using sched_only_owner(2) [OF t(2)] f(4) qs by (simp add: disable_state)
      qed
    qed
  qed
qed

text \<open>The caller wakes a thread of higher priority: that one, or a higher one, runs.\<close>

lemma sem_up_wakes:
  assumes r: "at_rest 0 s xs Own Q" and p: "policy cfg = PRIO" and c: "c = cur_thread s" and q: "p \<noteq> NULL"
    and n: "s_count (sems s p) < 0" "Q (Inr p) = [b]" "eff s c < eff s b" and run: "sem_up cfg p s = Some s'"
  shows "at_rest 0 s' (xs @ [b]) Own (Q(Inr p := []))" "\<forall>v \<in> set (xs @ [b]). eff s' v \<le> eff s' (cur_thread s')"
    "\<And>t. eff s' t = eff s t" "ticks (cpu s') = ticks (cpu s)"
proof -
  note R = at_restD [OF r, folded c]
  let ?s = "upd_sem p (s_count_update (\<lambda>c. c + 1)) (preempt_disable s)"
  have ok: "sync_ok ?s xs Own Q" by (intro sem_count_ok sync_ok_disable R(1))
  have s1: "cur_thread ?s = c" "preempt_cnt (cpu ?s) = 1" "irq_depth (cpu ?s) = 0" "eff ?s t = eff s t"
    "ticks (cpu ?s) = ticks (cpu s)" for t
    using R c by (simp_all add: preempt_disable_def)
  obtain s2 where s2: "sem_wake p ?s = Some s2" "preempt_enable cfg KResched s2 = Some s'"
    using run q n by (auto simp: sem_up_def Let_def disable_state bind_eq_Some_conv)
  have "Q (Inr p) \<noteq> []" using n(2) by simp
  from sem_wake_spec [OF ok this] obtain ys b' zs where "Q (Inr p) = ys @ b' # zs" "sched_inv s2 (xs @ [b'])"
    "sync_inv s2 Own (Q(Inr p := ys @ zs))" and f: "cpu s2 = (cpu ?s)\<lparr>need_resched := need_resched (cpu s2)\<rparr>"
    "\<And>t. eff s2 t = eff ?s t" and "eff ?s c < eff ?s b' \<longrightarrow> need_resched (cpu s2) = 1"
    using s2(1) s1(1) R(8) by auto
  moreover from this(1) have "ys = []" "b' = b" "zs = []" using n(2) by (auto simp: Cons_eq_append_conv)
  ultimately have g: "sched_inv s2 (xs @ [b])" "sync_inv s2 Own (Q(Inr p := []))" "need_resched (cpu s2) \<noteq> 0"
    using n(3) s1(4) by auto
  have ok2: "sync_ok s2 (xs @ [b]) Own (Q(Inr p := []))" using g(1,2) sync_okD(3) [OF ok] by (simp add: sync_ok_def)
  have h: "cur_thread s2 = c" "preempt_cnt (cpu s2) = 1" "irq_depth (cpu s2) = 0" "ticks (cpu s2) = ticks (cpu s)"
    by (subst f(1), use s1 in simp)+
  have "xs @ [b] \<noteq> []" "c \<in> set (xs @ [b]) \<or> need_resched (cpu s2) \<noteq> 0" using R(6) by auto
  note t = enable_settles [OF ok2 p h(1) R(8) h(2,3) this s2(2)]
  show "at_rest 0 s' (xs @ [b]) Own (Q(Inr p := []))" "\<forall>v \<in> set (xs @ [b]). eff s' v \<le> eff s' (cur_thread s')"
    by (rule t(1), rule t(6) [OF g(3)])
  show "eff s' t = eff s t" for t using sched_only_owner(3) [OF t(2)] f(2) s1(4) by simp
  show "ticks (cpu s') = ticks (cpu s)" using t(5) h(4) by simp
qed

text \<open>With preemption disabled the caller keeps the CPU, whomever it wakes.\<close>

lemma sem_up_off:
  assumes r: "at_rest 1 s xs Own Q" and q: "p \<noteq> NULL" and run: "sem_up cfg p s = Some s'"
  shows "\<exists>xs' Q'. at_rest 1 s' xs' Own Q' \<and> set xs \<subseteq> set xs' \<and> set xs' \<subseteq> set xs \<union> set (Q (Inr p)) \<and>
    (Q' = Q \<or> Q' = Q(Inr p := [])) \<and> cur_thread s' = cur_thread s" (is ?thesis)
proof -
  note R = at_restD [OF r]
  let ?s = "upd_sem p (s_count_update (\<lambda>c. c + 1)) (preempt_disable s)"
  have ok: "sync_ok ?s xs Own Q" by (intro sem_count_ok sync_ok_disable R(1))
  have s1: "cur_thread ?s = cur_thread s" "preempt_cnt (cpu ?s) = 2" "irq_depth (cpu ?s) = 0"
    using R by (simp_all add: preempt_disable_def)
  obtain s2 where s2: "(if s_count (sems ?s p) \<le> 0 then sem_wake p ?s else Some ?s) = Some s2" "preempt_enable cfg KResched s2 = Some s'"
    using run q unfolding sem_up_def Let_def by (auto simp: bind_eq_Some_conv split: if_splits)
  have fin: ?thesis if a: "sync_ok s2 xs' Own Q'" "cpu s2 = (cpu ?s)\<lparr>need_resched := need_resched (cpu s2)\<rparr>"
      "set xs \<subseteq> set xs'" "set xs' \<subseteq> set xs \<union> set (Q (Inr p))" "Q' = Q \<or> Q' = Q(Inr p := [])" for xs' Q'
  proof -
    have c2: "preempt_cnt (cpu s2) = 2" "irq_depth (cpu s2) = 0" "cur_thread s2 = cur_thread s" by (subst a(2), use s1 in simp)+
    have e: "s' = upd_cpu (preempt_cnt_update (\<lambda>n. n - 1)) s2" using s2(2) c2 by (simp add: preempt_enable_def Let_def)
    have "sched_inv s' xs'" unfolding e by (rule sched_inv_upd_cpu [OF sync_okD(1) [OF a(1)]]) simp
    then have "sync_ok s' xs' Own Q'" by (rule sync_ok_sched_only [OF a(1)]) (simp add: e)
    then have "at_rest 1 s' xs' Own Q'" using c2 e R(6) a(3) by (auto simp: at_rest_def)
    then show ?thesis using a c2 e by (intro exI [of _ xs'] exI [of _ Q']) simp
  qed
  show ?thesis
  proof (cases "s_count (sems ?s p) \<le> 0 \<and> Q (Inr p) \<noteq> []")
    case True
    from sem_wake_spec [OF ok conjunct2 [OF True]] obtain ys b zs where f: "Q (Inr p) = ys @ b # zs" "sched_inv s2 (xs @ [b])"
      "sync_inv s2 Own (Q(Inr p := ys @ zs))" "cpu s2 = (cpu ?s)\<lparr>need_resched := need_resched (cpu s2)\<rparr>"
      using s2(1) True by auto
    have one: "ys = []" "zs = []" using f(1) sync_okD(3) [OF ok, of "Inr p"] by auto
    have "sync_ok s2 (xs @ [b]) Own (Q(Inr p := []))" using f one sync_okD(3) [OF ok] by (simp add: sync_ok_def)
    then show ?thesis by (rule fin [OF _ f(4)]) (use f(1) in auto)
  next
    case False
    have "s2 = ?s"
    proof (cases "s_count (sems ?s p) \<le> 0")
      case True
      then have "Q (Inr p) = []" using False by simp
      then have "s_waiters (sems ?s p) = NULL" using sync_invD(3) [OF sync_okD(2) [OF ok], of "Inr p"] by simp
      moreover have "upd_sem p (s_waiters_update (\<lambda>_. s_waiters (sems ?s p))) ?s = ?s" by (simp add: upd_sem_def)
      ultimately show ?thesis using s2(1) True by (simp add: sem_wake_def)
    next
      case False
      then show ?thesis using s2(1) by simp
    qed
    then show ?thesis using fin [of xs Q] ok by simp
  qed
qed

section \<open>Yield, priority inheritance, timer\<close>

lemma yield_keeps:
  assumes r: "at_rest n s xs Own Q" and p: "policy cfg = PRIO" and run: "thread_yield cfg s = Some s'"
  shows "at_rest n s' xs Own Q" "sched_only s s'" "n = 0 \<Longrightarrow> \<forall>v \<in> set xs. eff s' v \<le> eff s' (cur_thread s')"
proof -
  note R = at_restD [OF r]
  have inv: "sched_inv s' xs" using thread_yield_inv [OF R(2), of cfg] run by simp
  show o: "sched_only s s'" by (rule thread_yield_only [OF run])
  have "preempt_cnt (cpu s') = n \<and> irq_depth (cpu s') = 0 \<and> cur_thread s' \<in> set xs \<and>
    (n = 0 \<longrightarrow> (\<forall>v \<in> set xs. eff s' v \<le> eff s' (cur_thread s')))"
  proof (cases "n = 0")
    case False
    then have "s' = s" using run R(4) by (simp add: thread_yield_def Let_def)
    then show ?thesis using R False by simp
  next
    case True
    obtain k where k: "prio_pick_next s (cur_thread s) True True = Some k" "is_ready s k" "\<forall>v \<in> set xs. eff s v \<le> eff s k"
      "k \<in> set xs \<or> k = cur_thread s"
      using prio_pick_next_sched [OF R(2)] R(6) by (metis empty_iff empty_set)
    have "s' = (if k = cur_thread s then s else do_switch KYield (cur_thread s) k s)"
      using run R(4,8) True p k(1,2) by (auto simp: thread_yield_def Let_def is_ready_def split: if_splits)
    then show ?thesis using k R True by auto
  qed
  then show "at_rest n s' xs Own Q" "n = 0 \<Longrightarrow> \<forall>v \<in> set xs. eff s' v \<le> eff s' (cur_thread s')"
    using sync_ok_sched_only [OF R(1) inv o] by (simp_all add: at_rest_def)
qed

lemma set_pi_keeps:
  assumes r: "at_rest 0 s xs Own Q" and p: "policy cfg = PRIO" and c: "c = cur_thread s" and m: "m \<noteq> NULL"
    and run: "mutex_set_pi_enabled cfg m e s = Some s'"
  shows "at_rest 0 s' xs Own Q" "\<And>n. m_owner (mtx s' n) = m_owner (mtx s n)" "\<And>t. t_state (thr s' t) = t_state (thr s t)"
proof -
  note R = at_restD [OF r, folded c]
  define s1 where "s1 = upd_mutex m (m_pi_enabled_update (\<lambda>_. if e \<noteq> 0 then 1 else 0)) (preempt_disable s)"
  have ok1: "sync_ok s1 xs Own Q" unfolding s1_def by (rule pi_flag_ok [OF R(1)])
  let ?w = "m_owner (mtx s1 m)"
  obtain s2 where s2: "(if ?w \<noteq> NULL then recompute_effective_priority cfg ?w s1 else Some s1) = Some s2"
    "preempt_enable cfg KResched s2 = Some s'"
    using run m unfolding mutex_set_pi_enabled_def Let_def s1_def by (auto simp: bind_eq_Some_conv split: if_splits)
  have "sync_ok s2 xs Own Q \<and> cpu s2 = cpu s1 \<and> mutexes s2 = mutexes s1 \<and> (\<forall>t. t_state (thr s2 t) = t_state (thr s1 t))"
  proof (cases "?w = NULL")
    case True
    then show ?thesis using s2(1) ok1 by simp
  next
    case False
    note rec = recompute_sync [OF sync_okD(1,2) [OF ok1] False, of cfg]
    have "s2 = upd_thread ?w (t_effective_priority_update (\<lambda>_. inherited cfg s1 (Qm Q) (Own ?w) ?w)) s1"
      using rec(1) s2(1) False by simp
    then show ?thesis using rec(2) sync_okD(2,3) [OF ok1] by (simp add: sync_ok_def)
  qed
  then have f: "sync_ok s2 xs Own Q" "cpu s2 = cpu s1" "mutexes s2 = mutexes s1" "\<And>t. t_state (thr s2 t) = t_state (thr s1 t)" by blast+
  have h: "cur_thread s2 = c" "preempt_cnt (cpu s2) = 1" "irq_depth (cpu s2) = 0" "xs \<noteq> []" "c \<in> set xs \<or> need_resched (cpu s2) \<noteq> 0"
    using f(2) R c by (auto simp: s1_def preempt_disable_def)
  note t = enable_settles [OF f(1) p h(1) R(8) h(2-5) s2(2)]
  show "at_rest 0 s' xs Own Q" by (rule t(1))
  show "m_owner (mtx s' n) = m_owner (mtx s n)" for n using sched_only_owner(1) [OF t(2)] f(3) by (simp add: s1_def disable_state)
  show "t_state (thr s' t) = t_state (thr s t)" for t using sched_only_owner(2) [OF t(2)] f(4) by (simp add: s1_def disable_state)
qed


text \<open>
  A timer interrupt as the interrupted thread sees it (\<^verbatim>\<open>irq_handler_el1\<close> in \<^verbatim>\<open>src/irq.cc\<close>): the tick is counted and
  accounted, and if a request is pending with preemption enabled the CPU returns to \<^verbatim>\<open>preempt_return\<close>.
\<close>

definition timer_tail :: "kconfig \<Rightarrow> kstate \<Rightarrow> kstate option" where
  "timer_tail cfg s = do {
     s \<leftarrow> sched_on_tick cfg s;
     if cur_thread s \<noteq> NULL \<and> preempt_cnt (cpu s) = 0 \<and> need_resched (cpu s) \<noteq> 0
     then preempt_return cfg s else Some s
   }"

definition count_tick :: "kstate \<Rightarrow> kstate" where
  "count_tick s = upd_cpu (ticks_update (\<lambda>n. n + 1)) s"

definition timer_interrupt :: "kconfig \<Rightarrow> kstate \<Rightarrow> kstate option" where
  "timer_interrupt cfg s = timer_tail cfg (count_tick s)"

lemma tick_cpu: "sched_on_tick cfg s = Some s' \<Longrightarrow> cpu s' = (cpu s)\<lparr>need_resched := need_resched (cpu s')\<rparr>"
  by (auto simp: sched_on_tick_def Let_def bind_eq_Some_conv split: if_splits)

lemma timer_tail_keeps:
  assumes r: "at_rest n s xs Own Q" and p: "policy cfg = PRIO" and run: "timer_tail cfg s = Some s'"
  shows "at_rest n s' xs Own Q" "sched_only s s'" "runs_top s' xs (cur_thread s)" "n \<noteq> 0 \<Longrightarrow> cur_thread s' = cur_thread s"
    "ticks (cpu s') = ticks (cpu s)"
proof -
  note R = at_restD [OF r]
  obtain s2 where s2: "sched_on_tick cfg s = Some s2"
    and ret: "(if cur_thread s2 \<noteq> NULL \<and> preempt_cnt (cpu s2) = 0 \<and> need_resched (cpu s2) \<noteq> 0
      then preempt_return cfg s2 else Some s2) = Some s'"
    using run by (auto simp: timer_tail_def bind_eq_Some_conv)
  have "stack_guard_ok s (cur_thread s)" using s2 R(8) by (auto simp: sched_on_tick_def Let_def split: if_splits)
  then have inv2: "sched_inv s2 xs" using sched_on_tick_inv [OF R(2), of cfg] s2 by simp
  note c2 = tick_cpu [OF s2]
  have o2: "sched_only s s2" by (rule sched_on_tick_only [OF s2])
  have s2c: "cur_thread s2 = cur_thread s" "preempt_cnt (cpu s2) = n" "irq_depth (cpu s2) = 0" "ticks (cpu s2) = ticks (cpu s)"
    by (subst c2, use R in simp)+
  have ok2: "sync_ok s2 xs Own Q" by (rule sync_ok_sched_only [OF R(1) inv2 o2])
  have "at_rest n s' xs Own Q \<and> sched_only s s' \<and> runs_top s' xs (cur_thread s) \<and> (n \<noteq> 0 \<longrightarrow> cur_thread s' = cur_thread s) \<and>
    ticks (cpu s') = ticks (cpu s)"
  proof (cases "n = 0 \<and> need_resched (cpu s2) \<noteq> 0")
    case False
    then have "s' = s2" using ret s2c by auto
    then show ?thesis using ok2 o2 s2c R by (auto simp: at_rest_def runs_top_def)
  next
    case True
    then have r: "sched_resched_from_irq_tail cfg KResched s2 = Some s'" using ret s2c R(8) by (simp add: preempt_return_def)
    have "xs \<noteq> []" "cur_thread s2 \<noteq> NULL" "preempt_cnt (cpu s2) = 0" using R(6,8) s2c True by auto
    note t = prio_resched_top [OF inv2 p this r]
    have o: "sched_only s s'" using t(2) o2 by (simp add: sched_only_def)
    show ?thesis using sync_ok_sched_only [OF R(1) t(1) o] t o s2c True by (simp add: at_rest_def runs_top_def)
  qed
  then show "at_rest n s' xs Own Q" "sched_only s s'" "runs_top s' xs (cur_thread s)" "n \<noteq> 0 \<Longrightarrow> cur_thread s' = cur_thread s"
    "ticks (cpu s') = ticks (cpu s)" by blast+
qed

lemma count_tick_rest [simp]: "at_rest n (count_tick s) xs Own Q = at_rest n s xs Own Q"
proof -
  have "sched_only s (count_tick s)" "sched_only (count_tick s) s" by (simp_all add: count_tick_def sched_only_def)
  moreover have "sched_inv (count_tick s) xs = sched_inv s xs"
    by (simp add: count_tick_def sched_inv_def rq_inv_def prio_ok_def)
  ultimately have "sync_ok (count_tick s) xs Own Q = sync_ok s xs Own Q"
    using sync_ok_sched_only sync_okD(1) by blast
  then show ?thesis by (simp add: at_rest_def) (simp add: count_tick_def)
qed

lemma timer_keeps:
  assumes r: "at_rest n s xs Own Q" and p: "policy cfg = PRIO" and run: "timer_interrupt cfg s = Some s'"
  shows "at_rest n s' xs Own Q" "sched_only s s'" "runs_top s' xs (cur_thread s)" "n \<noteq> 0 \<Longrightarrow> cur_thread s' = cur_thread s"
    "ticks (cpu s') = ticks (cpu s) + 1"
proof -
  have "at_rest n (count_tick s) xs Own Q" using r by simp
  note T = timer_tail_keeps [OF this p run [unfolded timer_interrupt_def]]
  show "at_rest n s' xs Own Q" "sched_only s s'" "runs_top s' xs (cur_thread s)" "n \<noteq> 0 \<Longrightarrow> cur_thread s' = cur_thread s"
    "ticks (cpu s') = ticks (cpu s) + 1"
    using T by (simp_all add: count_tick_def sched_only_def)
qed

text \<open>Entering and leaving a section with preemption disabled, and printing.\<close>

lemma disable_rest: "at_rest n s xs Own Q \<Longrightarrow> at_rest (n + 1) (preempt_disable s) xs Own Q"
  using sync_ok_disable [of s xs Own Q] by (simp add: at_rest_def preempt_disable_def)

lemma enable_rest:
  assumes r: "at_rest 1 s xs Own Q" and p: "policy cfg = PRIO" and e: "preempt_enable cfg k s = Some s'"
  shows "at_rest 0 s' xs Own Q" "sched_only s s'" "runs_top s' xs (cur_thread s)"
proof -
  note R = at_restD [OF r]
  have "xs \<noteq> []" "cur_thread s \<in> set xs \<or> need_resched (cpu s) \<noteq> 0" using R(6) by auto
  note t = enable_settles [OF R(1) p refl R(8) R(4,5) this e]
  show "at_rest 0 s' xs Own Q" "sched_only s s'" "runs_top s' xs (cur_thread s)" by (rule t(1), rule t(2), rule t(3))
qed

lemma kputs_rest [simp]: "at_rest n (kputs txt s) xs Own Q = at_rest n s xs Own Q"
proof -
  have "sched_inv (kputs txt s) xs = sched_inv s xs"
    by (simp add: sched_inv_def rq_inv_def prio_ok_def)
  moreover have "sync_inv (kputs txt s) Own Q = sync_inv s Own Q"
  proof -
    have "whead (kputs txt s) p = whead s p" for p by (rule whead_cong) simp_all
    then show ?thesis by (simp add: sync_inv_def own_lists_def)
  qed
  ultimately show ?thesis by (simp add: at_rest_def sync_ok_def)
qed

end
