(* ===== verification/LabStart.thy ===== *)
theory LabStart
  imports LabOps ThreadCreate
begin

text \<open>
  From a kernel without threads to the first running thread: \<^verbatim>\<open>mutex_init\<close>, \<^verbatim>\<open>sem_init\<close>, \<^verbatim>\<open>thread_create_prio\<close>,
  \<^verbatim>\<open>sched_add\<close> and \<^verbatim>\<open>sched_start\<close>, as the laboratories call them.
\<close>

section \<open>Before the first thread runs\<close>

text \<open>A kernel before any thread exists.\<close>

definition fresh_kernel :: "kstate \<Rightarrow> bool" where
  "fresh_kernel k \<longleftrightarrow> sync_ok k [] (\<lambda>_. []) (\<lambda>_. []) \<and> preempt_cnt (cpu k) = 0 \<and> irq_depth (cpu k) = 0 \<and>
     cur_thread k = NULL \<and> need_resched (cpu k) = 0 \<and> (\<forall>t. t_state (thr k t) = kThreadReady)"

lemma fresh_kernelD:
  assumes "fresh_kernel k"
  shows "sync_ok k [] (\<lambda>_. []) (\<lambda>_. [])" "\<And>m. m \<noteq> NULL \<Longrightarrow> m_owner (mtx k m) = NULL" "\<And>p. s_waiters (sems k p) = NULL"
    "\<And>m. m_waiters (mtx k m) = NULL" "\<And>t. t_state (thr k t) = kThreadReady"
proof -
  show ok: "sync_ok k [] (\<lambda>_. []) (\<lambda>_. [])" using assms by (simp add: fresh_kernel_def)
  note D = sync_invD [OF sync_okD(2) [OF ok]]
  show "m_owner (mtx k m) = NULL" if "m \<noteq> NULL" for m using D(2) [of "m_owner (mtx k m)" m] that by auto
  show "s_waiters (sems k p) = NULL" for p using D(3) [of "Inr p"] by simp
  show "m_waiters (mtx k m) = NULL" for m using D(3) [of "Inl m"] by simp
  show "t_state (thr k t) = kThreadReady" for t using assms by (simp add: fresh_kernel_def)
qed

text \<open>What the invariants read of a kernel without threads.\<close>

lemma fresh_kernelI:
  assumes k: "fresh_kernel k" and c: "cpu k' = cpu k"
    and t: "rq_head k' = rq_head k" "rq_tail k' = rq_tail k"
      "\<And>t. thr k' t = thr k t \<or> t_next (thr k' t) = NULL \<and> t_owned_mutexes (thr k' t) = NULL \<and> 0 \<le> t_base_priority (thr k' t) \<and>
        t_base_priority (thr k' t) \<le> eff k' t \<and> eff k' t \<le> kMaxPriority \<and> t_state (thr k' t) = kThreadReady"
    and m: "\<And>m. m_owner (mtx k' m) = m_owner (mtx k m) \<or> m_owner (mtx k' m) = NULL" "\<And>m. m_waiters (mtx k' m) = NULL"
      "\<And>p. s_waiters (sems k' p) = NULL"
  shows "fresh_kernel k'"
proof -
  note F = fresh_kernelD [OF k]
  have r: "rq_head k = NULL" "rq_tail k = NULL" "\<And>t. t_next (thr k t) = NULL"
    using sched_invD(1) [OF sync_okD(1) [OF F(1)]] by (auto simp: rq_inv_def)
  have "rq_inv k' []" using r t by (auto simp: rq_inv_def) metis
  moreover have "prio_ok k'" using sched_invD(2) [OF sync_okD(1) [OF F(1)]] t(3) unfolding prio_ok_def by metis
  ultimately have "sched_inv k' []" using k c by (simp add: sched_inv_def fresh_kernel_def)
  moreover have "own_lists k' (\<lambda>_. [])"
    using sync_invD(1) [OF sync_okD(2) [OF F(1)]] t(3) unfolding own_lists_def by (auto) metis
  moreover have "whead k' p = NULL" for p using m by (cases p) simp_all
  moreover have "m_owner (mtx k' n) = NULL" if "n \<noteq> NULL" for n using m(1) [of n] F(2) [OF that] by auto
  moreover have "t_state (thr k' t) = kThreadReady" for t using t(3) [of t] F(5) [of t] by auto
  ultimately show ?thesis using k c by (auto simp: fresh_kernel_def sync_ok_def sync_inv_def)
qed

lemma fresh_keeps:
  assumes k: "fresh_kernel k"
  shows "fresh_kernel (kputs txt k)" "fresh_kernel (mutex_init cfg m k)" "fresh_kernel (sem_init p n k)"
proof -
  note F = fresh_kernelD [OF k]
  show "fresh_kernel (kputs txt k)" by (rule fresh_kernelI [OF k]) (use F in auto)
  show "fresh_kernel (mutex_init cfg m k)" by (rule fresh_kernelI [OF k]) (use F in \<open>auto simp: mutex_init_def\<close>)
  show "fresh_kernel (sem_init p n k)" by (rule fresh_kernelI [OF k]) (use F in \<open>auto simp: sem_init_def\<close>)
qed

lemma fresh_set_pi:
  assumes k: "fresh_kernel k" and run: "mutex_set_pi_enabled cfg m e k = Some k'"
  shows "fresh_kernel k'" "sems k' = sems k" "threads k' = threads k"
proof -
  note F = fresh_kernelD [OF k]
  have c: "cur_thread k = NULL" "preempt_cnt (cpu k) = 0" "need_resched (cpu k) = 0" using k by (simp_all add: fresh_kernel_def)
  have "fresh_kernel k' \<and> sems k' = sems k \<and> threads k' = threads k"
  proof (cases "m = NULL")
    case True
    then show ?thesis using k run by (simp add: mutex_set_pi_enabled_def)
  next
    case False
    then have "k' = upd_cpu (preempt_cnt_update (\<lambda>c. c - 1))
        (upd_mutex m (m_pi_enabled_update (\<lambda>_. if e \<noteq> 0 then 1 else 0)) (preempt_disable k))"
      using run F(2) [OF False] c by (simp add: mutex_set_pi_enabled_def preempt_enable_def Let_def disable_state) (auto simp: preempt_disable_def)
    then have e: "cpu k' = cpu k" "mtx k' n = (if n = m then (mtx k m)\<lparr>m_pi_enabled := if e \<noteq> 0 then 1 else 0\<rparr> else mtx k n)"
      "sems k' = sems k" "threads k' = threads k" "rq_head k' = rq_head k" "rq_tail k' = rq_tail k" for n
      by (simp_all add: preempt_disable_def)
    have "fresh_kernel k'" by (rule fresh_kernelI [OF k e(1)]) (use F e in auto)
    then show ?thesis using e by simp
  qed
  then show "fresh_kernel k'" "sems k' = sems k" "threads k' = threads k" by blast+
qed

text \<open>Creation of a thread.\<close>

lemma thread_create_fresh:
  assumes k: "fresh_kernel (ks e)" and run: "thread_create_prio L tr en arg sz prio e = Some (t, e')" "t \<noteq> NULL"
  shows "fresh_kernel (ks e')" "sems (ks e') = sems (ks e)"
    "eff (ks e') u = (if u = t then clamp_priority prio else eff (ks e) u)"
proof -
  obtain s1 p where c: "alloc_thread_struct (kputs (''[diag] thread_create enter'' @ [newline]) (ks e)) = (t, s1)"
    "created tr en arg sz prio t p s1 (ks e')"
    by (rule thread_create_inv [OF run]) simp
  have eq: "s1 = (kputs (''[diag] thread_create enter'' @ [newline]) (ks e))
      \<lparr>bytes := bytes s1, g_thread_pool := g_thread_pool s1, heap := heap s1\<rparr>"
    using alloc_thread_struct_spec(1) [OF c(1)] .
  have s1: "threads s1 = threads (ks e)" "rq_head s1 = rq_head (ks e)" "rq_tail s1 = rq_tail (ks e)" "cpu s1 = cpu (ks e)"
    "mutexes s1 = mutexes (ks e)" "sems s1 = sems (ks e)" by (subst eq, simp)+
  note f = c(2) [unfolded created_def Let_def s1]
  show "sems (ks e') = sems (ks e)" using f by simp
  show "eff (ks e') u = (if u = t then clamp_priority prio else eff (ks e) u)" using f by simp
  show "fresh_kernel (ks e')"
    by (rule fresh_kernelI [OF k]) (use f fresh_kernelD [OF k] clamp_priority_range [of prio] in \<open>auto simp: zero_thread_def kThreadReady_def\<close>)
qed

text \<open>If the heap has room the thread is created.\<close>

lemma thread_create_serves:
  assumes e: "g_thread_pool_inited (ks e) = 0" "en \<noteq> NULL" "sz \<noteq> 0" "\<not> sz > (- 1) - kStackGuardPageBytes"
    and a: "kmem_alloc_aligned (heap (ks e)) kSizeofThread 16 = (t, h1)" "t \<noteq> NULL"
      "kmem_alloc_aligned h1 (sz + kStackGuardPageBytes) kStackGuardPageBytes = (p, h2)" "p \<noteq> NULL"
  shows "\<exists>e'. thread_create_prio L tr en arg sz prio e = Some (t, e') \<and> heap (ks e') = h2 \<and> g_thread_pool_inited (ks e') = 0"
  using assms by (simp add: thread_create_prio_def alloc_thread_struct_def case_prod_beta Let_def)

text \<open>Queueing a created thread, and starting the first one.\<close>

lemma sched_add_queues:
  assumes ok: "sync_ok k xs Own Q" and t: "t \<noteq> NULL" "t \<notin> set xs" "t_state (thr k t) = kThreadReady" and run: "sched_add t k = Some k'"
  shows "sync_ok k' (xs @ [t]) Own Q" "sched_only k k'" "cpu k' = cpu k"
proof -
  have inv: "sched_inv k' (xs @ [t])" using sched_add_inv [OF sync_okD(1) [OF ok] t(1,2)] run by simp
  have "t_next (thr k t) = NULL" using rq_next_mem [OF sched_invD(1) [OF sync_okD(1) [OF ok]]] t(2) by blast
  then show o: "sched_only k k'" using sched_add_only [OF sync_okD(1) [OF ok] _ t(3) run] by blast
  show "sync_ok k' (xs @ [t]) Own Q" by (rule sync_ok_sched_only [OF ok inv o])
  have "rq_append t k = Some k'" using run t by (simp add: sched_add_def)
  then show "cpu k' = cpu k" using rq_append_spec [OF sched_invD(1) [OF sync_okD(1) [OF ok]] t(1,2)] links_onlyD(1) by fastforce
qed

lemma sched_start_rests:
  assumes ok: "sync_ok k xs Own Q" and p: "policy cfg = PRIO" and ne: "xs \<noteq> []" and n: "preempt_cnt (cpu k) = 0" "irq_depth (cpu k) = 0"
    and run: "sched_start cfg k = Some k'"
  shows "at_rest 0 k' xs Own Q" "sched_only k k'" "\<forall>v \<in> set xs. eff k' v \<le> eff k' (cur_thread k')"
proof -
  have inv: "sched_inv k' xs" "cur_thread k' \<in> set xs" "\<forall>v \<in> set xs. eff k' v \<le> eff k' (cur_thread k')"
    using sched_start_inv [OF sync_okD(1) [OF ok] ne, of cfg] p run by auto
  show o: "sched_only k k'" by (rule sched_start_only [OF run])
  have "preempt_cnt (cpu k') = preempt_cnt (cpu k)" "irq_depth (cpu k') = irq_depth (cpu k)"
    using run by (auto simp: sched_start_def Let_def bind_eq_Some_conv arch_switch_eq [where f = "r_sp (regs k) - 96"] split: if_splits)
  then show "at_rest 0 k' xs Own Q" using sync_ok_sched_only [OF ok inv(1) o] inv(2) n by (simp add: at_rest_def)
  show "\<forall>v \<in> set xs. eff k' v \<le> eff k' (cur_thread k')" by (rule inv(3))
qed

end
