(* ===== verification/SyncLab.thy ===== *)
theory SyncLab
  imports LabStart
begin

text \<open>
  The synchronisation laboratory (\<^verbatim>\<open>src/sync_lab.cc\<close>): priority inversion with three threads (mode 1) and
  the deadlock of two workers that take two mutexes, with its three cures (modes 2 to 5). Each thread
  function is a machine over its program points; a step executes one statement of the running
  thread, and a timer interrupt may come between any two. \<^verbatim>\<open>spin\<close> only passes time. A body that waits for ever
  stays at its last point. The code polls its flags through \<^verbatim>\<open>volatile\<close> variables, so each test reads the
  current value.
\<close>

section \<open>State\<close>

datatype low_pc = L_start | L_lock | L_locked | L_up1 | L_up2 | L_wait | L_unlocking | L_unlock | L_unlocked | L_halt

datatype high_pc = H_start | H_down | H_locking | H_lock | H_acquired | H_mark | H_unlock | H_done | H_hold | H_exit | H_end

datatype medium_pc = M_start | M_down | M_init | M_while | M_body | M_report | M_enable | M_set_pi | M_yield | M_pass | M_halt

datatype worker_pc = W_start | W_first | W_locked | W_disable | W_ready | W_enable | W_poll | W_yield | W_locking | W_second | W_bug
  | W_order nat | W_ordered | W_unorder nat
  | W_try1 | W_try2 | W_back | W_backoff | W_backyield | W_tried | W_rel2 | W_rel1
  | W_dis_done | W_done | W_en_done | W_hold | W_invalid | W_halt

datatype dog_pc = D_start | D_init | D_loop | D_yield | D_halt

datatype lab_pc = PNone | PL low_pc | PH high_pc | PM medium_pc | PW u32 worker_pc | PD dog_pc

text \<open>\<open>PW tid pc\<close> carries the worker's argument. \<open>l_t0\<close>, \<open>l_printed\<close>, \<open>l_attempt\<close> are the locals \<^verbatim>\<open>t0\<close>, \<^verbatim>\<open>printed\<close>, \<^verbatim>\<open>attempt\<close>.\<close>

record sync_lab =
  lk :: kstate
  g_pi_enabled :: int
  g_high_done :: int
  g_dl_ready :: u32
  g_dl_done :: int
  g_dl_mode :: u32
  g_dl_t1 :: addr
  g_dl_t2 :: addr
  spc :: "addr \<Rightarrow> lab_pc"
  l_t0 :: "addr \<Rightarrow> u64"
  l_printed :: "addr \<Rightarrow> bool"
  l_attempt :: "addr \<Rightarrow> u32"

text \<open>The addresses the linker chose for the objects and the functions.\<close>

record lab_syms =
  g_lock :: addr
  g_start :: addr
  g_hold_high :: addr
  g_dl_a :: addr
  g_dl_b :: addr
  g_dl_hold :: addr
  f_low_thread :: addr
  f_medium_thread :: addr
  f_high_thread :: addr
  f_deadlock_worker :: addr
  f_deadlock_watchdog :: addr

section \<open>Statements\<close>

definition says :: "string \<Rightarrow> 'p \<Rightarrow> sync_lab \<Rightarrow> ('p \<times> sync_lab) option" where
  "says txt next s = Some (next, s\<lparr>lk := kputs txt (lk s)\<rparr>)"

definition calls :: "(kstate \<Rightarrow> kstate option) \<Rightarrow> 'p \<Rightarrow> sync_lab \<Rightarrow> ('p \<times> sync_lab) option" where
  "calls f next s = do { k \<leftarrow> f (lk s); Some (next, s\<lparr>lk := k\<rparr>) }"

text \<open>A call of \<^verbatim>\<open>mutex_lock\<close> by thread \<open>t\<close>: the thread stays in its loop if the round blocked it.\<close>

definition locks :: "kconfig \<Rightarrow> addr \<Rightarrow> addr \<Rightarrow> 'p \<Rightarrow> 'p \<Rightarrow> sync_lab \<Rightarrow> ('p \<times> sync_lab) option" where
  "locks cfg m t here next s = do {
     k \<leftarrow> mutex_lock cfg m (lk s);
     Some (if kont k t = KMutexLock m then here else next, s\<lparr>lk := k\<rparr>)
   }"

section \<open>The priority inversion\<close>

fun low_thread :: "kconfig \<Rightarrow> lab_syms \<Rightarrow> addr \<Rightarrow> low_pc \<Rightarrow> sync_lab \<Rightarrow> (low_pc \<times> sync_lab) option" where
  "low_thread cfg A t L_start s = says (''[sync-lab] L start'' @ [newline]) L_lock s"
| "low_thread cfg A t L_lock s = locks cfg (g_lock A) t L_lock L_locked s"
| "low_thread cfg A t L_locked s = says (''[sync-lab] L locked'' @ [newline]) L_up1 s"
| "low_thread cfg A t L_up1 s = calls (sem_up cfg (g_start A)) L_up2 s"
| "low_thread cfg A t L_up2 s = calls (sem_up cfg (g_start A)) L_wait s"
| "low_thread cfg A t L_wait s = Some (if g_pi_enabled s = 0 then L_wait else L_unlocking, s)"
| "low_thread cfg A t L_unlocking s = says (''[sync-lab] L unlocking'' @ [newline]) L_unlock s"
| "low_thread cfg A t L_unlock s = calls (mutex_unlock cfg (g_lock A)) L_unlocked s"
| "low_thread cfg A t L_unlocked s = says (''[sync-lab] L unlocked'' @ [newline]) L_halt s"
| "low_thread cfg A t L_halt s = Some (L_halt, s)"

text \<open>After the last statement the function returns to the trampoline, which calls \<^verbatim>\<open>thread_exit\<close>; that waits for ever.\<close>

definition thread_exit :: "kstate \<Rightarrow> kstate" where
  "thread_exit s = kputs (''[thread] exit'' @ [newline]) s"

fun high_thread :: "kconfig \<Rightarrow> lab_syms \<Rightarrow> addr \<Rightarrow> high_pc \<Rightarrow> sync_lab \<Rightarrow> (high_pc \<times> sync_lab) option" where
  "high_thread cfg A t H_start s = says (''[sync-lab] H start'' @ [newline]) H_down s"
| "high_thread cfg A t H_down s = calls (sem_down cfg (g_start A)) H_locking s"
| "high_thread cfg A t H_locking s = says (''[sync-lab] H lock...'' @ [newline]) H_lock s"
| "high_thread cfg A t H_lock s = locks cfg (g_lock A) t H_lock H_acquired s"
| "high_thread cfg A t H_acquired s = says (''[sync-lab] H acquired'' @ [newline]) H_mark s"
| "high_thread cfg A t H_mark s = Some (H_unlock, s\<lparr>g_high_done := 1\<rparr>)"
| "high_thread cfg A t H_unlock s = calls (mutex_unlock cfg (g_lock A)) H_done s"
| "high_thread cfg A t H_done s = says (''[sync-lab] H done'' @ [newline]) H_hold s"
| "high_thread cfg A t H_hold s = calls (sem_down cfg (g_hold_high A)) H_exit s"
| "high_thread cfg A t H_exit s = Some (H_end, s\<lparr>lk := thread_exit (lk s)\<rparr>)"
| "high_thread cfg A t H_end s = Some (H_end, s)"

fun medium_thread :: "kconfig \<Rightarrow> lab_syms \<Rightarrow> addr \<Rightarrow> medium_pc \<Rightarrow> sync_lab \<Rightarrow> (medium_pc \<times> sync_lab) option" where
  "medium_thread cfg A t M_start s = says (''[sync-lab] M start'' @ [newline]) M_down s"
| "medium_thread cfg A t M_down s = calls (sem_down cfg (g_start A)) M_init s"
| "medium_thread cfg A t M_init s =
     Some (M_while, s\<lparr>l_t0 := (l_t0 s)(t := ticks (cpu (lk s))), l_printed := (l_printed s)(t := False)\<rparr>)"
| "medium_thread cfg A t M_while s = Some (if g_high_done s = 0 then M_body else M_pass, s)"
| "medium_thread cfg A t M_body s =
     (let dt = ticks (cpu (lk s)) - l_t0 s t
      in Some (if g_pi_enabled s = 0 \<and> dt \<ge> 20 then M_report else M_while, s))"
| "medium_thread cfg A t M_report s =
     (if \<not> l_printed s t
      then says (''[sync-lab] inversion observed; enabling PI'' @ [newline]) M_enable (s\<lparr>l_printed := (l_printed s)(t := True)\<rparr>)
      else Some (M_enable, s))"
| "medium_thread cfg A t M_enable s = Some (M_set_pi, s\<lparr>g_pi_enabled := 1\<rparr>)"
| "medium_thread cfg A t M_set_pi s = calls (mutex_set_pi_enabled cfg (g_lock A) 1) M_yield s"
| "medium_thread cfg A t M_yield s = calls (thread_yield cfg) M_while s"
| "medium_thread cfg A t M_pass s = says (''[sync-lab] result PASS'' @ [newline]) M_halt s"
| "medium_thread cfg A t M_halt s = Some (M_halt, s)"

section \<open>The deadlock and its cures\<close>

text \<open>The mutexes that the ordered functions lock and unlock, in that order.\<close>

definition dl_lock_two_ordered :: "addr \<Rightarrow> addr \<Rightarrow> addr list" where
  "dl_lock_two_ordered a b =
     (if a = NULL \<or> b = NULL then []
      else if a = b then [a]
      else if a < b then [a, b]
      else [b, a])"

definition dl_unlock_two_ordered :: "addr \<Rightarrow> addr \<Rightarrow> addr list" where
  "dl_unlock_two_ordered a b =
     (if a = NULL \<or> b = NULL then []
      else if a = b then [a]
      else if a < b then [b, a]
      else [a, b])"

definition first_mutex :: "lab_syms \<Rightarrow> u32 \<Rightarrow> addr" where
  "first_mutex A tid = (if tid = 1 then g_dl_a A else g_dl_b A)"

definition second_mutex :: "lab_syms \<Rightarrow> u32 \<Rightarrow> addr" where
  "second_mutex A tid = (if tid = 1 then g_dl_b A else g_dl_a A)"

text \<open>\<^verbatim>\<open>dl_lock_two_trylock_backoff\<close>: the points \<open>W_try1\<close> to \<open>W_backyield\<close>.\<close>

definition dl_lock_two_trylock_backoff ::
  "kconfig \<Rightarrow> addr \<Rightarrow> addr \<Rightarrow> addr \<Rightarrow> worker_pc \<Rightarrow> sync_lab \<Rightarrow> (worker_pc \<times> sync_lab) option" where
  "dl_lock_two_trylock_backoff cfg first second t pc s =
     (if pc = W_try1 then locks cfg first t W_try1 W_try2 s
      else if pc = W_try2 then do {
        (r, k) \<leftarrow> mutex_trylock cfg second (lk s);
        Some (if r = 0 then W_tried else W_back, s\<lparr>lk := k\<rparr>)
      }
      else if pc = W_back then calls (mutex_unlock cfg first) W_backoff s
      else if pc = W_backoff then Some (W_backyield, s\<lparr>l_attempt := (l_attempt s)(t := l_attempt s t + 1)\<rparr>)
      else calls (thread_yield cfg) W_try1 s)"

fun deadlock_worker :: "kconfig \<Rightarrow> lab_syms \<Rightarrow> addr \<Rightarrow> u32 \<Rightarrow> worker_pc \<Rightarrow> sync_lab \<Rightarrow> (worker_pc \<times> sync_lab) option" where
  "deadlock_worker cfg A t tid W_start s =
     says (''[deadlock-lab] T'' @ uart_print_u64 (ucast tid) @ '' start'' @ [newline])
       (if g_dl_mode s = 2 then W_first
        else if g_dl_mode s = 3 then W_order 0
        else if g_dl_mode s = 4 then W_try1
        else if g_dl_mode s = 5 then W_first
        else W_invalid) (s\<lparr>l_attempt := (l_attempt s)(t := 0)\<rparr>)"
| "deadlock_worker cfg A t tid W_first s = locks cfg (first_mutex A tid) t W_first W_locked s"
| "deadlock_worker cfg A t tid W_locked s =
     says (''[deadlock-lab] T'' @ uart_print_u64 (ucast tid) @ '' locked first'' @ [newline]) W_disable s"
| "deadlock_worker cfg A t tid W_disable s = Some (W_ready, s\<lparr>lk := preempt_disable (lk s)\<rparr>)"
| "deadlock_worker cfg A t tid W_ready s = Some (W_enable, s\<lparr>g_dl_ready := g_dl_ready s + 1\<rparr>)"
| "deadlock_worker cfg A t tid W_enable s = calls (preempt_enable cfg KResched) W_poll s"
| "deadlock_worker cfg A t tid W_poll s = Some (if g_dl_ready s < 2 then W_yield else W_locking, s)"
| "deadlock_worker cfg A t tid W_yield s = calls (thread_yield cfg) W_poll s"
| "deadlock_worker cfg A t tid W_locking s =
     says (''[deadlock-lab] T'' @ uart_print_u64 (ucast tid) @ '' locking second...'' @ [newline]) W_second s"
| "deadlock_worker cfg A t tid W_second s = locks cfg (second_mutex A tid) t W_second W_bug s"
| "deadlock_worker cfg A t tid W_bug s =
     says ((if g_dl_mode s = 2 then ''[deadlock-lab] BUG: acquired second (unexpected)''
            else ''[deadlock-lab] BUG: lockdep did not trigger'') @ [newline]) W_halt s"
| "deadlock_worker cfg A t tid (W_order n) s =
     (let ms = dl_lock_two_ordered (g_dl_a A) (g_dl_b A)
      in if n < length ms then locks cfg (ms ! n) t (W_order n) (W_order (Suc n)) s else Some (W_ordered, s))"
| "deadlock_worker cfg A t tid W_ordered s =
     says (''[deadlock-lab] T'' @ uart_print_u64 (ucast tid) @ '' acquired both (ordered)'' @ [newline]) (W_unorder 0) s"
| "deadlock_worker cfg A t tid (W_unorder n) s =
     (let ms = dl_unlock_two_ordered (g_dl_a A) (g_dl_b A)
      in if n < length ms then calls (mutex_unlock cfg (ms ! n)) (W_unorder (Suc n)) s else Some (W_dis_done, s))"
| "deadlock_worker cfg A t tid W_tried s =
     says (''[deadlock-lab] T'' @ uart_print_u64 (ucast tid) @ '' acquired both (trylock)'' @ [newline]) W_rel2 s"
| "deadlock_worker cfg A t tid W_rel2 s = calls (mutex_unlock cfg (second_mutex A tid)) W_rel1 s"
| "deadlock_worker cfg A t tid W_rel1 s = calls (mutex_unlock cfg (first_mutex A tid)) W_dis_done s"
| "deadlock_worker cfg A t tid W_dis_done s = Some (W_done, s\<lparr>lk := preempt_disable (lk s)\<rparr>)"
| "deadlock_worker cfg A t tid W_done s = Some (W_en_done, s\<lparr>g_dl_done := g_dl_done s + 1\<rparr>)"
| "deadlock_worker cfg A t tid W_en_done s = calls (preempt_enable cfg KResched) W_hold s"
| "deadlock_worker cfg A t tid W_hold s = calls (sem_down cfg (g_dl_hold A)) W_halt s"
| "deadlock_worker cfg A t tid W_invalid s = says (''[deadlock-lab] invalid mode'' @ [newline]) W_halt s"
| "deadlock_worker cfg A t tid W_halt s = Some (W_halt, s)"
| "deadlock_worker cfg A t tid pc s =
     dl_lock_two_trylock_backoff cfg (first_mutex A tid) (second_mutex A tid) t pc s"

definition dl_deadlock_observed :: "lab_syms \<Rightarrow> sync_lab \<Rightarrow> bool" where
  "dl_deadlock_observed A s \<longleftrightarrow>
     (let t1 = g_dl_t1 s; t2 = g_dl_t2 s; k = lk s in
      if t1 = NULL \<or> t2 = NULL then False
      else if t_state (thr k t1) \<noteq> 1 \<or> t_state (thr k t2) \<noteq> 1 then False
      else if m_owner (mtx k (g_dl_a A)) \<noteq> t1 \<or> m_owner (mtx k (g_dl_b A)) \<noteq> t2 then False
      else if t_waiting_on (thr k t1) \<noteq> g_dl_b A then False
      else if t_waiting_on (thr k t2) \<noteq> g_dl_a A then False
      else True)"

text \<open>One turn of the watchdog's loop up to its \<^verbatim>\<open>spin\<close>.\<close>

definition watchdog_turn :: "lab_syms \<Rightarrow> addr \<Rightarrow> sync_lab \<Rightarrow> dog_pc \<times> sync_lab" where
  "watchdog_turn A t s =
     (let dt = ticks (cpu (lk s)) - l_t0 s t;
          print = (\<lambda>txt s. s\<lparr>lk := kputs (txt @ [newline]) (lk s)\<rparr>)
      in if g_dl_mode s = 2 then
           if dl_deadlock_observed A s
           then (D_halt, print ''[deadlock-lab] fixes: lock ordering | trylock+backoff | lockdep''
                           (print ''[deadlock-lab] deadlock observed (AB/BA)'' s))
           else let s = (if \<not> l_printed s t \<and> dt \<ge> 50
                         then print ''[deadlock-lab] waiting for deadlock...'' s\<lparr>l_printed := (l_printed s)(t := True)\<rparr> else s)
                in if dt \<ge> 200 then (D_halt, print ''[deadlock-lab] FAIL: deadlock not observed (timing?)'' s) else (D_yield, s)
         else if g_dl_mode s = 3 \<or> g_dl_mode s = 4 then
           if g_dl_done s \<ge> 2 then (D_halt, print ''[deadlock-lab] result PASS'' s)
           else if dt \<ge> 200 then (D_halt, print ''[deadlock-lab] FAIL: timeout waiting for completion'' s)
           else (D_yield, s)
         else if dt \<ge> 200 then (D_halt, print ''[deadlock-lab] FAIL: lockdep did not trigger'' s)
         else (D_yield, s))"

fun deadlock_watchdog :: "kconfig \<Rightarrow> lab_syms \<Rightarrow> addr \<Rightarrow> dog_pc \<Rightarrow> sync_lab \<Rightarrow> (dog_pc \<times> sync_lab) option" where
  "deadlock_watchdog cfg A t D_start s = says (''[deadlock-lab] watchdog start'' @ [newline]) D_init s"
| "deadlock_watchdog cfg A t D_init s =
     Some (D_loop, s\<lparr>l_t0 := (l_t0 s)(t := ticks (cpu (lk s))), l_printed := (l_printed s)(t := False)\<rparr>)"
| "deadlock_watchdog cfg A t D_loop s = Some (watchdog_turn A t s)"
| "deadlock_watchdog cfg A t D_yield s = calls (thread_yield cfg) D_loop s"
| "deadlock_watchdog cfg A t D_halt s = Some (D_halt, s)"

section \<open>Set-up\<close>

text \<open>
  A thread is created with its entry point and will start at the first point of that function. \<open>ms\<close> is the
  MMU, \<open>tr\<close> the address of the trampoline. \<open>None\<close>: the set-up waits for ever.
\<close>

definition lab_create :: "mmu_layout \<Rightarrow> addr \<Rightarrow> addr \<Rightarrow> addr \<Rightarrow> int \<Rightarrow> lab_pc \<Rightarrow> mmu \<times> sync_lab \<Rightarrow> (addr \<times> mmu \<times> sync_lab) option" where
  "lab_create L tr entryp arg prio pc = (\<lambda>(mst, s). do {
     (t, e) \<leftarrow> thread_create_prio L tr entryp arg (16 * 1024) prio \<lparr>ks = lk s, ms = mst\<rparr>;
     Some (t, ms e, s\<lparr>lk := ks e, spc := (if t = NULL then spc s else (spc s)(t := pc))\<rparr>)
   })"

definition lab_add :: "addr \<Rightarrow> sync_lab \<Rightarrow> sync_lab option" where
  "lab_add t s = do { k \<leftarrow> sched_add t (lk s); Some (s\<lparr>lk := k\<rparr>) }"

definition sync_lab_setup ::
  "kconfig \<Rightarrow> mmu_layout \<Rightarrow> addr \<Rightarrow> lab_syms \<Rightarrow> u32 \<Rightarrow> mmu \<times> sync_lab \<Rightarrow> (mmu \<times> sync_lab) option" where
  "sync_lab_setup cfg L tr A mode = (\<lambda>(mst, s).
     if mode = 1 then do {
       let s = s\<lparr>lk := kputs (''[sync-lab] setup'' @ [newline]) (lk s)\<rparr>;
       let s = s\<lparr>g_pi_enabled := 0, g_high_done := 0\<rparr>;
       let s = s\<lparr>lk := mutex_init cfg (g_lock A) (lk s)\<rparr>;
       k \<leftarrow> mutex_set_pi_enabled cfg (g_lock A) 0 (lk s);
       let s = s\<lparr>lk := sem_init (g_hold_high A) 0 (sem_init (g_start A) 0 k)\<rparr>;
       (l, mst, s) \<leftarrow> lab_create L tr (f_low_thread A) NULL 5 (PL L_start) (mst, s);
       (m, mst, s) \<leftarrow> lab_create L tr (f_medium_thread A) NULL 10 (PM M_start) (mst, s);
       (h, mst, s) \<leftarrow> lab_create L tr (f_high_thread A) NULL 20 (PH H_start) (mst, s);
       if l = NULL \<or> m = NULL \<or> h = NULL then None
       else do {
         s \<leftarrow> lab_add l s;
         s \<leftarrow> lab_add m s;
         s \<leftarrow> lab_add h s;
         Some (mst, s)
       }
     }
     else if mode \<ge> 2 \<and> mode \<le> 5 then do {
       let s = s\<lparr>lk := kputs (''[deadlock-lab] setup'' @ [newline]) (lk s)\<rparr>;
       let s = s\<lparr>g_dl_mode := mode, g_dl_done := 0, g_dl_ready := 0, g_dl_t1 := NULL, g_dl_t2 := NULL\<rparr>;
       let s = s\<lparr>lk := sem_init (g_dl_hold A) 0 (mutex_init cfg (g_dl_b A) (mutex_init cfg (g_dl_a A) (lk s)))\<rparr>;
       (t1, mst, s) \<leftarrow> lab_create L tr (f_deadlock_worker A) 1 20 (PW 1 W_start) (mst, s);
       let s = s\<lparr>g_dl_t1 := t1\<rparr>;
       (t2, mst, s) \<leftarrow> lab_create L tr (f_deadlock_worker A) 2 20 (PW 2 W_start) (mst, s);
       let s = s\<lparr>g_dl_t2 := t2\<rparr>;
       (w, mst, s) \<leftarrow> lab_create L tr (f_deadlock_watchdog A) NULL 5 (PD D_start) (mst, s);
       if t1 = NULL \<or> t2 = NULL \<or> w = NULL then None
       else do {
         s \<leftarrow> lab_add t1 s;
         s \<leftarrow> lab_add t2 s;
         s \<leftarrow> lab_add w s;
         Some (mst, s)
       }
     }
     else None)"

section \<open>Runs\<close>

text \<open>One statement of the running thread.\<close>

definition goes :: "('p \<Rightarrow> lab_pc) \<Rightarrow> addr \<Rightarrow> ('p \<times> sync_lab) option \<Rightarrow> sync_lab option" where
  "goes C t r = map_option (\<lambda>(pc, s). s\<lparr>spc := (spc s)(t := C pc)\<rparr>) r"

definition lab_exec :: "kconfig \<Rightarrow> lab_syms \<Rightarrow> sync_lab \<Rightarrow> sync_lab option" where
  "lab_exec cfg A s =
     (let t = cur_thread (lk s) in
      if t = NULL then None
      else case spc s t of
        PNone \<Rightarrow> None
      | PL pc \<Rightarrow> goes PL t (low_thread cfg A t pc s)
      | PH pc \<Rightarrow> goes PH t (high_thread cfg A t pc s)
      | PM pc \<Rightarrow> goes PM t (medium_thread cfg A t pc s)
      | PW tid pc \<Rightarrow> goes (PW tid) t (deadlock_worker cfg A t tid pc s)
      | PD pc \<Rightarrow> goes PD t (deadlock_watchdog cfg A t pc s))"

inductive lab_step :: "kconfig \<Rightarrow> lab_syms \<Rightarrow> sync_lab \<Rightarrow> sync_lab \<Rightarrow> bool" for cfg A where
  lab_runs: "lab_exec cfg A s = Some s' \<Longrightarrow> lab_step cfg A s s'"
| lab_timer: "timer_interrupt cfg (lk s) = Some k \<Longrightarrow> lab_step cfg A s (s\<lparr>lk := k\<rparr>)"

inductive_cases lab_stepE: "lab_step cfg A s s'"

end
