(* ===== verification/PiLab.thy ===== *)
theory PiLab
  imports SyncLab
begin

text \<open>
  Mode 1 of the synchronisation laboratory, the priority inversion with threads L, M and H
  (\<^verbatim>\<open>low_thread\<close>, \<^verbatim>\<open>medium_thread\<close>, \<^verbatim>\<open>high_thread\<close> in \<^verbatim>\<open>src/sync_lab.cc\<close>). M blocks on the semaphore on which H
  already waits, and so H is lost: it never competes for the mutex, and M waits for ever for H to be done.
\<close>

section \<open>Set-up\<close>

lemma lab_create_effect:
  assumes k: "fresh_kernel (lk s)" and run: "lab_create L tr en arg prio pc (mst, s) = Some (t, mst', s')" "t \<noteq> NULL"
  shows "fresh_kernel (lk s')" "s' = s\<lparr>lk := lk s', spc := (spc s)(t := pc)\<rparr>" "sems (lk s') = sems (lk s)"
    "eff (lk s') u = (if u = t then clamp_priority prio else eff (lk s) u)"
proof -
  obtain e where e: "thread_create_prio L tr en arg (16 * 1024) prio \<lparr>ks = lk s, ms = mst\<rparr> = Some (t, e)"
    "s' = s\<lparr>lk := ks e, spc := (spc s)(t := pc)\<rparr>"
    using run by (auto simp: lab_create_def bind_eq_Some_conv)
  have k': "fresh_kernel (ks \<lparr>ks = lk s, ms = mst\<rparr>)" using k by simp
  show "fresh_kernel (lk s')" "s' = s\<lparr>lk := lk s', spc := (spc s)(t := pc)\<rparr>" "sems (lk s') = sems (lk s)"
    "eff (lk s') u = (if u = t then clamp_priority prio else eff (lk s) u)"
    using thread_create_fresh [OF k' e(1) run(2)] e(2) by simp_all
qed

text \<open>Three created threads are queued in the order in which they are added.\<close>

lemma lab_add_three:
  assumes k: "fresh_kernel (lk s)" and d: "distinct [t1, t2, t3]" "t1 \<noteq> NULL" "t2 \<noteq> NULL" "t3 \<noteq> NULL"
    and run: "lab_add t1 s = Some s1" "lab_add t2 s1 = Some s2" "lab_add t3 s2 = Some s3"
  shows "sync_ok (lk s3) [t1, t2, t3] (\<lambda>_. []) (\<lambda>_. [])" "sched_only (lk s) (lk s3)" "cpu (lk s3) = cpu (lk s)" "s3 = s\<lparr>lk := lk s3\<rparr>"
proof -
  obtain k1 k2 k3 where r: "sched_add t1 (lk s) = Some k1" "sched_add t2 k1 = Some k2" "sched_add t3 k2 = Some k3"
    "s3 = s\<lparr>lk := k3\<rparr>" using run by (auto simp: lab_add_def bind_eq_Some_conv)
  have st: "t_state (thr (lk s) t) = kThreadReady" for t by (rule fresh_kernelD(5) [OF k])
  note a1 = sched_add_queues [OF fresh_kernelD(1) [OF k] d(2) _ st r(1)]
  have "sync_ok k1 [t1] (\<lambda>_. []) (\<lambda>_. [])" "t_state (thr k1 t2) = kThreadReady" "t2 \<notin> set [t1]"
    using a1 st sched_only_owner(2) [of "lk s" k1] d(1) by auto
  note a2 = sched_add_queues [OF this(1) d(3) this(3,2) r(2)]
  have "sync_ok k2 [t1, t2] (\<lambda>_. []) (\<lambda>_. [])" "t_state (thr k2 t3) = kThreadReady" "t3 \<notin> set [t1, t2]"
    using a1 a2 st sched_only_owner(2) [of "lk s" k1] sched_only_owner(2) [of k1 k2] d(1) by auto
  note a3 = sched_add_queues [OF this(1) d(4) this(3,2) r(3)]
  show "sync_ok (lk s3) [t1, t2, t3] (\<lambda>_. []) (\<lambda>_. [])" "cpu (lk s3) = cpu (lk s)" "s3 = s\<lparr>lk := lk s3\<rparr>"
    using a1 a2 a3 r(4) by simp_all
  show "sched_only (lk s) (lk s3)" using a1(2) a2(2) a3(2) r(4) by (simp add: sched_only_def)
qed


section \<open>The three phases\<close>

text \<open>
  Phase 1: H runs until it blocks on \<^verbatim>\<open>g_start\<close>. Phase 2: M runs until it blocks there too; H is the only waiter.
  Phase 3, for ever: H is on no wait queue. L takes the mutex, wakes M, and M polls \<^verbatim>\<open>g_high_done\<close>.
\<close>

definition pi_phase1 :: "lab_syms \<Rightarrow> addr \<Rightarrow> addr \<Rightarrow> addr \<Rightarrow> sync_lab \<Rightarrow> bool" where
  "pi_phase1 A l m h s \<longleftrightarrow> (\<exists>xs Own. at_rest 0 (lk s) xs Own (\<lambda>_. []) \<and> set xs = {l, m, h}) \<and> cur_thread (lk s) = h \<and>
     eff (lk s) l < eff (lk s) m \<and> eff (lk s) m < eff (lk s) h \<and> s_count (sems (lk s) (g_start A)) = 0 \<and>
     m_owner (mtx (lk s) (g_lock A)) = NULL \<and>
     spc s l = PL L_start \<and> spc s m = PM M_start \<and> spc s h \<in> {PH H_start, PH H_down}"

definition pi_phase2 :: "lab_syms \<Rightarrow> addr \<Rightarrow> addr \<Rightarrow> addr \<Rightarrow> sync_lab \<Rightarrow> bool" where
  "pi_phase2 A l m h s \<longleftrightarrow> (\<exists>xs Own. at_rest 0 (lk s) xs Own ((\<lambda>_. [])(Inr (g_start A) := [h])) \<and> set xs = {l, m}) \<and>
     cur_thread (lk s) = m \<and> eff (lk s) l < eff (lk s) m \<and> s_count (sems (lk s) (g_start A)) \<le> 0 \<and>
     m_owner (mtx (lk s) (g_lock A)) = NULL \<and>
     spc s l = PL L_start \<and> spc s m \<in> {PM M_start, PM M_down} \<and> spc s h = PH H_locking"

definition h_lost :: "lab_syms \<Rightarrow> addr \<Rightarrow> addr \<Rightarrow> addr \<Rightarrow> kstate \<Rightarrow> bool" where
  "h_lost A l m h k \<longleftrightarrow> (\<exists>xs Own ws. at_rest 0 k xs Own ((\<lambda>_. [])(Inr (g_start A) := ws)) \<and> set xs \<subseteq> {l, m} \<and> set ws \<subseteq> {m}) \<and>
     blocked k h \<and> m_owner (mtx k (g_lock A)) \<in> {NULL, l}"

definition pi_phase3 :: "lab_syms \<Rightarrow> addr \<Rightarrow> addr \<Rightarrow> addr \<Rightarrow> sync_lab \<Rightarrow> bool" where
  "pi_phase3 A l m h s \<longleftrightarrow> h_lost A l m h (lk s) \<and>
     (\<exists>pc. spc s l = PL pc) \<and> (\<exists>pc. spc s m = PM pc \<and> pc \<notin> {M_start, M_down, M_pass, M_halt}) \<and> spc s h = PH H_locking"

definition pi_inv :: "lab_syms \<Rightarrow> addr \<Rightarrow> addr \<Rightarrow> addr \<Rightarrow> sync_lab \<Rightarrow> bool" where
  "pi_inv A l m h s \<longleftrightarrow> distinct [l, m, h] \<and> NULL \<notin> {l, m, h} \<and> (\<forall>t. t \<notin> {l, m, h} \<longrightarrow> spc s t = PNone) \<and> g_high_done s = 0 \<and>
     (pi_phase1 A l m h s \<or> pi_phase2 A l m h s \<or> pi_phase3 A l m h s)"

lemma setup_phase1:
  assumes k: "fresh_kernel (lk s0)" "spc s0 = (\<lambda>_. PNone)" and A: "g_lock A \<noteq> NULL" "g_start A \<noteq> NULL" and p: "policy cfg = PRIO"
    and run: "sync_lab_setup cfg L tr A 1 (mst, s0) = Some (mst', s1)" "sched_start cfg (lk s1) = Some k1"
    and t: "spc s1 l = PL L_start" "spc s1 m = PM M_start" "spc s1 h = PH H_start"
  shows "pi_inv A l m h (s1\<lparr>lk := k1\<rparr>)"
proof -
  define sa where "sa = (s0\<lparr>lk := mutex_init cfg (g_lock A) (kputs (''[sync-lab] setup'' @ [newline]) (lk s0)), g_pi_enabled := 0, g_high_done := 0\<rparr>)"
  obtain k where sp: "mutex_set_pi_enabled cfg (g_lock A) 0 (lk sa) = Some k"
    and rest: "(let s = sa\<lparr>lk := sem_init (g_hold_high A) 0 (sem_init (g_start A) 0 k)\<rparr> in do {
       (l, mst, s) \<leftarrow> lab_create L tr (f_low_thread A) NULL 5 (PL L_start) (mst, s);
       (m, mst, s) \<leftarrow> lab_create L tr (f_medium_thread A) NULL 10 (PM M_start) (mst, s);
       (h, mst, s) \<leftarrow> lab_create L tr (f_high_thread A) NULL 20 (PH H_start) (mst, s);
       if l = NULL \<or> m = NULL \<or> h = NULL then None
       else do { s \<leftarrow> lab_add l s; s \<leftarrow> lab_add m s; s \<leftarrow> lab_add h s; Some (mst, s) }}) = Some (mst', s1)"
    using run(1) unfolding sync_lab_setup_def sa_def Let_def by (auto simp: bind_eq_Some_conv)
  have fa: "fresh_kernel (lk sa)" unfolding sa_def using fresh_keeps [OF fresh_keeps(1) [OF k(1)]] by simp
  define sb where "sb = sa\<lparr>lk := sem_init (g_hold_high A) 0 (sem_init (g_start A) 0 k)\<rparr>"
  have fb: "fresh_kernel (lk sb)" unfolding sb_def using fresh_keeps(3) [OF fresh_keeps(3) [OF fresh_set_pi(1) [OF fa sp]]] by simp
  have cb: "s_count (sems (lk sb) (g_start A)) = 0" using A by (simp add: sb_def sem_init_def)
  obtain l' m1 s2 m' m2 s3 h' m3 s4 s5 s6 where c:
    "lab_create L tr (f_low_thread A) NULL 5 (PL L_start) (mst, sb) = Some (l', m1, s2)"
    "lab_create L tr (f_medium_thread A) NULL 10 (PM M_start) (m1, s2) = Some (m', m2, s3)"
    "lab_create L tr (f_high_thread A) NULL 20 (PH H_start) (m2, s3) = Some (h', m3, s4)"
    "l' \<noteq> NULL" "m' \<noteq> NULL" "h' \<noteq> NULL"
    "lab_add l' s4 = Some s5" "lab_add m' s5 = Some s6" "lab_add h' s6 = Some s1"
    using rest unfolding sb_def [symmetric] Let_def by (auto simp: bind_eq_Some_conv split: if_splits)
  note e1 = lab_create_effect [OF fb c(1,4)]
  note e2 = lab_create_effect [OF e1(1) c(2,5)]
  note e3 = lab_create_effect [OF e2(1) c(3,6)]
  have s4: "spc s4 = (\<lambda>_. PNone)(l' := PL L_start, m' := PM M_start, h' := PH H_start)" "g_high_done s4 = 0"
    by (subst e3(2), simp, subst e2(2), simp, subst e1(2), simp add: sb_def sa_def k(2))+
  have eff4: "eff (lk s4) u = (if u = h' then 20 else if u = m' then 10 else if u = l' then 5 else eff (lk sb) u)" for u
    using e1(4) [of u] e2(4) [of u] e3(4) [of u] by (simp add: clamp_priority_def kMaxPriority_def)
  have n4: "s_count (sems (lk s4) (g_start A)) = 0" using e1(3) e2(3) e3(3) cb by simp
  have "spc s1 = spc s4"
    using c(7-9) by (auto simp: lab_add_def bind_eq_Some_conv)
  then have ids: "l' = l" "m' = m" "h' = h" "distinct [l, m, h]"
    using t s4(1) by (auto split: if_splits)
  note a = lab_add_three [OF e3(1) ids(4) [folded ids(1-3)] c(4-9)]
  note o1 = a(2) sched_only_owner [OF a(2)]
  have n0: "preempt_cnt (cpu (lk s1)) = 0" "irq_depth (cpu (lk s1)) = 0" using a(3) e3(1) by (simp_all add: fresh_kernel_def)
  have "[l', m', h'] \<noteq> []" by simp
  note st = sched_start_rests [OF a(1) p this n0 run(2)]
  note o = o1 sched_only_owner [OF st(2)]
  have eff: "eff k1 l = 5" "eff k1 m = 10" "eff k1 h = 20" using o eff4 ids by auto
  have "cur_thread k1 = h" using st(1,3) eff ids by (auto simp: at_rest_def)
  moreover have "m_owner (mtx k1 (g_lock A)) = NULL" using o fresh_kernelD(2) [OF e3(1) A(1)] by simp
  moreover have "g_high_done s1 = 0" using a(4) s4(2) by (metis sync_lab.select_convs(3) sync_lab.surjective sync_lab.update_convs(1))
  moreover have "spc s1 u = PNone" if "u \<notin> {l, m, h}" for u using \<open>spc s1 = spc s4\<close> s4(1) ids that by auto
  moreover have "\<exists>xs Own. at_rest 0 k1 xs Own (\<lambda>_. []) \<and> set xs = {l, m, h}"
    using st(1) ids by (intro exI [of _ "[l', m', h']"] exI [of _ "\<lambda>_. []"]) simp
  ultimately show ?thesis
    using eff ids c(4-6) t o n4 unfolding pi_inv_def pi_phase1_def by auto
qed

section \<open>Each phase is kept or left for the next\<close>

lemma h_lostI:
  assumes "at_rest 0 k xs Own ((\<lambda>_. [])(Inr (g_start A) := ws))" "set xs \<subseteq> {l, m}" "set ws \<subseteq> {m}" "blocked k h"
    "m_owner (mtx k (g_lock A)) \<in> {NULL, l}"
  shows "h_lost A l m h k"
  using assms unfolding h_lost_def by blast

lemma h_lost_cur: "h_lost A l m h k \<Longrightarrow> cur_thread k \<in> {l, m}"
  unfolding h_lost_def using at_restD(6) by fastforce

lemma h_lost_keeps:
  assumes k: "h_lost A l m h k" and d: "distinct [l, m, h]" and p: "policy cfg = PRIO" and A: "g_lock A \<noteq> NULL" "g_start A \<noteq> NULL"
  shows "h_lost A l m h (kputs txt k)"
    "cur_thread k = l \<Longrightarrow> mutex_lock cfg (g_lock A) k = Some k' \<Longrightarrow> h_lost A l m h k'"
    "sem_up cfg (g_start A) k = Some k' \<Longrightarrow> h_lost A l m h k'"
    "cur_thread k = l \<Longrightarrow> mutex_unlock cfg (g_lock A) k = Some k' \<Longrightarrow> h_lost A l m h k'"
    "mutex_set_pi_enabled cfg (g_lock A) e k = Some k' \<Longrightarrow> h_lost A l m h k'"
    "thread_yield cfg k = Some k' \<Longrightarrow> h_lost A l m h k'"
    "timer_interrupt cfg k = Some k' \<Longrightarrow> h_lost A l m h k'"
proof -
  obtain xs Own ws where r: "at_rest 0 k xs Own ((\<lambda>_. [])(Inr (g_start A) := ws))" and ws: "set xs \<subseteq> {l, m}" "set ws \<subseteq> {m}"
    and h: "blocked k h" and o: "m_owner (mtx k (g_lock A)) \<in> {NULL, l}" using k unfolding h_lost_def by blast
  show "h_lost A l m h (kputs txt k)" using r ws h o by (intro h_lostI) (auto simp: blocked_def)
  show "h_lost A l m h k'" if c: "cur_thread k = l" and run: "mutex_lock cfg (g_lock A) k = Some k'"
  proof -
    have "m_owner (mtx k (g_lock A)) = NULL \<or> m_owner (mtx k (g_lock A)) = l" using o by auto
    note L = lock_gets [OF r p A(1) c [symmetric] this run]
    obtain Own' where "at_rest 0 k' xs Own' ((\<lambda>_. [])(Inr (g_start A) := ws))" using L(1) by blast
    then show ?thesis using ws h L(2,4) by (intro h_lostI) (auto simp: blocked_def)
  qed
  show "h_lost A l m h k'" if run: "sem_up cfg (g_start A) k = Some k'"
  proof (rule sem_up_result [OF r p refl A(2) run], goal_cases)
    case (1 xs')
    then have "at_rest 0 k' xs' Own ((\<lambda>_. [])(Inr (g_start A) := []))" by simp
    then show ?case by (rule h_lostI) (use 1 ws h o A(1) d in \<open>auto simp: blocked_def\<close>)
  next
    case 2
    then show ?case using ws h o A(1) by (intro h_lostI) (auto simp: blocked_def)
  qed
  show "h_lost A l m h k'" if c: "cur_thread k = l" and run: "mutex_unlock cfg (g_lock A) k = Some k'"
  proof (cases "m_owner (mtx k (g_lock A)) = l")
    case True
    show ?thesis
    proof (rule unlock_releases [OF r p A(1) c [symmetric] True run], goal_cases)
      case (1 Own')
      then show ?case using ws h by (intro h_lostI) (auto simp: blocked_def)
    next
      case (2 Own' b)
      then show ?case by simp
    qed
  next
    case False
    note U = unlock_foreign [OF r p c [symmetric] False A(1) run]
    show ?thesis using U(1) ws h o sched_only_owner [OF U(2)] by (intro h_lostI) (auto simp: blocked_def)
  qed
  show "h_lost A l m h k'" if run: "mutex_set_pi_enabled cfg (g_lock A) e k = Some k'"
    using set_pi_keeps [OF r p refl A(1) run] ws h o by (intro h_lostI) (auto simp: blocked_def)
  show "h_lost A l m h k'" if run: "thread_yield cfg k = Some k'"
    using yield_keeps(1) [OF r p run] sched_only_owner [OF yield_keeps(2) [OF r p run]] ws h o by (intro h_lostI) (auto simp: blocked_def)
  show "h_lost A l m h k'" if run: "timer_interrupt cfg k = Some k'"
    using timer_keeps(1) [OF r p run] sched_only_owner [OF timer_keeps(2) [OF r p run]] ws h o by (intro h_lostI) (auto simp: blocked_def)
qed

text \<open>A step of the running thread, in each phase.\<close>

lemma lab_exec_step:
  assumes "lab_exec cfg A s = Some s'" "cur_thread (lk s) = t" "t \<noteq> NULL"
  shows "spc s t = PL pc \<Longrightarrow> \<exists>pc' u. low_thread cfg A t pc s = Some (pc', u) \<and> s' = u\<lparr>spc := (spc u)(t := PL pc')\<rparr>"
    "spc s t = PM mpc \<Longrightarrow> \<exists>pc' u. medium_thread cfg A t mpc s = Some (pc', u) \<and> s' = u\<lparr>spc := (spc u)(t := PM pc')\<rparr>"
    "spc s t = PH hpc \<Longrightarrow> \<exists>pc' u. high_thread cfg A t hpc s = Some (pc', u) \<and> s' = u\<lparr>spc := (spc u)(t := PH pc')\<rparr>"
  using assms by (auto simp: lab_exec_def Let_def goes_def)

lemmas statement_simps = says_def calls_def locks_def bind_eq_Some_conv Let_def

lemma pi_phase1_step:
  assumes i: "pi_phase1 A l m h s" "distinct [l, m, h]" "NULL \<notin> {l, m, h}" "g_high_done s = 0" "\<forall>t. t \<notin> {l, m, h} \<longrightarrow> spc s t = PNone"
    and p: "policy cfg = PRIO" and A: "g_lock A \<noteq> NULL" "g_start A \<noteq> NULL" and st: "lab_step cfg A s s'"
  shows "pi_inv A l m h s'"
proof -
  obtain xs Own where r: "at_rest 0 (lk s) xs Own (\<lambda>_. [])" "set xs = {l, m, h}" and c: "cur_thread (lk s) = h"
    and pr: "eff (lk s) l < eff (lk s) m" "eff (lk s) m < eff (lk s) h" "s_count (sems (lk s) (g_start A)) = 0"
      "m_owner (mtx (lk s) (g_lock A)) = NULL"
    and pc: "spc s l = PL L_start" "spc s m = PM M_start" "spc s h = PH H_start \<or> spc s h = PH H_down"
    using i(1) unfolding pi_phase1_def by blast
  show ?thesis
  proof (cases rule: lab_stepE [OF st])
    case (2 k)
    note T = timer_keeps [OF r(1) p 2(2)]
    have "cur_thread k = h" using T(3) at_restD(6) [OF T(1)] c pr r(2) sched_only_owner(3) [OF T(2)] by (auto simp: runs_top_def)
    then have "pi_phase1 A l m h s'"
      using T(1) r(2) pr pc sched_only_owner [OF T(2)] 2(1) unfolding pi_phase1_def by auto
    then show ?thesis using i(2-5) 2(1) by (simp add: pi_inv_def)
  next
    case 1
    have h0: "h \<noteq> NULL" using i(3) by auto
    from pc(3) show ?thesis
    proof
      assume pch: "spc s h = PH H_start"
      then have s': "s' = s\<lparr>lk := kputs (''[sync-lab] H start'' @ [newline]) (lk s), spc := (spc s)(h := PH H_down)\<rparr>"
        using lab_exec_step(3) [OF 1 c h0 pch] by (auto simp: statement_simps)
      have "pi_phase1 A l m h s'" using r c pr pc i(2) unfolding pi_phase1_def s' by auto
      then show ?thesis using i(2-5) by (simp add: pi_inv_def s')
    next
      assume pch: "spc s h = PH H_down"
      then obtain k where k: "sem_down cfg (g_start A) (lk s) = Some k" "s' = s\<lparr>lk := k, spc := (spc s)(h := PH H_locking)\<rparr>"
        using lab_exec_step(3) [OF 1 c h0 pch] by (auto simp: statement_simps)
      have dx: "distinct xs" using sched_invD(1) [OF at_restD(2) [OF r(1)]] by (simp add: rq_inv_def)
      then have sx: "set (remove1 h xs) = {l, m}" using r(2) i(2) by auto
      then have "s_count (sems (lk s) (g_start A)) \<le> 0" "remove1 h xs \<noteq> []" using pr by auto
      note D = sem_down_blocks [OF r(1) p c [symmetric] A(2) this k(1)]
      have "cur_thread k = m" using at_restD(6) [OF D(1)] D(5,6) sx pr by auto
      then have "pi_phase2 A l m h s'"
        using D sx pr pc i(2) unfolding pi_phase2_def k(2) by auto
      then show ?thesis using i(2-5) by (simp add: pi_inv_def k(2))
    qed
  qed
qed

lemma pi_phase2_step:
  assumes i: "pi_phase2 A l m h s" "distinct [l, m, h]" "NULL \<notin> {l, m, h}" "g_high_done s = 0" "\<forall>t. t \<notin> {l, m, h} \<longrightarrow> spc s t = PNone"
    and p: "policy cfg = PRIO" and A: "g_lock A \<noteq> NULL" "g_start A \<noteq> NULL" and st: "lab_step cfg A s s'"
  shows "pi_inv A l m h s'"
proof -
  let ?Q = "(\<lambda>_. [])(Inr (g_start A) := [h])"
  obtain xs Own where r: "at_rest 0 (lk s) xs Own ?Q" "set xs = {l, m}" and c: "cur_thread (lk s) = m"
    and pr: "eff (lk s) l < eff (lk s) m" "s_count (sems (lk s) (g_start A)) \<le> 0" "m_owner (mtx (lk s) (g_lock A)) = NULL"
    and pc: "spc s l = PL L_start" "spc s m = PM M_start \<or> spc s m = PM M_down" "spc s h = PH H_locking"
    using i(1) unfolding pi_phase2_def by blast
  show ?thesis
  proof (cases rule: lab_stepE [OF st])
    case (2 k)
    note T = timer_keeps [OF r(1) p 2(2)]
    have "cur_thread k = m" using T(3) at_restD(6) [OF T(1)] c pr r(2) sched_only_owner(3) [OF T(2)] by (auto simp: runs_top_def)
    then have "pi_phase2 A l m h s'"
      using T(1) r(2) pr pc sched_only_owner [OF T(2)] 2(1) unfolding pi_phase2_def by auto
    then show ?thesis using i(2-5) 2(1) by (simp add: pi_inv_def)
  next
    case 1
    have m0: "m \<noteq> NULL" using i(3) by auto
    from pc(2) show ?thesis
    proof
      assume pcm: "spc s m = PM M_start"
      then have s': "s' = s\<lparr>lk := kputs (''[sync-lab] M start'' @ [newline]) (lk s), spc := (spc s)(m := PM M_down)\<rparr>"
        using lab_exec_step(2) [OF 1 c m0 pcm] by (auto simp: statement_simps)
      have "pi_phase2 A l m h s'" using r c pr pc i(2) unfolding pi_phase2_def s' by auto
      then show ?thesis using i(2-5) by (simp add: pi_inv_def s')
    next
      assume pcm: "spc s m = PM M_down"
      then obtain k where k: "sem_down cfg (g_start A) (lk s) = Some k" "s' = s\<lparr>lk := k, spc := (spc s)(m := PM M_init)\<rparr>"
        using lab_exec_step(2) [OF 1 c m0 pcm] by (auto simp: statement_simps)
      have dx: "distinct xs" using sched_invD(1) [OF at_restD(2) [OF r(1)]] by (simp add: rq_inv_def)
      then have sx: "set (remove1 m xs) = {l}" using r(2) i(2) by auto
      then have "remove1 m xs \<noteq> []" by auto
      note D = sem_down_blocks [OF r(1) p c [symmetric] A(2) pr(2) this k(1)]
      have "t_state (thr (lk s) h) = kThreadBlocked"
        using sync_invD(5) [OF at_restD(3) [OF r(1)], of h "Inr (g_start A)"] by simp
      then have "h_lost A l m h k"
        using D(1-4) sx pr i(2) by (intro h_lostI [of k "remove1 m xs" Own A "[m]"]) (auto simp: blocked_def)
      then have "pi_phase3 A l m h s'" using pc i(2) unfolding pi_phase3_def k(2) by auto
      then show ?thesis using i(2-5) by (simp add: pi_inv_def k(2))
    qed
  qed
qed

lemma pi_phase3_step:
  assumes i: "pi_phase3 A l m h s" "distinct [l, m, h]" "NULL \<notin> {l, m, h}" "g_high_done s = 0" "\<forall>t. t \<notin> {l, m, h} \<longrightarrow> spc s t = PNone"
    and p: "policy cfg = PRIO" and A: "g_lock A \<noteq> NULL" "g_start A \<noteq> NULL" and st: "lab_step cfg A s s'"
  shows "pi_inv A l m h s'"
proof -
  obtain lpc mpc where k: "h_lost A l m h (lk s)" and pc: "spc s l = PL lpc" "spc s m = PM mpc" "mpc \<notin> {M_start, M_down, M_pass, M_halt}"
    "spc s h = PH H_locking" using i(1) unfolding pi_phase3_def by blast
  note K = h_lost_keeps [OF k i(2) p A]
  have goal: ?thesis if "h_lost A l m h (lk s')" "g_high_done s' = g_high_done s" "\<exists>pc. spc s' l = PL pc"
      "\<exists>pc. spc s' m = PM pc \<and> pc \<notin> {M_start, M_down, M_pass, M_halt}" "\<And>t. t \<noteq> l \<Longrightarrow> t \<noteq> m \<Longrightarrow> spc s' t = spc s t"
    using that i(2-5) pc(4) unfolding pi_inv_def pi_phase3_def by auto
  show ?thesis
  proof (cases rule: lab_stepE [OF st])
    case (2 k)
    then show ?thesis using K(7) pc by (intro goal) auto
  next
    case 1
    from h_lost_cur [OF k] consider (low) "cur_thread (lk s) = l" | (med) "cur_thread (lk s) = m" by blast
    then show ?thesis
    proof cases
      case low
      then obtain pc' u where u: "low_thread cfg A l lpc s = Some (pc', u)" "s' = u\<lparr>spc := (spc u)(l := PL pc')\<rparr>"
        using lab_exec_step(1) [OF 1 low _ pc(1)] i(3) by auto
      have "h_lost A l m h (lk u) \<and> g_high_done u = g_high_done s \<and> spc u = spc s"
        using u(1) low k K(1-4) by (cases lpc) (auto simp: statement_simps)
      then show ?thesis using u(2) pc i(2) by (intro goal) auto
    next
      case med
      then obtain pc' u where u: "medium_thread cfg A m mpc s = Some (pc', u)" "s' = u\<lparr>spc := (spc u)(m := PM pc')\<rparr>"
        using lab_exec_step(2) [OF 1 med _ pc(2)] i(3) by auto
      have "h_lost A l m h (lk u) \<and> g_high_done u = g_high_done s \<and> spc u = spc s \<and> pc' \<notin> {M_start, M_down, M_pass, M_halt}"
        using u(1) k K(1,5,6) pc(3) i(4) by (cases mpc) (auto simp: statement_simps split: if_splits)
      then show ?thesis using u(2) pc i(2) by (intro goal) auto
    qed
  qed
qed

lemma pi_step:
  assumes "pi_inv A l m h s" "policy cfg = PRIO" "g_lock A \<noteq> NULL" "g_start A \<noteq> NULL" "lab_step cfg A s s'"
  shows "pi_inv A l m h s'"
proof -
  have i: "distinct [l, m, h]" "NULL \<notin> {l, m, h}" "g_high_done s = 0" "\<forall>t. t \<notin> {l, m, h} \<longrightarrow> spc s t = PNone"
    using assms(1) by (simp_all add: pi_inv_def)
  consider "pi_phase1 A l m h s" | "pi_phase2 A l m h s" | "pi_phase3 A l m h s" using assms(1) by (auto simp: pi_inv_def)
  then show ?thesis
    by cases (erule pi_phase1_step [OF _ i assms(2-5)] pi_phase2_step [OF _ i assms(2-5)] pi_phase3_step [OF _ i assms(2-5)])+
qed

lemma pi_run:
  assumes "(lab_step cfg A)\<^sup>*\<^sup>* s s'" "pi_inv A l m h s" "policy cfg = PRIO" "g_lock A \<noteq> NULL" "g_start A \<noteq> NULL"
  shows "pi_inv A l m h s'"
  using assms by (induction rule: rtranclp_induct) (auto intro: pi_step)

lemma pi_inv_lost:
  assumes i: "pi_inv A l m h s" and m: "spc s m \<notin> {PM M_start, PM M_down}"
  shows "lost (lk s) h"
proof -
  have "h_lost A l m h (lk s)" "distinct [l, m, h]" using i m unfolding pi_inv_def pi_phase1_def pi_phase2_def pi_phase3_def by auto
  then obtain xs Own ws where r: "at_rest 0 (lk s) xs Own ((\<lambda>_. [])(Inr (g_start A) := ws))" "set ws \<subseteq> {m}" "blocked (lk s) h" "m \<noteq> h"
    unfolding h_lost_def by auto
  then show ?thesis using lost_iff [OF at_restD(1) [OF r(1)], of h] by auto
qed


section \<open>A run of the set-up\<close>

lemma lab_create_serves:
  assumes "g_thread_pool_inited (lk s) = 0" "en \<noteq> NULL" "kmem_alloc_aligned (heap (lk s)) kSizeofThread 16 = (t, h1)" "t \<noteq> NULL"
    "kmem_alloc_aligned h1 0x5000 4096 = (p, h2)" "p \<noteq> NULL"
  shows "\<exists>mst' s'. lab_create L tr en arg prio pc (mst, s) = Some (t, mst', s') \<and> heap (lk s') = h2 \<and> g_thread_pool_inited (lk s') = 0 \<and>
    spc s' = (spc s)(t := pc)"
proof -
  have "(0x4000 :: u64) + kStackGuardPageBytes = 0x5000" by (simp add: kStackGuardPageBytes_def)
  then obtain e' where "thread_create_prio L tr en arg (16 * 1024) prio \<lparr>ks = lk s, ms = mst\<rparr> = Some (t, e')"
    "heap (ks e') = h2" "g_thread_pool_inited (ks e') = 0"
    using thread_create_serves [of "\<lparr>ks = lk s, ms = mst\<rparr>" en "0x4000" t h1 p h2 L tr arg prio] assms
    by (auto simp: kStackGuardPageBytes_def)
  then show ?thesis using assms(4) by (simp add: lab_create_def)
qed

lemma lab_create_three:
  assumes "g_thread_pool_inited (lk s) = 0" "e1 \<noteq> NULL" "e2 \<noteq> NULL" "e3 \<noteq> NULL" "heap (lk s) = kmem_init 0x40090000 0x40190000"
  shows "\<exists>m1 s1 m2 s2 m3 s3. lab_create L tr e1 a1 p1 c1 (mst, s) = Some (0x40090000, m1, s1) \<and>
    lab_create L tr e2 a2 p2 c2 (m1, s1) = Some (0x40096000, m2, s2) \<and>
    lab_create L tr e3 a3 p3 c3 (m2, s2) = Some (0x4009C000, m3, s3) \<and>
    spc s3 = (spc s)(0x40090000 := c1, 0x40096000 := c2, 0x4009C000 := c3)"
proof -
  note sm = kmem_alloc_aligned_def kmem_init_def align_up_def kSizeofThread_def
  have "\<exists>m1 s1. lab_create L tr e1 a1 p1 c1 (mst, s) = Some (0x40090000, m1, s1) \<and>
      heap (lk s1) = \<lparr>kcur = 0x40096000, kend = 0x40190000\<rparr> \<and> g_thread_pool_inited (lk s1) = 0 \<and> spc s1 = (spc s)(0x40090000 := c1)"
    by (rule lab_create_serves [OF assms(1,2), of _ "\<lparr>kcur = 0x40090280, kend = 0x40190000\<rparr>" "0x40091000"]) (simp_all add: sm assms(5))
  then obtain m1 s1 where 1: "lab_create L tr e1 a1 p1 c1 (mst, s) = Some (0x40090000, m1, s1)"
    "heap (lk s1) = \<lparr>kcur = 0x40096000, kend = 0x40190000\<rparr>" "g_thread_pool_inited (lk s1) = 0" "spc s1 = (spc s)(0x40090000 := c1)" by blast
  have "\<exists>m2 s2. lab_create L tr e2 a2 p2 c2 (m1, s1) = Some (0x40096000, m2, s2) \<and>
      heap (lk s2) = \<lparr>kcur = 0x4009C000, kend = 0x40190000\<rparr> \<and> g_thread_pool_inited (lk s2) = 0 \<and> spc s2 = (spc s1)(0x40096000 := c2)"
    by (rule lab_create_serves [OF 1(3) assms(3), of _ "\<lparr>kcur = 0x40096280, kend = 0x40190000\<rparr>" "0x40097000"]) (simp_all add: sm 1(2))
  then obtain m2 s2 where 2: "lab_create L tr e2 a2 p2 c2 (m1, s1) = Some (0x40096000, m2, s2)"
    "heap (lk s2) = \<lparr>kcur = 0x4009C000, kend = 0x40190000\<rparr>" "g_thread_pool_inited (lk s2) = 0" "spc s2 = (spc s1)(0x40096000 := c2)" by blast
  have "\<exists>m3 s3. lab_create L tr e3 a3 p3 c3 (m2, s2) = Some (0x4009C000, m3, s3) \<and>
      heap (lk s3) = \<lparr>kcur = 0x400A2000, kend = 0x40190000\<rparr> \<and> g_thread_pool_inited (lk s3) = 0 \<and> spc s3 = (spc s2)(0x4009C000 := c3)"
    by (rule lab_create_serves [OF 2(3) assms(4), of _ "\<lparr>kcur = 0x4009C280, kend = 0x40190000\<rparr>" "0x4009D000"]) (simp_all add: sm 2(2))
  then show ?thesis using 1 2 by fastforce
qed

lemma fresh_set_pi_runs:
  assumes k: "fresh_kernel k" and m: "m \<noteq> NULL"
  shows "\<exists>k'. mutex_set_pi_enabled cfg m e k = Some k' \<and> heap k' = heap k \<and> g_thread_pool_inited k' = g_thread_pool_inited k"
  using k m fresh_kernelD(2) [OF k m]
  by (auto simp: mutex_set_pi_enabled_def preempt_enable_def Let_def disable_state fresh_kernel_def) (simp_all add: preempt_disable_def)

lemma lab_add_three_runs:
  assumes k: "fresh_kernel (lk s)" and d: "distinct [t1, t2, t3]" "t1 \<noteq> NULL" "t2 \<noteq> NULL" "t3 \<noteq> NULL"
  shows "\<exists>s1 s2 s3. lab_add t1 s = Some s1 \<and> lab_add t2 s1 = Some s2 \<and> lab_add t3 s2 = Some s3 \<and> spc s3 = spc s"
proof -
  note i0 = sync_okD(1) [OF fresh_kernelD(1) [OF k]]
  obtain k1 where 1: "sched_add t1 (lk s) = Some k1" "sched_inv k1 [t1]" using sched_add_inv [OF i0 d(2)] by auto
  obtain k2 where 2: "sched_add t2 k1 = Some k2" "sched_inv k2 [t1, t2]" using sched_add_inv [OF 1(2) d(3)] d(1) by auto
  obtain k3 where 3: "sched_add t3 k2 = Some k3" using sched_add_inv [OF 2(2) d(4)] d(1) by auto
  show ?thesis using 1 2 3 by (simp add: lab_add_def)
qed

lemma pi_setup_runs:
  assumes k: "fresh_kernel (lk s0)" "spc s0 = (\<lambda>_. PNone)" and A: "g_lock A \<noteq> NULL" "g_start A \<noteq> NULL"
    "f_low_thread A \<noteq> NULL" "f_medium_thread A \<noteq> NULL" "f_high_thread A \<noteq> NULL" and p: "policy cfg = PRIO"
    and h: "g_thread_pool_inited (lk s0) = 0" "heap (lk s0) = kmem_init 0x40090000 0x40190000"
  shows "\<exists>mst' s1 k1. sync_lab_setup cfg L tr A 1 (mst, s0) = Some (mst', s1) \<and> sched_start cfg (lk s1) = Some k1 \<and>
    spc s1 0x40090000 = PL L_start \<and> spc s1 0x40096000 = PM M_start \<and> spc s1 0x4009C000 = PH H_start"
proof -
  define sa where "sa = (s0\<lparr>lk := mutex_init cfg (g_lock A) (kputs (''[sync-lab] setup'' @ [newline]) (lk s0)), g_pi_enabled := 0, g_high_done := 0\<rparr>)"
  have fa: "fresh_kernel (lk sa)" unfolding sa_def using fresh_keeps [OF fresh_keeps(1) [OF k(1)]] by simp
  have ha: "heap (lk sa) = heap (lk s0)" "g_thread_pool_inited (lk sa) = 0" using h by (simp_all add: sa_def mutex_init_def)
  obtain k where sp: "mutex_set_pi_enabled cfg (g_lock A) 0 (lk sa) = Some k" "heap k = heap (lk s0)" "g_thread_pool_inited k = 0"
    using fresh_set_pi_runs [OF fa A(1)] ha by metis
  define sb where "sb = sa\<lparr>lk := sem_init (g_hold_high A) 0 (sem_init (g_start A) 0 k)\<rparr>"
  have fb: "fresh_kernel (lk sb)" unfolding sb_def using fresh_keeps(3) [OF fresh_keeps(3) [OF fresh_set_pi(1) [OF fa sp(1)]]] by simp
  have hb: "heap (lk sb) = kmem_init 0x40090000 0x40190000" "g_thread_pool_inited (lk sb) = 0"
    using sp(2,3) h(2) by (simp_all add: sb_def sem_init_def)
  obtain m1 s2 m2 s3 m3 s4 where c:
    "lab_create L tr (f_low_thread A) NULL 5 (PL L_start) (mst, sb) = Some (0x40090000, m1, s2)"
    "lab_create L tr (f_medium_thread A) NULL 10 (PM M_start) (m1, s2) = Some (0x40096000, m2, s3)"
    "lab_create L tr (f_high_thread A) NULL 20 (PH H_start) (m2, s3) = Some (0x4009C000, m3, s4)"
    "spc s4 = (spc sb)(0x40090000 := PL L_start, 0x40096000 := PM M_start, 0x4009C000 := PH H_start)"
    using lab_create_three [OF hb(2) A(3-5) hb(1), of L tr NULL 5 "PL L_start" mst NULL 10 "PM M_start" NULL 20 "PH H_start"] by blast
  have nz: "(0x40090000 :: addr) \<noteq> NULL" "(0x40096000 :: addr) \<noteq> NULL" "(0x4009C000 :: addr) \<noteq> NULL"
    and d: "distinct [0x40090000 :: addr, 0x40096000, 0x4009C000]" by simp_all
  have f4: "fresh_kernel (lk s4)"
    by (rule lab_create_effect(1) [OF lab_create_effect(1) [OF lab_create_effect(1) [OF fb c(1) nz(1)] c(2) nz(2)] c(3) nz(3)])
  obtain s5 s6 s7 where a: "lab_add 0x40090000 s4 = Some s5" "lab_add 0x40096000 s5 = Some s6" "lab_add 0x4009C000 s6 = Some s7"
    "spc s7 = spc s4"
    using lab_add_three_runs [OF f4 d nz] by blast
  have ok: "sync_ok (lk s7) [0x40090000, 0x40096000, 0x4009C000] (\<lambda>_. []) (\<lambda>_. [])" by (rule lab_add_three(1) [OF f4 d nz a(1-3)])
  have st: "\<exists>k1. sched_start cfg (lk s7) = Some k1" using sched_start_inv [OF sync_okD(1) [OF ok], of cfg] by auto
  have "sync_lab_setup cfg L tr A 1 (mst, s0) = Some (m3, s7)"
    using sp(1) c(1-3) a(1-3) unfolding sync_lab_setup_def sb_def sa_def by (simp add: Let_def)
  then show ?thesis using st a(4) c(4) by auto
qed

text \<open>From its start the laboratory reaches the point where M has been waiting and H is lost.\<close>

lemma pi_reaches_lost:
  assumes i: "pi_inv A l m h s" "spc s h = PH H_start" and p: "policy cfg = PRIO" and A: "g_lock A \<noteq> NULL" "g_start A \<noteq> NULL"
  shows "\<exists>s'. (lab_step cfg A)\<^sup>*\<^sup>* s s' \<and> spc s' m = PM M_init"
proof -
  have d: "distinct [l, m, h]" "h \<noteq> NULL" "m \<noteq> NULL" using i(1) by (auto simp: pi_inv_def)
  have 1: "cur_thread (lk s) = h" "spc s m = PM M_start" using i by (auto simp: pi_inv_def pi_phase1_def pi_phase2_def pi_phase3_def)
  define s1 where "s1 = s\<lparr>lk := kputs (''[sync-lab] H start'' @ [newline]) (lk s), spc := (spc s)(h := PH H_down)\<rparr>"
  have st1: "lab_step cfg A s s1" using 1 d i(2) by (intro lab_runs) (simp add: lab_exec_def goes_def s1_def statement_simps)
  note i1 = pi_step [OF i(1) p A st1]
  have p1: "pi_phase1 A l m h s1" "spc s1 h = PH H_down" using i1 d by (auto simp: pi_inv_def pi_phase1_def pi_phase2_def pi_phase3_def s1_def)
  then obtain k2 where k2: "sem_down cfg (g_start A) (lk s1) = Some k2" "cur_thread (lk s1) = h"
    using sem_down_returns [OF _ A(2)] unfolding pi_phase1_def by metis
  define s2 where "s2 = s1\<lparr>lk := k2, spc := (spc s1)(h := PH H_locking)\<rparr>"
  have st2: "lab_step cfg A s1 s2" using k2 d p1(2) by (intro lab_runs) (simp add: lab_exec_def goes_def s2_def statement_simps)
  note i2 = pi_step [OF i1 p A st2]
  have m2: "spc s2 m = PM M_start" using 1(2) d by (simp add: s2_def s1_def)
  have p2: "cur_thread (lk s2) = m" using i2 d m2 by (auto simp: pi_inv_def pi_phase1_def pi_phase2_def pi_phase3_def s2_def)
  define s3 where "s3 = s2\<lparr>lk := kputs (''[sync-lab] M start'' @ [newline]) (lk s2), spc := (spc s2)(m := PM M_down)\<rparr>"
  have st3: "lab_step cfg A s2 s3" using p2 d m2 by (intro lab_runs) (simp add: lab_exec_def goes_def s3_def statement_simps)
  note i3 = pi_step [OF i2 p A st3]
  have m3: "spc s3 m = PM M_down" by (simp add: s3_def)
  have p3: "pi_phase2 A l m h s3" using i3 d m3 by (auto simp: pi_inv_def pi_phase1_def pi_phase2_def pi_phase3_def)
  then obtain k4 where k4: "sem_down cfg (g_start A) (lk s3) = Some k4" "cur_thread (lk s3) = m"
    using sem_down_returns [OF _ A(2)] unfolding pi_phase2_def by metis
  define s4 where "s4 = s3\<lparr>lk := k4, spc := (spc s3)(m := PM M_init)\<rparr>"
  have st4: "lab_step cfg A s3 s4" using k4 d m3 by (intro lab_runs) (simp add: lab_exec_def goes_def s4_def statement_simps)
  have "spc s4 m = PM M_init" by (simp add: s4_def)
  moreover have "(lab_step cfg A)\<^sup>*\<^sup>* s s4"
    by (intro converse_rtranclp_into_rtranclp [where a = s and b = s1] converse_rtranclp_into_rtranclp [where a = s1 and b = s2]
        converse_rtranclp_into_rtranclp [where a = s2 and b = s3] converse_rtranclp_into_rtranclp [where a = s3 and b = s4]
        rtranclp.rtrancl_refl st1 st2 st3 st4)
  ultimately show ?thesis by blast
qed

definition lab_syms_example :: lab_syms where
  "lab_syms_example = \<lparr>g_lock = 0x40050000, g_start = 0x40050020, g_hold_high = 0x40050030, g_dl_a = 0x40050040, g_dl_b = 0x40050060,
     g_dl_hold = 0x40050080, f_low_thread = 0x40040000, f_medium_thread = 0x40040100, f_high_thread = 0x40040200,
     f_deadlock_worker = 0x40040300, f_deadlock_watchdog = 0x40040400\<rparr>"

definition sync_lab_example :: sync_lab where
  "sync_lab_example = \<lparr>lk = boot_state\<lparr>heap := kmem_init 0x40090000 0x40190000\<rparr>, g_pi_enabled = 0, g_high_done = 0, g_dl_ready = 0,
     g_dl_done = 0, g_dl_mode = 0, g_dl_t1 = NULL, g_dl_t2 = NULL, spc = (\<lambda>_. PNone), l_t0 = (\<lambda>_. 0), l_printed = (\<lambda>_. False),
     l_attempt = (\<lambda>_. 0)\<rparr>"

lemma sync_lab_example_fresh: "fresh_kernel (lk sync_lab_example)"
proof -
  have "cpu boot_state = zero_cpu" "thr boot_state t = zero_thread" for t by (simp_all add: boot_state_def)
  then have b: "fresh_kernel boot_state"
    using sync_ok_boot by (simp add: fresh_kernel_def zero_cpu_def zero_thread_def kThreadReady_def)
  show ?thesis
    by (rule fresh_kernelI [OF b]) (use fresh_kernelD [OF b] in \<open>simp_all add: sync_lab_example_def\<close>)
qed

definition prio_example :: kconfig where
  "prio_example = \<lparr>policy = PRIO, mutex_pi = True, lockdep = False\<rparr>"


end
