(* ===== verification/LockLab.thy ===== *)
theory LockLab
  imports LabStart
begin

text \<open>
  The lock laboratory (\<^verbatim>\<open>src/lock_lab.cc\<close>): a raw spinlock that deadlocks against a thread of higher priority and
  the preemption-safe lock that does not (modes 1 and 2), a lock that the timer interrupt also takes, without and
  with masked interrupts (modes 3 and 4). As in the synchronisation laboratory each thread is a machine
  over its program points and interrupts come between its statements. \<^verbatim>\<open>raw_spin_trylock\<close> is one step: an exception between
  its \<^verbatim>\<open>ldaxr\<close> and \<^verbatim>\<open>stxr\<close> makes the store fail, and every caller here tries again.
\<close>

section \<open>State\<close>

text \<open>The places inside \<^verbatim>\<open>raw_spin_lock\<close> (\<open>LP_raw\<close>) and \<^verbatim>\<open>spin_lock\<close>.\<close>

datatype lock_point = LP_raw | LP_off | LP_try | LP_on | LP_wait

datatype lock_low_pc = LL_start | LL_clear1 | LL_clear2 | LL_lock lock_point | LL_mark | LL_locked | LL_up | LL_t0 | LL_hold
  | LL_unlocking | LL_unlock | LL_enable | LL_unmark | LL_unlocked | LL_yield | LL_halt

datatype lock_high_pc = LH_start | LH_down | LH_locking | LH_begin | LH_tick | LH_lock lock_point | LH_mark | LH_acquired
  | LH_unlock | LH_enable | LH_result | LH_halt

datatype irq_worker_pc = LI_start | LI_lock lock_point | LI_mark3 | LI_say3 | LI_spin
  | LI_save | LI_raw | LI_off | LI_mark4 | LI_say4 | LI_unlock | LI_restore | LI_enable | LI_unmark | LI_unlocked | LI_wait | LI_pass
  | LI_unknown | LI_halt

datatype lock_lab_pc = LNone | LLow lock_low_pc | LHigh lock_high_pc | LWork irq_worker_pc

text \<open>
  \<open>g_preempt_lock\<close> and \<open>g_irq_lock\<close> are the words \<^verbatim>\<open>raw.v\<close> of the locks. \<open>irq_hung\<close>: the interrupt handler waits for a lock, for
  ever, since it runs with interrupts masked on the only CPU. \<open>low_t0\<close> and \<open>irq_flags\<close> are the locals \<^verbatim>\<open>t0\<close> and \<^verbatim>\<open>flags\<close>.
\<close>

record lock_lab =
  lb :: kstate
  g_mode :: u32
  g_preempt_lock :: u32
  g_low_locked :: int
  g_low_unlocked :: int
  g_high_started :: int
  g_high_acquired :: int
  g_high_start_tick :: u64
  g_deadlock_reported :: int
  g_irq_lock :: u32
  g_irq_worker_holding :: int
  g_irq_isr_acquired :: int
  g_irq_deadlock_reported :: int
  irq_hung :: bool
  lpc :: "addr \<Rightarrow> lock_lab_pc"
  low_t0 :: u64
  irq_flags :: u64

record lock_syms =
  g_preempt_start :: addr
  f_preempt_low_thread :: addr
  f_preempt_high_thread :: addr
  f_irq_worker_thread :: addr

definition kDeadlockDetectTicks :: u64 where
  "kDeadlockDetectTicks = 40"

section \<open>Statements\<close>

definition lsay :: "string \<Rightarrow> lock_lab \<Rightarrow> lock_lab" where
  "lsay txt s = s\<lparr>lb := kputs (txt @ [newline]) (lb s)\<rparr>"

definition lcalls :: "(kstate \<Rightarrow> kstate option) \<Rightarrow> 'p \<Rightarrow> lock_lab \<Rightarrow> ('p \<times> lock_lab) option" where
  "lcalls f next s = do { k \<leftarrow> f (lb s); Some (next, s\<lparr>lb := k\<rparr>) }"

text \<open>One turn inside the lock functions, on the lock word \<open>v\<close>; \<open>None\<close> as the next place: the lock is taken.\<close>

fun lock_turn :: "kconfig \<Rightarrow> lock_point \<Rightarrow> u32 \<Rightarrow> kstate \<Rightarrow> (lock_point option \<times> u32 \<times> kstate) option" where
  "lock_turn cfg LP_raw v k = Some (if v = 0 then (None, 1, k) else (Some LP_raw, v, k))"
| "lock_turn cfg LP_off v k = Some (Some LP_try, v, preempt_disable k)"
| "lock_turn cfg LP_try v k = Some (if v = 0 then (None, 1, k) else (Some LP_on, v, k))"
| "lock_turn cfg LP_on v k = do { k \<leftarrow> preempt_enable cfg KResched k; Some (Some LP_wait, v, k) }"
| "lock_turn cfg LP_wait v k = Some (Some (if v \<noteq> 0 then LP_wait else LP_off), v, k)"

definition takes_preempt :: "kconfig \<Rightarrow> (lock_point \<Rightarrow> 'p) \<Rightarrow> 'p \<Rightarrow> lock_point \<Rightarrow> lock_lab \<Rightarrow> ('p \<times> lock_lab) option" where
  "takes_preempt cfg C next lp s = do {
     (r, v, k) \<leftarrow> lock_turn cfg lp (g_preempt_lock s) (lb s);
     Some (case r of None \<Rightarrow> next | Some lp \<Rightarrow> C lp, s\<lparr>lb := k, g_preempt_lock := v\<rparr>)
   }"

definition takes_irq :: "kconfig \<Rightarrow> (lock_point \<Rightarrow> 'p) \<Rightarrow> 'p \<Rightarrow> lock_point \<Rightarrow> lock_lab \<Rightarrow> ('p \<times> lock_lab) option" where
  "takes_irq cfg C next lp s = do {
     (r, v, k) \<leftarrow> lock_turn cfg lp (g_irq_lock s) (lb s);
     Some (case r of None \<Rightarrow> next | Some lp \<Rightarrow> C lp, s\<lparr>lb := k, g_irq_lock := v\<rparr>)
   }"

section \<open>The threads\<close>

fun preempt_low_thread :: "kconfig \<Rightarrow> lock_syms \<Rightarrow> lock_low_pc \<Rightarrow> lock_lab \<Rightarrow> (lock_low_pc \<times> lock_lab) option" where
  "preempt_low_thread cfg A LL_start s = Some (LL_clear1, lsay ''[lock-lab] L start'' s)"
| "preempt_low_thread cfg A LL_clear1 s = Some (LL_clear2, s\<lparr>g_low_locked := 0\<rparr>)"
| "preempt_low_thread cfg A LL_clear2 s =
     Some (LL_lock (if g_mode s = 1 then LP_raw else LP_off), s\<lparr>g_low_unlocked := 0\<rparr>)"
| "preempt_low_thread cfg A (LL_lock lp) s = takes_preempt cfg LL_lock LL_mark lp s"
| "preempt_low_thread cfg A LL_mark s = Some (LL_locked, s\<lparr>g_low_locked := 1\<rparr>)"
| "preempt_low_thread cfg A LL_locked s = Some (LL_up, lsay ''[lock-lab] L locked'' s)"
| "preempt_low_thread cfg A LL_up s = lcalls (sem_up cfg (g_preempt_start A)) LL_t0 s"
| "preempt_low_thread cfg A LL_t0 s = Some (LL_hold, s\<lparr>low_t0 := ticks (cpu (lb s))\<rparr>)"
| "preempt_low_thread cfg A LL_hold s =
     Some (if ticks (cpu (lb s)) - low_t0 s < 10 then LL_hold else LL_unlocking, s)"
| "preempt_low_thread cfg A LL_unlocking s = Some (LL_unlock, lsay ''[lock-lab] L unlocking'' s)"
| "preempt_low_thread cfg A LL_unlock s =
     Some (if g_mode s = 1 then LL_unmark else LL_enable, s\<lparr>g_preempt_lock := 0\<rparr>)"
| "preempt_low_thread cfg A LL_enable s = lcalls (preempt_enable cfg KResched) LL_unmark s"
| "preempt_low_thread cfg A LL_unmark s = Some (LL_unlocked, s\<lparr>g_low_unlocked := 1\<rparr>)"
| "preempt_low_thread cfg A LL_unlocked s = Some (LL_yield, lsay ''[lock-lab] L unlocked'' s)"
| "preempt_low_thread cfg A LL_yield s = lcalls (thread_yield cfg) LL_halt s"
| "preempt_low_thread cfg A LL_halt s = Some (LL_halt, s)"

fun preempt_high_thread :: "kconfig \<Rightarrow> lock_syms \<Rightarrow> lock_high_pc \<Rightarrow> lock_lab \<Rightarrow> (lock_high_pc \<times> lock_lab) option" where
  "preempt_high_thread cfg A LH_start s = Some (LH_down, lsay ''[lock-lab] H start'' s)"
| "preempt_high_thread cfg A LH_down s = lcalls (sem_down cfg (g_preempt_start A)) LH_locking s"
| "preempt_high_thread cfg A LH_locking s = Some (LH_begin, lsay ''[lock-lab] H lock...'' s)"
| "preempt_high_thread cfg A LH_begin s = Some (LH_tick, s\<lparr>g_high_started := 1\<rparr>)"
| "preempt_high_thread cfg A LH_tick s =
     Some (LH_lock (if g_mode s = 1 then LP_raw else LP_off), s\<lparr>g_high_start_tick := ticks (cpu (lb s))\<rparr>)"
| "preempt_high_thread cfg A (LH_lock lp) s = takes_preempt cfg LH_lock LH_mark lp s"
| "preempt_high_thread cfg A LH_mark s = Some (LH_acquired, s\<lparr>g_high_acquired := 1\<rparr>)"
| "preempt_high_thread cfg A LH_acquired s = Some (LH_unlock, lsay ''[lock-lab] H acquired'' s)"
| "preempt_high_thread cfg A LH_unlock s =
     Some (if g_mode s = 1 then LH_result else LH_enable, s\<lparr>g_preempt_lock := 0\<rparr>)"
| "preempt_high_thread cfg A LH_enable s = lcalls (preempt_enable cfg KResched) LH_result s"
| "preempt_high_thread cfg A LH_result s =
     Some (LH_halt, lsay (if g_mode s = 2 then ''[lock-lab] result PASS''
                           else ''[lock-lab] BUG: raw spinlock unexpectedly made progress'') s)"
| "preempt_high_thread cfg A LH_halt s = Some (LH_halt, s)"

text \<open>\<^verbatim>\<open>spin_lock_irqsave\<close>: \<open>LI_save\<close>, \<open>LI_raw\<close>, \<open>LI_off\<close>; \<^verbatim>\<open>spin_unlock_irqrestore\<close>: \<open>LI_unlock\<close>, \<open>LI_restore\<close>, \<open>LI_enable\<close>.\<close>

definition set_daif :: "u64 \<Rightarrow> kstate \<Rightarrow> kstate" where
  "set_daif v k = k\<lparr>regs := (regs k)\<lparr>r_daif := v\<rparr>\<rparr>"

fun irq_worker_thread :: "kconfig \<Rightarrow> irq_worker_pc \<Rightarrow> lock_lab \<Rightarrow> (irq_worker_pc \<times> lock_lab) option" where
  "irq_worker_thread cfg LI_start s =
     Some (if g_mode s = 3 then LI_lock LP_off else if g_mode s = 4 then LI_save else LI_unknown,
           lsay ''[lock-lab] irq-worker start'' s)"
| "irq_worker_thread cfg (LI_lock lp) s = takes_irq cfg LI_lock LI_mark3 lp s"
| "irq_worker_thread cfg LI_mark3 s = Some (LI_say3, s\<lparr>g_irq_worker_holding := 1\<rparr>)"
| "irq_worker_thread cfg LI_say3 s = Some (LI_spin, lsay ''[lock-lab] irq-worker locked (no irqsave)'' s)"
| "irq_worker_thread cfg LI_spin s = Some (LI_spin, s)"
| "irq_worker_thread cfg LI_save s =
     Some (LI_raw, s\<lparr>irq_flags := r_daif (regs (lb s)), lb := set_daif (r_daif (regs (lb s)) OR 0x80) (lb s)\<rparr>)"
| "irq_worker_thread cfg LI_raw s = takes_irq cfg (\<lambda>_. LI_raw) LI_off LP_raw s"
| "irq_worker_thread cfg LI_off s = Some (LI_mark4, s\<lparr>lb := preempt_disable (lb s)\<rparr>)"
| "irq_worker_thread cfg LI_mark4 s = Some (LI_say4, s\<lparr>g_irq_worker_holding := 1\<rparr>)"
| "irq_worker_thread cfg LI_say4 s = Some (LI_unlock, lsay ''[lock-lab] irq-worker locked (irqsave)'' s)"
| "irq_worker_thread cfg LI_unlock s = Some (LI_restore, s\<lparr>g_irq_lock := 0\<rparr>)"
| "irq_worker_thread cfg LI_restore s = Some (LI_enable, s\<lparr>lb := set_daif (irq_flags s) (lb s)\<rparr>)"
| "irq_worker_thread cfg LI_enable s = lcalls (preempt_enable cfg KResched) LI_unmark s"
| "irq_worker_thread cfg LI_unmark s = Some (LI_unlocked, s\<lparr>g_irq_worker_holding := 0\<rparr>)"
| "irq_worker_thread cfg LI_unlocked s = Some (LI_wait, lsay ''[lock-lab] irq-worker unlocked (irqsave)'' s)"
| "irq_worker_thread cfg LI_wait s = Some (if g_irq_isr_acquired s = 0 then LI_wait else LI_pass, s)"
| "irq_worker_thread cfg LI_pass s = Some (LI_halt, lsay ''[lock-lab] irqsave result PASS'' s)"
| "irq_worker_thread cfg LI_unknown s = Some (LI_halt, lsay ''[lock-lab] unknown mode'' s)"
| "irq_worker_thread cfg LI_halt s = Some (LI_halt, s)"

section \<open>The timer interrupt's part\<close>

text \<open>\<^verbatim>\<open>raw_spin_lock\<close> inside the handler.\<close>

definition irq_raw_spin_lock :: "lock_lab \<Rightarrow> lock_lab" where
  "irq_raw_spin_lock s = (if g_irq_lock s = 0 then s\<lparr>g_irq_lock := 1\<rparr> else s\<lparr>irq_hung := True\<rparr>)"

definition lock_lab_irq_tick :: "lock_lab \<Rightarrow> lock_lab" where
  "lock_lab_irq_tick s =
     (if g_mode s = 1 then
        if g_deadlock_reported s \<noteq> 0 then s
        else if g_low_locked s = 0 \<or> g_low_unlocked s \<noteq> 0 then s
        else if g_high_started s = 0 \<or> g_high_acquired s \<noteq> 0 then s
        else let now = ticks (cpu (lb s));
                 start = g_high_start_tick s;
                 (start, s) = (if start = 0 then (now, s\<lparr>g_high_start_tick := now\<rparr>) else (start, s))
             in if now - start \<ge> kDeadlockDetectTicks
                then lsay ''[lock-lab] raw deadlock observed'' (s\<lparr>g_deadlock_reported := 1\<rparr>)
                else s
      else if g_mode s = 3 then
        if g_irq_deadlock_reported s \<noteq> 0 then s
        else if g_irq_worker_holding s = 0 then s
        else irq_raw_spin_lock (lsay ''[lock-lab] irq reentrancy deadlock observed (missing irqsave)''
               (s\<lparr>g_irq_deadlock_reported := 1\<rparr>))
      else if g_mode s = 4 then
        if g_irq_isr_acquired s \<noteq> 0 then s
        else if g_irq_worker_holding s \<noteq> 0 then s
        else let s = irq_raw_spin_lock s
             in if irq_hung s then s else s\<lparr>g_irq_lock := 0, g_irq_isr_acquired := 1\<rparr>
      else s)"

section \<open>Set-up\<close>

definition lock_create :: "mmu_layout \<Rightarrow> addr \<Rightarrow> addr \<Rightarrow> int \<Rightarrow> lock_lab_pc \<Rightarrow> mmu \<times> lock_lab \<Rightarrow> (addr \<times> mmu \<times> lock_lab) option" where
  "lock_create L tr entryp prio pc = (\<lambda>(mst, s). do {
     (t, e) \<leftarrow> thread_create_prio L tr entryp NULL (16 * 1024) prio \<lparr>ks = lb s, ms = mst\<rparr>;
     Some (t, ms e, s\<lparr>lb := ks e, lpc := (if t = NULL then lpc s else (lpc s)(t := pc))\<rparr>)
   })"

definition lock_add :: "addr \<Rightarrow> lock_lab \<Rightarrow> lock_lab option" where
  "lock_add t s = do { k \<leftarrow> sched_add t (lb s); Some (s\<lparr>lb := k\<rparr>) }"

text \<open>The globals as \<^verbatim>\<open>lock_lab_setup\<close> leaves them before it creates threads.\<close>

definition lock_lab_reset :: "lock_syms \<Rightarrow> u32 \<Rightarrow> lock_lab \<Rightarrow> lock_lab" where
  "lock_lab_reset A mode s =
     (let s = s\<lparr>g_mode := mode\<rparr>;
          s = lsay ''[lock-lab] setup'' s;
          s = lsay (''[lock-lab] mode='' @ uart_print_u64 (ucast mode)) s;
          s = s\<lparr>g_preempt_lock := 0\<rparr>;
          s = s\<lparr>lb := sem_init (g_preempt_start A) 0 (lb s)\<rparr>;
          s = s\<lparr>g_low_locked := 0, g_low_unlocked := 0, g_high_started := 0, g_high_acquired := 0, g_high_start_tick := 0,
                g_deadlock_reported := 0\<rparr>
      in s\<lparr>g_irq_lock := 0, g_irq_worker_holding := 0, g_irq_isr_acquired := 0, g_irq_deadlock_reported := 0\<rparr>)"

definition lock_lab_setup ::
  "mmu_layout \<Rightarrow> addr \<Rightarrow> lock_syms \<Rightarrow> u32 \<Rightarrow> mmu \<times> lock_lab \<Rightarrow> (mmu \<times> lock_lab) option" where
  "lock_lab_setup L tr A mode = (\<lambda>(mst, s).
     let s = lock_lab_reset A mode s in
     if mode = 1 \<or> mode = 2 then do {
       (l, mst, s) \<leftarrow> lock_create L tr (f_preempt_low_thread A) 5 (LLow LL_start) (mst, s);
       (h, mst, s) \<leftarrow> lock_create L tr (f_preempt_high_thread A) 20 (LHigh LH_start) (mst, s);
       if l = NULL \<or> h = NULL then None
       else do {
         s \<leftarrow> lock_add l s;
         s \<leftarrow> lock_add h s;
         Some (mst, s)
       }
     }
     else if mode = 3 \<or> mode = 4 then do {
       (w, mst, s) \<leftarrow> lock_create L tr (f_irq_worker_thread A) 10 (LWork LI_start) (mst, s);
       if w = NULL then None
       else do {
         s \<leftarrow> lock_add w s;
         Some (mst, s)
       }
     }
     else None)"

section \<open>Runs\<close>

definition lgoes :: "('p \<Rightarrow> lock_lab_pc) \<Rightarrow> addr \<Rightarrow> ('p \<times> lock_lab) option \<Rightarrow> lock_lab option" where
  "lgoes C t r = map_option (\<lambda>(pc, s). s\<lparr>lpc := (lpc s)(t := C pc)\<rparr>) r"

definition lock_exec :: "kconfig \<Rightarrow> lock_syms \<Rightarrow> lock_lab \<Rightarrow> lock_lab option" where
  "lock_exec cfg A s =
     (let t = cur_thread (lb s) in
      if t = NULL then None
      else case lpc s t of
        LNone \<Rightarrow> None
      | LLow pc \<Rightarrow> lgoes LLow t (preempt_low_thread cfg A pc s)
      | LHigh pc \<Rightarrow> lgoes LHigh t (preempt_high_thread cfg A pc s)
      | LWork pc \<Rightarrow> lgoes LWork t (irq_worker_thread cfg pc s))"

text \<open>The timer interrupt up to and with the hook of the laboratory.\<close>

definition irq_unmasked :: "lock_lab \<Rightarrow> bool" where
  "irq_unmasked s \<longleftrightarrow> r_daif (regs (lb s)) AND 0x80 = 0"

definition tick_hook :: "lock_lab \<Rightarrow> lock_lab" where
  "tick_hook s = lock_lab_irq_tick (s\<lparr>lb := count_tick (lb s)\<rparr>)"

inductive lock_step :: "kconfig \<Rightarrow> lock_syms \<Rightarrow> lock_lab \<Rightarrow> lock_lab \<Rightarrow> bool" for cfg A where
  lock_runs: "\<not> irq_hung s \<Longrightarrow> lock_exec cfg A s = Some s' \<Longrightarrow> lock_step cfg A s s'"
| lock_irq_hangs: "\<not> irq_hung s \<Longrightarrow> irq_unmasked s \<Longrightarrow> irq_hung (tick_hook s) \<Longrightarrow> lock_step cfg A s (tick_hook s)"
| lock_timer: "\<not> irq_hung s \<Longrightarrow> irq_unmasked s \<Longrightarrow> \<not> irq_hung (tick_hook s) \<Longrightarrow> timer_tail cfg (lb (tick_hook s)) = Some k \<Longrightarrow>
    lock_step cfg A s ((tick_hook s)\<lparr>lb := k\<rparr>)"

inductive_cases lock_stepE: "lock_step cfg A s s'"

end
