(* ===== verification/LockRuns.thy ===== *)
theory LockRuns
  imports LockLab
begin

text \<open>
  The four modes of the lock laboratory, in every run of statements and timer interrupts: a raw spinlock held
  by a preempted thread is never taken (mode 1), the preemption-safe lock is never even contended (mode 2), a lock taken
  without masking interrupts hangs the handler (mode 3), and with masking it never does (mode 4).
\<close>

section \<open>Set-up\<close>

lemma lock_create_effect:
  assumes k: "fresh_kernel (lb s)" and run: "lock_create L tr en prio pc (mst, s) = Some (t, mst', s')" "t \<noteq> NULL"
  shows "fresh_kernel (lb s')" "s' = s\<lparr>lb := lb s', lpc := (lpc s)(t := pc)\<rparr>" "sems (lb s') = sems (lb s)"
    "eff (lb s') u = (if u = t then clamp_priority prio else eff (lb s) u)"
proof -
  obtain e where e: "thread_create_prio L tr en NULL (16 * 1024) prio \<lparr>ks = lb s, ms = mst\<rparr> = Some (t, e)"
    "s' = s\<lparr>lb := ks e, lpc := (lpc s)(t := pc)\<rparr>"
    using run by (auto simp: lock_create_def bind_eq_Some_conv)
  have k': "fresh_kernel (ks \<lparr>ks = lb s, ms = mst\<rparr>)" using k by simp
  show "fresh_kernel (lb s')" "s' = s\<lparr>lb := lb s', lpc := (lpc s)(t := pc)\<rparr>" "sems (lb s') = sems (lb s)"
    "eff (lb s') u = (if u = t then clamp_priority prio else eff (lb s) u)"
    using thread_create_fresh [OF k' e(1) run(2)] e(2) by simp_all
qed

text \<open>What \<^verbatim>\<open>lock_lab_setup\<close> leaves in the globals, in every mode.\<close>

definition globals_reset :: "u32 \<Rightarrow> lock_lab \<Rightarrow> bool" where
  "globals_reset mode s \<longleftrightarrow> g_mode s = mode \<and> g_preempt_lock s = 0 \<and> g_low_locked s = 0 \<and> g_low_unlocked s = 0 \<and>
     g_high_started s = 0 \<and> g_high_acquired s = 0 \<and> g_high_start_tick s = 0 \<and> g_deadlock_reported s = 0 \<and> g_irq_lock s = 0 \<and>
     g_irq_worker_holding s = 0 \<and> g_irq_isr_acquired s = 0 \<and> g_irq_deadlock_reported s = 0"

lemma lock_lab_reset_effect:
  assumes k: "fresh_kernel (lb s)"
  shows "globals_reset mode (lock_lab_reset A mode s)" "fresh_kernel (lb (lock_lab_reset A mode s))"
    "lpc (lock_lab_reset A mode s) = lpc s" "irq_hung (lock_lab_reset A mode s) = irq_hung s"
    "g_preempt_start A \<noteq> NULL \<Longrightarrow> s_count (sems (lb (lock_lab_reset A mode s)) (g_preempt_start A)) = 0"
  using fresh_keeps [OF fresh_keeps(1) [OF fresh_keeps(1) [OF k]]]
  by (simp_all add: globals_reset_def lock_lab_reset_def Let_def lsay_def) (simp add: sem_init_def)

text \<open>After the set-up of modes 1 and 2 and \<^verbatim>\<open>sched_start\<close>, H runs and L is queued.\<close>

definition two_threads :: "lock_syms \<Rightarrow> addr \<Rightarrow> addr \<Rightarrow> lock_lab \<Rightarrow> bool" where
  "two_threads A l h s \<longleftrightarrow> l \<noteq> h \<and> l \<noteq> NULL \<and> h \<noteq> NULL \<and> (\<forall>t. t \<noteq> l \<and> t \<noteq> h \<longrightarrow> lpc s t = LNone) \<and>
     \<not> irq_hung s"

lemma lock_setup_two:
  assumes k: "fresh_kernel (lb s0)" "lpc s0 = (\<lambda>_. LNone)" "\<not> irq_hung s0" and A: "g_preempt_start A \<noteq> NULL" and p: "policy cfg = PRIO"
    and m: "mode = 1 \<or> mode = 2"
    and run: "lock_lab_setup L tr A mode (mst, s0) = Some (mst', s1)" "sched_start cfg (lb s1) = Some k1"
    and t: "lpc s1 l = LLow LL_start" "lpc s1 h = LHigh LH_start"
  shows "two_threads A l h s1" "globals_reset mode s1" "\<exists>xs Own. at_rest 0 k1 xs Own (\<lambda>_. []) \<and> set xs = {l, h}" "cur_thread k1 = h"
    "eff k1 l < eff k1 h" "s_count (sems k1 (g_preempt_start A)) = 0"
proof -
  define sa where "sa = lock_lab_reset A mode s0"
  note ra = lock_lab_reset_effect [OF k(1), where mode = mode and A = A, folded sa_def]
  obtain l' m1 s2 h' m2 s3 s4 where c:
    "lock_create L tr (f_preempt_low_thread A) 5 (LLow LL_start) (mst, sa) = Some (l', m1, s2)"
    "lock_create L tr (f_preempt_high_thread A) 20 (LHigh LH_start) (m1, s2) = Some (h', m2, s3)"
    "l' \<noteq> NULL" "h' \<noteq> NULL" "lock_add l' s3 = Some s4" "lock_add h' s4 = Some s1"
    using run(1) m unfolding lock_lab_setup_def sa_def [symmetric] Let_def by (auto simp: bind_eq_Some_conv sa_def split: if_splits)
  note e1 = lock_create_effect [OF ra(2) c(1,3)]
  note e2 = lock_create_effect [OF e1(1) c(2,4)]
  have s3: "lpc s3 = (\<lambda>_. LNone)(l' := LLow LL_start, h' := LHigh LH_start)" "globals_reset mode s3" "irq_hung s3 = irq_hung s0"
  proof -
    obtain k2 k3 where "s2 = sa\<lparr>lb := k2, lpc := (lpc sa)(l' := LLow LL_start)\<rparr>" "s3 = s2\<lparr>lb := k3, lpc := (lpc s2)(h' := LHigh LH_start)\<rparr>"
      using e1(2) e2(2) by blast
    then show "lpc s3 = (\<lambda>_. LNone)(l' := LLow LL_start, h' := LHigh LH_start)" "globals_reset mode s3" "irq_hung s3 = irq_hung s0"
      using ra k(2) by (simp_all add: globals_reset_def)
  qed
  have n3: "s_count (sems (lb s3) (g_preempt_start A)) = 0" using e1(3) e2(3) ra(5) [OF A] by simp
  obtain ka kb where ad: "sched_add l' (lb s3) = Some ka" "sched_add h' ka = Some kb" "s1 = s3\<lparr>lb := kb\<rparr>"
    using c(5,6) by (auto simp: lock_add_def bind_eq_Some_conv)
  have ids: "l' = l" "h' = h" "l \<noteq> h" using t s3(1) ad(3) by (auto split: if_splits)
  show "two_threads A l h s1" using ids c(3,4) s3 k(3) ad(3) by (simp add: two_threads_def)
  show "globals_reset mode s1" using s3(2) ad(3) by (simp add: globals_reset_def)
  have st: "t_state (thr (lb s3) t) = kThreadReady" for t by (rule fresh_kernelD(5) [OF e2(1)])
  note a1 = sched_add_queues [OF fresh_kernelD(1) [OF e2(1)] c(3) _ st ad(1)]
  have "sync_ok ka [l] (\<lambda>_. []) (\<lambda>_. [])" "t_state (thr ka h') = kThreadReady" "h' \<notin> set [l]"
    using a1 st sched_only_owner(2) [of "lb s3" ka] ids by auto
  note a2 = sched_add_queues [OF this(1) c(4) this(3,2) ad(2)]
  have ok: "sync_ok (lb s1) [l, h] (\<lambda>_. []) (\<lambda>_. [])" and o: "sched_only (lb s3) (lb s1)" and cp: "cpu (lb s1) = cpu (lb s3)"
    using a1 a2 ids ad(3) by (simp_all add: sched_only_def)
  have n0: "preempt_cnt (cpu (lb s1)) = 0" "irq_depth (cpu (lb s1)) = 0" using cp e2(1) by (simp_all add: fresh_kernel_def)
  have "[l, h] \<noteq> []" by simp
  note g = sched_start_rests [OF ok p this n0 run(2)]
  note eo = sched_only_owner [OF o] sched_only_owner [OF g(2)]
  have ef: "eff k1 l = 5" "eff k1 h = 20"
    using eo e1(4) e2(4) ids by (auto simp: clamp_priority_def kMaxPriority_def)
  then show "eff k1 l < eff k1 h" by simp
  show "cur_thread k1 = h" using g(1,3) ef by (auto simp: at_rest_def)
  show "\<exists>xs Own. at_rest 0 k1 xs Own (\<lambda>_. []) \<and> set xs = {l, h}"
    using g(1) by (intro exI [of _ "[l, h]"] exI [of _ "\<lambda>_. []"]) simp
  show "s_count (sems k1 (g_preempt_start A)) = 0" using eo n3 by simp
qed

section \<open>Steps\<close>

lemma lock_exec_step:
  assumes "lock_exec cfg A s = Some s'" "cur_thread (lb s) = t" "t \<noteq> NULL"
  shows "lpc s t = LLow pc \<Longrightarrow> \<exists>pc' u. preempt_low_thread cfg A pc s = Some (pc', u) \<and> s' = u\<lparr>lpc := (lpc u)(t := LLow pc')\<rparr>"
    "lpc s t = LHigh hpc \<Longrightarrow> \<exists>pc' u. preempt_high_thread cfg A hpc s = Some (pc', u) \<and> s' = u\<lparr>lpc := (lpc u)(t := LHigh pc')\<rparr>"
    "lpc s t = LWork wpc \<Longrightarrow> \<exists>pc' u. irq_worker_thread cfg wpc s = Some (pc', u) \<and> s' = u\<lparr>lpc := (lpc u)(t := LWork pc')\<rparr>"
  using assms by (auto simp: lock_exec_def Let_def lgoes_def)

lemmas lock_statement_simps = lsay_def lcalls_def takes_preempt_def takes_irq_def bind_eq_Some_conv Let_def

text \<open>The timer interrupt in modes 1 and 2.\<close>

lemma tick_hook_1:
  assumes "g_mode s = 1"
  shows "g_mode (tick_hook s) = 1" "g_preempt_lock (tick_hook s) = g_preempt_lock s" "g_low_locked (tick_hook s) = g_low_locked s"
    "g_low_unlocked (tick_hook s) = g_low_unlocked s" "g_high_started (tick_hook s) = g_high_started s"
    "g_high_acquired (tick_hook s) = g_high_acquired s" "lpc (tick_hook s) = lpc s" "irq_hung (tick_hook s) = irq_hung s"
    "lb (tick_hook s) = count_tick (lb s) \<or> lb (tick_hook s) = kputs (''[lock-lab] raw deadlock observed'' @ [newline]) (count_tick (lb s))"
  using assms by (simp_all add: tick_hook_def lock_lab_irq_tick_def lsay_def Let_def)

lemma tick_hook_2: "g_mode s = 2 \<Longrightarrow> tick_hook s = s\<lparr>lb := count_tick (lb s)\<rparr>"
  by (simp add: tick_hook_def lock_lab_irq_tick_def)

lemma tick_hook_frame:
  assumes m: "g_mode s = 1 \<or> g_mode s = 2"
  shows "g_mode (tick_hook s) = g_mode s" "g_preempt_lock (tick_hook s) = g_preempt_lock s" "g_low_locked (tick_hook s) = g_low_locked s"
    "g_low_unlocked (tick_hook s) = g_low_unlocked s" "g_high_started (tick_hook s) = g_high_started s"
    "g_high_acquired (tick_hook s) = g_high_acquired s" "lpc (tick_hook s) = lpc s" "irq_hung (tick_hook s) = irq_hung s"
  using m by (auto simp: tick_hook_1 tick_hook_2)

lemma tick_hook_lb:
  assumes m: "g_mode s = 1 \<or> g_mode s = 2"
  obtains (quiet) "lb (tick_hook s) = count_tick (lb s)" | (said) w where "lb (tick_hook s) = kputs w (count_tick (lb s))"
proof (cases "g_mode s = 1")
  case True
  then show thesis using tick_hook_1(9) [OF True] quiet said by blast
next
  case False
  then have "g_mode s = 2" using m by blast
  then show thesis using tick_hook_2 [of s] by (intro quiet) simp
qed

lemma count_tick_simps [simp]: "cur_thread (count_tick k) = cur_thread k" "eff (count_tick k) t = eff k t" "sems (count_tick k) = sems k"
  "ticks (cpu (count_tick k)) = ticks (cpu k) + 1"
  by (simp_all add: count_tick_def)

lemma timer_step_preempt:
  assumes m: "g_mode s = 1 \<or> g_mode s = 2" and r: "at_rest n (lb s) xs Own Q" and p: "policy cfg = PRIO"
    and run: "timer_tail cfg (lb (tick_hook s)) = Some k"
  shows "at_rest n k xs Own Q" "\<And>t. eff k t = eff (lb s) t" "sems k = sems (lb s)" "runs_top k xs (cur_thread (lb s))"
    "n \<noteq> 0 \<Longrightarrow> cur_thread k = cur_thread (lb s)" "ticks (cpu k) = ticks (cpu (lb (tick_hook s)))"
proof -
  let ?k = "lb (tick_hook s)"
  have k0: "at_rest n ?k xs Own Q" "cur_thread ?k = cur_thread (lb s)" "\<And>t. eff ?k t = eff (lb s) t" "sems ?k = sems (lb s)"
    by (rule tick_hook_lb [OF m]; use r in simp)+
  note T = timer_tail_keeps [OF k0(1) p run]
  show "at_rest n k xs Own Q" "\<And>t. eff k t = eff (lb s) t" "sems k = sems (lb s)" "runs_top k xs (cur_thread (lb s))"
    "n \<noteq> 0 \<Longrightarrow> cur_thread k = cur_thread (lb s)" "ticks (cpu k) = ticks (cpu (lb (tick_hook s)))"
    using T k0 sched_only_owner [OF T(2)] by simp_all
qed

section \<open>Mode 1: the raw spinlock\<close>

text \<open>
  Phase 1: H runs until it blocks on the semaphore. Phase 2: L takes the lock and wakes H. Phase 3, for ever: H
  waits for the lock, and L, of lower priority, never runs again.
\<close>

definition raw1 :: "lock_syms \<Rightarrow> addr \<Rightarrow> addr \<Rightarrow> lock_lab \<Rightarrow> bool" where
  "raw1 A l h s \<longleftrightarrow> (\<exists>xs Own. at_rest 0 (lb s) xs Own (\<lambda>_. []) \<and> set xs = {l, h}) \<and> cur_thread (lb s) = h \<and>
     s_count (sems (lb s) (g_preempt_start A)) = 0 \<and> g_preempt_lock s = 0 \<and> g_high_started s = 0 \<and>
     lpc s l = LLow LL_start \<and> lpc s h \<in> {LHigh LH_start, LHigh LH_down}"

definition raw2_pc :: "lock_lab \<Rightarrow> lock_low_pc \<Rightarrow> bool" where
  "raw2_pc s pc \<longleftrightarrow> pc \<in> {LL_start, LL_clear1, LL_clear2, LL_lock LP_raw} \<and> g_preempt_lock s = 0 \<or>
     pc \<in> {LL_mark, LL_locked, LL_up} \<and> g_preempt_lock s = 1 \<and> (pc \<noteq> LL_mark \<longrightarrow> g_low_locked s = 1)"

definition raw2 :: "lock_syms \<Rightarrow> addr \<Rightarrow> addr \<Rightarrow> lock_lab \<Rightarrow> bool" where
  "raw2 A l h s \<longleftrightarrow> (\<exists>xs Own. at_rest 0 (lb s) xs Own ((\<lambda>_. [])(Inr (g_preempt_start A) := [h])) \<and> set xs = {l}) \<and>
     s_count (sems (lb s) (g_preempt_start A)) < 0 \<and> g_high_started s = 0 \<and>
     (\<exists>pc. lpc s l = LLow pc \<and> raw2_pc s pc) \<and> lpc s h = LHigh LH_locking"

definition raw3 :: "lock_syms \<Rightarrow> addr \<Rightarrow> addr \<Rightarrow> lock_lab \<Rightarrow> bool" where
  "raw3 A l h s \<longleftrightarrow> (\<exists>xs Own. at_rest 0 (lb s) xs Own (\<lambda>_. []) \<and> set xs = {l, h}) \<and> cur_thread (lb s) = h \<and>
     g_preempt_lock s = 1 \<and> g_low_locked s = 1 \<and> lpc s l = LLow LL_t0 \<and>
     (lpc s h \<in> {LHigh LH_locking, LHigh LH_begin} \<or> lpc s h = LHigh LH_tick \<and> g_high_started s = 1 \<or>
      lpc s h = LHigh (LH_lock LP_raw) \<and> g_high_started s = 1 \<and>
        (ticks (cpu (lb s)) - g_high_start_tick s \<ge> kDeadlockDetectTicks \<longrightarrow> g_deadlock_reported s \<noteq> 0))"

definition raw_inv :: "lock_syms \<Rightarrow> addr \<Rightarrow> addr \<Rightarrow> lock_lab \<Rightarrow> bool" where
  "raw_inv A l h s \<longleftrightarrow> two_threads A l h s \<and> g_mode s = 1 \<and> g_low_unlocked s = 0 \<and> g_high_acquired s = 0 \<and>
     eff (lb s) l < eff (lb s) h \<and> (raw1 A l h s \<or> raw2 A l h s \<or> raw3 A l h s)"

text \<open>The hook reports a wait of 40 ticks.\<close>

lemma tick_hook_reports:
  assumes "g_mode s = 1" "g_low_locked s = 1" "g_low_unlocked s = 0" "g_high_started s = 1" "g_high_acquired s = 0"
  shows "ticks (cpu (lb (tick_hook s))) - g_high_start_tick (tick_hook s) \<ge> kDeadlockDetectTicks \<longrightarrow> g_deadlock_reported (tick_hook s) \<noteq> 0"
  using assms by (simp add: tick_hook_def lock_lab_irq_tick_def lsay_def Let_def kDeadlockDetectTicks_def)

lemma raw_timer:
  assumes i: "raw_inv A l h s" and p: "policy cfg = PRIO" and run: "timer_tail cfg (lb (tick_hook s)) = Some k"
  shows "raw_inv A l h ((tick_hook s)\<lparr>lb := k\<rparr>)"
proof -
  have m: "g_mode s = 1" "g_mode s = 1 \<or> g_mode s = 2" using i by (simp_all add: raw_inv_def)
  note F = tick_hook_frame [OF m(2)]
  have e: "eff (lb s) l < eff (lb s) h" "l \<noteq> h" using i by (simp_all add: raw_inv_def two_threads_def)
  from i consider "raw1 A l h s" | "raw2 A l h s" | "raw3 A l h s" unfolding raw_inv_def by blast
  then have "(raw1 A l h ((tick_hook s)\<lparr>lb := k\<rparr>) \<or> raw2 A l h ((tick_hook s)\<lparr>lb := k\<rparr>) \<or> raw3 A l h ((tick_hook s)\<lparr>lb := k\<rparr>)) \<and>
    (\<forall>t. eff k t = eff (lb s) t)"
  proof cases
    case 1
    then obtain xs Own where r: "at_rest 0 (lb s) xs Own (\<lambda>_. [])" "set xs = {l, h}" unfolding raw1_def by blast
    note T = timer_step_preempt [OF m(2) r(1) p run]
    have "cur_thread k = h" using T(4) at_restD(6) [OF T(1)] r(2) e T(2) 1 by (auto simp: runs_top_def raw1_def)
    then have "raw1 A l h ((tick_hook s)\<lparr>lb := k\<rparr>)" using 1 T(1,3) r(2) F unfolding raw1_def by auto
    then show ?thesis using T(2) by blast
  next
    case 2
    then obtain xs Own where r: "at_rest 0 (lb s) xs Own ((\<lambda>_. [])(Inr (g_preempt_start A) := [h]))" "set xs = {l}"
      unfolding raw2_def by blast
    note T = timer_step_preempt [OF m(2) r(1) p run]
    have "raw2 A l h ((tick_hook s)\<lparr>lb := k\<rparr>)" using 2 T(1,3) r(2) F unfolding raw2_def raw2_pc_def by auto
    then show ?thesis using T(2) by blast
  next
    case 3
    then obtain xs Own where r: "at_rest 0 (lb s) xs Own (\<lambda>_. [])" "set xs = {l, h}" unfolding raw3_def by blast
    note T = timer_step_preempt [OF m(2) r(1) p run]
    have "cur_thread k = h" using T(4) at_restD(6) [OF T(1)] r(2) e T(2) 3 by (auto simp: runs_top_def raw3_def)
    moreover have "g_high_started s = 1 \<longrightarrow> ticks (cpu k) - g_high_start_tick (tick_hook s) \<ge> kDeadlockDetectTicks \<longrightarrow>
        g_deadlock_reported (tick_hook s) \<noteq> 0"
      using tick_hook_reports [OF m(1)] i 3 T(6) by (simp add: raw_inv_def raw3_def)
    ultimately have "raw3 A l h ((tick_hook s)\<lparr>lb := k\<rparr>)" using 3 T(1) r(2) F unfolding raw3_def by auto
    then show ?thesis using T(2) by blast
  qed
  then show ?thesis using i F by (simp add: raw_inv_def two_threads_def)
qed

lemma lsay_simps [simp]: "lb (lsay w s) = kputs (w @ [newline]) (lb s)" "lpc (lsay w s) = lpc s" "g_mode (lsay w s) = g_mode s"
  "g_preempt_lock (lsay w s) = g_preempt_lock s" "g_low_locked (lsay w s) = g_low_locked s" "g_low_unlocked (lsay w s) = g_low_unlocked s"
  "g_high_started (lsay w s) = g_high_started s" "g_high_acquired (lsay w s) = g_high_acquired s" "irq_hung (lsay w s) = irq_hung s"
  "g_high_start_tick (lsay w s) = g_high_start_tick s" "g_deadlock_reported (lsay w s) = g_deadlock_reported s"
  "g_irq_lock (lsay w s) = g_irq_lock s" "g_irq_worker_holding (lsay w s) = g_irq_worker_holding s"
  "g_irq_isr_acquired (lsay w s) = g_irq_isr_acquired s" "g_irq_deadlock_reported (lsay w s) = g_irq_deadlock_reported s"
  "irq_flags (lsay w s) = irq_flags s"
  by (simp_all add: lsay_def)

lemma raw1_exec:
  assumes i: "raw_inv A l h s" "raw1 A l h s" and p: "policy cfg = PRIO" and A: "g_preempt_start A \<noteq> NULL" and run: "lock_exec cfg A s = Some s'"
  shows "raw_inv A l h s'"
proof -
  obtain xs Own where r: "at_rest 0 (lb s) xs Own (\<lambda>_. [])" "set xs = {l, h}" and c: "cur_thread (lb s) = h"
    and z: "s_count (sems (lb s) (g_preempt_start A)) = 0" "g_preempt_lock s = 0" "g_high_started s = 0" "lpc s l = LLow LL_start"
    and pc: "lpc s h = LHigh LH_start \<or> lpc s h = LHigh LH_down" using i(2) unfolding raw1_def by blast
  have d: "l \<noteq> h" "h \<noteq> NULL" using i(1) by (simp_all add: raw_inv_def two_threads_def)
  from pc show ?thesis
  proof
    assume pch: "lpc s h = LHigh LH_start"
    then have s': "s' = (lsay ''[lock-lab] H start'' s)\<lparr>lpc := (lpc s)(h := LHigh LH_down)\<rparr>"
      using lock_exec_step(2) [OF run c d(2) pch] by auto
    have "raw1 A l h s'" using r c z d unfolding raw1_def s' by auto
    then show ?thesis using i(1) d by (simp add: raw_inv_def s' two_threads_def)
  next
    assume pch: "lpc s h = LHigh LH_down"
    then obtain k where k: "sem_down cfg (g_preempt_start A) (lb s) = Some k" "s' = s\<lparr>lb := k, lpc := (lpc s)(h := LHigh LH_locking)\<rparr>"
      using lock_exec_step(2) [OF run c d(2) pch] by (auto simp: lock_statement_simps)
    have "distinct xs" using sched_invD(1) [OF at_restD(2) [OF r(1)]] by (simp add: rq_inv_def)
    then have sx: "set (remove1 h xs) = {l}" using r(2) d by auto
    then have "s_count (sems (lb s) (g_preempt_start A)) \<le> 0" "remove1 h xs \<noteq> []" using z by auto
    note D = sem_down_blocks [OF r(1) p c [symmetric] A this k(1)]
    have "raw2 A l h s'" using D(1,3) sx z d unfolding raw2_def raw2_pc_def k(2) by auto
    then show ?thesis using i(1) d D(5) by (simp add: raw_inv_def k(2) two_threads_def)
  qed
qed

lemma raw2_exec:
  assumes i: "raw_inv A l h s" "raw2 A l h s" and p: "policy cfg = PRIO" and A: "g_preempt_start A \<noteq> NULL" and run: "lock_exec cfg A s = Some s'"
  shows "raw_inv A l h s'"
proof -
  let ?Q = "(\<lambda>_. [])(Inr (g_preempt_start A) := [h])"
  obtain xs Own pc where r: "at_rest 0 (lb s) xs Own ?Q" "set xs = {l}" and z: "s_count (sems (lb s) (g_preempt_start A)) < 0"
    "g_high_started s = 0" "lpc s h = LHigh LH_locking" and pc: "lpc s l = LLow pc" "raw2_pc s pc" using i(2) unfolding raw2_def by blast
  have d: "l \<noteq> h" "l \<noteq> NULL" "g_mode s = 1" "eff (lb s) l < eff (lb s) h" using i(1) by (simp_all add: raw_inv_def two_threads_def)
  have c: "cur_thread (lb s) = l" using at_restD(6) [OF r(1)] r(2) by simp
  obtain pc' u where u: "preempt_low_thread cfg A pc s = Some (pc', u)" "s' = u\<lparr>lpc := (lpc u)(l := LLow pc')\<rparr>"
    using lock_exec_step(1) [OF run c d(2) pc(1)] by blast
  show ?thesis
  proof (cases "pc = LL_up")
    case True
    then obtain k where k: "sem_up cfg (g_preempt_start A) (lb s) = Some k" "s' = s\<lparr>lb := k, lpc := (lpc s)(l := LLow LL_t0)\<rparr>"
      using u by (auto simp: lock_statement_simps)
    note W = sem_up_wakes [OF r(1) p c [symmetric] A z(1) _ d(4) k(1)]
    have "cur_thread k = h" using at_restD(6) [OF W(1)] W(2,3) r(2) d(4) by auto
    moreover have "\<exists>xs Own. at_rest 0 k xs Own (\<lambda>_. []) \<and> set xs = {l, h}"
      using W(1) r(2) by (intro exI [of _ "xs @ [h]"] exI [of _ Own]) (simp add: fun_upd_idem insert_commute)
    moreover have "g_preempt_lock s = 1" "g_low_locked s = 1" using pc(2) True by (simp_all add: raw2_pc_def)
    ultimately have "raw3 A l h s'" using z(3) d(1) by (simp add: raw3_def k(2))
    then show ?thesis using i(1) d W(3) by (simp add: raw_inv_def k(2) two_threads_def)
  next
    case False
    have g: "g_low_unlocked s = 0" using i(1) by (simp add: raw_inv_def)
    have "pc \<in> {LL_start, LL_clear1, LL_clear2, LL_lock LP_raw, LL_mark, LL_locked}" using pc(2) False unfolding raw2_pc_def by auto
    then have "at_rest 0 (lb u) xs Own ?Q \<and> sems (lb u) = sems (lb s) \<and> (\<forall>t. eff (lb u) t = eff (lb s) t) \<and> raw2_pc u pc' \<and> lpc u = lpc s \<and>
        g_high_started u = g_high_started s \<and> g_mode u = 1 \<and> g_low_unlocked u = 0 \<and> g_high_acquired u = g_high_acquired s \<and>
        irq_hung u = irq_hung s"
      using u(1) [symmetric] pc(2) d(3) g r(1) by (elim insertE emptyE) (simp_all add: takes_preempt_def raw2_pc_def split: if_splits)
    then have e: "at_rest 0 (lb u) xs Own ?Q" "sems (lb u) = sems (lb s)" "\<And>t. eff (lb u) t = eff (lb s) t" "raw2_pc u pc'" "lpc u = lpc s"
      "g_high_started u = g_high_started s" "g_mode u = 1" "g_low_unlocked u = 0" "g_high_acquired u = g_high_acquired s" "irq_hung u = irq_hung s"
      by blast+
    have "raw2_pc s' pc'" using e(4) by (simp add: u(2) raw2_pc_def)
    then have "raw2 A l h s'" using e r(2) z d unfolding raw2_def by (auto simp: u(2))
    then show ?thesis using i(1) e d by (simp add: raw_inv_def u(2) two_threads_def)
  qed
qed

lemma raw3_exec:
  assumes i: "raw_inv A l h s" "raw3 A l h s" and run: "lock_exec cfg A s = Some s'"
  shows "raw_inv A l h s'"
proof -
  have c: "cur_thread (lb s) = h" and z: "g_preempt_lock s = 1"
    and pc: "lpc s h \<in> LHigh ` {LH_locking, LH_begin, LH_tick, LH_lock LP_raw}" using i(2) unfolding raw3_def by auto
  have d: "l \<noteq> h" "h \<noteq> NULL" "g_mode s = 1" using i(1) by (simp_all add: raw_inv_def two_threads_def)
  obtain hpc where hpc: "lpc s h = LHigh hpc" "hpc \<in> {LH_locking, LH_begin, LH_tick, LH_lock LP_raw}" using pc by auto
  obtain pc' u where u: "preempt_high_thread cfg A hpc s = Some (pc', u)" "s' = u\<lparr>lpc := (lpc u)(h := LHigh pc')\<rparr>"
    using lock_exec_step(2) [OF run c d(2) hpc(1)] by blast
  obtain xs Own where r: "at_rest 0 (lb s) xs Own (\<lambda>_. [])" "set xs = {l, h}" "g_low_locked s = 1" "lpc s l = LLow LL_t0"
    using i(2) unfolding raw3_def by blast
  have g: "g_low_unlocked s = 0" "g_high_acquired s = 0" using i(1) by (simp_all add: raw_inv_def)
  have w: "hpc = LH_lock LP_raw \<longrightarrow> g_high_started s = 1 \<and>
        (ticks (cpu (lb s)) - g_high_start_tick s \<ge> kDeadlockDetectTicks \<longrightarrow> g_deadlock_reported s \<noteq> 0)"
      "hpc = LH_tick \<longrightarrow> g_high_started s = 1" using i(2) hpc unfolding raw3_def by auto
  have k: "kDeadlockDetectTicks \<le> 0 \<longleftrightarrow> False" by (simp add: kDeadlockDetectTicks_def)
  from hpc(2) have "at_rest 0 (lb u) xs Own (\<lambda>_. []) \<and> cur_thread (lb u) = h \<and> g_preempt_lock u = 1 \<and> g_low_locked u = 1 \<and> lpc u = lpc s \<and>
      (pc' \<in> {LH_locking, LH_begin} \<or> pc' = LH_tick \<and> g_high_started u = 1 \<or> pc' = LH_lock LP_raw \<and> g_high_started u = 1 \<and>
        (ticks (cpu (lb u)) - g_high_start_tick u \<ge> kDeadlockDetectTicks \<longrightarrow> g_deadlock_reported u \<noteq> 0)) \<and>
      g_mode u = 1 \<and> g_low_unlocked u = 0 \<and> g_high_acquired u = 0 \<and> (\<forall>t. eff (lb u) t = eff (lb s) t) \<and> irq_hung u = irq_hung s"
    using u(1) [symmetric] z d(3) g r c w k by (elim insertE emptyE) (simp_all add: takes_preempt_def)
  then have "raw3 A l h s'" "g_mode s' = 1 \<and> g_low_unlocked s' = 0 \<and> g_high_acquired s' = 0 \<and> (\<forall>t. eff (lb s') t = eff (lb s) t)"
    "two_threads A l h s'"
    using r(2,4) d i(1) unfolding raw3_def u(2) by (auto simp: raw_inv_def two_threads_def)
  then show ?thesis using i(1) by (simp add: raw_inv_def)
qed

lemma raw_step:
  assumes i: "raw_inv A l h s" and p: "policy cfg = PRIO" and A: "g_preempt_start A \<noteq> NULL" and st: "lock_step cfg A s s'"
  shows "raw_inv A l h s'"
proof (cases rule: lock_stepE [OF st])
  case 1
  from i consider "raw1 A l h s" | "raw2 A l h s" | "raw3 A l h s" unfolding raw_inv_def by blast
  then show ?thesis using raw1_exec [OF i _ p A] raw2_exec [OF i _ p A] raw3_exec [OF i] 1 by metis
next
  case 2
  then show ?thesis using tick_hook_frame(8) [of s] i by (auto simp: raw_inv_def)
next
  case (3 k)
  then show ?thesis using raw_timer [OF i p] by blast
qed

lemma raw_run:
  assumes "(lock_step cfg A)\<^sup>*\<^sup>* s s'" "raw_inv A l h s" "policy cfg = PRIO" "g_preempt_start A \<noteq> NULL"
  shows "raw_inv A l h s'"
  using assms by (induction rule: rtranclp_induct) (auto intro: raw_step)

section \<open>Mode 2: the preemption-safe lock\<close>

text \<open>The points with preemption disabled, and those that hold the lock.\<close>

fun pc_off :: "lock_lab_pc \<Rightarrow> bool" where
  "pc_off (LLow pc) = (pc \<in> {LL_lock LP_try, LL_mark, LL_locked, LL_up, LL_t0, LL_hold, LL_unlocking, LL_unlock, LL_enable})"
| "pc_off (LHigh pc) = (pc \<in> {LH_lock LP_try, LH_mark, LH_acquired, LH_unlock, LH_enable})"
| "pc_off pc = False"

fun pc_holds :: "lock_lab_pc \<Rightarrow> bool" where
  "pc_holds (LLow pc) = (pc \<in> {LL_mark, LL_locked, LL_up, LL_t0, LL_hold, LL_unlocking, LL_unlock})"
| "pc_holds (LHigh pc) = (pc \<in> {LH_mark, LH_acquired, LH_unlock})"
| "pc_holds pc = False"

text \<open>The points that mode 2 never reaches: a failed attempt, and the raw lock.\<close>

fun pc_contended :: "lock_lab_pc \<Rightarrow> bool" where
  "pc_contended (LLow pc) = (pc \<in> LL_lock ` {LP_raw, LP_on, LP_wait})"
| "pc_contended (LHigh pc) = (pc \<in> LH_lock ` {LP_raw, LP_on, LP_wait})"
| "pc_contended pc = False"

definition spin_rest :: "lock_syms \<Rightarrow> addr \<Rightarrow> addr \<Rightarrow> u32 \<Rightarrow> kstate \<Rightarrow> bool" where
  "spin_rest A l h n k \<longleftrightarrow> (\<exists>xs Own ws. at_rest n k xs Own ((\<lambda>_. [])(Inr (g_preempt_start A) := ws)) \<and> l \<in> set xs \<and>
     set xs \<subseteq> {l, h} \<and> set ws \<subseteq> {h})"

definition spin_inv :: "lock_syms \<Rightarrow> addr \<Rightarrow> addr \<Rightarrow> lock_lab \<Rightarrow> bool" where
  "spin_inv A l h s \<longleftrightarrow> two_threads A l h s \<and> g_mode s = 2 \<and> (\<exists>pc. lpc s l = LLow pc) \<and> (\<exists>pc. lpc s h = LHigh pc) \<and>
     \<not> pc_contended (lpc s l) \<and> \<not> pc_contended (lpc s h) \<and>
     spin_rest A l h (if pc_off (lpc s (cur_thread (lb s))) then 1 else 0) (lb s) \<and>
     (\<forall>t. t \<noteq> cur_thread (lb s) \<longrightarrow> \<not> pc_off (lpc s t)) \<and>
     (if pc_holds (lpc s (cur_thread (lb s))) then g_preempt_lock s = 1 else g_preempt_lock s = 0)"

lemma pc_holds_off: "pc_holds p \<Longrightarrow> pc_off p"
  by (cases p) auto

lemma spin_restI:
  "at_rest n k xs Own ((\<lambda>_. [])(Inr (g_preempt_start A) := ws)) \<Longrightarrow> l \<in> set xs \<Longrightarrow> set xs \<subseteq> {l, h} \<Longrightarrow> set ws \<subseteq> {h} \<Longrightarrow> spin_rest A l h n k"
  unfolding spin_rest_def by blast

lemma spin_rest_kernel [simp]:
  "spin_rest A l h n (kputs w k) = spin_rest A l h n k" "spin_rest A l h n (count_tick k) = spin_rest A l h n k"
  by (simp_all add: spin_rest_def)

lemma spin_rest_cur: "spin_rest A l h n k \<Longrightarrow> cur_thread k \<in> {l, h}"
  unfolding spin_rest_def using at_restD(6) by fastforce

text \<open>What the operations of the kernel do to a kernel with these two threads.\<close>

lemma spin_rest_keeps:
  assumes k: "spin_rest A l h n k" and d: "l \<noteq> h" and p: "policy cfg = PRIO" and A: "g_preempt_start A \<noteq> NULL"
  shows "n = 0 \<Longrightarrow> spin_rest A l h 1 (preempt_disable k) \<and> cur_thread (preempt_disable k) = cur_thread k"
    "n = 1 \<Longrightarrow> preempt_enable cfg r k = Some k' \<Longrightarrow> spin_rest A l h 0 k'"
    "n = 0 \<Longrightarrow> cur_thread k = h \<Longrightarrow> sem_down cfg (g_preempt_start A) k = Some k' \<Longrightarrow> spin_rest A l h 0 k'"
    "n = 1 \<Longrightarrow> sem_up cfg (g_preempt_start A) k = Some k' \<Longrightarrow> spin_rest A l h 1 k' \<and> cur_thread k' = cur_thread k"
    "thread_yield cfg k = Some k' \<Longrightarrow> spin_rest A l h n k'"
    "timer_tail cfg k = Some k' \<Longrightarrow> spin_rest A l h n k' \<and> (n \<noteq> 0 \<longrightarrow> cur_thread k' = cur_thread k)"
proof -
  obtain xs Own ws where r: "at_rest n k xs Own ((\<lambda>_. [])(Inr (g_preempt_start A) := ws))" and xs: "l \<in> set xs" "set xs \<subseteq> {l, h}" "set ws \<subseteq> {h}"
    using k unfolding spin_rest_def by blast
  show "spin_rest A l h 1 (preempt_disable k) \<and> cur_thread (preempt_disable k) = cur_thread k" if "n = 0"
    using disable_rest [OF r] xs that by (auto intro: spin_restI simp: preempt_disable_def)
  show "spin_rest A l h 0 k'" if n: "n = 1" and e: "preempt_enable cfg r k = Some k'"
    using enable_rest(1) [OF r [unfolded n] p e] xs by (auto intro: spin_restI)
  show "spin_rest A l h 0 k'" if n: "n = 0" and c: "cur_thread k = h" and e: "sem_down cfg (g_preempt_start A) k = Some k'"
  proof (cases "s_count (sems k (g_preempt_start A)) > 0")
    case True
    show ?thesis using sem_down_passes(1) [OF r [unfolded n] p refl A True e] xs by (auto intro: spin_restI)
  next
    case False
    have m: "distinct xs" using sched_invD(1) [OF at_restD(2) [OF r]] by (simp add: rq_inv_def)
    have "l \<in> set (remove1 h xs)" using xs(1) d by (simp add: in_set_remove1)
    then have ne: "remove1 h xs \<noteq> []" "l \<in> set (remove1 h xs)" by auto
    have "s_count (sems k (g_preempt_start A)) \<le> 0" using False by simp
    note D = sem_down_blocks(1) [OF r [unfolded n] p c [symmetric] A this ne(1) e]
    then have "at_rest 0 k' (remove1 h xs) Own ((\<lambda>_. [])(Inr (g_preempt_start A) := [h]))" by simp
    then show ?thesis by (rule spin_restI) (use xs ne m in auto)
  qed
  show "spin_rest A l h 1 k' \<and> cur_thread k' = cur_thread k" if n: "n = 1" and e: "sem_up cfg (g_preempt_start A) k = Some k'"
  proof -
    obtain xs' Q' where u: "at_rest 1 k' xs' Own Q'" "set xs \<subseteq> set xs'" "set xs' \<subseteq> set xs \<union> set ws"
      "Q' = (\<lambda>_. [])(Inr (g_preempt_start A) := ws) \<or> Q' = (\<lambda>_. [])(Inr (g_preempt_start A) := [])" "cur_thread k' = cur_thread k"
      using sem_up_off [OF r [unfolded n] A e] by auto
    then obtain ws' where "at_rest 1 k' xs' Own ((\<lambda>_. [])(Inr (g_preempt_start A) := ws'))" "set ws' \<subseteq> {h}" using xs(3) by force
    then show ?thesis using u xs by (auto intro!: spin_restI)
  qed
  show "spin_rest A l h n k'" if "thread_yield cfg k = Some k'"
    using yield_keeps(1) [OF r p that] xs by (rule spin_restI)
  show "spin_rest A l h n k' \<and> (n \<noteq> 0 \<longrightarrow> cur_thread k' = cur_thread k)" if "timer_tail cfg k = Some k'"
    using timer_tail_keeps(1,4) [OF r p that] xs by (auto intro: spin_restI)
qed

lemma spin_next:
  assumes i: "spin_inv A l h s" and c: "cur_thread (lb s) = t"
    and u: "lpc u = lpc s" "g_mode u = 2" "irq_hung u = irq_hung s" and q: "\<not> pc_contended q" "t = l \<Longrightarrow> \<exists>pc. q = LLow pc" "t = h \<Longrightarrow> \<exists>pc. q = LHigh pc"
    and r: "spin_rest A l h (if pc_off q then 1 else 0) (lb u)" "pc_off q \<Longrightarrow> cur_thread (lb u) = t"
    and v: "if pc_holds q then g_preempt_lock u = 1 else g_preempt_lock u = 0"
  shows "spin_inv A l h (u\<lparr>lpc := (lpc u)(t := q)\<rparr>)"
proof -
  have o: "\<not> pc_off (lpc s x)" if "x \<noteq> t" for x using i c that by (simp add: spin_inv_def)
  have "two_threads A l h (u\<lparr>lpc := (lpc u)(t := q)\<rparr>)"
    using i u spin_rest_cur [of A l h _ "lb s"] c by (auto simp: spin_inv_def two_threads_def)
  moreover have "pc_off (((lpc s)(t := q)) (cur_thread (lb u))) = pc_off q" using o r(2) by auto
  moreover have "pc_holds (((lpc s)(t := q)) (cur_thread (lb u))) = pc_holds q"
    using o r(2) pc_holds_off by (metis fun_upd_apply)
  moreover have "\<not> pc_off (((lpc s)(t := q)) x)" if "x \<noteq> cur_thread (lb u)" for x using o r(2) that by auto
  ultimately show ?thesis using i u q r(1) v unfolding spin_inv_def by auto
qed

lemma spin_low_exec:
  assumes i: "spin_inv A l h s" and p: "policy cfg = PRIO" and A: "g_preempt_start A \<noteq> NULL" and run: "lock_exec cfg A s = Some s'"
    and c: "cur_thread (lb s) = l"
  shows "spin_inv A l h s'"
proof -
  have d: "l \<noteq> h" "l \<noteq> NULL" "g_mode s = 2" using i by (simp_all add: spin_inv_def two_threads_def)
  obtain pc where pc: "lpc s l = LLow pc" using i by (auto simp: spin_inv_def)
  obtain pc' u where u: "preempt_low_thread cfg A pc s = Some (pc', u)" "s' = u\<lparr>lpc := (lpc u)(l := LLow pc')\<rparr>"
    using lock_exec_step(1) [OF run c d(2) pc] by blast
  have n: "spin_rest A l h (if pc_off (LLow pc) then 1 else 0) (lb s)" "\<not> pc_contended (LLow pc)"
    "if pc_holds (LLow pc) then g_preempt_lock s = 1 else g_preempt_lock s = 0"
    using i c pc by (simp_all add: spin_inv_def)
  note K = spin_rest_keeps [OF n(1) d(1) p A]
  have "lpc u = lpc s \<and> g_mode u = 2 \<and> irq_hung u = irq_hung s \<and> \<not> pc_contended (LLow pc') \<and>
      spin_rest A l h (if pc_off (LLow pc') then 1 else 0) (lb u) \<and> (pc_off (LLow pc') \<longrightarrow> cur_thread (lb u) = l) \<and>
      (if pc_holds (LLow pc') then g_preempt_lock u = 1 else g_preempt_lock u = 0)"
  proof (cases pc)
    case (LL_lock lp)
    then show ?thesis using u(1) n K(1) c d(3) by (cases lp) (auto simp: takes_preempt_def)
  qed (use u(1) n K c d(3) in \<open>auto simp: lcalls_def bind_eq_Some_conv\<close>)
  then show ?thesis unfolding u(2) using d(1) by (intro spin_next [OF i c]) auto
qed

lemma spin_high_exec:
  assumes i: "spin_inv A l h s" and p: "policy cfg = PRIO" and A: "g_preempt_start A \<noteq> NULL" and run: "lock_exec cfg A s = Some s'"
    and c: "cur_thread (lb s) = h"
  shows "spin_inv A l h s'"
proof -
  have d: "l \<noteq> h" "h \<noteq> NULL" "g_mode s = 2" using i by (simp_all add: spin_inv_def two_threads_def)
  obtain pc where pc: "lpc s h = LHigh pc" using i by (auto simp: spin_inv_def)
  obtain pc' u where u: "preempt_high_thread cfg A pc s = Some (pc', u)" "s' = u\<lparr>lpc := (lpc u)(h := LHigh pc')\<rparr>"
    using lock_exec_step(2) [OF run c d(2) pc] by blast
  have n: "spin_rest A l h (if pc_off (LHigh pc) then 1 else 0) (lb s)" "\<not> pc_contended (LHigh pc)"
    "if pc_holds (LHigh pc) then g_preempt_lock s = 1 else g_preempt_lock s = 0"
    using i c pc by (simp_all add: spin_inv_def)
  note K = spin_rest_keeps [OF n(1) d(1) p A]
  have "lpc u = lpc s \<and> g_mode u = 2 \<and> irq_hung u = irq_hung s \<and> \<not> pc_contended (LHigh pc') \<and>
      spin_rest A l h (if pc_off (LHigh pc') then 1 else 0) (lb u) \<and> (pc_off (LHigh pc') \<longrightarrow> cur_thread (lb u) = h) \<and>
      (if pc_holds (LHigh pc') then g_preempt_lock u = 1 else g_preempt_lock u = 0)"
  proof (cases pc)
    case (LH_lock lp)
    then show ?thesis using u(1) n K(1) c d(3) by (cases lp) (auto simp: takes_preempt_def)
  qed (use u(1) n K c d(3) in \<open>auto simp: lcalls_def bind_eq_Some_conv\<close>)
  then show ?thesis unfolding u(2) using d(1) by (intro spin_next [OF i c]) auto
qed

lemma spin_mode_step:
  assumes i: "spin_inv A l h s" and p: "policy cfg = PRIO" and A: "g_preempt_start A \<noteq> NULL" and st: "lock_step cfg A s s'"
  shows "spin_inv A l h s'"
proof -
  have m: "g_mode s = 2" and d: "l \<noteq> h" using i by (simp_all add: spin_inv_def two_threads_def)
  have c: "cur_thread (lb s) \<in> {l, h}" using i spin_rest_cur unfolding spin_inv_def by blast
  show ?thesis
  proof (cases rule: lock_stepE [OF st])
    case 1
    then show ?thesis using c spin_low_exec [OF i p A] spin_high_exec [OF i p A] by blast
  next
    case 2
    then show ?thesis by (simp add: tick_hook_2 [OF m])
  next
    case (3 k)
    let ?n = "if pc_off (lpc s (cur_thread (lb s))) then 1 else 0 :: u32"
    have r: "spin_rest A l h ?n (count_tick (lb s))" using i by (simp add: spin_inv_def)
    have run: "timer_tail cfg (count_tick (lb s)) = Some k" using 3 by (simp add: tick_hook_2 [OF m])
    have k: "spin_rest A l h ?n k" "?n \<noteq> 0 \<Longrightarrow> cur_thread k = cur_thread (lb s)" using spin_rest_keeps(6) [OF r d p A run] by auto
    have s': "s' = s\<lparr>lb := k\<rparr>" using 3 by (simp add: tick_hook_2 [OF m])
    have o: "\<not> pc_off (lpc s x)" if "x \<noteq> cur_thread (lb s)" for x using i that by (simp add: spin_inv_def)
    have same: "pc_off (lpc s (cur_thread k)) = pc_off (lpc s (cur_thread (lb s)))" using o k(2) by (metis zero_neq_one)
    have h: "pc_holds (lpc s (cur_thread k)) = pc_holds (lpc s (cur_thread (lb s)))" using o k(2) pc_holds_off by (metis zero_neq_one)
    have "\<not> pc_off (lpc s x)" if "x \<noteq> cur_thread k" for x using o k(2) same that by (metis zero_neq_one)
    then show ?thesis using i k(1) same h by (simp add: spin_inv_def s' two_threads_def)
  qed
qed

lemma spin_mode_run:
  assumes "(lock_step cfg A)\<^sup>*\<^sup>* s s'" "spin_inv A l h s" "policy cfg = PRIO" "g_preempt_start A \<noteq> NULL"
  shows "spin_inv A l h s'"
  using assms by (induction rule: rtranclp_induct) (auto intro: spin_mode_step)

section \<open>Modes 3 and 4: the timer interrupt takes the lock\<close>

text \<open>The points of the worker that hold the lock, and those of \<^verbatim>\<open>spin_lock_irqsave\<close> with interrupts masked.\<close>

definition work_holds :: "irq_worker_pc \<Rightarrow> bool" where
  "work_holds pc \<longleftrightarrow> pc \<in> {LI_mark3, LI_say3, LI_spin, LI_off, LI_mark4, LI_say4, LI_unlock}"

definition work_masked :: "irq_worker_pc \<Rightarrow> bool" where
  "work_masked pc \<longleftrightarrow> pc \<in> {LI_raw, LI_off, LI_mark4, LI_say4, LI_unlock}"

definition work_mode :: "u32 \<Rightarrow> irq_worker_pc \<Rightarrow> bool" where
  "work_mode m pc \<longleftrightarrow> (m = 3 \<longrightarrow> pc \<in> {LI_start, LI_mark3, LI_say3, LI_spin} \<union> range LI_lock) \<and>
     (m = 4 \<longrightarrow> pc \<in> {LI_start, LI_save, LI_raw, LI_off, LI_mark4, LI_say4, LI_unlock, LI_restore, LI_enable, LI_unmark, LI_unlocked,
        LI_wait, LI_pass, LI_halt})"

definition irq_inv :: "u32 \<Rightarrow> addr \<Rightarrow> lock_lab \<Rightarrow> bool" where
  "irq_inv md w s \<longleftrightarrow> g_mode s = md \<and> (\<forall>t. t \<noteq> w \<longrightarrow> lpc s t = LNone) \<and> (g_mode s = 3 \<or> g_mode s = 4) \<and>
     (\<exists>pc. lpc s w = LWork pc \<and> work_mode (g_mode s) pc \<and> (work_holds pc \<longleftrightarrow> g_irq_lock s \<noteq> 0) \<and>
       (work_masked pc \<longrightarrow> \<not> irq_unmasked s) \<and> (pc \<in> {LI_pass, LI_halt} \<longrightarrow> g_irq_isr_acquired s \<noteq> 0)) \<and>
     (g_mode s = 3 \<longrightarrow> g_irq_worker_holding s \<noteq> 0 \<longrightarrow> g_irq_lock s \<noteq> 0) \<and>
     (g_mode s = 3 \<longrightarrow> g_irq_deadlock_reported s \<noteq> 0 \<longrightarrow> irq_hung s) \<and> (g_mode s = 4 \<longrightarrow> \<not> irq_hung s)"

lemma count_tick_regs [simp]: "regs (count_tick k) = regs k"
  by (simp add: count_tick_def)

lemma set_daif_regs [simp]: "r_daif (regs (set_daif v k)) = v"
  by (simp add: set_daif_def)

lemma masked_or: "(x OR 0x80) AND (0x80 :: u64) \<noteq> 0"
proof -
  have "bit ((x OR 0x80) AND (0x80 :: u64)) 7" by (simp add: bit_simps)
  then show ?thesis by force
qed

text \<open>The handler in mode 4: the lock is free whenever interrupts are unmasked.\<close>

lemma tick_hook_4:
  assumes "g_mode s = 4" "g_irq_lock s = 0" "\<not> irq_hung s"
  shows "\<not> irq_hung (tick_hook s)" "g_irq_lock (tick_hook s) = 0" "lpc (tick_hook s) = lpc s" "g_mode (tick_hook s) = 4"
    "g_irq_isr_acquired s \<noteq> 0 \<Longrightarrow> g_irq_isr_acquired (tick_hook s) \<noteq> 0"
    "g_irq_worker_holding s = 0 \<Longrightarrow> g_irq_isr_acquired (tick_hook s) \<noteq> 0"
  using assms by (simp_all add: tick_hook_def lock_lab_irq_tick_def irq_raw_spin_lock_def Let_def)

lemma tick_hook_3:
  assumes "g_mode s = 3" "\<not> irq_hung s" "g_irq_deadlock_reported s = 0" "g_irq_worker_holding s \<noteq> 0 \<longrightarrow> g_irq_lock s \<noteq> 0"
  shows "irq_hung (tick_hook s) \<longleftrightarrow> g_irq_worker_holding s \<noteq> 0" "g_irq_deadlock_reported (tick_hook s) \<noteq> 0 \<longrightarrow> irq_hung (tick_hook s)"
    "g_irq_lock (tick_hook s) = g_irq_lock s" "lpc (tick_hook s) = lpc s" "g_mode (tick_hook s) = 3"
    "g_irq_worker_holding (tick_hook s) = g_irq_worker_holding s"
    "g_irq_worker_holding s \<noteq> 0 \<Longrightarrow> g_irq_deadlock_reported (tick_hook s) = 1"
  using assms by (simp_all add: tick_hook_def lock_lab_irq_tick_def irq_raw_spin_lock_def)

lemma irq_exec:
  assumes i: "irq_inv md w s" and h: "\<not> irq_hung s" and run: "lock_exec cfg A s = Some s'"
  shows "irq_inv md w s'"
proof -
  have c: "cur_thread (lb s) = w" "w \<noteq> NULL"
    using run i by (cases "cur_thread (lb s) = w"; auto simp: lock_exec_def irq_inv_def Let_def split: if_splits)+
  obtain pc where pc: "lpc s w = LWork pc" "work_mode (g_mode s) pc" "work_holds pc \<longleftrightarrow> g_irq_lock s \<noteq> 0"
    "work_masked pc \<longrightarrow> \<not> irq_unmasked s" "pc \<in> {LI_pass, LI_halt} \<longrightarrow> g_irq_isr_acquired s \<noteq> 0" using i unfolding irq_inv_def by blast
  have m: "g_mode s = 3 \<or> g_mode s = 4" "g_mode s = 3 \<longrightarrow> g_irq_worker_holding s \<noteq> 0 \<longrightarrow> g_irq_lock s \<noteq> 0"
    "g_mode s = 3 \<longrightarrow> g_irq_deadlock_reported s = 0" using i h unfolding irq_inv_def by auto
  obtain pc' u where u: "irq_worker_thread cfg pc s = Some (pc', u)" "s' = u\<lparr>lpc := (lpc u)(w := LWork pc')\<rparr>"
    using lock_exec_step(3) [OF run c pc(1)] by blast
  have "lpc u = lpc s \<and> g_mode u = g_mode s \<and> irq_hung u = irq_hung s \<and> g_irq_deadlock_reported u = g_irq_deadlock_reported s \<and>
      work_mode (g_mode s) pc' \<and> (work_holds pc' \<longleftrightarrow> g_irq_lock u \<noteq> 0) \<and> (work_masked pc' \<longrightarrow> \<not> irq_unmasked u) \<and>
      (pc' \<in> {LI_pass, LI_halt} \<longrightarrow> g_irq_isr_acquired u \<noteq> 0) \<and> (g_mode s = 3 \<longrightarrow> g_irq_worker_holding u \<noteq> 0 \<longrightarrow> g_irq_lock u \<noteq> 0)"
  proof (cases pc)
    case (LI_lock lp)
    then show ?thesis using u(1) pc m
      by (cases lp) (auto simp: work_mode_def work_holds_def work_masked_def takes_irq_def bind_eq_Some_conv)
  qed (use u(1) pc m in \<open>auto simp: work_mode_def work_holds_def work_masked_def irq_unmasked_def lcalls_def takes_irq_def bind_eq_Some_conv
      masked_or preempt_disable_def split: if_splits\<close>)
  then show ?thesis using i h m unfolding u(2) irq_inv_def irq_unmasked_def by auto
qed

lemma irq_step:
  assumes i: "irq_inv md w s" and st: "lock_step cfg A s s'"
  shows "irq_inv md w s'"
proof -
  obtain pc where pc: "lpc s w = LWork pc" "work_mode (g_mode s) pc" "work_holds pc \<longleftrightarrow> g_irq_lock s \<noteq> 0"
    "work_masked pc \<longrightarrow> \<not> irq_unmasked s" "pc \<in> {LI_pass, LI_halt} \<longrightarrow> g_irq_isr_acquired s \<noteq> 0" using i unfolding irq_inv_def by blast
  have i': "\<forall>t. t \<noteq> w \<longrightarrow> lpc s t = LNone" "g_mode s = 3 \<or> g_mode s = 4" "g_mode s = 3 \<longrightarrow> g_irq_worker_holding s \<noteq> 0 \<longrightarrow> g_irq_lock s \<noteq> 0"
    "g_mode s = 3 \<longrightarrow> g_irq_deadlock_reported s \<noteq> 0 \<longrightarrow> irq_hung s" "g_mode s = md" using i unfolding irq_inv_def by blast+
  have tick: "irq_inv md w ((tick_hook s)\<lparr>lb := k\<rparr>)" if h: "\<not> irq_hung s" and o: "irq_unmasked s" for k
    using i'(2)
  proof
    assume m: "g_mode s = 4"
    have "g_irq_lock s = 0" "\<not> work_masked pc" using pc m o by (auto simp: work_mode_def work_holds_def work_masked_def)
    note T = tick_hook_4 [OF m this(1) h]
    have "work_holds pc \<longleftrightarrow> g_irq_lock ((tick_hook s)\<lparr>lb := k\<rparr>) \<noteq> 0" "work_masked pc \<longrightarrow> \<not> irq_unmasked ((tick_hook s)\<lparr>lb := k\<rparr>)"
      "pc \<in> {LI_pass, LI_halt} \<longrightarrow> g_irq_isr_acquired ((tick_hook s)\<lparr>lb := k\<rparr>) \<noteq> 0"
      using T pc(3,5) \<open>g_irq_lock s = 0\<close> \<open>\<not> work_masked pc\<close> by auto
    moreover have "lpc ((tick_hook s)\<lparr>lb := k\<rparr>) = lpc s" "g_mode ((tick_hook s)\<lparr>lb := k\<rparr>) = 4" "\<not> irq_hung ((tick_hook s)\<lparr>lb := k\<rparr>)"
      using T by simp_all
    ultimately show ?thesis using pc(1,2) i'(1,5) m unfolding irq_inv_def by simp
  next
    assume m: "g_mode s = 3"
    have "g_irq_deadlock_reported s = 0" using i'(4) m h by blast
    note T = tick_hook_3 [OF m h this mp [OF i'(3) m]]
    have "work_holds pc \<longleftrightarrow> g_irq_lock ((tick_hook s)\<lparr>lb := k\<rparr>) \<noteq> 0" "\<not> work_masked pc" "pc \<notin> {LI_pass, LI_halt}"
      "g_irq_worker_holding ((tick_hook s)\<lparr>lb := k\<rparr>) \<noteq> 0 \<longrightarrow> g_irq_lock ((tick_hook s)\<lparr>lb := k\<rparr>) \<noteq> 0"
      "g_irq_deadlock_reported ((tick_hook s)\<lparr>lb := k\<rparr>) \<noteq> 0 \<longrightarrow> irq_hung ((tick_hook s)\<lparr>lb := k\<rparr>)"
      using T pc(2-4) o m mp [OF i'(3) m] by (auto simp: work_mode_def)
    moreover have "lpc ((tick_hook s)\<lparr>lb := k\<rparr>) = lpc s" "g_mode ((tick_hook s)\<lparr>lb := k\<rparr>) = 3" using T by simp_all
    ultimately show ?thesis using pc(1,2) i'(1,5) m unfolding irq_inv_def by simp
  qed
  show ?thesis
  proof (cases rule: lock_stepE [OF st])
    case 1
    then show ?thesis using irq_exec [OF i] by blast
  next
    case 2
    have "(tick_hook s)\<lparr>lb := lb (tick_hook s)\<rparr> = tick_hook s" by simp
    then show ?thesis using tick [OF 2(2,3), of "lb (tick_hook s)"] 2(1) by simp
  next
    case (3 k)
    then show ?thesis using tick [OF 3(2,3)] by simp
  qed
qed

lemma irq_run:
  assumes "(lock_step cfg A)\<^sup>*\<^sup>* s s'" "irq_inv md w s"
  shows "irq_inv md w s'"
  using assms by (induction rule: rtranclp_induct) (auto intro: irq_step)

section \<open>Properties\<close>




section \<open>Runs of the laboratory\<close>

lemma lock_create_serves:
  assumes "g_thread_pool_inited (lb s) = 0" "en \<noteq> NULL" "kmem_alloc_aligned (heap (lb s)) kSizeofThread 16 = (t, h1)" "t \<noteq> NULL"
    "kmem_alloc_aligned h1 0x5000 4096 = (p, h2)" "p \<noteq> NULL"
  shows "\<exists>mst' s'. lock_create L tr en prio pc (mst, s) = Some (t, mst', s') \<and> heap (lb s') = h2 \<and> g_thread_pool_inited (lb s') = 0 \<and>
    lpc s' = (lpc s)(t := pc)"
proof -
  have "(0x4000 :: u64) + kStackGuardPageBytes = 0x5000" by (simp add: kStackGuardPageBytes_def)
  then obtain e' where "thread_create_prio L tr en NULL (16 * 1024) prio \<lparr>ks = lb s, ms = mst\<rparr> = Some (t, e')"
    "heap (ks e') = h2" "g_thread_pool_inited (ks e') = 0"
    using thread_create_serves [of "\<lparr>ks = lb s, ms = mst\<rparr>" en "0x4000" t h1 p h2 L tr NULL prio] assms
    by (auto simp: kStackGuardPageBytes_def)
  then show ?thesis using assms(4) by (simp add: lock_create_def)
qed

definition lock_syms_example :: lock_syms where
  "lock_syms_example = \<lparr>g_preempt_start = 0x40050020, f_preempt_low_thread = 0x40040000, f_preempt_high_thread = 0x40040100,
     f_irq_worker_thread = 0x40040200\<rparr>"

definition lock_lab_example :: lock_lab where
  "lock_lab_example = \<lparr>lb = boot_state\<lparr>heap := kmem_init 0x40090000 0x40190000\<rparr>, g_mode = 0, g_preempt_lock = 0, g_low_locked = 0,
     g_low_unlocked = 0, g_high_started = 0, g_high_acquired = 0, g_high_start_tick = 0, g_deadlock_reported = 0, g_irq_lock = 0,
     g_irq_worker_holding = 0, g_irq_isr_acquired = 0, g_irq_deadlock_reported = 0, irq_hung = False, lpc = (\<lambda>_. LNone), low_t0 = 0,
     irq_flags = 0\<rparr>"

lemma boot_heap_fresh: "fresh_kernel (boot_state\<lparr>heap := h\<rparr>)"
proof -
  have "cpu boot_state = zero_cpu" "thr boot_state t = zero_thread" for t by (simp_all add: boot_state_def)
  then have b: "fresh_kernel boot_state"
    using sync_ok_boot by (simp add: fresh_kernel_def zero_cpu_def zero_thread_def kThreadReady_def)
  show ?thesis by (rule fresh_kernelI [OF b]) (use fresh_kernelD [OF b] in simp_all)
qed

lemma lock_lab_example_fresh: "fresh_kernel (lb lock_lab_example)" "lpc lock_lab_example = (\<lambda>_. LNone)" "\<not> irq_hung lock_lab_example"
  using boot_heap_fresh by (simp_all add: lock_lab_example_def)

lemma lock_example_heap: "heap (lb (lock_lab_reset A mode lock_lab_example)) = \<lparr>kcur = 0x40090000, kend = 0x40190000\<rparr>"
  "g_thread_pool_inited (lb (lock_lab_reset A mode lock_lab_example)) = 0"
  by (simp_all add: lock_lab_reset_def lock_lab_example_def lsay_def Let_def sem_init_def boot_state_def kmem_init_def)

lemma lock_setup_two_runs:
  assumes m: "mode = 1 \<or> mode = 2"
  shows "\<exists>mst' s1 k1. lock_lab_setup L tr lock_syms_example mode (mst, lock_lab_example) = Some (mst', s1) \<and>
    sched_start cfg (lb s1) = Some k1 \<and> lpc s1 0x40090000 = LLow LL_start \<and> lpc s1 0x40096000 = LHigh LH_start"
proof -
  let ?A = lock_syms_example
  define sa where "sa = lock_lab_reset ?A mode lock_lab_example"
  note ra = lock_lab_reset_effect [OF lock_lab_example_fresh(1), where mode = mode and A = ?A, folded sa_def]
  note ha = lock_example_heap [of ?A mode, folded sa_def]
  note sm = kmem_alloc_aligned_def align_up_def kSizeofThread_def
  have f: "f_preempt_low_thread ?A \<noteq> NULL" "f_preempt_high_thread ?A \<noteq> NULL" by (simp_all add: lock_syms_example_def)
  have "\<exists>m1 s1. lock_create L tr (f_preempt_low_thread ?A) 5 (LLow LL_start) (mst, sa) = Some (0x40090000, m1, s1) \<and>
      heap (lb s1) = \<lparr>kcur = 0x40096000, kend = 0x40190000\<rparr> \<and> g_thread_pool_inited (lb s1) = 0 \<and> lpc s1 = (lpc sa)(0x40090000 := LLow LL_start)"
    by (rule lock_create_serves [OF ha(2) f(1), of _ "\<lparr>kcur = 0x40090280, kend = 0x40190000\<rparr>" "0x40091000"]) (simp_all add: sm ha(1))
  then obtain m1 s1 where 1: "lock_create L tr (f_preempt_low_thread ?A) 5 (LLow LL_start) (mst, sa) = Some (0x40090000, m1, s1)"
    "heap (lb s1) = \<lparr>kcur = 0x40096000, kend = 0x40190000\<rparr>" "g_thread_pool_inited (lb s1) = 0" "lpc s1 = (lpc sa)(0x40090000 := LLow LL_start)"
    by blast
  have "\<exists>m2 s2. lock_create L tr (f_preempt_high_thread ?A) 20 (LHigh LH_start) (m1, s1) = Some (0x40096000, m2, s2) \<and>
      heap (lb s2) = \<lparr>kcur = 0x4009C000, kend = 0x40190000\<rparr> \<and> g_thread_pool_inited (lb s2) = 0 \<and> lpc s2 = (lpc s1)(0x40096000 := LHigh LH_start)"
    by (rule lock_create_serves [OF 1(3) f(2), of _ "\<lparr>kcur = 0x40096280, kend = 0x40190000\<rparr>" "0x40097000"]) (simp_all add: sm 1(2))
  then obtain m2 s2 where 2: "lock_create L tr (f_preempt_high_thread ?A) 20 (LHigh LH_start) (m1, s1) = Some (0x40096000, m2, s2)"
    "lpc s2 = (lpc s1)(0x40096000 := LHigh LH_start)" by blast
  have f2: "fresh_kernel (lb s2)" using lock_create_effect(1) [OF lock_create_effect(1) [OF ra(2) 1(1)] 2(1)] by simp
  note i0 = sync_okD(1) [OF fresh_kernelD(1) [OF f2]]
  obtain k1 where k1: "sched_add 0x40090000 (lb s2) = Some k1" "sched_inv k1 [0x40090000]" using sched_add_inv [OF i0, of "0x40090000"] by auto
  obtain k2 where k2: "sched_add 0x40096000 k1 = Some k2" "sched_inv k2 [0x40090000, 0x40096000]"
    using sched_add_inv [OF k1(2), of "0x40096000"] by auto
  have "lock_lab_setup L tr ?A mode (mst, lock_lab_example) = Some (m2, s2\<lparr>lb := k2\<rparr>)"
    unfolding lock_lab_setup_def prod.case sa_def [symmetric] using m 1(1) 2(1) k1(1) k2(1) by (auto simp: lock_add_def Let_def)
  moreover have "\<exists>k. sched_start cfg k2 = Some k" using sched_start_inv [OF k2(2), of cfg] by auto
  ultimately show ?thesis using 1(4) 2(2) by auto
qed

lemma lock_setup_irq_runs:
  assumes m: "mode = 3 \<or> mode = 4"
  shows "\<exists>mst' s1 k1. lock_lab_setup L tr lock_syms_example mode (mst, lock_lab_example) = Some (mst', s1) \<and>
    sched_start cfg (lb s1) = Some k1 \<and> lpc s1 0x40090000 = LWork LI_start \<and> cur_thread k1 = 0x40090000 \<and>
    g_mode s1 = mode \<and> g_irq_lock s1 = 0 \<and> \<not> irq_hung s1"
proof -
  let ?A = lock_syms_example
  define sa where "sa = lock_lab_reset ?A mode lock_lab_example"
  note ra = lock_lab_reset_effect [OF lock_lab_example_fresh(1), where mode = mode and A = ?A, folded sa_def]
  note ha = lock_example_heap [of ?A mode, folded sa_def]
  have f: "f_irq_worker_thread ?A \<noteq> NULL" by (simp add: lock_syms_example_def)
  have "\<exists>m1 s1. lock_create L tr (f_irq_worker_thread ?A) 10 (LWork LI_start) (mst, sa) = Some (0x40090000, m1, s1) \<and>
      heap (lb s1) = \<lparr>kcur = 0x40096000, kend = 0x40190000\<rparr> \<and> g_thread_pool_inited (lb s1) = 0 \<and> lpc s1 = (lpc sa)(0x40090000 := LWork LI_start)"
    by (rule lock_create_serves [OF ha(2) f, of _ "\<lparr>kcur = 0x40090280, kend = 0x40190000\<rparr>" "0x40091000"])
      (simp_all add: kmem_alloc_aligned_def align_up_def kSizeofThread_def ha(1))
  then obtain m1 s1 where 1: "lock_create L tr (f_irq_worker_thread ?A) 10 (LWork LI_start) (mst, sa) = Some (0x40090000, m1, s1)"
    "lpc s1 = (lpc sa)(0x40090000 := LWork LI_start)" by blast
  have f1: "fresh_kernel (lb s1)" using lock_create_effect(1) [OF ra(2) 1(1)] by simp
  obtain k1 where k1: "sched_add 0x40090000 (lb s1) = Some k1" "sched_inv k1 [0x40090000]"
    using sched_add_inv [OF sync_okD(1) [OF fresh_kernelD(1) [OF f1]], of "0x40090000"] by auto
  have "lock_lab_setup L tr ?A mode (mst, lock_lab_example) = Some (m1, s1\<lparr>lb := k1\<rparr>)"
    unfolding lock_lab_setup_def prod.case sa_def [symmetric] using m 1(1) k1(1) by (auto simp: lock_add_def Let_def)
  moreover have "\<exists>k. sched_start cfg k1 = Some k \<and> cur_thread k = 0x40090000" using sched_start_inv [OF k1(2), of cfg] by auto
  moreover have "g_mode s1 = mode \<and> g_irq_lock s1 = 0 \<and> \<not> irq_hung s1"
  proof -
    obtain k2 where "s1 = sa\<lparr>lb := k2, lpc := (lpc sa)(0x40090000 := LWork LI_start)\<rparr>" using lock_create_effect(2) [OF ra(2) 1(1)] by auto
    then show ?thesis using ra(1,4) lock_lab_example_fresh(3) by (simp add: globals_reset_def)
  qed
  ultimately show ?thesis using 1(2) by auto
qed

text \<open>Without any interrupt, mode 1 runs into its deadlock: every statement brings it nearer.\<close>

lemma sem_up_returns:
  assumes r: "at_rest 0 s xs Own Q" and q: "p \<noteq> NULL" and n: "s_count (sems s p) < 0" "Q (Inr p) \<noteq> []"
  shows "\<exists>s'. sem_up cfg p s = Some s'"
proof -
  let ?s = "upd_sem p (s_count_update (\<lambda>c. c + 1)) (preempt_disable s)"
  have ok: "sync_ok ?s xs Own Q" by (intro sem_count_ok sync_ok_disable at_restD(1) [OF r])
  obtain s2 b where "sem_wake p ?s = Some s2" "sched_inv s2 (xs @ [b])" using sem_wake_spec [OF ok n(2)] by blast
  then show ?thesis using preempt_enable_inv [of s2 "xs @ [b]" cfg] q n by (fastforce simp: sem_up_def Let_def disable_state)
qed

fun raw_left :: "lock_lab_pc \<Rightarrow> nat" where
  "raw_left (LLow pc) = (case pc of LL_start \<Rightarrow> 7 | LL_clear1 \<Rightarrow> 6 | LL_clear2 \<Rightarrow> 5 | LL_lock _ \<Rightarrow> 4 | LL_mark \<Rightarrow> 3 | LL_locked \<Rightarrow> 2 | LL_up \<Rightarrow> 1 | _ \<Rightarrow> 0)"
| "raw_left (LHigh pc) = (case pc of LH_start \<Rightarrow> 5 | LH_down \<Rightarrow> 4 | LH_locking \<Rightarrow> 3 | LH_begin \<Rightarrow> 2 | LH_tick \<Rightarrow> 1 | _ \<Rightarrow> 0)"
| "raw_left pc = 0"

lemma lock_exec_low: "cur_thread (lb s) = t \<Longrightarrow> t \<noteq> NULL \<Longrightarrow> lpc s t = LLow pc \<Longrightarrow>
    lock_exec cfg A s = lgoes LLow t (preempt_low_thread cfg A pc s)"
  "cur_thread (lb s) = t \<Longrightarrow> t \<noteq> NULL \<Longrightarrow> lpc s t = LHigh hpc \<Longrightarrow>
    lock_exec cfg A s = lgoes LHigh t (preempt_high_thread cfg A hpc s)"
  by (simp_all add: lock_exec_def Let_def)

lemma raw_progress:
  assumes i: "raw_inv A l h s" and p: "policy cfg = PRIO" and A: "g_preempt_start A \<noteq> NULL" and e: "lpc s h \<noteq> LHigh (LH_lock LP_raw)"
  shows "\<exists>s'. lock_step cfg A s s' \<and> raw_left (lpc s' l) + raw_left (lpc s' h) < raw_left (lpc s l) + raw_left (lpc s h)"
proof -
  have d: "l \<noteq> h" "h \<noteq> NULL" "l \<noteq> NULL" "\<not> irq_hung s" "g_mode s = 1" using i by (simp_all add: raw_inv_def two_threads_def)
  have "\<exists>s'. lock_exec cfg A s = Some s' \<and> raw_left (lpc s' l) + raw_left (lpc s' h) < raw_left (lpc s l) + raw_left (lpc s h)"
  proof -
    from i consider "raw1 A l h s" | "raw2 A l h s" | "raw3 A l h s" unfolding raw_inv_def by blast
    then show ?thesis
    proof cases
      case 1
      then obtain xs Own where r: "at_rest 0 (lb s) xs Own (\<lambda>_. [])" and c: "cur_thread (lb s) = h" "lpc s h = LHigh LH_start \<or> lpc s h = LHigh LH_down"
        unfolding raw1_def by blast
      obtain k where "sem_down cfg (g_preempt_start A) (lb s) = Some k" using sem_down_returns [OF r A] by blast
      then show ?thesis using c d by (auto simp: lock_exec_low(2) lgoes_def lcalls_def)
    next
      case 2
      then obtain xs Own pc where r: "at_rest 0 (lb s) xs Own ((\<lambda>_. [])(Inr (g_preempt_start A) := [h]))" "set xs = {l}"
        and z: "s_count (sems (lb s) (g_preempt_start A)) < 0" and pc: "lpc s l = LLow pc" "raw2_pc s pc" unfolding raw2_def by blast
      have c: "cur_thread (lb s) = l" using at_restD(6) [OF r(1)] r(2) by simp
      obtain k where k: "sem_up cfg (g_preempt_start A) (lb s) = Some k" using sem_up_returns [OF r(1) A z] by auto
      have "pc \<in> {LL_start, LL_clear1, LL_clear2, LL_lock LP_raw, LL_mark, LL_locked, LL_up}" "pc = LL_lock LP_raw \<longrightarrow> g_preempt_lock s = 0"
        using pc(2) unfolding raw2_pc_def by auto
      then show ?thesis using c d pc(1) k by (auto simp: lock_exec_low(1) lgoes_def lcalls_def takes_preempt_def)
    next
      case 3
      then have c: "cur_thread (lb s) = h" "lpc s h \<in> {LHigh LH_locking, LHigh LH_begin, LHigh LH_tick}" using e unfolding raw3_def by auto
      then show ?thesis using d by (auto simp: lock_exec_low(2) lgoes_def)
    qed
  qed
  then show ?thesis using lock_runs [OF d(4)] by blast
qed

lemma raw_reaches:
  assumes "raw_inv A l h s" "policy cfg = PRIO" "g_preempt_start A \<noteq> NULL"
  shows "\<exists>s'. (lock_step cfg A)\<^sup>*\<^sup>* s s' \<and> lpc s' h = LHigh (LH_lock LP_raw)"
  using assms
proof (induction "raw_left (lpc s l) + raw_left (lpc s h)" arbitrary: s rule: less_induct)
  case less
  show ?case
  proof (cases "lpc s h = LHigh (LH_lock LP_raw)")
    case True
    then show ?thesis by blast
  next
    case False
    obtain s1 where s1: "lock_step cfg A s s1" "raw_left (lpc s1 l) + raw_left (lpc s1 h) < raw_left (lpc s l) + raw_left (lpc s h)"
      using raw_progress [OF less.prems False] by blast
    obtain s' where "(lock_step cfg A)\<^sup>*\<^sup>* s1 s'" "lpc s' h = LHigh (LH_lock LP_raw)"
      using less.hyps [OF s1(2) raw_step [OF less.prems s1(1)] less.prems(2,3)] by blast
    then show ?thesis using converse_rtranclp_into_rtranclp [of "lock_step cfg A", OF s1(1)] by blast
  qed
qed

definition lock_prio_example :: kconfig where
  "lock_prio_example = \<lparr>policy = PRIO, mutex_pi = True, lockdep = False\<rparr>"



text \<open>In mode 3 the worker comes to hold the lock.\<close>

lemma lock_exec_work: "cur_thread (lb s) = t \<Longrightarrow> t \<noteq> NULL \<Longrightarrow> lpc s t = LWork pc \<Longrightarrow>
    lock_exec cfg A s = lgoes LWork t (irq_worker_thread cfg pc s)"
  by (simp add: lock_exec_def Let_def)

lemma work_step:
  assumes "cur_thread (lb s) = w" "w \<noteq> NULL" "\<not> irq_hung s" "lpc s w = LWork pc" "irq_worker_thread cfg pc s = Some (pc', u)"
  shows "lock_step cfg A s (u\<lparr>lpc := (lpc u)(w := LWork pc')\<rparr>)"
  using assms by (intro lock_runs) (simp_all add: lock_exec_work lgoes_def)

lemma mode3_reaches:
  assumes c: "cur_thread (lb s) = w" "w \<noteq> NULL" "\<not> irq_hung s" "lpc s w = LWork LI_start" "g_mode s = 3" "g_irq_lock s = 0"
  shows "\<exists>s'. (lock_step cfg A)\<^sup>*\<^sup>* s s' \<and> g_irq_worker_holding s' = 1 \<and> \<not> irq_hung s'"
proof -
  define s1 where "s1 = (lsay ''[lock-lab] irq-worker start'' s)\<lparr>lpc := (lpc s)(w := LWork (LI_lock LP_off))\<rparr>"
  define s2 where "s2 = s1\<lparr>lb := preempt_disable (lb s1), g_irq_lock := g_irq_lock s1, lpc := (lpc s1)(w := LWork (LI_lock LP_try))\<rparr>"
  define s3 where "s3 = s2\<lparr>lb := lb s2, g_irq_lock := 1, lpc := (lpc s2)(w := LWork LI_mark3)\<rparr>"
  define s4 where "s4 = s3\<lparr>g_irq_worker_holding := 1, lpc := (lpc s3)(w := LWork LI_say3)\<rparr>"
  have "lock_step cfg A s s1" using work_step [OF c(1-4), of cfg "LI_lock LP_off" "lsay ''[lock-lab] irq-worker start'' s" A] c(5)
    by (simp add: s1_def)
  moreover have e1: "cur_thread (lb s1) = w" "\<not> irq_hung s1" "lpc s1 w = LWork (LI_lock LP_off)" using c by (simp_all add: s1_def)
  have "lock_step cfg A s1 s2" using work_step [OF e1(1) c(2) e1(2,3), of cfg "LI_lock LP_try"
      "s1\<lparr>lb := preempt_disable (lb s1), g_irq_lock := g_irq_lock s1\<rparr>" A] by (simp add: s2_def takes_irq_def)
  moreover have e2: "cur_thread (lb s2) = w" "\<not> irq_hung s2" "lpc s2 w = LWork (LI_lock LP_try)" "g_irq_lock s2 = 0"
    using e1 c by (simp_all add: s2_def s1_def preempt_disable_def)
  have "lock_step cfg A s2 s3" using work_step [OF e2(1) c(2) e2(2,3), of cfg LI_mark3 "s2\<lparr>lb := lb s2, g_irq_lock := 1\<rparr>" A] e2(4)
    by (simp add: s3_def takes_irq_def)
  moreover have e3: "cur_thread (lb s3) = w" "\<not> irq_hung s3" "lpc s3 w = LWork LI_mark3" using e2 by (simp_all add: s3_def)
  have "lock_step cfg A s3 s4" using work_step [OF e3(1) c(2) e3(2,3), of cfg LI_say3 "s3\<lparr>g_irq_worker_holding := 1\<rparr>" A] by (simp add: s4_def)
  moreover have "g_irq_worker_holding s4 = 1" "\<not> irq_hung s4" using e3 by (simp_all add: s4_def)
  ultimately show ?thesis by (meson converse_rtranclp_into_rtranclp rtranclp.rtrancl_refl)
qed


end
