(* ===== verification/Spec2Isabelle.thy ===== *)
theory Spec2Isabelle
  imports Sched SyncRun ThreadCreate Irq Libc HeapLab Spinlock DmaLabRun MmuRpi4 StackLab Platform PiLab LockRuns
begin

text \<open>
  A verification library for the AArch64 micro-kernel of this repository (QEMU \<^verbatim>\<open>virt\<close>, one CPU). Every
  theory translates one part of the C++ sources (and the assembly of the context switch and of the
  interrupt vector) into executable definitions, states what the part has to guarantee, and proves it.
  This theory only gathers the parts; each of them opens with a text that says what it holds.

  \<^bold>\<open>The program and its parts.\<close> At boot the kernel builds its translation tables, sets up a bump heap, creates
  threads on stacks from that heap (the thread structures come from a block pool), puts them in a
  circular run queue and starts the first one. From then on the timer interrupt drives everything: the vector saves
  a frame and calls \<^verbatim>\<open>irq_handler_el1\<close>, which acknowledges the interrupt, re-arms the timer, runs
  \<^verbatim>\<open>sched_on_tick\<close> and \<^verbatim>\<open>dma_poll_complete\<close>, and may redirect the return to \<^verbatim>\<open>preempt_return\<close>, which
  switches threads. Threads block and wake through mutexes (with priority inheritance) and semaphores.

  \<^item> \<open>Prelude\<close>: the types of the target (\<open>u8\<close> to \<open>u64\<close>, addresses), \<^verbatim>\<open>align_up\<close>, \<^verbatim>\<open>align_down\<close> and
    \<^verbatim>\<open>is_pow2\<close>, counting loops, linked lists in a store of next pointers, regions; the collection \<open>unat_simps\<close>.
  \<^item> \<open>ByteMem\<close>: byte memory, little-endian 32- and 64-bit access, with their round trips.
  \<^item> \<open>Kmem\<close> (\<^verbatim>\<open>src/kmem.cc\<close>): the bump heap. Locale \<open>region_allocator\<close>, interpreted on it.
  \<^item> \<open>MemPool\<close> (\<^verbatim>\<open>src/mem_pool.cc\<close>): the block pool, with and without \<^verbatim>\<open>MEM_POOL_DEBUG\<close>. Locale \<open>block_pool\<close>.
  \<^item> \<open>Uart\<close> (\<^verbatim>\<open>src/drivers/uart_pl011.cc\<close>): the console driver and the number printers.
  \<^item> \<open>Kernel_State\<close> (\<^verbatim>\<open>include/thread.h\<close>, \<^verbatim>\<open>include/sync.h\<close>, \<^verbatim>\<open>include/arch/cpu_local.h\<close>): the records
    \<open>thread\<close>, \<open>mutex\<close>, \<open>semaphore\<close>, \<open>cpu_local\<close>, the registers, and the kernel state \<open>kstate\<close>, whose fields are the
    global variables and whose typed stores map addresses to records.
  \<^item> \<open>RunQueue\<close>, \<open>Sched\<close> (\<^verbatim>\<open>src/thread.cc\<close>, \<^verbatim>\<open>src/preempt.cc\<close>): the circular queue and its refinement of a FIFO
    list (locale \<open>thread_queue\<close>), priority selection, both policies' entry points, reachable states.
  \<^item> \<open>ThreadStack\<close>, \<open>ThreadCreate\<close> (\<^verbatim>\<open>src/thread.cc\<close>): guard, watermark, creation of threads.
  \<^item> \<open>Context\<close> (\<^verbatim>\<open>src/arch/aarch64/ctx.S\<close>, \<^verbatim>\<open>fpsimd.cc\<close>, \<^verbatim>\<open>do_switch\<close>): the switch of registers and stacks.
  \<^item> \<open>WaitQueue\<close>, \<open>Sync\<close>, \<open>SyncState\<close>, \<open>SyncRun\<close> (\<^verbatim>\<open>src/sync.cc\<close>): wait queues, mutexes, semaphores, priority
    inheritance, lock-order checking; the invariant; runs of all operations together with the scheduler.
  \<^item> \<open>PageTable\<close>, \<open>Mmu\<close>, \<open>MmuRpi4\<close> (\<^verbatim>\<open>src/arch/aarch64/mmu.cc\<close>, \<^verbatim>\<open>mmu_rpi4.cc\<close>): the tables as words in memory and the
    hardware's walk over them; locale \<open>board\<close> holds what is proved for both boards.
  \<^item> \<open>Cache\<close>, \<open>Dma\<close> (\<^verbatim>\<open>src/arch/aarch64/barrier.cc\<close>, \<^verbatim>\<open>src/dma.cc\<close>, \<^verbatim>\<open>include/dma.h\<close>): a cache that may fill, clean
    and evict lines at any time, maintenance by address (locale \<open>line_op\<close>), the DMA engine on top of it.
  \<^item> \<open>DmaLab\<close>, \<open>DmaLabRun\<close> (\<^verbatim>\<open>src/dma_lab.cc\<close>): the six cache-coherence demonstrations, and what is known of every byte of
    their buffers whatever the cache does.
  \<^item> \<open>Irq\<close> (\<^verbatim>\<open>boot/vectors.S\<close>, \<^verbatim>\<open>src/irq.cc\<close>, \<^verbatim>\<open>timer.cc\<close>, \<^verbatim>\<open>gicv3.cc\<close>): the interrupt path, which composes the
    scheduler with the DMA engine.
  \<^item> \<open>Except\<close>, \<open>StackLab\<close> (\<^verbatim>\<open>src/arch/aarch64/except.cc\<close>, \<^verbatim>\<open>src/stack_lab.cc\<close>): the exception report and the laboratory
    that runs into the guard page of its own stack.
  \<^item> \<open>Platform\<close> (\<^verbatim>\<open>src/platform/\<close>): the two boards' console, pins and interrupt controller.
  \<^item> \<open>Spinlock\<close> (\<^verbatim>\<open>src/spinlock.cc\<close>): the lock functions as a step relation over any number of agents.
  \<^item> \<open>LabOps\<close>, \<open>LabStart\<close>, \<open>SyncLab\<close>, \<open>PiLab\<close> (\<^verbatim>\<open>src/sync_lab.cc\<close>): the laboratory's threads as machines over program
    points that call the scheduler and the primitives, with the tick at any point; why mode 1 can never pass.
  \<^item> \<open>LockLab\<close>, \<open>LockRuns\<close> (\<^verbatim>\<open>src/lock_lab.cc\<close>): two threads that use one spin lock in the three ways the
    laboratory offers, and which of them can hang.
  \<^item> \<open>Libc\<close> (\<^verbatim>\<open>src/libc.cc\<close>), \<open>HeapLab\<close> (\<^verbatim>\<open>src/mem_lab.cc\<close>): memory routines; the first-fit heap.

  \<^bold>\<open>How the model corresponds to the code.\<close> Names are the source's. A struct is a record; a pointer is a 64-bit
  address and a null pointer the address 0; structures that the code reaches through typed pointers
  live in typed stores (\<open>threads\<close>, \<open>mutexes\<close>, \<open>descs\<close>), memory that it reaches through bytes in a byte memory.
  Machine integers keep their width. State is passed explicitly. Error codes are the code's integers;
  \<open>None\<close> stands for what does not return: a halt loop, a panic, an endless loop, a null
  dereference, a translation fault. Loops with a bound known in advance are \<open>primrec\<close>, \<open>fun\<close> or
  \<open>for_loop\<close>; loops that chase pointers or poll devices are \<open>partial_function\<close>, and the theorems
  prove that they return. No fuel is used. Hardware and linker are parameters: flags
  of the UART, the values of the interrupt controller, what the cache does of its own accord
  (\<open>hw_act\<close>, restricted by \<open>hw_ok\<close> to fills, write-backs and evictions), the addresses the linker chooses.

  \<^bold>\<open>What is shown.\<close> For the allocators, that live blocks never overlap and lie where they should. For the
  scheduler, the invariant of every reachable state, who runs next under either policy,
  when a quantum ends, and that a disabled preemption counter stops every switch. For the context
  switch, that a thread gets back what it had. For the blocking primitives, the invariant of every reachable state, who
  gets a released mutex, how priorities are inherited, what lock-order checking reports. For the tables, the
  translation of every address. For cache and DMA, that the bytes arrive for
  every behaviour of the cache. For interrupts, that the handler keeps its books and what the interrupted code finds
  afterwards. For spinlocks, mutual exclusion in every interleaving. For the laboratories, what each mode
  can and cannot observe, in every reachable state of its threads. Where the code does not do what it
  means to, a theorem shows the failure on the model.

  \<^bold>\<open>Not modelled.\<close> \<^verbatim>\<open>kmain.cc\<close> (the boot sequence), the two demonstrations of
  \<^verbatim>\<open>mem_lab.cc\<close>, the start-up assembly, and the
  build files. Memory is sequentially consistent and barriers have no effect of their own.
\<close>

end
